(* ===== verification/Iox_Prelude.thy ===== *)
theory Iox_Prelude
  imports Main "HOL-Library.Char_ord" "HOL-Library.List_Lexorder" "HOL-Library.Multiset"
    "HOL-Library.Word"
begin

text \<open>
  The prelude of the development.  It holds the pieces of the Rust language and of its standard
  library that the components share: outcomes of a call (a value, an error, a panic), calls that
  read and write a state, the ordered map \<open>std::collections::BTreeMap\<close>, checked 64-bit integer
  arithmetic, and the generic lemmas on lists and options that carry the component proofs.
\<close>

section \<open>Outcomes\<close>

text \<open>
  A Rust function that returns a \<open>Result\<close> and may panic has three kinds of outcome.
\<close>

datatype ('e, 'a) res = Ok 'a | Err 'e | Panic

fun res_bind :: "('e, 'a) res \<Rightarrow> ('a \<Rightarrow> ('e, 'b) res) \<Rightarrow> ('e, 'b) res" where
  "res_bind (Ok x) f = f x"
| "res_bind (Err e) f = Err e"
| "res_bind Panic f = Panic"

fun res_map :: "('a \<Rightarrow> 'b) \<Rightarrow> ('e, 'a) res \<Rightarrow> ('e, 'b) res" where
  "res_map f (Ok x) = Ok (f x)"
| "res_map f (Err e) = Err e"
| "res_map f Panic = Panic"

fun is_ok :: "('e, 'a) res \<Rightarrow> bool" where
  "is_ok (Ok _) = True"
| "is_ok (Err _) = False"
| "is_ok Panic = False"

text \<open>
  A method that takes \<open>&mut self\<close> returns its outcome together with the state it leaves.  The
  state is returned on every branch, because an early return or a panic keeps the writes made so
  far.
\<close>

type_synonym ('e, 's, 'a) call = "'s \<Rightarrow> ('e, 'a) res \<times> 's"

definition m_return :: "'a \<Rightarrow> ('e, 's, 'a) call" where
  "m_return x = (\<lambda>s. (Ok x, s))"

text \<open>The \<open>?\<close> operator: go on with the value, or leave with the error or the panic.\<close>

definition m_bind :: "('e, 's, 'a) call \<Rightarrow> ('a \<Rightarrow> ('e, 's, 'b) call) \<Rightarrow> ('e, 's, 'b) call" where
  "m_bind m f = (\<lambda>s. case m s of
      (Ok x, s') \<Rightarrow> f x s'
    | (Err e, s') \<Rightarrow> (Err e, s')
    | (Panic, s') \<Rightarrow> (Panic, s'))"

definition m_lift :: "('e, 'a) res \<Rightarrow> ('e, 's, 'a) call" where
  "m_lift r = (\<lambda>s. (r, s))"

lemma m_bind_simps [simp]:
  "m s = (Ok x, s') \<Longrightarrow> m_bind m f s = f x s'"
  "m s = (Err e, s') \<Longrightarrow> m_bind m f s = (Err e, s')"
  "m s = (Panic, s') \<Longrightarrow> m_bind m f s = (Panic, s')"
  by (simp_all add: m_bind_def)

lemma m_bind_OkE:
  assumes "m_bind m f s = (Ok y, s'')"
  obtains x s' where "m s = (Ok x, s')" and "f x s' = (Ok y, s'')"
  using assms by (auto simp: m_bind_def split: prod.splits res.splits)

lemma m_bind_state:
  assumes "P (snd (m s))" and "\<And>x s'. m s = (Ok x, s') \<Longrightarrow> P (snd (f x s'))"
  shows "P (snd (m_bind m f s))"
  using assms by (auto simp: m_bind_def split: prod.splits res.splits)

text \<open>Invariants of the state through a sequence of calls.\<close>

definition m_preserves :: "('s \<Rightarrow> bool) \<Rightarrow> ('e, 's, 'a) call \<Rightarrow> bool" where
  "m_preserves P m \<longleftrightarrow> (\<forall>s. P s \<longrightarrow> P (snd (m s)))"

lemma m_preservesI [intro?]: "(\<And>s. P s \<Longrightarrow> P (snd (m s))) \<Longrightarrow> m_preserves P m"
  by (simp add: m_preserves_def)

lemma m_preservesD: "m_preserves P m \<Longrightarrow> P s \<Longrightarrow> P (snd (m s))"
  by (simp add: m_preserves_def)

lemma m_preserves_return: "m_preserves P (m_return x)"
  by (simp add: m_preserves_def m_return_def)

lemma m_preserves_bind:
  assumes "m_preserves P m" and "\<And>x. m_preserves P (f x)"
  shows "m_preserves P (m_bind m f)"
proof
  fix s assume s: "P s"
  show "P (snd (m_bind m f s))"
  proof (rule m_bind_state)
    show "P (snd (m s))" using assms(1) s by (rule m_preservesD)
    fix x s' assume "m s = (Ok x, s')"
    with assms(1) s have "P s'" by (metis m_preservesD snd_conv)
    with assms(2) show "P (snd (f x s'))" by (rule m_preservesD)
  qed
qed

section \<open>Signed 64-bit integers\<close>

text \<open>
  Integers are modelled by \<open>int\<close> together with the range of the machine type.  Operations that
  check for overflow return \<open>None\<close> outside the range, as \<open>checked_add\<close> and \<open>checked_sub\<close> do.
\<close>

definition i64_min :: int where "i64_min = - (2 ^ 63)"

definition i64_max :: int where "i64_max = 2 ^ 63 - 1"

definition is_i64 :: "int \<Rightarrow> bool" where
  "is_i64 x \<longleftrightarrow> i64_min \<le> x \<and> x \<le> i64_max"

definition i64_checked :: "int \<Rightarrow> int option" where
  "i64_checked x = (if is_i64 x then Some x else None)"

lemmas i64_defs = i64_min_def i64_max_def is_i64_def i64_checked_def

section \<open>Double-precision floats\<close>

text \<open>
  An \<open>f64\<close> is its 64-bit pattern.  Bit 63 is the sign, the other bits are the magnitude, and a
  magnitude above \<open>0x7FF0000000000000\<close> is a NaN.  On all other patterns IEEE comparison is
  comparison of the signed magnitudes, in which the two zeros are equal.
\<close>

type_synonym f64 = "64 word"

definition f64_key :: "f64 \<Rightarrow> int" where
  "f64_key w = (if uint w < 2 ^ 63 then uint w else 2 ^ 63 - uint w)"

definition f64_is_nan :: "f64 \<Rightarrow> bool" where
  "f64_is_nan w \<longleftrightarrow> 0x7FF0000000000000 < \<bar>f64_key w\<bar>"

definition f64_lt :: "f64 \<Rightarrow> f64 \<Rightarrow> bool" where
  "f64_lt a b \<longleftrightarrow> \<not> f64_is_nan a \<and> \<not> f64_is_nan b \<and> f64_key a < f64_key b"

definition f64_le :: "f64 \<Rightarrow> f64 \<Rightarrow> bool" where
  "f64_le a b \<longleftrightarrow> \<not> f64_is_nan a \<and> \<not> f64_is_nan b \<and> f64_key a \<le> f64_key b"

section \<open>Lists\<close>

lemma find_append: "find P (xs @ ys) = (case find P xs of None \<Rightarrow> find P ys | Some x \<Rightarrow> Some x)"
  by (induction xs) auto

lemma find_SomeD: "find P xs = Some x \<Longrightarrow> x \<in> set xs \<and> P x"
  by (auto simp: find_Some_iff)

lemma find_NoneD: "find P xs = None \<Longrightarrow> x \<in> set xs \<Longrightarrow> \<not> P x"
  by (auto simp: find_None_iff)

lemma find_unique:
  assumes "distinct (map f xs)" and "x \<in> set xs" and "\<And>y. P y \<longleftrightarrow> f y = f x"
  shows "find P xs = Some x"
  using assms(1,2)
proof (induction xs)
  case (Cons a xs)
  then have "f a = f x \<longleftrightarrow> a = x" by (auto simp: rev_image_eqI)
  with Cons assms(3) show ?case by auto
qed simp

text \<open>
  \<open>iter_mut().find(p)\<close> followed by an assignment: the first element that satisfies the test is
  replaced, the others stay.
\<close>

fun update_first :: "('a \<Rightarrow> bool) \<Rightarrow> ('a \<Rightarrow> 'a) \<Rightarrow> 'a list \<Rightarrow> 'a list" where
  "update_first p f [] = []"
| "update_first p f (x # xs) = (if p x then f x # xs else x # update_first p f xs)"

lemma length_update_first [simp]: "length (update_first p f xs) = length xs"
  by (induction xs) auto

lemma map_update_first [simp]: "(\<And>x. g (f x) = g x) \<Longrightarrow> map g (update_first p f xs) = map g xs"
  by (induction xs) auto

lemma set_update_first: "y \<in> set (update_first p f xs) \<Longrightarrow> y \<in> set xs \<or> (\<exists>x\<in>set xs. p x \<and> y = f x)"
  by (induction xs) (auto split: if_splits)

lemma find_update_first:
  assumes "find p xs = Some x" and "p (f x)"
  shows "find p (update_first p f xs) = Some (f x)"
  using assms by (induction xs) (auto split: if_splits)

lemma update_first_None: "find p xs = None \<Longrightarrow> update_first p f xs = xs"
  by (induction xs) (auto split: if_splits)

lemma filter_neq_Nil_Ex: "filter P xs \<noteq> [] \<longleftrightarrow> (\<exists>x\<in>set xs. P x)"
  by (auto simp: filter_empty_conv)

section \<open>Ordered maps\<close>

text \<open>
  The contract of \<open>BTreeMap\<close> that the code relies on: a lookup after an insert, and iteration in
  ascending key order.
\<close>

locale ordered_map =
  fixes empty_map :: "'m"
    and ins :: "'k::linorder \<Rightarrow> 'v \<Rightarrow> 'm \<Rightarrow> 'm"
    and get :: "'m \<Rightarrow> 'k \<Rightarrow> 'v option"
    and entries :: "'m \<Rightarrow> ('k \<times> 'v) list"
    and invar :: "'m \<Rightarrow> bool"
  assumes invar_empty: "invar empty_map"
    and invar_ins: "invar m \<Longrightarrow> invar (ins k v m)"
    and get_empty: "get empty_map k = None"
    and get_ins: "invar m \<Longrightarrow> get (ins k v m) = (get m)(k \<mapsto> v)"
    and entries_sorted: "invar m \<Longrightarrow> sorted_wrt (<) (map fst (entries m))"
    and get_entries: "invar m \<Longrightarrow> get m = map_of (entries m)"
begin

definition insert_all :: "'m \<Rightarrow> ('k \<times> 'v) list \<Rightarrow> 'm" where
  "insert_all m kvs = foldl (\<lambda>m (k, v). ins k v m) m kvs"

lemma invar_insert_all: "invar m \<Longrightarrow> invar (insert_all m kvs)"
  unfolding insert_all_def by (induction kvs arbitrary: m) (auto simp: invar_ins)

text \<open>The last write of a key wins.\<close>

lemma get_insert_all: "invar m \<Longrightarrow> get (insert_all m kvs) = get m ++ map_of (rev kvs)"
  unfolding insert_all_def
  by (induction kvs arbitrary: m) (auto simp: invar_ins get_ins)

text \<open>Two maps with the same bindings iterate over the same entries.\<close>

lemma entries_unique:
  assumes "invar m1" and "invar m2" and "get m1 = get m2"
  shows "entries m1 = entries m2"
proof -
  have d: "distinct (map fst (entries m))" and s: "sorted (map fst (entries m))" if "invar m" for m
    using entries_sorted [OF that] by (simp_all add: strict_sorted_iff)
  have "map_of (entries m1) = map_of (entries m2)"
    using assms get_entries by metis
  then have "set (entries m1) = set (entries m2)"
    using map_of_inject_set [OF d(1) d(1)] assms by blast
  moreover have "inj_on fst (set (entries m1) \<union> set (entries m2))"
    using d(1) [OF assms(1)] calculation by (simp add: distinct_map)
  ultimately show ?thesis
    using map_sorted_distinct_set_unique [of fst "entries m1" "entries m2"] d s assms by simp
qed

end

text \<open>\<open>BTreeMap\<close> itself: an association list sorted by key.\<close>

type_synonym ('k, 'v) BTreeMap = "('k \<times> 'v) list"

fun bt_insert :: "'k::linorder \<Rightarrow> 'v \<Rightarrow> ('k, 'v) BTreeMap \<Rightarrow> ('k, 'v) BTreeMap" where
  "bt_insert k v [] = [(k, v)]"
| "bt_insert k v ((k', v') # m) =
     (if k < k' then (k, v) # (k', v') # m
      else if k = k' then (k, v) # m
      else (k', v') # bt_insert k v m)"

definition bt_get :: "('k, 'v) BTreeMap \<Rightarrow> 'k \<Rightarrow> 'v option" where
  "bt_get m k = map_of m k"

definition bt_wf :: "('k::linorder, 'v) BTreeMap \<Rightarrow> bool" where
  "bt_wf m \<longleftrightarrow> sorted_wrt (<) (map fst m)"

lemma bt_get_Nil [simp]: "bt_get [] k = None"
  by (simp add: bt_get_def)

lemma bt_get_insert: "bt_get (bt_insert k v m) = (bt_get m)(k \<mapsto> v)"
  unfolding bt_get_def by (induction k v m rule: bt_insert.induct) (auto simp: fun_eq_iff)

lemma bt_get_insert_apply [simp]:
  "bt_get (bt_insert k v m) k' = (if k' = k then Some v else bt_get m k')"
  by (simp add: bt_get_insert)

lemma fst_set_bt_insert: "fst ` set (bt_insert k v m) = insert k (fst ` set m)"
  by (induction k v m rule: bt_insert.induct) auto

lemma bt_wf_Nil [simp]: "bt_wf []"
  by (simp add: bt_wf_def)

lemma bt_wf_insert [simp]: "bt_wf m \<Longrightarrow> bt_wf (bt_insert k v m)"
proof (induction k v m rule: bt_insert.induct)
  case (2 k v k' v' m)
  then have IH: "\<not> k < k' \<Longrightarrow> k \<noteq> k' \<Longrightarrow> bt_wf (bt_insert k v m)"
    by (simp add: bt_wf_def)
  have lt: "\<not> k < k' \<Longrightarrow> k \<noteq> k' \<Longrightarrow> x \<in> fst ` set (bt_insert k v m) \<Longrightarrow> k' < x" for x
    using 2 unfolding fst_set_bt_insert by (auto simp: bt_wf_def)
  from 2 IH lt show ?case
    by (force simp: bt_wf_def)
qed (simp add: bt_wf_def)

interpretation bt: ordered_map "[]" bt_insert bt_get "\<lambda>m. m" bt_wf
  by unfold_locales (auto simp: bt_get_insert bt_wf_def [symmetric] bt_get_def fun_eq_iff)

section \<open>Data refinement\<close>

text \<open>
  A run of operations, each of which may panic, and the contract of a data structure that implements
  an abstract one: where the abstract operation is allowed, the concrete one does not panic, keeps
  the invariant and computes the same thing.
\<close>

fun run_ops :: "('op \<Rightarrow> 's \<Rightarrow> 's option) \<Rightarrow> 'op list \<Rightarrow> 's \<Rightarrow> 's option" where
  "run_ops step [] s = Some s"
| "run_ops step (op # ops) s = Option.bind (step op s) (run_ops step ops)"

locale data_refinement =
  fixes astep :: "'op \<Rightarrow> 'a \<Rightarrow> 'a option"
    and cstep :: "'op \<Rightarrow> 'c \<Rightarrow> 'c option"
    and abs :: "'c \<Rightarrow> 'a"
    and inv :: "'c \<Rightarrow> bool"
  assumes step_refines:
    "inv c \<Longrightarrow> astep op (abs c) = Some a \<Longrightarrow> \<exists>c'. cstep op c = Some c' \<and> inv c' \<and> abs c' = a"
begin

lemma run_refines:
  assumes "inv c" and "run_ops astep ops (abs c) = Some a"
  shows "\<exists>c'. run_ops cstep ops c = Some c' \<and> inv c' \<and> abs c' = a"
  using assms
proof (induction ops arbitrary: c)
  case (Cons op ops)
  from Cons.prems(2) obtain a1 where a1: "astep op (abs c) = Some a1" "run_ops astep ops a1 = Some a"
    by (auto simp: bind_eq_Some_conv)
  from step_refines [OF Cons.prems(1) a1(1)] obtain c1 where "cstep op c = Some c1" "inv c1" "abs c1 = a1" by blast
  with Cons.IH [of c1] a1(2) show ?case by simp
qed simp

end

end
