(* ===== verification/Data_Types.thy ===== *)
theory Data_Types
  imports Iox_Prelude
begin

text \<open>
  The shared data types of \<open>src/data_types/src/lib.rs\<close>: the identifiers, the catalog's rows, the
  column types and their conversions, time ranges and database names.  A struct is a record whose
  field names carry a prefix for the struct; an enum is a datatype whose constructors are written
  \<open>Type_Variant\<close>; a newtype over an integer is a datatype with one constructor, whose \<open>new\<close> is the
  constructor and whose \<open>get\<close> is the selector.
\<close>

section \<open>Identifiers\<close>

datatype NamespaceId = NamespaceId (NamespaceId_get: int)
datatype KafkaTopicId = KafkaTopicId (KafkaTopicId_get: int)
datatype QueryPoolId = QueryPoolId (QueryPoolId_get: int)
datatype TableId = TableId (TableId_get: int)
datatype ColumnId = ColumnId (ColumnId_get: int)
datatype SequencerId = SequencerId (SequencerId_get: int)
datatype KafkaPartition = KafkaPartition (KafkaPartition_get: int)
datatype PartitionId = PartitionId (PartitionId_get: int)
datatype TombstoneId = TombstoneId (TombstoneId_get: int)
datatype SequenceNumber = SequenceNumber (SequenceNumber_get: int)
datatype Timestamp = Timestamp (Timestamp_get: int)
datatype ParquetFileId = ParquetFileId (ParquetFileId_get: int)

text \<open>The derived orders compare the wrapped integers.\<close>

instantiation NamespaceId :: linorder
begin

definition less_eq_NamespaceId :: "NamespaceId \<Rightarrow> NamespaceId \<Rightarrow> bool" where
  "less_eq_NamespaceId a b \<longleftrightarrow> NamespaceId_get a \<le> NamespaceId_get b"

definition less_NamespaceId :: "NamespaceId \<Rightarrow> NamespaceId \<Rightarrow> bool" where
  "less_NamespaceId a b \<longleftrightarrow> NamespaceId_get a < NamespaceId_get b"

instance
  by standard (auto simp: less_eq_NamespaceId_def less_NamespaceId_def NamespaceId.expand)

end

instantiation TableId :: linorder
begin

definition less_eq_TableId :: "TableId \<Rightarrow> TableId \<Rightarrow> bool" where
  "less_eq_TableId a b \<longleftrightarrow> TableId_get a \<le> TableId_get b"

definition less_TableId :: "TableId \<Rightarrow> TableId \<Rightarrow> bool" where
  "less_TableId a b \<longleftrightarrow> TableId_get a < TableId_get b"

instance
  by standard (auto simp: less_eq_TableId_def less_TableId_def TableId.expand)

end

instantiation ColumnId :: linorder
begin

definition less_eq_ColumnId :: "ColumnId \<Rightarrow> ColumnId \<Rightarrow> bool" where
  "less_eq_ColumnId a b \<longleftrightarrow> ColumnId_get a \<le> ColumnId_get b"

definition less_ColumnId :: "ColumnId \<Rightarrow> ColumnId \<Rightarrow> bool" where
  "less_ColumnId a b \<longleftrightarrow> ColumnId_get a < ColumnId_get b"

instance
  by standard (auto simp: less_eq_ColumnId_def less_ColumnId_def ColumnId.expand)

end

instantiation SequencerId :: linorder
begin

definition less_eq_SequencerId :: "SequencerId \<Rightarrow> SequencerId \<Rightarrow> bool" where
  "less_eq_SequencerId a b \<longleftrightarrow> SequencerId_get a \<le> SequencerId_get b"

definition less_SequencerId :: "SequencerId \<Rightarrow> SequencerId \<Rightarrow> bool" where
  "less_SequencerId a b \<longleftrightarrow> SequencerId_get a < SequencerId_get b"

instance
  by standard (auto simp: less_eq_SequencerId_def less_SequencerId_def SequencerId.expand)

end

instantiation PartitionId :: linorder
begin

definition less_eq_PartitionId :: "PartitionId \<Rightarrow> PartitionId \<Rightarrow> bool" where
  "less_eq_PartitionId a b \<longleftrightarrow> PartitionId_get a \<le> PartitionId_get b"

definition less_PartitionId :: "PartitionId \<Rightarrow> PartitionId \<Rightarrow> bool" where
  "less_PartitionId a b \<longleftrightarrow> PartitionId_get a < PartitionId_get b"

instance
  by standard (auto simp: less_eq_PartitionId_def less_PartitionId_def PartitionId.expand)

end

instantiation SequenceNumber :: linorder
begin

definition less_eq_SequenceNumber :: "SequenceNumber \<Rightarrow> SequenceNumber \<Rightarrow> bool" where
  "less_eq_SequenceNumber a b \<longleftrightarrow> SequenceNumber_get a \<le> SequenceNumber_get b"

definition less_SequenceNumber :: "SequenceNumber \<Rightarrow> SequenceNumber \<Rightarrow> bool" where
  "less_SequenceNumber a b \<longleftrightarrow> SequenceNumber_get a < SequenceNumber_get b"

instance
  by standard (auto simp: less_eq_SequenceNumber_def less_SequenceNumber_def SequenceNumber.expand)

end

instantiation Timestamp :: linorder
begin

definition less_eq_Timestamp :: "Timestamp \<Rightarrow> Timestamp \<Rightarrow> bool" where
  "less_eq_Timestamp a b \<longleftrightarrow> Timestamp_get a \<le> Timestamp_get b"

definition less_Timestamp :: "Timestamp \<Rightarrow> Timestamp \<Rightarrow> bool" where
  "less_Timestamp a b \<longleftrightarrow> Timestamp_get a < Timestamp_get b"

instance
  by standard (auto simp: less_eq_Timestamp_def less_Timestamp_def Timestamp.expand)

end

lemmas id_order_defs =
  less_eq_NamespaceId_def less_NamespaceId_def
  less_eq_TableId_def less_TableId_def
  less_eq_ColumnId_def less_ColumnId_def
  less_eq_SequencerId_def less_SequencerId_def
  less_eq_PartitionId_def less_PartitionId_def
  less_eq_SequenceNumber_def less_SequenceNumber_def
  less_eq_Timestamp_def less_Timestamp_def

text \<open>
  Addition and subtraction of timestamps are checked: they panic with \<open>timestamp wraparound\<close>.
\<close>

definition Timestamp_add :: "Timestamp \<Rightarrow> Timestamp \<Rightarrow> ('e, Timestamp) res" where
  "Timestamp_add a b =
     (case i64_checked (Timestamp_get a + Timestamp_get b) of
        Some t \<Rightarrow> Ok (Timestamp t)
      | None \<Rightarrow> Panic)"

definition Timestamp_sub :: "Timestamp \<Rightarrow> Timestamp \<Rightarrow> ('e, Timestamp) res" where
  "Timestamp_sub a b =
     (case i64_checked (Timestamp_get a - Timestamp_get b) of
        Some t \<Rightarrow> Ok (Timestamp t)
      | None \<Rightarrow> Panic)"

section \<open>Compaction levels\<close>

datatype CompactionLevel = CompactionLevel_Initial | CompactionLevel_FileNonOverlapped

fun CompactionLevel_as_i32 :: "CompactionLevel \<Rightarrow> int" where
  "CompactionLevel_as_i32 CompactionLevel_Initial = 0"
| "CompactionLevel_as_i32 CompactionLevel_FileNonOverlapped = 1"

definition CompactionLevel_try_from :: "int \<Rightarrow> (string, CompactionLevel) res" where
  "CompactionLevel_try_from x =
     (if x = CompactionLevel_as_i32 CompactionLevel_Initial then Ok CompactionLevel_Initial
      else if x = CompactionLevel_as_i32 CompactionLevel_FileNonOverlapped
      then Ok CompactionLevel_FileNonOverlapped
      else Err ''invalid compaction level value'')"

section \<open>Column types\<close>

datatype InfluxFieldType =
    InfluxFieldType_Float | InfluxFieldType_Integer | InfluxFieldType_UInteger
  | InfluxFieldType_String | InfluxFieldType_Boolean

datatype InfluxColumnType =
    InfluxColumnType_Tag
  | InfluxColumnType_Field InfluxFieldType
  | InfluxColumnType_Timestamp

datatype ColumnType =
    ColumnType_I64 | ColumnType_U64 | ColumnType_F64 | ColumnType_Bool
  | ColumnType_String | ColumnType_Time | ColumnType_Tag

datatype FieldValue =
    FieldValue_I64 int | FieldValue_U64 nat | FieldValue_F64 f64
  | FieldValue_String string | FieldValue_Boolean bool

fun ColumnType_as_i16 :: "ColumnType \<Rightarrow> int" where
  "ColumnType_as_i16 ColumnType_I64 = 1"
| "ColumnType_as_i16 ColumnType_U64 = 2"
| "ColumnType_as_i16 ColumnType_F64 = 3"
| "ColumnType_as_i16 ColumnType_Bool = 4"
| "ColumnType_as_i16 ColumnType_String = 5"
| "ColumnType_as_i16 ColumnType_Time = 6"
| "ColumnType_as_i16 ColumnType_Tag = 7"

fun ColumnType_as_str :: "ColumnType \<Rightarrow> string" where
  "ColumnType_as_str ColumnType_I64 = ''i64''"
| "ColumnType_as_str ColumnType_U64 = ''u64''"
| "ColumnType_as_str ColumnType_F64 = ''f64''"
| "ColumnType_as_str ColumnType_Bool = ''bool''"
| "ColumnType_as_str ColumnType_String = ''string''"
| "ColumnType_as_str ColumnType_Time = ''time''"
| "ColumnType_as_str ColumnType_Tag = ''tag''"

definition ColumnType_try_from :: "int \<Rightarrow> ColumnType option" where
  "ColumnType_try_from x =
     (if x = ColumnType_as_i16 ColumnType_I64 then Some ColumnType_I64
      else if x = ColumnType_as_i16 ColumnType_U64 then Some ColumnType_U64
      else if x = ColumnType_as_i16 ColumnType_F64 then Some ColumnType_F64
      else if x = ColumnType_as_i16 ColumnType_Bool then Some ColumnType_Bool
      else if x = ColumnType_as_i16 ColumnType_String then Some ColumnType_String
      else if x = ColumnType_as_i16 ColumnType_Time then Some ColumnType_Time
      else if x = ColumnType_as_i16 ColumnType_Tag then Some ColumnType_Tag
      else None)"

fun ColumnType_from_influx :: "InfluxColumnType \<Rightarrow> ColumnType" where
  "ColumnType_from_influx InfluxColumnType_Tag = ColumnType_Tag"
| "ColumnType_from_influx (InfluxColumnType_Field InfluxFieldType_Float) = ColumnType_F64"
| "ColumnType_from_influx (InfluxColumnType_Field InfluxFieldType_Integer) = ColumnType_I64"
| "ColumnType_from_influx (InfluxColumnType_Field InfluxFieldType_UInteger) = ColumnType_U64"
| "ColumnType_from_influx (InfluxColumnType_Field InfluxFieldType_String) = ColumnType_String"
| "ColumnType_from_influx (InfluxColumnType_Field InfluxFieldType_Boolean) = ColumnType_Bool"
| "ColumnType_from_influx InfluxColumnType_Timestamp = ColumnType_Time"

fun InfluxColumnType_from :: "ColumnType \<Rightarrow> InfluxColumnType" where
  "InfluxColumnType_from ColumnType_I64 = InfluxColumnType_Field InfluxFieldType_Integer"
| "InfluxColumnType_from ColumnType_U64 = InfluxColumnType_Field InfluxFieldType_UInteger"
| "InfluxColumnType_from ColumnType_F64 = InfluxColumnType_Field InfluxFieldType_Float"
| "InfluxColumnType_from ColumnType_Bool = InfluxColumnType_Field InfluxFieldType_Boolean"
| "InfluxColumnType_from ColumnType_String = InfluxColumnType_Field InfluxFieldType_String"
| "InfluxColumnType_from ColumnType_Time = InfluxColumnType_Timestamp"
| "InfluxColumnType_from ColumnType_Tag = InfluxColumnType_Tag"

text \<open>\<open>ColumnType == InfluxColumnType\<close>, as the source spells it out.\<close>

definition ColumnType_eq_influx :: "ColumnType \<Rightarrow> InfluxColumnType \<Rightarrow> bool" where
  "ColumnType_eq_influx t got =
     (case t of
        ColumnType_I64 \<Rightarrow> got = InfluxColumnType_Field InfluxFieldType_Integer
      | ColumnType_U64 \<Rightarrow> got = InfluxColumnType_Field InfluxFieldType_UInteger
      | ColumnType_F64 \<Rightarrow> got = InfluxColumnType_Field InfluxFieldType_Float
      | ColumnType_Bool \<Rightarrow> got = InfluxColumnType_Field InfluxFieldType_Boolean
      | ColumnType_String \<Rightarrow> got = InfluxColumnType_Field InfluxFieldType_String
      | ColumnType_Time \<Rightarrow> got = InfluxColumnType_Timestamp
      | ColumnType_Tag \<Rightarrow> got = InfluxColumnType_Tag)"

fun column_type_from_field :: "FieldValue \<Rightarrow> ColumnType" where
  "column_type_from_field (FieldValue_I64 _) = ColumnType_I64"
| "column_type_from_field (FieldValue_U64 _) = ColumnType_U64"
| "column_type_from_field (FieldValue_F64 _) = ColumnType_F64"
| "column_type_from_field (FieldValue_String _) = ColumnType_String"
| "column_type_from_field (FieldValue_Boolean _) = ColumnType_Bool"

text \<open>The names under which the column types are stored in Arrow metadata, and back.\<close>

fun InfluxColumnType_to_str :: "InfluxColumnType \<Rightarrow> string" where
  "InfluxColumnType_to_str InfluxColumnType_Tag = ''iox::column_type::tag''"
| "InfluxColumnType_to_str (InfluxColumnType_Field InfluxFieldType_Float) =
     ''iox::column_type::field::float''"
| "InfluxColumnType_to_str (InfluxColumnType_Field InfluxFieldType_Integer) =
     ''iox::column_type::field::integer''"
| "InfluxColumnType_to_str (InfluxColumnType_Field InfluxFieldType_UInteger) =
     ''iox::column_type::field::uinteger''"
| "InfluxColumnType_to_str (InfluxColumnType_Field InfluxFieldType_String) =
     ''iox::column_type::field::string''"
| "InfluxColumnType_to_str (InfluxColumnType_Field InfluxFieldType_Boolean) =
     ''iox::column_type::field::boolean''"
| "InfluxColumnType_to_str InfluxColumnType_Timestamp = ''iox::column_type::timestamp''"

definition InfluxColumnType_try_from :: "string \<Rightarrow> InfluxColumnType option" where
  "InfluxColumnType_try_from s =
     (if s = ''iox::column_type::tag'' then Some InfluxColumnType_Tag
      else if s = ''iox::column_type::field::float''
      then Some (InfluxColumnType_Field InfluxFieldType_Float)
      else if s = ''iox::column_type::field::integer''
      then Some (InfluxColumnType_Field InfluxFieldType_Integer)
      else if s = ''iox::column_type::field::uinteger''
      then Some (InfluxColumnType_Field InfluxFieldType_UInteger)
      else if s = ''iox::column_type::field::string''
      then Some (InfluxColumnType_Field InfluxFieldType_String)
      else if s = ''iox::column_type::field::boolean''
      then Some (InfluxColumnType_Field InfluxFieldType_Boolean)
      else if s = ''iox::column_type::timestamp'' then Some InfluxColumnType_Timestamp
      else None)"

section \<open>Catalog rows\<close>

record KafkaTopic =
  kt_id :: KafkaTopicId
  kt_name :: string

record QueryPool =
  qp_id :: QueryPoolId
  qp_name :: string

record Namespace =
  ns_id :: NamespaceId
  ns_name :: string
  ns_retention_duration :: "string option"
  ns_kafka_topic_id :: KafkaTopicId
  ns_query_pool_id :: QueryPoolId
  ns_max_tables :: int
  ns_max_columns_per_table :: int

record Table =
  tbl_id :: TableId
  tbl_namespace_id :: NamespaceId
  tbl_name :: string

record Column =
  col_id :: ColumnId
  col_table_id :: TableId
  col_name :: string
  col_column_type :: int

record Sequencer =
  sq_id :: SequencerId
  sq_kafka_topic_id :: KafkaTopicId
  sq_kafka_partition :: KafkaPartition
  sq_min_unpersisted_sequence_number :: SequenceNumber

datatype PartitionKey = PartitionKey (PartitionKey_str: string)

definition PartitionKey_from :: "string \<Rightarrow> ('e, PartitionKey) res" where
  "PartitionKey_from s = (if s = [] then Panic else Ok (PartitionKey s))"

record Partition =
  pt_id :: PartitionId
  pt_sequencer_id :: SequencerId
  pt_table_id :: TableId
  pt_partition_key :: PartitionKey
  pt_sort_key :: "string list"

record PartitionInfo =
  pi_partition :: Partition
  pi_namespace_name :: string
  pi_table_name :: string

record PartitionParam =
  pp_partition_id :: PartitionId
  pp_sequencer_id :: SequencerId
  pp_namespace_id :: NamespaceId
  pp_table_id :: TableId

record TablePartition =
  tp_sequencer_id :: SequencerId
  tp_table_id :: TableId
  tp_partition_id :: PartitionId

record Tombstone =
  ts_id :: TombstoneId
  ts_table_id :: TableId
  ts_sequencer_id :: SequencerId
  ts_sequence_number :: SequenceNumber
  ts_min_time :: Timestamp
  ts_max_time :: Timestamp
  ts_serialized_predicate :: string

record ProcessedTombstone =
  pts_tombstone_id :: TombstoneId
  pts_parquet_file_id :: ParquetFileId

text \<open>The version-4 UUID of a file in the object store is its 128-bit value.\<close>

type_synonym Uuid = "128 word"

text \<open>A column set is sorted on construction, and the constructor refuses duplicates.\<close>

datatype ColumnSet = ColumnSet (ColumnSet_ids: "ColumnId list")

definition ColumnSet_new :: "ColumnId list \<Rightarrow> ('e, ColumnSet) res" where
  "ColumnSet_new columns =
     (let sorted_columns = sort columns;
          deduped = remdups_adj sorted_columns
      in if length sorted_columns = length deduped then Ok (ColumnSet deduped) else Panic)"

record ParquetFile =
  pf_id :: ParquetFileId
  pf_sequencer_id :: SequencerId
  pf_namespace_id :: NamespaceId
  pf_table_id :: TableId
  pf_partition_id :: PartitionId
  pf_object_store_id :: Uuid
  pf_max_sequence_number :: SequenceNumber
  pf_min_time :: Timestamp
  pf_max_time :: Timestamp
  pf_to_delete :: "Timestamp option"
  pf_file_size_bytes :: int
  pf_row_count :: int
  pf_compaction_level :: CompactionLevel
  pf_created_at :: Timestamp
  pf_column_set :: ColumnSet

record ParquetFileParams =
  pfp_sequencer_id :: SequencerId
  pfp_namespace_id :: NamespaceId
  pfp_table_id :: TableId
  pfp_partition_id :: PartitionId
  pfp_object_store_id :: Uuid
  pfp_max_sequence_number :: SequenceNumber
  pfp_min_time :: Timestamp
  pfp_max_time :: Timestamp
  pfp_file_size_bytes :: int
  pfp_row_count :: int
  pfp_compaction_level :: CompactionLevel
  pfp_created_at :: Timestamp
  pfp_column_set :: ColumnSet

section \<open>Schemas\<close>

record ColumnSchema =
  cs_id :: ColumnId
  cs_column_type :: ColumnType

record TableSchema =
  tsc_id :: TableId
  tsc_columns :: "(string, ColumnSchema) BTreeMap"

record NamespaceSchema =
  nsc_id :: NamespaceId
  nsc_kafka_topic_id :: KafkaTopicId
  nsc_query_pool_id :: QueryPoolId
  nsc_tables :: "(string, TableSchema) BTreeMap"

definition NamespaceSchema_new ::
    "NamespaceId \<Rightarrow> KafkaTopicId \<Rightarrow> QueryPoolId \<Rightarrow> NamespaceSchema" where
  "NamespaceSchema_new i kafka_topic_id query_pool_id =
     \<lparr>nsc_id = i, nsc_kafka_topic_id = kafka_topic_id, nsc_query_pool_id = query_pool_id,
      nsc_tables = []\<rparr>"

definition TableSchema_new :: "TableId \<Rightarrow> TableSchema" where
  "TableSchema_new i = \<lparr>tsc_id = i, tsc_columns = []\<rparr>"

definition ColumnSchema_try_from :: "Column \<Rightarrow> ColumnSchema option" where
  "ColumnSchema_try_from c =
     map_option (\<lambda>t. \<lparr>cs_id = col_id c, cs_column_type = t\<rparr>)
       (ColumnType_try_from (col_column_type c))"

text \<open>
  Adding a column panics when the column's type is not known, before anything is written, and when
  a column of that name is there already, after the old entry has been replaced.
\<close>

definition TableSchema_add_column :: "Column \<Rightarrow> ('e, TableSchema, unit) call" where
  "TableSchema_add_column c t =
     (case ColumnSchema_try_from c of
        None \<Rightarrow> (Panic, t)
      | Some cs \<Rightarrow>
          (let old = bt_get (tsc_columns t) (col_name c);
               t' = t\<lparr>tsc_columns := bt_insert (col_name c) cs (tsc_columns t)\<rparr>
           in if old = None then (Ok (), t') else (Panic, t')))"

definition TableSchema_column_id_map :: "TableSchema \<Rightarrow> ColumnId \<rightharpoonup> string" where
  "TableSchema_column_id_map t =
     map_of (rev (map (\<lambda>(name, c). (cs_id c, name)) (tsc_columns t)))"

definition Column_is_tag :: "Column \<Rightarrow> bool" where
  "Column_is_tag c \<longleftrightarrow> col_column_type c = ColumnType_as_i16 ColumnType_Tag"

fun Column_matches_field_type :: "Column \<Rightarrow> FieldValue \<Rightarrow> bool" where
  "Column_matches_field_type c (FieldValue_I64 _) =
     (col_column_type c = ColumnType_as_i16 ColumnType_I64)"
| "Column_matches_field_type c (FieldValue_U64 _) =
     (col_column_type c = ColumnType_as_i16 ColumnType_U64)"
| "Column_matches_field_type c (FieldValue_F64 _) =
     (col_column_type c = ColumnType_as_i16 ColumnType_F64)"
| "Column_matches_field_type c (FieldValue_String _) =
     (col_column_type c = ColumnType_as_i16 ColumnType_String)"
| "Column_matches_field_type c (FieldValue_Boolean _) =
     (col_column_type c = ColumnType_as_i16 ColumnType_Bool)"

definition ColumnSchema_is_tag :: "ColumnSchema \<Rightarrow> bool" where
  "ColumnSchema_is_tag c \<longleftrightarrow> cs_column_type c = ColumnType_Tag"

definition ColumnSchema_matches_field_type :: "ColumnSchema \<Rightarrow> FieldValue \<Rightarrow> bool" where
  "ColumnSchema_matches_field_type c v =
     (case (v, cs_column_type c) of
        (FieldValue_I64 _, ColumnType_I64) \<Rightarrow> True
      | (FieldValue_U64 _, ColumnType_U64) \<Rightarrow> True
      | (FieldValue_F64 _, ColumnType_F64) \<Rightarrow> True
      | (FieldValue_String _, ColumnType_String) \<Rightarrow> True
      | (FieldValue_Boolean _, ColumnType_Bool) \<Rightarrow> True
      | _ \<Rightarrow> False)"

definition ColumnSchema_matches_type :: "ColumnSchema \<Rightarrow> InfluxColumnType \<Rightarrow> bool" where
  "ColumnSchema_matches_type c t = ColumnType_eq_influx (cs_column_type c) t"

section \<open>Time ranges\<close>

definition MIN_NANO_TIME :: int where "MIN_NANO_TIME = i64_min + 2"

definition MAX_NANO_TIME :: int where "MAX_NANO_TIME = i64_max - 1"

record TimestampRange =
  tr_start :: int
  tr_end :: int

definition TimestampRange_new :: "int \<Rightarrow> int \<Rightarrow> TimestampRange" where
  "TimestampRange_new start end' =
     \<lparr>tr_start = min (max start MIN_NANO_TIME) end', tr_end = max end' MIN_NANO_TIME\<rparr>"

definition TimestampRange_contains_all :: "TimestampRange \<Rightarrow> bool" where
  "TimestampRange_contains_all r \<longleftrightarrow> tr_start r \<le> MIN_NANO_TIME \<and> tr_end r > MAX_NANO_TIME"

definition TimestampRange_contains_nearly_all :: "TimestampRange \<Rightarrow> bool" where
  "TimestampRange_contains_nearly_all r \<longleftrightarrow> tr_start r \<le> MIN_NANO_TIME \<and> tr_end r \<ge> MAX_NANO_TIME"

definition TimestampRange_contains :: "TimestampRange \<Rightarrow> int \<Rightarrow> bool" where
  "TimestampRange_contains r v \<longleftrightarrow> tr_start r \<le> v \<and> v < tr_end r"

record TimestampMinMax =
  tmm_min :: int
  tmm_max :: int

definition TimestampMinMax_new :: "int \<Rightarrow> int \<Rightarrow> ('e, TimestampMinMax) res" where
  "TimestampMinMax_new mi ma =
     (if mi \<le> ma then Ok \<lparr>tmm_min = mi, tmm_max = ma\<rparr> else Panic)"

definition TimestampMinMax_overlaps :: "TimestampMinMax \<Rightarrow> TimestampRange \<Rightarrow> bool" where
  "TimestampMinMax_overlaps m r \<longleftrightarrow>
     TimestampRange_contains r (tmm_min m)
     \<or> TimestampRange_contains r (tmm_max m)
     \<or> (tmm_min m \<le> tr_start r \<and> tmm_max m \<ge> tr_end r)"

section \<open>Database names\<close>

text \<open>
  A Rust string is a sequence of Unicode scalar values; \<open>len\<close> counts the bytes of its UTF-8
  encoding, and \<open>is_control\<close> is the general category Cc.
\<close>

type_synonym ustring = "nat list"

definition utf8_len :: "nat \<Rightarrow> nat" where
  "utf8_len c = (if c < 128 then 1 else if c < 2048 then 2 else if c < 65536 then 3 else 4)"

definition ustring_len :: "ustring \<Rightarrow> nat" where
  "ustring_len s = sum_list (map utf8_len s)"

definition is_control :: "nat \<Rightarrow> bool" where
  "is_control c \<longleftrightarrow> c < 32 \<or> (127 \<le> c \<and> c < 160)"

fun position :: "('a \<Rightarrow> bool) \<Rightarrow> 'a list \<Rightarrow> nat option" where
  "position p [] = None"
| "position p (x # xs) = (if p x then Some 0 else map_option Suc (position p xs))"

datatype DatabaseNameError =
    DatabaseNameError_LengthConstraint ustring
  | DatabaseNameError_BadChars nat ustring

datatype DatabaseName = DatabaseName (DatabaseName_as_str: ustring)

definition DatabaseName_new :: "ustring \<Rightarrow> (DatabaseNameError, DatabaseName) res" where
  "DatabaseName_new name =
     (if \<not> (1 \<le> ustring_len name \<and> ustring_len name \<le> 64)
      then Err (DatabaseNameError_LengthConstraint name)
      else (case position is_control name of
              Some bad_char_offset \<Rightarrow> Err (DatabaseNameError_BadChars bad_char_offset name)
            | None \<Rightarrow> Ok (DatabaseName name)))"

datatype OrgBucketMappingError =
    OrgBucketMappingError_InvalidDatabaseName DatabaseNameError
  | OrgBucketMappingError_NotSpecified

text \<open>
  The percent encoding with the \<open>NON_ALPHANUMERIC\<close> set belongs to the \<open>percent_encoding\<close> crate and
  is the parameter \<open>pct\<close>.
\<close>

definition org_and_bucket_to_database ::
    "(ustring \<Rightarrow> ustring) \<Rightarrow> ustring \<Rightarrow> ustring \<Rightarrow> (OrgBucketMappingError, DatabaseName) res" where
  "org_and_bucket_to_database pct org bucket =
     (let org' = pct org; bucket' = pct bucket
      in if org' = [] \<or> bucket' = [] then Err OrgBucketMappingError_NotSpecified
         else (case DatabaseName_new (org' @ [95] @ bucket') of
                 Ok n \<Rightarrow> Ok n
               | Err e \<Rightarrow> Err (OrgBucketMappingError_InvalidDatabaseName e)
               | Panic \<Rightarrow> Panic))"

section \<open>Column type conversions\<close>

lemma ColumnType_try_from_as_i16 [simp]: "ColumnType_try_from (ColumnType_as_i16 t) = Some t"
  by (cases t) (simp_all add: ColumnType_try_from_def)

lemma ColumnType_try_from_SomeD: "ColumnType_try_from x = Some t \<Longrightarrow> x = ColumnType_as_i16 t"
  by (auto simp: ColumnType_try_from_def split: if_splits)

lemma ColumnType_as_i16_inject [simp]: "ColumnType_as_i16 a = ColumnType_as_i16 b \<longleftrightarrow> a = b"
  by (metis ColumnType_try_from_as_i16 option.inject)

lemma ColumnType_from_influx_inverse [simp]: "ColumnType_from_influx (InfluxColumnType_from t) = t"
  by (cases t) simp_all

lemma InfluxColumnType_from_inverse [simp]: "InfluxColumnType_from (ColumnType_from_influx i) = i"
proof (cases i)
  case (InfluxColumnType_Field f)
  then show ?thesis by (cases f) simp_all
qed simp_all

lemma ColumnType_eq_influx_iff: "ColumnType_eq_influx t i \<longleftrightarrow> t = ColumnType_from_influx i"
proof -
  have "ColumnType_eq_influx t i \<longleftrightarrow> i = InfluxColumnType_from t"
    by (cases t) (simp_all add: ColumnType_eq_influx_def)
  then show ?thesis by auto
qed

text \<open>
  The three encodings of a column type agree: the catalog's \<open>i16\<close> code and the schema's
  \<open>InfluxColumnType\<close> both convert back to the same \<open>ColumnType\<close>, the code of every other integer is
  refused, the name stored in the Arrow metadata parses back, and \<open>ColumnType == InfluxColumnType\<close>
  is equality after conversion.
\<close>

lemma column_type_conversions_roundtrip:
  "ColumnType_try_from (ColumnType_as_i16 t) = Some t
   \<and> (ColumnType_try_from x = None \<longleftrightarrow> \<not> (1 \<le> x \<and> x \<le> 7))
   \<and> ColumnType_from_influx (InfluxColumnType_from t) = t
   \<and> InfluxColumnType_from (ColumnType_from_influx i) = i
   \<and> InfluxColumnType_try_from (InfluxColumnType_to_str i) = Some i
   \<and> (ColumnType_eq_influx t i \<longleftrightarrow> t = ColumnType_from_influx i)"
proof (intro conjI)
  show "ColumnType_try_from x = None \<longleftrightarrow> \<not> (1 \<le> x \<and> x \<le> 7)"
    by (auto simp: ColumnType_try_from_def)
  show "InfluxColumnType_try_from (InfluxColumnType_to_str i) = Some i"
  proof (cases i)
    case (InfluxColumnType_Field f)
    then show ?thesis by (cases f) (simp_all add: InfluxColumnType_try_from_def)
  qed (simp_all add: InfluxColumnType_try_from_def)
qed (simp_all add: ColumnType_eq_influx_iff)

text \<open>The two ways of matching a line-protocol value agree on rows with a valid type code.\<close>

lemma Column_matches_field_type_iff:
  "Column_matches_field_type c v \<longleftrightarrow>
     col_column_type c = ColumnType_as_i16 (column_type_from_field v)"
  by (cases v) simp_all

lemma ColumnSchema_matches_field_type_iff:
  "ColumnSchema_matches_field_type c v \<longleftrightarrow> cs_column_type c = column_type_from_field v"
  by (cases v; cases "cs_column_type c") (simp_all add: ColumnSchema_matches_field_type_def)

lemma ColumnSchema_matches_type_iff:
  "ColumnSchema_matches_type c i \<longleftrightarrow> cs_column_type c = ColumnType_from_influx i"
  by (simp add: ColumnSchema_matches_type_def ColumnType_eq_influx_iff)

section \<open>Column sets\<close>

lemma sorted_remdups_adj_length:
  "sorted xs \<Longrightarrow> length (remdups_adj xs) = length xs \<longleftrightarrow> distinct xs"
proof (induction xs rule: remdups_adj.induct)
  case (3 x y xs)
  have le: "length (remdups_adj (y # xs)) \<le> length (y # xs)"
    by (rule remdups_adj_length)
  show ?case
  proof (cases "x = y")
    case True
    with le show ?thesis by auto
  next
    case False
    with 3 have "x < y" by auto
    with 3 False show ?thesis by fastforce
  qed
qed simp_all

text \<open>
  A column set is built exactly from duplicate-free input: the constructor panics if and only if
  an identifier occurs twice, and otherwise the stored identifiers are the given ones in strictly
  ascending order.
\<close>

lemma ColumnSet_new_correct:
  "(ColumnSet_new cs = Panic \<longleftrightarrow> \<not> distinct cs)
   \<and> (distinct cs \<longrightarrow>
        ColumnSet_new cs = Ok (ColumnSet (sort cs)) \<and> sorted_wrt (<) (sort cs)
        \<and> mset (sort cs) = mset cs)"
proof -
  have len: "length (remdups_adj (sort cs)) = length (sort cs) \<longleftrightarrow> distinct cs"
    using sorted_remdups_adj_length [of "sort cs"] by simp
  have adj: "remdups_adj (sort cs) = sort cs" if "distinct cs"
    using that by (simp add: remdups_adj_distinct)
  show ?thesis
    using len adj by (auto simp: ColumnSet_new_def Let_def strict_sorted_iff)
qed

section \<open>Time ranges\<close>

lemmas time_range_defs =
  TimestampRange_new_def TimestampRange_contains_def MIN_NANO_TIME_def MAX_NANO_TIME_def
  TimestampMinMax_overlaps_def

text \<open>
  A range built from an end at or above \<open>MIN_NANO_TIME\<close> contains exactly the representable
  timestamps between the bounds, and it never starts after it ends.
\<close>

lemma TimestampRange_new_contains:
  assumes "MIN_NANO_TIME \<le> e"
  shows "TimestampRange_contains (TimestampRange_new s e) v
           = (MIN_NANO_TIME \<le> v \<and> s \<le> v \<and> v < e)
         \<and> tr_start (TimestampRange_new s e) \<le> tr_end (TimestampRange_new s e)"
  using assms by (auto simp: TimestampRange_new_def TimestampRange_contains_def)

text \<open>
  Below \<open>MIN_NANO_TIME\<close> the constructor does not do what its documentation says: the range
  from \<open>i64::MIN\<close> to \<open>i64::MIN\<close>, which should be empty and start no lower than \<open>MIN_NANO_TIME\<close>,
  starts at \<open>i64::MIN\<close> and contains the two sentinel values below \<open>MIN_NANO_TIME\<close>.
\<close>

lemma TimestampRange_new_below_min:
  "tr_start (TimestampRange_new i64_min i64_min) = i64_min
   \<and> TimestampRange_contains (TimestampRange_new i64_min i64_min) v
       = (v = i64_min \<or> v = i64_min + 1)"
  by (auto simp: time_range_defs i64_min_def)

text \<open>
  The overlap test of a closed interval with a half-open range is exact on ranges that are not
  empty: it answers whether some timestamp lies in both.
\<close>

lemma TimestampMinMax_overlaps_exact:
  assumes "tmm_min m \<le> tmm_max m" and "tr_start r < tr_end r"
  shows "TimestampMinMax_overlaps m r
           \<longleftrightarrow> (\<exists>v. tmm_min m \<le> v \<and> v \<le> tmm_max m \<and> TimestampRange_contains r v)"
proof
  assume "TimestampMinMax_overlaps m r"
  then consider "TimestampRange_contains r (tmm_min m)" | "TimestampRange_contains r (tmm_max m)"
    | "tmm_min m \<le> tr_start r" and "tmm_max m \<ge> tr_end r"
    by (auto simp: TimestampMinMax_overlaps_def)
  then show "\<exists>v. tmm_min m \<le> v \<and> v \<le> tmm_max m \<and> TimestampRange_contains r v"
  proof cases
    case 3
    with assms(2) have "tr_start r \<le> tmm_max m \<and> TimestampRange_contains r (tr_start r)"
      by (simp add: TimestampRange_contains_def)
    with 3 show ?thesis by blast
  qed (use assms(1) in blast)+
next
  assume "\<exists>v. tmm_min m \<le> v \<and> v \<le> tmm_max m \<and> TimestampRange_contains r v"
  then show "TimestampMinMax_overlaps m r"
    by (auto simp: TimestampMinMax_overlaps_def TimestampRange_contains_def)
qed

section \<open>Database names\<close>

lemma position_None_iff: "position p xs = None \<longleftrightarrow> (\<forall>x\<in>set xs. \<not> p x)"
  by (induction xs) auto

lemma position_SomeD:
  "position p xs = Some i \<Longrightarrow> i < length xs \<and> p (xs ! i) \<and> (\<forall>j<i. \<not> p (xs ! j))"
proof (induction xs arbitrary: i)
  case (Cons x xs)
  show ?case
  proof (cases "p x")
    case False
    with Cons.prems obtain k where "position p xs = Some k" and "i = Suc k" by auto
    with Cons.IH [of k] False show ?thesis by (auto simp: less_Suc_eq_0_disj)
  qed (use Cons.prems in simp)
qed simp

lemma DatabaseName_new_Ok_iff:
  "DatabaseName_new name = Ok n \<longleftrightarrow>
     n = DatabaseName name \<and> 1 \<le> ustring_len name \<and> ustring_len name \<le> 64
     \<and> (\<forall>c\<in>set name. \<not> is_control c)"
  by (auto simp: DatabaseName_new_def position_None_iff [symmetric] split: option.splits)

lemma separator_split_unique:
  assumes "a @ [c] @ b = a' @ [c] @ b'" and "c \<notin> set a" and "c \<notin> set a'"
  shows "a = a' \<and> b = b'"
  using assms
proof (induction a arbitrary: a')
  case Nil
  then show ?case by (cases a') auto
next
  case (Cons x xs)
  then obtain y ys where "a' = y # ys" by (cases a') auto
  with Cons show ?case by auto
qed

text \<open>
  The mapping of an organisation and a bucket to a database name is unambiguous: two pairs that
  map to the same database are the same pair.  It relies on the percent encoding being injective and
  never producing the separator, the underscore.
\<close>

lemma org_and_bucket_to_database_inj:
  assumes "inj pct" and "\<And>s. 95 \<notin> set (pct s)"
    and "org_and_bucket_to_database pct org bucket = Ok n"
    and "org_and_bucket_to_database pct org' bucket' = Ok n"
  shows "org = org' \<and> bucket = bucket'"
proof -
  have name: "n = DatabaseName (pct a @ [95] @ pct b)"
    if "org_and_bucket_to_database pct a b = Ok n" for a b
    using that by (simp add: org_and_bucket_to_database_def DatabaseName_new_Ok_iff Let_def
        split: if_splits res.splits)
  from name [OF assms(3)] name [OF assms(4)]
  have "pct org @ [95] @ pct bucket = pct org' @ [95] @ pct bucket'"
    by simp
  from separator_split_unique [OF this assms(2) assms(2)] have "pct org = pct org'" and "pct bucket = pct bucket'"
    by simp_all
  with assms(1) show ?thesis by (simp add: inj_eq)
qed

end
