(* ===== verification/Mem_Catalog.thy ===== *)
theory Mem_Catalog
  imports Data_Types
begin

text \<open>
  The in-memory catalog of \<open>src/iox_catalog/src/mem.rs\<close>: the record \<open>MemCollections\<close> with one list
  per entity, and one definition per method of the repository traits that \<open>MemTxn\<close> implements.  A
  method of repository \<open>r\<close> is named \<open>r_method\<close>.  Every method takes the staged collections and
  returns its outcome with the collections it leaves, also on the error and panic branches.
\<close>

section \<open>Errors and state\<close>

text \<open>
  The errors of \<open>src/iox_catalog/src/interface.rs\<close> that are made by this crate's own code.  The
  variants that wrap an error of the \<open>sqlx\<close> driver occur in the Postgres catalog only.
\<close>

datatype Error =
    Error_NameExists string
  | Error_ColumnTypeMismatch string string string
  | Error_UnknownColumnType int string
  | Error_NamespaceNotFoundByName string
  | Error_NamespaceNotFoundById NamespaceId
  | Error_TableNotFound TableId
  | Error_PartitionNotFound PartitionId
  | Error_ColumnCreateLimitError string TableId
  | Error_TableCreateLimitError string NamespaceId
  | Error_FileExists Uuid
  | Error_FileNotFound int
  | Error_TombstoneNotFound int
  | Error_ParquetRecordNotFound ParquetFileId
  | Error_ProcessTombstoneExists int int
  | Error_InvalidValue nat

record MemCollections =
  kafka_topics :: "KafkaTopic list"
  query_pools :: "QueryPool list"
  namespaces :: "Namespace list"
  tables :: "Table list"
  columns :: "Column list"
  sequencers :: "Sequencer list"
  partitions :: "Partition list"
  tombstones :: "Tombstone list"
  parquet_files :: "ParquetFile list"
  processed_tombstones :: "ProcessedTombstone list"

definition MemCollections_default :: MemCollections where
  "MemCollections_default =
     \<lparr>kafka_topics = [], query_pools = [], namespaces = [], tables = [], columns = [],
      sequencers = [], partitions = [], tombstones = [], parquet_files = [],
      processed_tombstones = []\<rparr>"

type_synonym 'a cat_method = "(Error, MemCollections, 'a) call"

text \<open>\<open>len as i64 + 1\<close>, the identifier a new row gets.\<close>

abbreviation next_id :: "'a list \<Rightarrow> int" where
  "next_id xs \<equiv> int (length xs) + 1"

section \<open>Kafka topics and query pools\<close>

definition kafka_topics_create_or_get :: "string \<Rightarrow> KafkaTopic cat_method" where
  "kafka_topics_create_or_get name s =
     (case find (\<lambda>t. kt_name t = name) (kafka_topics s) of
        Some t \<Rightarrow> (Ok t, s)
      | None \<Rightarrow>
          (let topic = \<lparr>kt_id = KafkaTopicId (next_id (kafka_topics s)), kt_name = name\<rparr>
           in (Ok topic, s\<lparr>kafka_topics := kafka_topics s @ [topic]\<rparr>)))"

definition kafka_topics_get_by_name :: "string \<Rightarrow> KafkaTopic option cat_method" where
  "kafka_topics_get_by_name name s = (Ok (find (\<lambda>t. kt_name t = name) (kafka_topics s)), s)"

definition query_pools_create_or_get :: "string \<Rightarrow> QueryPool cat_method" where
  "query_pools_create_or_get name s =
     (case find (\<lambda>t. qp_name t = name) (query_pools s) of
        Some t \<Rightarrow> (Ok t, s)
      | None \<Rightarrow>
          (let pool = \<lparr>qp_id = QueryPoolId (next_id (query_pools s)), qp_name = name\<rparr>
           in (Ok pool, s\<lparr>query_pools := query_pools s @ [pool]\<rparr>)))"

section \<open>Namespaces\<close>

definition namespaces_create ::
    "string \<Rightarrow> string \<Rightarrow> KafkaTopicId \<Rightarrow> QueryPoolId \<Rightarrow> Namespace cat_method" where
  "namespaces_create name retention_duration kafka_topic_id query_pool_id s =
     (if \<exists>n\<in>set (namespaces s). ns_name n = name then (Err (Error_NameExists name), s)
      else
        (let namespace =
               \<lparr>ns_id = NamespaceId (next_id (namespaces s)), ns_name = name,
                ns_retention_duration = Some retention_duration,
                ns_kafka_topic_id = kafka_topic_id, ns_query_pool_id = query_pool_id,
                ns_max_tables = 10000, ns_max_columns_per_table = 1000\<rparr>
         in (Ok namespace, s\<lparr>namespaces := namespaces s @ [namespace]\<rparr>)))"

definition namespaces_list :: "Namespace list cat_method" where
  "namespaces_list s = (Ok (namespaces s), s)"

definition namespaces_get_by_id :: "NamespaceId \<Rightarrow> Namespace option cat_method" where
  "namespaces_get_by_id i s = (Ok (find (\<lambda>n. ns_id n = i) (namespaces s)), s)"

definition namespaces_get_by_name :: "string \<Rightarrow> Namespace option cat_method" where
  "namespaces_get_by_name name s = (Ok (find (\<lambda>n. ns_name n = name) (namespaces s)), s)"

definition namespaces_update_table_limit :: "string \<Rightarrow> int \<Rightarrow> Namespace cat_method" where
  "namespaces_update_table_limit name new_max s =
     (case find (\<lambda>n. ns_name n = name) (namespaces s) of
        Some n \<Rightarrow>
          (Ok (n\<lparr>ns_max_tables := new_max\<rparr>),
           s\<lparr>namespaces :=
               update_first (\<lambda>n. ns_name n = name) (ns_max_tables_update (\<lambda>_. new_max))
                 (namespaces s)\<rparr>)
      | None \<Rightarrow> (Err (Error_NamespaceNotFoundByName name), s))"

definition namespaces_update_column_limit :: "string \<Rightarrow> int \<Rightarrow> Namespace cat_method" where
  "namespaces_update_column_limit name new_max s =
     (case find (\<lambda>n. ns_name n = name) (namespaces s) of
        Some n \<Rightarrow>
          (Ok (n\<lparr>ns_max_columns_per_table := new_max\<rparr>),
           s\<lparr>namespaces :=
               update_first (\<lambda>n. ns_name n = name) (ns_max_columns_per_table_update (\<lambda>_. new_max))
                 (namespaces s)\<rparr>)
      | None \<Rightarrow> (Err (Error_NamespaceNotFoundByName name), s))"

section \<open>Tables\<close>

text \<open>
  The limit is compared with \<open>max_tables.try_into().unwrap()\<close>, a conversion from \<open>i32\<close> to
  \<open>usize\<close> that panics on a negative limit.
\<close>

definition tables_create_or_get :: "string \<Rightarrow> NamespaceId \<Rightarrow> Table cat_method" where
  "tables_create_or_get name namespace_id s =
     (case find (\<lambda>n. ns_id n = namespace_id) (namespaces s) of
        None \<Rightarrow> (Err (Error_NamespaceNotFoundByName []), s)
      | Some n \<Rightarrow>
          (let tables_count = length (filter (\<lambda>t. tbl_namespace_id t = namespace_id) (tables s))
           in if ns_max_tables n < 0 then (Panic, s)
              else if int tables_count \<ge> ns_max_tables n
              then (Err (Error_TableCreateLimitError name namespace_id), s)
              else
                (case find (\<lambda>t. tbl_name t = name \<and> tbl_namespace_id t = namespace_id) (tables s) of
                   Some t \<Rightarrow> (Ok t, s)
                 | None \<Rightarrow>
                     (let table = \<lparr>tbl_id = TableId (next_id (tables s)),
                                   tbl_namespace_id = namespace_id, tbl_name = name\<rparr>
                      in (Ok table, s\<lparr>tables := tables s @ [table]\<rparr>)))))"

definition tables_get_by_id :: "TableId \<Rightarrow> Table option cat_method" where
  "tables_get_by_id table_id s = (Ok (find (\<lambda>t. tbl_id t = table_id) (tables s)), s)"

definition tables_get_by_namespace_and_name :: "NamespaceId \<Rightarrow> string \<Rightarrow> Table option cat_method" where
  "tables_get_by_namespace_and_name namespace_id name s =
     (Ok (find (\<lambda>t. tbl_namespace_id t = namespace_id \<and> tbl_name t = name) (tables s)), s)"

definition tables_list_by_namespace_id :: "NamespaceId \<Rightarrow> Table list cat_method" where
  "tables_list_by_namespace_id namespace_id s =
     (Ok (filter (\<lambda>t. tbl_namespace_id t = namespace_id) (tables s)), s)"

definition tables_list :: "Table list cat_method" where
  "tables_list s = (Ok (tables s), s)"

record TablePersistInfo =
  tpi_sequencer_id :: SequencerId
  tpi_table_id :: TableId
  tpi_tombstone_max_sequence_number :: "SequenceNumber option"

fun max_of :: "'a::linorder list \<Rightarrow> 'a option" where
  "max_of [] = None"
| "max_of (x # xs) = Some (fold max xs x)"

definition tables_get_table_persist_info ::
    "SequencerId \<Rightarrow> NamespaceId \<Rightarrow> string \<Rightarrow> TablePersistInfo option cat_method" where
  "tables_get_table_persist_info sequencer_id namespace_id table_name s =
     (case find (\<lambda>t. tbl_name t = table_name \<and> tbl_namespace_id t = namespace_id) (tables s) of
        Some table \<Rightarrow>
          (Ok (Some
             \<lparr>tpi_sequencer_id = sequencer_id, tpi_table_id = tbl_id table,
              tpi_tombstone_max_sequence_number =
                max_of (map ts_sequence_number
                  (filter (\<lambda>t. ts_sequencer_id t = sequencer_id \<and> ts_table_id t = tbl_id table)
                    (tombstones s)))\<rparr>), s)
      | None \<Rightarrow> (Ok None, s))"

section \<open>Columns\<close>

definition columns_create_or_get :: "string \<Rightarrow> TableId \<Rightarrow> ColumnType \<Rightarrow> Column cat_method" where
  "columns_create_or_get name table_id column_type s =
     (case find (\<lambda>t. tbl_id t = table_id) (tables s) of
        None \<Rightarrow> (Err (Error_TableNotFound table_id), s)
      | Some t \<Rightarrow>
     (case find (\<lambda>n. ns_id n = tbl_namespace_id t) (namespaces s) of
        None \<Rightarrow> (Err (Error_NamespaceNotFoundByName []), s)
      | Some n \<Rightarrow>
          (let columns_count = length (filter (\<lambda>c. col_table_id c = table_id) (columns s))
           in if ns_max_columns_per_table n < 0 then (Panic, s)
              else if int columns_count \<ge> ns_max_columns_per_table n
              then (Err (Error_ColumnCreateLimitError name table_id), s)
              else
                (case find (\<lambda>c. col_name c = name \<and> col_table_id c = table_id) (columns s) of
                   Some c \<Rightarrow>
                     (if ColumnType_as_i16 column_type \<noteq> col_column_type c
                      then (case ColumnType_try_from (col_column_type c) of
                              Some existing \<Rightarrow>
                                (Err (Error_ColumnTypeMismatch name (ColumnType_as_str existing)
                                   (ColumnType_as_str column_type)), s)
                            | None \<Rightarrow> (Panic, s))
                      else (Ok c, s))
                 | None \<Rightarrow>
                     (let column = \<lparr>col_id = ColumnId (next_id (columns s)),
                                    col_table_id = table_id, col_name = name,
                                    col_column_type = ColumnType_as_i16 column_type\<rparr>
                      in (Ok column, s\<lparr>columns := columns s @ [column]\<rparr>))))))"

record ColumnUpsertRequest =
  cur_name :: string
  cur_table_id :: TableId
  cur_column_type :: ColumnType

text \<open>The upserts run one after the other; the first that fails ends the call and keeps the earlier
  ones.\<close>

fun columns_create_or_get_many :: "ColumnUpsertRequest list \<Rightarrow> Column list cat_method" where
  "columns_create_or_get_many [] s = (Ok [], s)"
| "columns_create_or_get_many (c # cs) s =
     m_bind (columns_create_or_get (cur_name c) (cur_table_id c) (cur_column_type c))
       (\<lambda>x. m_bind (columns_create_or_get_many cs) (\<lambda>xs. m_return (x # xs))) s"

definition columns_list_by_namespace_id :: "NamespaceId \<Rightarrow> Column list cat_method" where
  "columns_list_by_namespace_id namespace_id s =
     (let table_ids = map tbl_id (filter (\<lambda>t. tbl_namespace_id t = namespace_id) (tables s))
      in (Ok (filter (\<lambda>c. col_table_id c \<in> set table_ids) (columns s)), s))"

definition columns_list_by_table_id :: "TableId \<Rightarrow> Column list cat_method" where
  "columns_list_by_table_id table_id s =
     (Ok (filter (\<lambda>c. col_table_id c = table_id) (columns s)), s)"

definition columns_list :: "Column list cat_method" where
  "columns_list s = (Ok (columns s), s)"

section \<open>Sequencers\<close>

definition sequencers_create_or_get :: "KafkaTopic \<Rightarrow> KafkaPartition \<Rightarrow> Sequencer cat_method" where
  "sequencers_create_or_get topic part s =
     (case find (\<lambda>q. sq_kafka_topic_id q = kt_id topic \<and> sq_kafka_partition q = part)
            (sequencers s) of
        Some t \<Rightarrow> (Ok t, s)
      | None \<Rightarrow>
          (let sequencer = \<lparr>sq_id = SequencerId (next_id (sequencers s)),
                            sq_kafka_topic_id = kt_id topic, sq_kafka_partition = part,
                            sq_min_unpersisted_sequence_number = SequenceNumber 0\<rparr>
           in (Ok sequencer, s\<lparr>sequencers := sequencers s @ [sequencer]\<rparr>)))"

definition sequencers_get_by_topic_id_and_partition ::
    "KafkaTopicId \<Rightarrow> KafkaPartition \<Rightarrow> Sequencer option cat_method" where
  "sequencers_get_by_topic_id_and_partition topic_id part s =
     (Ok (find (\<lambda>q. sq_kafka_topic_id q = topic_id \<and> sq_kafka_partition q = part)
            (sequencers s)), s)"

definition sequencers_list :: "Sequencer list cat_method" where
  "sequencers_list s = (Ok (sequencers s), s)"

definition sequencers_list_by_kafka_topic :: "KafkaTopic \<Rightarrow> Sequencer list cat_method" where
  "sequencers_list_by_kafka_topic topic s =
     (Ok (filter (\<lambda>q. sq_kafka_topic_id q = kt_id topic) (sequencers s)), s)"

definition sequencers_update_min_unpersisted_sequence_number ::
    "SequencerId \<Rightarrow> SequenceNumber \<Rightarrow> unit cat_method" where
  "sequencers_update_min_unpersisted_sequence_number sequencer_id sequence_number s =
     (Ok (), s\<lparr>sequencers :=
        update_first (\<lambda>q. sq_id q = sequencer_id)
          (sq_min_unpersisted_sequence_number_update (\<lambda>_. sequence_number)) (sequencers s)\<rparr>)"

section \<open>Partitions\<close>

definition partitions_create_or_get ::
    "PartitionKey \<Rightarrow> SequencerId \<Rightarrow> TableId \<Rightarrow> Partition cat_method" where
  "partitions_create_or_get key sequencer_id table_id s =
     (case find (\<lambda>p. pt_partition_key p = key \<and> pt_sequencer_id p = sequencer_id
                     \<and> pt_table_id p = table_id) (partitions s) of
        Some p \<Rightarrow> (Ok p, s)
      | None \<Rightarrow>
          (let p = \<lparr>pt_id = PartitionId (next_id (partitions s)), pt_sequencer_id = sequencer_id,
                    pt_table_id = table_id, pt_partition_key = key, pt_sort_key = []\<rparr>
           in (Ok p, s\<lparr>partitions := partitions s @ [p]\<rparr>)))"

definition partitions_get_by_id :: "PartitionId \<Rightarrow> Partition option cat_method" where
  "partitions_get_by_id partition_id s =
     (Ok (find (\<lambda>p. pt_id p = partition_id) (partitions s)), s)"

definition partitions_list_by_sequencer :: "SequencerId \<Rightarrow> Partition list cat_method" where
  "partitions_list_by_sequencer sequencer_id s =
     (Ok (filter (\<lambda>p. pt_sequencer_id p = sequencer_id) (partitions s)), s)"

text \<open>The set of identifiers of the tables of a namespace.\<close>

definition table_ids_of :: "NamespaceId \<Rightarrow> MemCollections \<Rightarrow> TableId set" where
  "table_ids_of namespace_id s =
     set (map tbl_id (filter (\<lambda>t. tbl_namespace_id t = namespace_id) (tables s)))"

definition partitions_list_by_namespace :: "NamespaceId \<Rightarrow> Partition list cat_method" where
  "partitions_list_by_namespace namespace_id s =
     (Ok (filter (\<lambda>p. pt_table_id p \<in> table_ids_of namespace_id s) (partitions s)), s)"

definition partitions_list_by_table_id :: "TableId \<Rightarrow> Partition list cat_method" where
  "partitions_list_by_table_id table_id s =
     (Ok (filter (\<lambda>p. pt_table_id p = table_id) (partitions s)), s)"

definition partitions_partition_info_by_id :: "PartitionId \<Rightarrow> PartitionInfo option cat_method" where
  "partitions_partition_info_by_id partition_id s =
     (case find (\<lambda>p. pt_id p = partition_id) (partitions s) of
        None \<Rightarrow> (Ok None, s)
      | Some part \<Rightarrow>
     (case find (\<lambda>t. tbl_id t = pt_table_id part) (tables s) of
        None \<Rightarrow> (Ok None, s)
      | Some table \<Rightarrow>
     (case find (\<lambda>n. ns_id n = tbl_namespace_id table) (namespaces s) of
        None \<Rightarrow> (Ok None, s)
      | Some namespace \<Rightarrow>
          (Ok (Some \<lparr>pi_partition = part, pi_namespace_name = ns_name namespace,
                     pi_table_name = tbl_name table\<rparr>), s))))"

definition partitions_update_sort_key :: "PartitionId \<Rightarrow> string list \<Rightarrow> Partition cat_method" where
  "partitions_update_sort_key partition_id sort_key' s =
     (case find (\<lambda>p. pt_id p = partition_id) (partitions s) of
        Some p \<Rightarrow>
          (Ok (p\<lparr>pt_sort_key := sort_key'\<rparr>),
           s\<lparr>partitions :=
               update_first (\<lambda>p. pt_id p = partition_id) (pt_sort_key_update (\<lambda>_. sort_key'))
                 (partitions s)\<rparr>)
      | None \<Rightarrow> (Err (Error_PartitionNotFound partition_id), s))"

section \<open>Tombstones\<close>

definition tombstones_create_or_get ::
    "TableId \<Rightarrow> SequencerId \<Rightarrow> SequenceNumber \<Rightarrow> Timestamp \<Rightarrow> Timestamp \<Rightarrow> string
       \<Rightarrow> Tombstone cat_method" where
  "tombstones_create_or_get table_id sequencer_id sequence_number min_time max_time predicate s =
     (case find (\<lambda>t. ts_table_id t = table_id \<and> ts_sequencer_id t = sequencer_id
                     \<and> ts_sequence_number t = sequence_number) (tombstones s) of
        Some t \<Rightarrow> (Ok t, s)
      | None \<Rightarrow>
          (let t = \<lparr>ts_id = TombstoneId (next_id (tombstones s)), ts_table_id = table_id,
                    ts_sequencer_id = sequencer_id, ts_sequence_number = sequence_number,
                    ts_min_time = min_time, ts_max_time = max_time,
                    ts_serialized_predicate = predicate\<rparr>
           in (Ok t, s\<lparr>tombstones := tombstones s @ [t]\<rparr>)))"

definition tombstones_list_by_namespace :: "NamespaceId \<Rightarrow> Tombstone list cat_method" where
  "tombstones_list_by_namespace namespace_id s =
     (Ok (filter (\<lambda>t. ts_table_id t \<in> table_ids_of namespace_id s) (tombstones s)), s)"

definition tombstones_list_by_table :: "TableId \<Rightarrow> Tombstone list cat_method" where
  "tombstones_list_by_table table_id s =
     (Ok (filter (\<lambda>t. ts_table_id t = table_id) (tombstones s)), s)"

definition tombstones_get_by_id :: "TombstoneId \<Rightarrow> Tombstone option cat_method" where
  "tombstones_get_by_id i s = (Ok (find (\<lambda>t. ts_id t = i) (tombstones s)), s)"

definition tombstones_list_tombstones_by_sequencer_greater_than ::
    "SequencerId \<Rightarrow> SequenceNumber \<Rightarrow> Tombstone list cat_method" where
  "tombstones_list_tombstones_by_sequencer_greater_than sequencer_id sequence_number s =
     (Ok (filter (\<lambda>t. ts_sequencer_id t = sequencer_id \<and> ts_sequence_number t > sequence_number)
            (tombstones s)), s)"

definition tombstones_remove :: "TombstoneId list \<Rightarrow> unit cat_method" where
  "tombstones_remove tombstone_ids s =
     (let s1 = s\<lparr>processed_tombstones :=
                   filter (\<lambda>pt. \<not> (\<exists>i\<in>set tombstone_ids. i = pts_tombstone_id pt))
                     (processed_tombstones s)\<rparr>;
          s2 = s1\<lparr>tombstones :=
                   filter (\<lambda>ts. \<not> (\<exists>i\<in>set tombstone_ids. i = ts_id ts)) (tombstones s1)\<rparr>
      in (Ok (), s2))"

text \<open>
  The test for overlapping times that the catalog writes out five times, on the bounds of a row and
  the bounds of the request.
\<close>

definition time_overlaps :: "Timestamp \<Rightarrow> Timestamp \<Rightarrow> Timestamp \<Rightarrow> Timestamp \<Rightarrow> bool" where
  "time_overlaps row_min row_max min_time max_time \<longleftrightarrow>
     (row_min \<le> min_time \<and> row_max \<ge> min_time) \<or> (row_min > min_time \<and> row_min \<le> max_time)"

definition tombstones_list_tombstones_for_time_range ::
    "SequencerId \<Rightarrow> TableId \<Rightarrow> SequenceNumber \<Rightarrow> Timestamp \<Rightarrow> Timestamp \<Rightarrow> Tombstone list cat_method" where
  "tombstones_list_tombstones_for_time_range sequencer_id table_id sequence_number min_time max_time s =
     (Ok (filter (\<lambda>t. ts_sequencer_id t = sequencer_id \<and> ts_table_id t = table_id
                      \<and> ts_sequence_number t > sequence_number
                      \<and> time_overlaps (ts_min_time t) (ts_max_time t) min_time max_time)
            (tombstones s)), s)"

section \<open>Parquet files\<close>

definition parquet_files_create :: "ParquetFileParams \<Rightarrow> ParquetFile cat_method" where
  "parquet_files_create p s =
     (if \<exists>f\<in>set (parquet_files s). pf_object_store_id f = pfp_object_store_id p
      then (Err (Error_FileExists (pfp_object_store_id p)), s)
      else
        (let parquet_file =
               \<lparr>pf_id = ParquetFileId (next_id (parquet_files s)),
                pf_sequencer_id = pfp_sequencer_id p, pf_namespace_id = pfp_namespace_id p,
                pf_table_id = pfp_table_id p, pf_partition_id = pfp_partition_id p,
                pf_object_store_id = pfp_object_store_id p,
                pf_max_sequence_number = pfp_max_sequence_number p,
                pf_min_time = pfp_min_time p, pf_max_time = pfp_max_time p, pf_to_delete = None,
                pf_file_size_bytes = pfp_file_size_bytes p, pf_row_count = pfp_row_count p,
                pf_compaction_level = pfp_compaction_level p, pf_created_at = pfp_created_at p,
                pf_column_set = pfp_column_set p\<rparr>
         in (Ok parquet_file, s\<lparr>parquet_files := parquet_files s @ [parquet_file]\<rparr>)))"

text \<open>The parameter \<open>now\<close> is the time provider's current time in nanoseconds.\<close>

definition parquet_files_flag_for_delete :: "int \<Rightarrow> ParquetFileId \<Rightarrow> unit cat_method" where
  "parquet_files_flag_for_delete now i s =
     (let marked_at = Timestamp now
      in case find (\<lambda>p. pf_id p = i) (parquet_files s) of
           Some f \<Rightarrow>
             (Ok (), s\<lparr>parquet_files :=
                update_first (\<lambda>p. pf_id p = i) (pf_to_delete_update (\<lambda>_. Some marked_at))
                  (parquet_files s)\<rparr>)
         | None \<Rightarrow> (Err (Error_ParquetRecordNotFound i), s))"

definition parquet_files_list_by_sequencer_greater_than ::
    "SequencerId \<Rightarrow> SequenceNumber \<Rightarrow> ParquetFile list cat_method" where
  "parquet_files_list_by_sequencer_greater_than sequencer_id sequence_number s =
     (Ok (filter (\<lambda>f. pf_sequencer_id f = sequencer_id \<and> pf_max_sequence_number f > sequence_number)
            (parquet_files s)), s)"

definition parquet_files_list_by_namespace_not_to_delete ::
    "NamespaceId \<Rightarrow> ParquetFile list cat_method" where
  "parquet_files_list_by_namespace_not_to_delete namespace_id s =
     (Ok (filter (\<lambda>f. pf_table_id f \<in> table_ids_of namespace_id s \<and> pf_to_delete f = None)
            (parquet_files s)), s)"

definition parquet_files_list_by_table_not_to_delete :: "TableId \<Rightarrow> ParquetFile list cat_method" where
  "parquet_files_list_by_table_not_to_delete table_id s =
     (Ok (filter (\<lambda>f. table_id = pf_table_id f \<and> pf_to_delete f = None) (parquet_files s)), s)"

definition parquet_files_delete_old :: "Timestamp \<Rightarrow> ParquetFile list cat_method" where
  "parquet_files_delete_old older_than s =
     (let (delete, keep) =
            partition (\<lambda>f. case pf_to_delete f of
                             Some marked_deleted \<Rightarrow> marked_deleted < older_than
                           | None \<Rightarrow> False) (parquet_files s)
      in (Ok delete, s\<lparr>parquet_files := keep\<rparr>))"

definition parquet_files_level_0 :: "SequencerId \<Rightarrow> ParquetFile list cat_method" where
  "parquet_files_level_0 sequencer_id s =
     (Ok (filter (\<lambda>f. pf_sequencer_id f = sequencer_id
                      \<and> pf_compaction_level f = CompactionLevel_Initial \<and> pf_to_delete f = None)
            (parquet_files s)), s)"

definition parquet_files_level_1 ::
    "TablePartition \<Rightarrow> Timestamp \<Rightarrow> Timestamp \<Rightarrow> ParquetFile list cat_method" where
  "parquet_files_level_1 table_partition min_time max_time s =
     (Ok (filter (\<lambda>f. pf_sequencer_id f = tp_sequencer_id table_partition
                      \<and> pf_table_id f = tp_table_id table_partition
                      \<and> pf_partition_id f = tp_partition_id table_partition
                      \<and> pf_compaction_level f = CompactionLevel_FileNonOverlapped
                      \<and> pf_to_delete f = None
                      \<and> time_overlaps (pf_min_time f) (pf_max_time f) min_time max_time)
            (parquet_files s)), s)"

definition PartitionParam_of :: "ParquetFile \<Rightarrow> PartitionParam" where
  "PartitionParam_of pf =
     \<lparr>pp_partition_id = pf_partition_id pf, pp_sequencer_id = pf_sequencer_id pf,
      pp_namespace_id = pf_namespace_id pf, pp_table_id = pf_table_id pf\<rparr>"

text \<open>
  \<open>*entry(k).or_insert(0) += 1\<close> on a hash map.  The map is an association list in order of first
  insertion; the order in which the map is iterated is chosen by the hasher, the parameter
  \<open>hash_order\<close> of the two methods below.
\<close>

fun hm_bump :: "'k \<Rightarrow> ('k \<times> nat) list \<Rightarrow> ('k \<times> nat) list" where
  "hm_bump k [] = [(k, 1)]"
| "hm_bump k ((k', n) # m) = (if k = k' then (k', n + 1) # m else (k', n) # hm_bump k m)"

definition duplicate_count :: "'k list \<Rightarrow> ('k \<times> nat) list" where
  "duplicate_count ks = fold hm_bump ks []"

text \<open>
  The parameter \<open>nanos_ago\<close> gives the time provider's current time less a number of seconds, in
  nanoseconds.
\<close>

definition parquet_files_recent_highest_throughput_partitions ::
    "(nat \<Rightarrow> int) \<Rightarrow> ((PartitionParam \<times> nat) list \<Rightarrow> (PartitionParam \<times> nat) list) \<Rightarrow>
     SequencerId \<Rightarrow> nat \<Rightarrow> nat \<Rightarrow> nat \<Rightarrow> PartitionParam list cat_method" where
  "parquet_files_recent_highest_throughput_partitions nanos_ago hash_order sequencer_id num_hours
       min_num_files num_partitions s =
     (let recent_time = Timestamp (nanos_ago (60 * 60 * num_hours));
          parts = map PartitionParam_of
            (filter (\<lambda>f. pf_sequencer_id f = sequencer_id \<and> pf_created_at f > recent_time
                         \<and> pf_compaction_level f = CompactionLevel_Initial \<and> pf_to_delete f = None)
               (parquet_files s));
          counted = filter (\<lambda>(_, v). v \<ge> min_num_files) (hash_order (duplicate_count parts));
          by_count = sort_key (\<lambda>(_, v). - int v) counted
      in (Ok (take num_partitions (map fst by_count)), s))"

definition hm_max_created :: "ParquetFile \<Rightarrow> (PartitionParam \<rightharpoonup> Timestamp) \<Rightarrow> PartitionParam \<rightharpoonup> Timestamp" where
  "hm_max_created pf m =
     (let key = PartitionParam_of pf;
          max_created_at = (case m key of None \<Rightarrow> pf_created_at pf | Some t \<Rightarrow> t)
      in m(key \<mapsto> (if pf_created_at pf > max_created_at then pf_created_at pf else max_created_at)))"

definition parquet_files_most_level_0_files_partitions ::
    "(nat \<Rightarrow> int) \<Rightarrow> ((PartitionParam \<times> nat) list \<Rightarrow> (PartitionParam \<times> nat) list) \<Rightarrow>
     SequencerId \<Rightarrow> nat \<Rightarrow> nat \<Rightarrow> PartitionParam list cat_method" where
  "parquet_files_most_level_0_files_partitions nanos_ago hash_order sequencer_id
       older_than_num_hours num_partitions s =
     (let older_than = Timestamp (nanos_ago (60 * 60 * older_than_num_hours));
          relevant = filter (\<lambda>f. pf_sequencer_id f = sequencer_id
                                 \<and> pf_compaction_level f = CompactionLevel_Initial
                                 \<and> pf_to_delete f = None) (parquet_files s);
          counts = hash_order (duplicate_count (map PartitionParam_of relevant));
          max_created = fold hm_max_created relevant Map.empty
      in if \<exists>(k, _)\<in>set counts. max_created k = None then (Panic, s)
         else
           (let older = filter (\<lambda>(k, _). the (max_created k) < older_than) counts;
                by_count = sort_key (\<lambda>(_, v). - int v) older
            in (Ok (take num_partitions (map fst by_count)), s)))"

definition parquet_files_list_by_partition_not_to_delete ::
    "PartitionId \<Rightarrow> ParquetFile list cat_method" where
  "parquet_files_list_by_partition_not_to_delete partition_id s =
     (Ok (filter (\<lambda>f. pf_partition_id f = partition_id \<and> pf_to_delete f = None)
            (parquet_files s)), s)"

definition parquet_files_update_to_level_1 :: "ParquetFileId list \<Rightarrow> ParquetFileId list cat_method" where
  "parquet_files_update_to_level_1 parquet_file_ids s =
     (Ok (map pf_id (filter (\<lambda>p. pf_id p \<in> set parquet_file_ids) (parquet_files s))),
      s\<lparr>parquet_files :=
          map (\<lambda>p. if pf_id p \<in> set parquet_file_ids
                   then p\<lparr>pf_compaction_level := CompactionLevel_FileNonOverlapped\<rparr> else p)
            (parquet_files s)\<rparr>)"

definition parquet_files_exist :: "ParquetFileId \<Rightarrow> bool cat_method" where
  "parquet_files_exist i s = (Ok (\<exists>f\<in>set (parquet_files s). pf_id f = i), s)"

text \<open>\<open>i64::try_from(count)\<close>, whose failure is reported as an invalid value.\<close>

definition count_to_i64 :: "nat \<Rightarrow> (Error, int) res" where
  "count_to_i64 n = (if int n \<le> i64_max then Ok (int n) else Err (Error_InvalidValue n))"

definition parquet_files_count :: "int cat_method" where
  "parquet_files_count s = (count_to_i64 (length (parquet_files s)), s)"

definition parquet_files_count_by_overlaps_with_level_0 ::
    "TableId \<Rightarrow> SequencerId \<Rightarrow> Timestamp \<Rightarrow> Timestamp \<Rightarrow> SequenceNumber \<Rightarrow> int cat_method" where
  "parquet_files_count_by_overlaps_with_level_0 table_id sequencer_id min_time max_time
       sequence_number s =
     (count_to_i64 (length
        (filter (\<lambda>f. pf_sequencer_id f = sequencer_id \<and> pf_table_id f = table_id
                     \<and> pf_max_sequence_number f < sequence_number \<and> pf_to_delete f = None
                     \<and> pf_compaction_level f = CompactionLevel_Initial
                     \<and> time_overlaps (pf_min_time f) (pf_max_time f) min_time max_time)
           (parquet_files s))), s)"

definition parquet_files_count_by_overlaps_with_level_1 ::
    "TableId \<Rightarrow> SequencerId \<Rightarrow> Timestamp \<Rightarrow> Timestamp \<Rightarrow> int cat_method" where
  "parquet_files_count_by_overlaps_with_level_1 table_id sequencer_id min_time max_time s =
     (count_to_i64 (length
        (filter (\<lambda>f. pf_sequencer_id f = sequencer_id \<and> pf_table_id f = table_id
                     \<and> pf_to_delete f = None
                     \<and> pf_compaction_level f = CompactionLevel_FileNonOverlapped
                     \<and> time_overlaps (pf_min_time f) (pf_max_time f) min_time max_time)
           (parquet_files s))), s)"

definition parquet_files_get_by_object_store_id :: "Uuid \<Rightarrow> ParquetFile option cat_method" where
  "parquet_files_get_by_object_store_id object_store_id s =
     (Ok (find (\<lambda>f. pf_object_store_id f = object_store_id) (parquet_files s)), s)"

section \<open>Processed tombstones\<close>

definition processed_tombstones_create ::
    "ParquetFileId \<Rightarrow> TombstoneId \<Rightarrow> ProcessedTombstone cat_method" where
  "processed_tombstones_create parquet_file_id tombstone_id s =
     (if \<not> (\<exists>f\<in>set (parquet_files s). pf_id f = parquet_file_id)
      then (Err (Error_FileNotFound (ParquetFileId_get parquet_file_id)), s)
      else if \<not> (\<exists>t\<in>set (tombstones s). ts_id t = tombstone_id)
      then (Err (Error_TombstoneNotFound (TombstoneId_get tombstone_id)), s)
      else if \<exists>pt\<in>set (processed_tombstones s).
                pts_tombstone_id pt = tombstone_id \<and> pts_parquet_file_id pt = parquet_file_id
      then (Err (Error_ProcessTombstoneExists (TombstoneId_get tombstone_id)
              (ParquetFileId_get parquet_file_id)), s)
      else
        (let pt = \<lparr>pts_tombstone_id = tombstone_id, pts_parquet_file_id = parquet_file_id\<rparr>
         in (Ok pt, s\<lparr>processed_tombstones := processed_tombstones s @ [pt]\<rparr>)))"

definition processed_tombstones_exist :: "ParquetFileId \<Rightarrow> TombstoneId \<Rightarrow> bool cat_method" where
  "processed_tombstones_exist parquet_file_id tombstone_id s =
     (Ok (\<exists>f\<in>set (processed_tombstones s).
            pts_parquet_file_id f = parquet_file_id \<and> pts_tombstone_id f = tombstone_id), s)"

definition processed_tombstones_count :: "int cat_method" where
  "processed_tombstones_count s = (count_to_i64 (length (processed_tombstones s)), s)"

definition processed_tombstones_count_by_tombstone_id :: "TombstoneId \<Rightarrow> int cat_method" where
  "processed_tombstones_count_by_tombstone_id tombstone_id s =
     (count_to_i64 (length
        (filter (\<lambda>p. pts_tombstone_id p = tombstone_id) (processed_tombstones s))), s)"

end
