(* ===== verification/Catalog_Inv.thy ===== *)
theory Catalog_Inv
  imports Mem_Catalog
begin

text \<open>
  The invariant of the in-memory catalog and the step relation of its writing methods.  Identifiers
  of the collections that are only appended to are \<open>1, 2, \<dots>\<close> in order, every uniqueness rule that
  the traits document holds, and the references that the methods check are never left dangling.
\<close>

section \<open>The invariant\<close>

definition ids_ok :: "int list \<Rightarrow> bool" where
  "ids_ok is \<longleftrightarrow> is = map (\<lambda>i. int i + 1) [0..<length is]"

lemma ids_ok_Nil [simp]: "ids_ok []"
  by (simp add: ids_ok_def)

lemma ids_ok_snoc [simp]: "ids_ok (is @ [x]) \<longleftrightarrow> ids_ok is \<and> x = int (length is) + 1"
  unfolding ids_ok_def by auto

lemma ids_ok_distinct: "ids_ok is \<Longrightarrow> distinct is"
  unfolding ids_ok_def by (metis (mono_tags, lifting) distinct_map distinct_upt inj_onI
      add_right_cancel of_nat_eq_iff)

definition topics_wf :: "MemCollections \<Rightarrow> bool" where
  "topics_wf s \<longleftrightarrow> ids_ok (map (\<lambda>t. KafkaTopicId_get (kt_id t)) (kafka_topics s))
     \<and> distinct (map kt_name (kafka_topics s))"

definition pools_wf :: "MemCollections \<Rightarrow> bool" where
  "pools_wf s \<longleftrightarrow> ids_ok (map (\<lambda>t. QueryPoolId_get (qp_id t)) (query_pools s))
     \<and> distinct (map qp_name (query_pools s))"

definition namespaces_wf :: "MemCollections \<Rightarrow> bool" where
  "namespaces_wf s \<longleftrightarrow> ids_ok (map (\<lambda>n. NamespaceId_get (ns_id n)) (namespaces s))
     \<and> distinct (map ns_name (namespaces s))"

definition tables_wf :: "MemCollections \<Rightarrow> bool" where
  "tables_wf s \<longleftrightarrow> ids_ok (map (\<lambda>t. TableId_get (tbl_id t)) (tables s))
     \<and> distinct (map (\<lambda>t. (tbl_namespace_id t, tbl_name t)) (tables s))
     \<and> tbl_namespace_id ` set (tables s) \<subseteq> ns_id ` set (namespaces s)"

definition columns_wf :: "MemCollections \<Rightarrow> bool" where
  "columns_wf s \<longleftrightarrow> ids_ok (map (\<lambda>c. ColumnId_get (col_id c)) (columns s))
     \<and> distinct (map (\<lambda>c. (col_table_id c, col_name c)) (columns s))
     \<and> col_table_id ` set (columns s) \<subseteq> tbl_id ` set (tables s)
     \<and> (\<forall>c\<in>set (columns s). ColumnType_try_from (col_column_type c) \<noteq> None)"

definition sequencers_wf :: "MemCollections \<Rightarrow> bool" where
  "sequencers_wf s \<longleftrightarrow> ids_ok (map (\<lambda>q. SequencerId_get (sq_id q)) (sequencers s))
     \<and> distinct (map (\<lambda>q. (sq_kafka_topic_id q, sq_kafka_partition q)) (sequencers s))"

definition partitions_wf :: "MemCollections \<Rightarrow> bool" where
  "partitions_wf s \<longleftrightarrow> ids_ok (map (\<lambda>p. PartitionId_get (pt_id p)) (partitions s))
     \<and> distinct (map (\<lambda>p. (pt_partition_key p, pt_sequencer_id p, pt_table_id p)) (partitions s))"

definition tombstones_wf :: "MemCollections \<Rightarrow> bool" where
  "tombstones_wf s \<longleftrightarrow>
     distinct (map (\<lambda>t. (ts_table_id t, ts_sequencer_id t, ts_sequence_number t)) (tombstones s))"

definition parquet_files_wf :: "MemCollections \<Rightarrow> bool" where
  "parquet_files_wf s \<longleftrightarrow> distinct (map pf_object_store_id (parquet_files s))"

definition processed_wf :: "MemCollections \<Rightarrow> bool" where
  "processed_wf s \<longleftrightarrow> distinct (processed_tombstones s)
     \<and> pts_tombstone_id ` set (processed_tombstones s) \<subseteq> ts_id ` set (tombstones s)"

definition cat_wf :: "MemCollections \<Rightarrow> bool" where
  "cat_wf s \<longleftrightarrow> topics_wf s \<and> pools_wf s \<and> namespaces_wf s \<and> tables_wf s \<and> columns_wf s
     \<and> sequencers_wf s \<and> partitions_wf s \<and> tombstones_wf s \<and> parquet_files_wf s \<and> processed_wf s"

lemmas wf_parts =
  topics_wf_def pools_wf_def namespaces_wf_def tables_wf_def columns_wf_def sequencers_wf_def
  partitions_wf_def tombstones_wf_def parquet_files_wf_def processed_wf_def

lemma cat_wf_default: "cat_wf MemCollections_default"
  by (simp add: cat_wf_def wf_parts MemCollections_default_def)

section \<open>Every method preserves the invariant\<close>

named_theorems wf_steps

lemma find_None_notin: "find (\<lambda>x. f x = k) xs = None \<Longrightarrow> k \<notin> f ` set xs"
  by (auto simp: find_None_iff)

lemma kafka_topics_create_or_get_wf [wf_steps]:
  "cat_wf s \<Longrightarrow> cat_wf (snd (kafka_topics_create_or_get name s))"
  by (auto simp: cat_wf_def wf_parts kafka_topics_create_or_get_def Let_def find_None_iff
      split: option.splits)

lemma query_pools_create_or_get_wf [wf_steps]:
  "cat_wf s \<Longrightarrow> cat_wf (snd (query_pools_create_or_get name s))"
  by (auto simp: cat_wf_def wf_parts query_pools_create_or_get_def Let_def find_None_iff
      split: option.splits)

lemma namespaces_create_wf [wf_steps]:
  "cat_wf s \<Longrightarrow> cat_wf (snd (namespaces_create name ret topic pool s))"
  by (auto simp: cat_wf_def wf_parts namespaces_create_def Let_def)

lemma image_update_first [simp]: "(\<And>x. g (f x) = g x) \<Longrightarrow> g ` set (update_first p f xs) = g ` set xs"
  by (metis list.set_map map_update_first)

lemma namespaces_update_table_limit_wf [wf_steps]:
  "cat_wf s \<Longrightarrow> cat_wf (snd (namespaces_update_table_limit name m s))"
  by (auto simp: cat_wf_def wf_parts namespaces_update_table_limit_def split: option.splits)

lemma namespaces_update_column_limit_wf [wf_steps]:
  "cat_wf s \<Longrightarrow> cat_wf (snd (namespaces_update_column_limit name m s))"
  by (auto simp: cat_wf_def wf_parts namespaces_update_column_limit_def split: option.splits)

lemma tables_create_or_get_wf [wf_steps]:
  "cat_wf s \<Longrightarrow> cat_wf (snd (tables_create_or_get name ns s))"
  by (auto simp: cat_wf_def wf_parts tables_create_or_get_def Let_def find_None_iff
      dest!: find_SomeD split: option.splits)

lemma columns_create_or_get_wf [wf_steps]:
  "cat_wf s \<Longrightarrow> cat_wf (snd (columns_create_or_get name t ct s))"
  by (auto simp: cat_wf_def wf_parts columns_create_or_get_def Let_def find_None_iff
      dest!: find_SomeD split: option.splits)

lemma columns_create_or_get_many_preserves:
  "m_preserves cat_wf (columns_create_or_get_many cs)"
proof (induction cs)
  case (Cons c cs)
  have "m_preserves cat_wf
     (m_bind (columns_create_or_get (cur_name c) (cur_table_id c) (cur_column_type c))
       (\<lambda>x. m_bind (columns_create_or_get_many cs) (\<lambda>xs. m_return (x # xs))))"
    by (intro m_preserves_bind m_preserves_return Cons.IH m_preservesI columns_create_or_get_wf)
  then show ?case by (simp add: m_preserves_def)
qed (simp add: m_preserves_def)

lemma columns_create_or_get_many_wf [wf_steps]:
  "cat_wf s \<Longrightarrow> cat_wf (snd (columns_create_or_get_many cs s))"
  by (rule m_preservesD [OF columns_create_or_get_many_preserves])

lemma sequencers_create_or_get_wf [wf_steps]:
  "cat_wf s \<Longrightarrow> cat_wf (snd (sequencers_create_or_get topic part s))"
  by (auto simp: cat_wf_def wf_parts sequencers_create_or_get_def Let_def find_None_iff
      split: option.splits)

lemma sequencers_update_min_unpersisted_sequence_number_wf [wf_steps]:
  "cat_wf s \<Longrightarrow> cat_wf (snd (sequencers_update_min_unpersisted_sequence_number i n s))"
  by (auto simp: cat_wf_def wf_parts sequencers_update_min_unpersisted_sequence_number_def)

lemma partitions_create_or_get_wf [wf_steps]:
  "cat_wf s \<Longrightarrow> cat_wf (snd (partitions_create_or_get key q t s))"
  by (auto simp: cat_wf_def wf_parts partitions_create_or_get_def Let_def find_None_iff
      split: option.splits)

lemma partitions_update_sort_key_wf [wf_steps]:
  "cat_wf s \<Longrightarrow> cat_wf (snd (partitions_update_sort_key i k s))"
  by (auto simp: cat_wf_def wf_parts partitions_update_sort_key_def split: option.splits)

lemma tombstones_create_or_get_wf [wf_steps]:
  "cat_wf s \<Longrightarrow> cat_wf (snd (tombstones_create_or_get t q n mi ma p s))"
  by (auto simp: cat_wf_def wf_parts tombstones_create_or_get_def Let_def find_None_iff
      split: option.splits)

lemma distinct_map_filterI: "distinct (map f xs) \<Longrightarrow> distinct (map f (filter P xs))"
  by (simp add: distinct_map_filter)

lemma tombstones_remove_wf [wf_steps]:
  "cat_wf s \<Longrightarrow> cat_wf (snd (tombstones_remove is s))"
  by (auto simp: cat_wf_def wf_parts tombstones_remove_def Let_def intro!: distinct_map_filterI)

lemma parquet_files_create_wf [wf_steps]:
  "cat_wf s \<Longrightarrow> cat_wf (snd (parquet_files_create p s))"
  by (auto simp: cat_wf_def wf_parts parquet_files_create_def Let_def)

lemma parquet_files_flag_for_delete_wf [wf_steps]:
  "cat_wf s \<Longrightarrow> cat_wf (snd (parquet_files_flag_for_delete now i s))"
  by (auto simp: cat_wf_def wf_parts parquet_files_flag_for_delete_def Let_def split: option.splits)

lemma parquet_files_delete_old_wf [wf_steps]:
  "cat_wf s \<Longrightarrow> cat_wf (snd (parquet_files_delete_old t s))"
  by (auto simp: cat_wf_def wf_parts parquet_files_delete_old_def Let_def intro!: distinct_map_filterI)

lemma parquet_files_update_to_level_1_wf [wf_steps]:
  "cat_wf s \<Longrightarrow> cat_wf (snd (parquet_files_update_to_level_1 is s))"
proof -
  have "map pf_object_store_id
          (map (\<lambda>p. if pf_id p \<in> set is then p\<lparr>pf_compaction_level := l\<rparr> else p) fs)
        = map pf_object_store_id fs" for l and fs :: "ParquetFile list"
    by (induction fs) auto
  then show "cat_wf s \<Longrightarrow> cat_wf (snd (parquet_files_update_to_level_1 is s))"
    by (simp add: cat_wf_def wf_parts parquet_files_update_to_level_1_def del: map_map)
qed

lemma processed_tombstones_create_wf [wf_steps]:
  "cat_wf s \<Longrightarrow> cat_wf (snd (processed_tombstones_create f t s))"
  by (auto simp: cat_wf_def wf_parts processed_tombstones_create_def Let_def)

section \<open>Steps and reachable catalogs\<close>

text \<open>One rule per method of the repositories that writes; the reading methods leave the state.\<close>

inductive cat_step :: "MemCollections \<Rightarrow> MemCollections \<Rightarrow> bool" where
  step_topic: "cat_step s (snd (kafka_topics_create_or_get name s))"
| step_pool: "cat_step s (snd (query_pools_create_or_get name s))"
| step_namespace: "cat_step s (snd (namespaces_create name ret topic pool s))"
| step_table_limit: "cat_step s (snd (namespaces_update_table_limit name m s))"
| step_column_limit: "cat_step s (snd (namespaces_update_column_limit name m s))"
| step_table: "cat_step s (snd (tables_create_or_get name ns s))"
| step_column: "cat_step s (snd (columns_create_or_get name t ct s))"
| step_columns: "cat_step s (snd (columns_create_or_get_many cs s))"
| step_sequencer: "cat_step s (snd (sequencers_create_or_get kt part s))"
| step_min_unpersisted:
    "cat_step s (snd (sequencers_update_min_unpersisted_sequence_number q n s))"
| step_partition: "cat_step s (snd (partitions_create_or_get key q t s))"
| step_sort_key: "cat_step s (snd (partitions_update_sort_key p ks s))"
| step_tombstone: "cat_step s (snd (tombstones_create_or_get t q n mi ma pr s))"
| step_tombstones_remove: "cat_step s (snd (tombstones_remove is s))"
| step_file: "cat_step s (snd (parquet_files_create params s))"
| step_flag: "cat_step s (snd (parquet_files_flag_for_delete now f s))"
| step_delete_old: "cat_step s (snd (parquet_files_delete_old older s))"
| step_level_1: "cat_step s (snd (parquet_files_update_to_level_1 fs s))"
| step_processed: "cat_step s (snd (processed_tombstones_create f ts s))"

inductive cat_reachable :: "MemCollections \<Rightarrow> bool" where
  reachable_default: "cat_reachable MemCollections_default"
| reachable_step: "cat_reachable s \<Longrightarrow> cat_step s s' \<Longrightarrow> cat_reachable s'"

lemma cat_step_wf: "cat_step s s' \<Longrightarrow> cat_wf s \<Longrightarrow> cat_wf s'"
  by (induction rule: cat_step.induct) (rule wf_steps; assumption)+

lemma cat_reachable_cat_wf: "cat_reachable s \<Longrightarrow> cat_wf s"
  by (induction rule: cat_reachable.induct) (auto intro: cat_wf_default cat_step_wf)

text \<open>
  C25. What holds of every catalog that the methods can build.  Identifiers of topics, pools,
  namespaces, tables, columns, sequencers and partitions are \<open>1, 2, \<dots>\<close>.  Topic, pool and namespace
  names, table names within a namespace, column names within a table, sequencers of a topic and
  partition, partitions of a key, tombstones of a sequence number, object store identifiers and
  processed tombstones are unique.  Every table has its namespace, every column its table and a valid
  type, and every processed tombstone its tombstone.  Not among them are the identifiers of files and
  tombstones, which can repeat, and the other references, which the methods do not check or do not keep.
\<close>

theorem cat_reachable_wf:
  assumes "cat_reachable s"
  shows "ids_ok (map (\<lambda>t. KafkaTopicId_get (kt_id t)) (kafka_topics s)) \<and> ids_ok (map (\<lambda>p. QueryPoolId_get (qp_id p)) (query_pools s))
    \<and> ids_ok (map (\<lambda>n. NamespaceId_get (ns_id n)) (namespaces s)) \<and> ids_ok (map (\<lambda>t. TableId_get (tbl_id t)) (tables s))
    \<and> ids_ok (map (\<lambda>c. ColumnId_get (col_id c)) (columns s)) \<and> ids_ok (map (\<lambda>q. SequencerId_get (sq_id q)) (sequencers s))
    \<and> ids_ok (map (\<lambda>p. PartitionId_get (pt_id p)) (partitions s))
    \<and> distinct (map kt_name (kafka_topics s)) \<and> distinct (map qp_name (query_pools s)) \<and> distinct (map ns_name (namespaces s))
    \<and> distinct (map (\<lambda>t. (tbl_namespace_id t, tbl_name t)) (tables s)) \<and> distinct (map (\<lambda>c. (col_table_id c, col_name c)) (columns s))
    \<and> distinct (map (\<lambda>q. (sq_kafka_topic_id q, sq_kafka_partition q)) (sequencers s))
    \<and> distinct (map (\<lambda>p. (pt_partition_key p, pt_sequencer_id p, pt_table_id p)) (partitions s))
    \<and> distinct (map (\<lambda>t. (ts_table_id t, ts_sequencer_id t, ts_sequence_number t)) (tombstones s))
    \<and> distinct (map pf_object_store_id (parquet_files s)) \<and> distinct (processed_tombstones s)
    \<and> tbl_namespace_id ` set (tables s) \<subseteq> ns_id ` set (namespaces s) \<and> col_table_id ` set (columns s) \<subseteq> tbl_id ` set (tables s)
    \<and> pts_tombstone_id ` set (processed_tombstones s) \<subseteq> ts_id ` set (tombstones s)
    \<and> (\<forall>c\<in>set (columns s). ColumnType_try_from (col_column_type c) \<noteq> None)"
  using cat_reachable_cat_wf [OF assms] unfolding cat_wf_def wf_parts by blast

theorem cat_reachable_wf_witness:
  "tbl_namespace_id ` set (tables (snd (tables_create_or_get ''cpu'' (NamespaceId 1)
     (snd (namespaces_create ''ns'' ''inf'' (KafkaTopicId 1) (QueryPoolId 1)
       (snd (kafka_topics_create_or_get ''iox-shared'' MemCollections_default)))))))
   \<subseteq> ns_id ` set (namespaces (snd (tables_create_or_get ''cpu'' (NamespaceId 1)
     (snd (namespaces_create ''ns'' ''inf'' (KafkaTopicId 1) (QueryPoolId 1)
       (snd (kafka_topics_create_or_get ''iox-shared'' MemCollections_default)))))))"
proof -
  have r: "cat_reachable (snd (tables_create_or_get ''cpu'' (NamespaceId 1)
     (snd (namespaces_create ''ns'' ''inf'' (KafkaTopicId 1) (QueryPoolId 1)
       (snd (kafka_topics_create_or_get ''iox-shared'' MemCollections_default))))))"
    by (intro reachable_step [OF _ step_table] reachable_step [OF _ step_namespace]
        reachable_step [OF _ step_topic] reachable_default)
  from cat_reachable_wf [OF r] show ?thesis by blast
qed

end
