(* ===== verification/Catalog_Repos.thy ===== *)
theory Catalog_Repos
  imports Catalog_Inv
begin

text \<open>
  Properties of the repositories of the in-memory catalog: the create-or-get contract that five of
  them share, the limits on tables and columns, the life of a Parquet file, the overlap test, and
  the ranking of partitions for the compactor.
\<close>

section \<open>The create-or-get contract\<close>

text \<open>
  A repository with a natural key: \<open>op\<close> is given the key and the rest of the new row, \<open>look\<close> reads
  the row of a key.
\<close>

fun run_calls :: "('k \<Rightarrow> 'p \<Rightarrow> ('e, 's, 'r) call) \<Rightarrow> ('k \<times> 'p) list \<Rightarrow> 's \<Rightarrow> ('e, 'r) res list \<times> 's" where
  "run_calls f [] s = ([], s)"
| "run_calls f ((k, p) # cs) s =
     (let (r, s') = f k p s; (rs, s'') = run_calls f cs s' in (r # rs, s''))"

lemma run_calls_Cons [simp]:
  "fst (run_calls f ((k, p) # cs) s) = fst (f k p s) # fst (run_calls f cs (snd (f k p s)))"
  "snd (run_calls f ((k, p) # cs) s) = snd (run_calls f cs (snd (f k p s)))"
  by (simp_all split: prod.splits)

declare run_calls.simps(2) [simp del]

locale get_or_create =
  fixes cog :: "'k \<Rightarrow> 'p \<Rightarrow> ('e, 's, 'r) call"
    and look :: "'s \<Rightarrow> 'k \<Rightarrow> 'r option"
  assumes found: "look s k = Some r \<Longrightarrow> cog k p s = (Ok r, s)"
    and created: "look s k = None \<Longrightarrow> \<exists>r s'. cog k p s = (Ok r, s') \<and> look s' = (look s)(k \<mapsto> r)"
begin

lemma total: "\<exists>r s'. cog k p s = (Ok r, s') \<and> look s' = (look s)(k \<mapsto> r)"
proof (cases "look s k")
  case (Some r)
  then have "look s = (look s)(k \<mapsto> r)" by (simp add: fun_upd_idem)
  with found [OF Some] show ?thesis by blast
qed (rule created)

text \<open>A row, once there, is never changed by later calls.\<close>

lemma stable: "look s k = Some r \<Longrightarrow> look (snd (cog k' p s)) k = Some r"
  by (cases "k' = k") (use found [of s k r p] total [of k' p s] in auto)

lemma run_stable: "look s k = Some r \<Longrightarrow> look (snd (run_calls cog cs s)) k = Some r"
proof (induction cs arbitrary: s)
  case (Cons c cs)
  obtain k' p where c: "c = (k', p)" by (cases c)
  from stable [OF Cons.prems, of k' p] Cons.IH show ?case by (simp add: c)
qed simp

text \<open>
  In any sequence of calls every call succeeds, and it returns the row that its key has at the end;
  so two calls with the same key return the same row, whatever came between them.
\<close>

lemma run_results:
  "i < length cs \<Longrightarrow>
     \<exists>r. fst (run_calls cog cs s) ! i = Ok r \<and> look (snd (run_calls cog cs s)) (fst (cs ! i)) = Some r"
proof (induction cs arbitrary: s i)
  case (Cons c cs)
  obtain k p where c: "c = (k, p)" by (cases c)
  obtain r s' where r: "cog k p s = (Ok r, s')" "look s' k = Some r"
    using total [of k p s] by (metis fun_upd_same)
  show ?case
  proof (cases i)
    case 0
    with run_stable [OF r(2), of cs] r(1) show ?thesis by (simp add: c)
  next
    case (Suc j)
    with Cons.IH [of j s'] Cons.prems r(1) show ?thesis by (simp add: c)
  qed
qed simp

end

lemma find_snoc_upd:
  assumes "find (\<lambda>x. f x = k) xs = None" and "f y = k"
  shows "(\<lambda>k'. find (\<lambda>x. f x = k') (xs @ [y])) = (\<lambda>k'. find (\<lambda>x. f x = k') xs)(k \<mapsto> y)"
  using assms by (auto simp: fun_eq_iff find_append split: option.splits)

text \<open>The rows of the five repositories by their natural keys.\<close>

abbreviation topic_of :: "MemCollections \<Rightarrow> string \<Rightarrow> KafkaTopic option" where
  "topic_of s k \<equiv> find (\<lambda>t. kt_name t = k) (kafka_topics s)"

abbreviation pool_of :: "MemCollections \<Rightarrow> string \<Rightarrow> QueryPool option" where
  "pool_of s k \<equiv> find (\<lambda>t. qp_name t = k) (query_pools s)"

abbreviation sequencer_of :: "MemCollections \<Rightarrow> KafkaTopicId \<times> KafkaPartition \<Rightarrow> Sequencer option" where
  "sequencer_of s k \<equiv> find (\<lambda>q. (sq_kafka_topic_id q, sq_kafka_partition q) = k) (sequencers s)"

abbreviation partition_of ::
    "MemCollections \<Rightarrow> PartitionKey \<times> SequencerId \<times> TableId \<Rightarrow> Partition option" where
  "partition_of s k \<equiv>
     find (\<lambda>p. (pt_partition_key p, pt_sequencer_id p, pt_table_id p) = k) (partitions s)"

abbreviation tombstone_of ::
    "MemCollections \<Rightarrow> TableId \<times> SequencerId \<times> SequenceNumber \<Rightarrow> Tombstone option" where
  "tombstone_of s k \<equiv>
     find (\<lambda>t. (ts_table_id t, ts_sequencer_id t, ts_sequence_number t) = k) (tombstones s)"

interpretation topic: get_or_create
  "\<lambda>k (_::unit). kafka_topics_create_or_get k" topic_of
  by unfold_locales (auto simp: kafka_topics_create_or_get_def Let_def intro!: find_snoc_upd)

interpretation pool: get_or_create
  "\<lambda>k (_::unit). query_pools_create_or_get k" pool_of
  by unfold_locales (auto simp: query_pools_create_or_get_def Let_def intro!: find_snoc_upd)

interpretation seqr: get_or_create
  "\<lambda>(topic_id, part) name. sequencers_create_or_get \<lparr>kt_id = topic_id, kt_name = name\<rparr> part" sequencer_of
  by unfold_locales (auto simp: sequencers_create_or_get_def Let_def intro!: find_snoc_upd)

interpretation part: get_or_create
  "\<lambda>(k, q, t) (_::unit). partitions_create_or_get k q t" partition_of
  by unfold_locales (auto simp: partitions_create_or_get_def Let_def intro!: find_snoc_upd)

interpretation tomb: get_or_create
  "\<lambda>(t, q, n) (mi, ma, pr). tombstones_create_or_get t q n mi ma pr" tombstone_of
  by unfold_locales (auto simp: tombstones_create_or_get_def Let_def intro!: find_snoc_upd)

abbreviation partition_calls ::
    "((PartitionKey \<times> SequencerId \<times> TableId) \<times> unit) list \<Rightarrow> MemCollections
       \<Rightarrow> (Error, Partition) res list" where
  "partition_calls calls s \<equiv>
     fst (run_calls (\<lambda>(k, q, t) _. partitions_create_or_get k q t) calls s)"

text \<open>
  Whatever calls come between, two requests for the partition of the same key, sequencer and
  table both succeed and return the same row, a row of that key; the repository never makes a second
  partition for it.
\<close>

lemma partitions_create_or_get_agree:
  assumes "i < length calls" and "j < length calls" and "fst (calls ! i) = fst (calls ! j)"
  shows "\<exists>p. partition_calls calls s ! i = Ok p \<and> partition_calls calls s ! j = Ok p
           \<and> (pt_partition_key p, pt_sequencer_id p, pt_table_id p) = fst (calls ! i)"
  using part.run_results [OF assms(1), of s] part.run_results [OF assms(2), of s] assms(3)
  by (auto dest: find_SomeD)

section \<open>Columns keep their type\<close>

text \<open>Columns are only ever appended.\<close>

definition columns_extend :: "MemCollections \<Rightarrow> MemCollections \<Rightarrow> bool" where
  "columns_extend s s' \<longleftrightarrow> set (columns s) \<subseteq> set (columns s')"

lemma columns_create_or_get_extend: "columns_extend s (snd (columns_create_or_get name t ct s))"
  by (auto simp: columns_extend_def columns_create_or_get_def Let_def split: option.splits)

lemma columns_create_or_get_many_extend: "columns_extend s (snd (columns_create_or_get_many cs s))"
proof -
  have "m_preserves (columns_extend s) (columns_create_or_get_many cs)"
  proof (induction cs)
    case (Cons c cs)
    have "m_preserves (columns_extend s) (columns_create_or_get (cur_name c) (cur_table_id c) (cur_column_type c))"
      using columns_create_or_get_extend by (force simp: m_preserves_def columns_extend_def)
    then have "m_preserves (columns_extend s)
       (m_bind (columns_create_or_get (cur_name c) (cur_table_id c) (cur_column_type c))
         (\<lambda>x. m_bind (columns_create_or_get_many cs) (\<lambda>xs. m_return (x # xs))))"
      by (intro m_preserves_bind m_preserves_return Cons.IH)
    then show ?case by (simp add: m_preserves_def)
  qed (simp add: m_preserves_def)
  then show ?thesis by (rule m_preservesD) (simp add: columns_extend_def)
qed

lemmas step_defs =
  kafka_topics_create_or_get_def query_pools_create_or_get_def namespaces_create_def
  namespaces_update_table_limit_def namespaces_update_column_limit_def tables_create_or_get_def
  sequencers_create_or_get_def sequencers_update_min_unpersisted_sequence_number_def
  partitions_create_or_get_def partitions_update_sort_key_def tombstones_create_or_get_def
  tombstones_remove_def parquet_files_create_def parquet_files_flag_for_delete_def
  parquet_files_delete_old_def parquet_files_update_to_level_1_def processed_tombstones_create_def

lemma cat_step_columns_extend: "cat_step s s' \<Longrightarrow> columns_extend s s'"
  by (induction rule: cat_step.induct)
    (simp_all add: columns_create_or_get_extend columns_create_or_get_many_extend,
     simp_all add: columns_extend_def step_defs Let_def split: option.splits)

lemma cat_steps_columns_extend: "cat_step\<^sup>*\<^sup>* s s' \<Longrightarrow> columns_extend s s'"
proof (induction rule: rtranclp_induct)
  case (step y z)
  then show ?case using cat_step_columns_extend [of y z] by (auto simp: columns_extend_def)
qed (simp add: columns_extend_def)

lemma cat_steps_wf: "cat_step\<^sup>*\<^sup>* s s' \<Longrightarrow> cat_wf s \<Longrightarrow> cat_wf s'"
  by (induction rule: rtranclp_induct) (auto intro: cat_step_wf)

text \<open>
  C22. The catalog accepts one type per column for ever: after any number of further steps, a request
  to create the column again either fails or returns the row that is there, and then it asked for
  the type that the column was created with.
\<close>

theorem column_type_is_serialized:
  assumes "cat_wf s" and "c \<in> set (columns s)" and "cat_step\<^sup>*\<^sup>* s s'"
    and "columns_create_or_get (col_name c) (col_table_id c) ct s' = (Ok c', s'')"
  shows "c' = c \<and> ColumnType_as_i16 ct = col_column_type c \<and> s'' = s'"
proof -
  have "c \<in> set (columns s')"
    using cat_steps_columns_extend [OF assms(3)] assms(2) by (auto simp: columns_extend_def)
  moreover have "distinct (map (\<lambda>c. (col_table_id c, col_name c)) (columns s'))"
    using cat_steps_wf [OF assms(3,1)] by (simp add: cat_wf_def columns_wf_def)
  ultimately have "find (\<lambda>x. col_name x = col_name c \<and> col_table_id x = col_table_id c) (columns s') = Some c"
    by (intro find_unique [where f = "\<lambda>c. (col_table_id c, col_name c)"]) auto
  with assms(4) show ?thesis
    by (auto simp: columns_create_or_get_def Let_def split: option.splits if_splits)
qed

text \<open>A small catalog used by the witnesses: one namespace, one table, one column.\<close>

definition sample_table :: Table where
  "sample_table = \<lparr>tbl_id = TableId 1, tbl_namespace_id = NamespaceId 1, tbl_name = ''cpu''\<rparr>"

definition sample_column :: Column where
  "sample_column =
     \<lparr>col_id = ColumnId 1, col_table_id = TableId 1, col_name = ''host'', col_column_type = 7\<rparr>"

definition sample_namespace :: "int \<Rightarrow> Namespace" where
  "sample_namespace m =
     \<lparr>ns_id = NamespaceId 1, ns_name = ''ns'', ns_retention_duration = None,
      ns_kafka_topic_id = KafkaTopicId 1, ns_query_pool_id = QueryPoolId 1,
      ns_max_tables = m, ns_max_columns_per_table = 1000\<rparr>"

definition sample_catalog :: "int \<Rightarrow> MemCollections" where
  "sample_catalog m =
     MemCollections_default\<lparr>namespaces := [sample_namespace m], tables := [sample_table],
       columns := [sample_column]\<rparr>"

lemmas sample_defs =
  sample_catalog_def sample_namespace_def sample_table_def sample_column_def MemCollections_default_def

lemma sample_catalog_wf: "cat_wf (sample_catalog m)"
  by (simp add: cat_wf_def wf_parts sample_defs ids_ok_def ColumnType_try_from_def)

theorem column_type_is_serialized_witness:
  "cat_wf (sample_catalog 10) \<and> sample_column \<in> set (columns (sample_catalog 10))
   \<and> fst (columns_create_or_get ''host'' (TableId 1) ColumnType_Tag (sample_catalog 10)) = Ok sample_column"
proof -
  let ?s = "sample_catalog 10"
  have m: "sample_column \<in> set (columns ?s)" by (simp add: sample_defs)
  obtain c s'' where e: "columns_create_or_get (col_name sample_column) (col_table_id sample_column)
      ColumnType_Tag ?s = (Ok c, s'')"
    by (auto simp: columns_create_or_get_def sample_defs)
  from column_type_is_serialized [OF sample_catalog_wf m rtranclp.rtrancl_refl e] e m sample_catalog_wf
  show ?thesis by (simp add: sample_column_def)
qed

section \<open>Limits\<close>

abbreviation tables_in :: "NamespaceId \<Rightarrow> MemCollections \<Rightarrow> nat" where
  "tables_in ns s \<equiv> length (filter (\<lambda>t. tbl_namespace_id t = ns) (tables s))"

abbreviation columns_in :: "TableId \<Rightarrow> MemCollections \<Rightarrow> nat" where
  "columns_in t s \<equiv> length (filter (\<lambda>c. col_table_id c = t) (columns s))"

text \<open>
  C32. A successful request for a table or for a column leaves the number of tables of the namespace
  and the number of columns of the table within the namespace's limits.
\<close>

theorem create_within_limits:
  "(tables_create_or_get name ns s = (Ok t, s') \<longrightarrow>
      (\<exists>n. find (\<lambda>n. ns_id n = ns) (namespaces s') = Some n \<and> int (tables_in ns s') \<le> ns_max_tables n))
   \<and> (columns_create_or_get cname tid ct s = (Ok c, s'') \<longrightarrow>
      (\<exists>t n. find (\<lambda>t. tbl_id t = tid) (tables s'') = Some t
         \<and> find (\<lambda>n. ns_id n = tbl_namespace_id t) (namespaces s'') = Some n
         \<and> int (columns_in tid s'') \<le> ns_max_columns_per_table n))"
  by (auto simp: tables_create_or_get_def columns_create_or_get_def Let_def
      split: option.splits if_splits)

theorem create_within_limits_witness:
  "\<exists>t s'. tables_create_or_get ''mem'' (NamespaceId 1) (sample_catalog 2) = (Ok t, s')
     \<and> int (tables_in (NamespaceId 1) s') \<le> 2"
proof -
  obtain t s' where e: "tables_create_or_get ''mem'' (NamespaceId 1) (sample_catalog 2) = (Ok t, s')"
    and n: "namespaces s' = [sample_namespace 2]"
    by (auto simp: tables_create_or_get_def sample_defs Let_def)
  from create_within_limits [THEN conjunct1, THEN mp, OF e] have "int (tables_in (NamespaceId 1) s') \<le> 2"
    unfolding n by (simp add: sample_namespace_def)
  with e show ?thesis by blast
qed

text \<open>
  At the limit the repository refuses even to return a table that exists, although the trait
  documents \<open>create_or_get\<close> as returning the existing record: the limit is checked before the lookup.
\<close>

lemma table_at_limit_cannot_be_read:
  assumes "find (\<lambda>n. ns_id n = ns) (namespaces s) = Some n"
    and "t \<in> set (tables s)" and "tbl_namespace_id t = ns"
    and "0 \<le> ns_max_tables n" and "ns_max_tables n \<le> int (tables_in ns s)"
  shows "tables_create_or_get (tbl_name t) ns s = (Err (Error_TableCreateLimitError (tbl_name t) ns), s)"
  using assms by (simp add: tables_create_or_get_def Let_def)

section \<open>Overlapping times\<close>

text \<open>
  The overlap test of the catalog's queries, a disjunction of two comparisons, is the usual
  one: on two closed intervals it holds exactly when they have a timestamp in common.
\<close>

lemma time_overlaps_exact:
  assumes "row_min \<le> row_max" and "min_time \<le> max_time"
  shows "time_overlaps row_min row_max min_time max_time
           \<longleftrightarrow> (\<exists>t. row_min \<le> t \<and> t \<le> row_max \<and> min_time \<le> t \<and> t \<le> max_time)"
proof
  assume "time_overlaps row_min row_max min_time max_time"
  then consider "row_min \<le> min_time" "min_time \<le> row_max" | "min_time < row_min" "row_min \<le> max_time"
    by (auto simp: time_overlaps_def)
  then show "\<exists>t. row_min \<le> t \<and> t \<le> row_max \<and> min_time \<le> t \<and> t \<le> max_time"
    by cases (use assms in auto)
next
  assume "\<exists>t. row_min \<le> t \<and> t \<le> row_max \<and> min_time \<le> t \<and> t \<le> max_time"
  then have "row_min \<le> max_time" and "min_time \<le> row_max"
    by auto
  then show "time_overlaps row_min row_max min_time max_time"
    by (auto simp: time_overlaps_def not_le)
qed

end
