(* ===== verification/Catalog_Files.thy ===== *)
theory Catalog_Files
  imports Catalog_Repos
begin

text \<open>
  The life of a Parquet file in the in-memory catalog, from its creation over its flag for deletion
  to its removal, and the ranking of partitions that the compactor asks for.
\<close>

section \<open>Files leave the catalog only when they were flagged\<close>

definition file_kept :: "ParquetFile \<Rightarrow> MemCollections \<Rightarrow> bool" where
  "file_kept f s \<longleftrightarrow> (\<exists>f'\<in>set (parquet_files s).
     pf_object_store_id f' = pf_object_store_id f \<and> pf_id f' = pf_id f
     \<and> pf_table_id f' = pf_table_id f \<and> pf_partition_id f' = pf_partition_id f
     \<and> pf_min_time f' = pf_min_time f \<and> pf_max_time f' = pf_max_time f
     \<and> pf_max_sequence_number f' = pf_max_sequence_number f)"

lemma file_keptI: "f \<in> set (parquet_files s) \<Longrightarrow> file_kept f s"
  by (auto simp: file_kept_def)

lemma columns_create_or_get_files:
  "parquet_files (snd (columns_create_or_get name t ct s)) = parquet_files s"
  by (simp add: columns_create_or_get_def Let_def split: option.splits)

lemma columns_create_or_get_many_files:
  "parquet_files (snd (columns_create_or_get_many cs s)) = parquet_files s"
proof -
  let ?P = "\<lambda>s'. parquet_files s' = parquet_files s"
  have "m_preserves ?P (columns_create_or_get_many cs)"
  proof (induction cs)
    case (Cons c cs)
    have "m_preserves ?P
       (m_bind (columns_create_or_get (cur_name c) (cur_table_id c) (cur_column_type c))
         (\<lambda>x. m_bind (columns_create_or_get_many cs) (\<lambda>xs. m_return (x # xs))))"
      by (intro m_preserves_bind m_preserves_return Cons.IH m_preservesI)
        (simp add: columns_create_or_get_files)
    then show ?case by (simp add: m_preserves_def)
  qed (simp add: m_preserves_def)
  then show ?thesis by (rule m_preservesD) simp
qed

lemma update_first_member:
  "x \<in> set xs \<Longrightarrow> x \<in> set (update_first p f xs) \<or> f x \<in> set (update_first p f xs)"
  by (induction xs) auto

lemma flag_for_delete_keeps:
  assumes "f \<in> set (parquet_files s)"
  shows "file_kept f (snd (parquet_files_flag_for_delete now i s))"
proof (cases "find (\<lambda>p. pf_id p = i) (parquet_files s)")
  case None
  with assms show ?thesis by (intro file_keptI) (simp add: parquet_files_flag_for_delete_def)
next
  case (Some g)
  let ?up = "pf_to_delete_update (\<lambda>_. Some (Timestamp now))"
  from Some have "parquet_files (snd (parquet_files_flag_for_delete now i s))
      = update_first (\<lambda>p. pf_id p = i) ?up (parquet_files s)"
    by (simp add: parquet_files_flag_for_delete_def)
  with update_first_member [OF assms, of "\<lambda>p. pf_id p = i" ?up] show ?thesis
    unfolding file_kept_def by (elim disjE) (force intro: bexI [of _ f] bexI [of _ "?up f"])+
qed

lemma update_to_level_1_keeps:
  assumes "f \<in> set (parquet_files s)"
  shows "file_kept f (snd (parquet_files_update_to_level_1 fs s))"
proof -
  let ?up = "\<lambda>p. if pf_id p \<in> set fs
    then p\<lparr>pf_compaction_level := CompactionLevel_FileNonOverlapped\<rparr> else p"
  have "parquet_files (snd (parquet_files_update_to_level_1 fs s)) = map ?up (parquet_files s)"
    by (simp add: parquet_files_update_to_level_1_def)
  moreover have "?up f \<in> set (map ?up (parquet_files s))"
    using assms unfolding set_map by (rule imageI)
  ultimately show ?thesis
    unfolding file_kept_def by (intro bexI [of _ "?up f"]) simp_all
qed

text \<open>The methods of the other repositories leave the files as they are.\<close>

lemma other_repos_files:
  "parquet_files (snd (kafka_topics_create_or_get name s)) = parquet_files s"
  "parquet_files (snd (query_pools_create_or_get name s)) = parquet_files s"
  "parquet_files (snd (namespaces_create name ret topic pool s)) = parquet_files s"
  "parquet_files (snd (namespaces_update_table_limit name m s)) = parquet_files s"
  "parquet_files (snd (namespaces_update_column_limit name m s)) = parquet_files s"
  "parquet_files (snd (tables_create_or_get name ns s)) = parquet_files s"
  "parquet_files (snd (sequencers_create_or_get kt part s)) = parquet_files s"
  "parquet_files (snd (sequencers_update_min_unpersisted_sequence_number q n s)) = parquet_files s"
  "parquet_files (snd (partitions_create_or_get key q t s)) = parquet_files s"
  "parquet_files (snd (partitions_update_sort_key p ks s)) = parquet_files s"
  "parquet_files (snd (tombstones_create_or_get t q n mi ma pr s)) = parquet_files s"
  "parquet_files (snd (tombstones_remove is s)) = parquet_files s"
  "parquet_files (snd (processed_tombstones_create f ts s)) = parquet_files s"
  by (simp_all add: step_defs Let_def split: option.splits)

lemma parquet_files_create_superset:
  "set (parquet_files s) \<subseteq> set (parquet_files (snd (parquet_files_create params s)))"
  by (auto simp: parquet_files_create_def Let_def)

lemma cat_step_keeps:
  assumes "cat_step s s'" and "f \<in> set (parquet_files s)"
  shows "file_kept f s' \<or> (\<exists>older. s' = snd (parquet_files_delete_old older s))"
  using assms
proof (induction rule: cat_step.induct)
  case (step_file s params)
  then have "f \<in> set (parquet_files (snd (parquet_files_create params s)))"
    using parquet_files_create_superset [of s params] by blast
  then show ?case by (intro disjI1 file_keptI)
next
  case (step_delete_old s older)
  show ?case by blast
next
  case (step_flag s now i)
  then show ?case by (intro disjI1 flag_for_delete_keeps)
next
  case (step_level_1 s fs)
  then show ?case by (intro disjI1 update_to_level_1_keeps)
qed (rule disjI1, rule file_keptI,
    simp only: other_repos_files columns_create_or_get_files columns_create_or_get_many_files)+

text \<open>
  C29. Only \<open>delete_old\<close> removes a file, and only a file that had been flagged for deletion before
  the given time: after any other step, and for every file that is not flagged, the file is still
  there with its identity, its place and its time range.
\<close>

theorem file_removed_only_by_delete_old:
  assumes "cat_step s s'" and "f \<in> set (parquet_files s)" and "\<not> file_kept f s'"
  shows "\<exists>older marked. s' = snd (parquet_files_delete_old older s)
           \<and> pf_to_delete f = Some marked \<and> marked < older"
proof -
  from cat_step_keeps [OF assms(1,2)] assms(3)
  obtain older where older: "s' = snd (parquet_files_delete_old older s)" by blast
  have "f \<notin> set (parquet_files s')" using assms(3) by (auto dest: file_keptI)
  with older assms(2) obtain marked where "pf_to_delete f = Some marked" and "marked < older"
    by (auto simp: parquet_files_delete_old_def split: option.splits)
  with older show ?thesis by blast
qed

definition sample_file :: "int \<Rightarrow> Uuid \<Rightarrow> Timestamp option \<Rightarrow> ParquetFile" where
  "sample_file i u d =
     \<lparr>pf_id = ParquetFileId i, pf_sequencer_id = SequencerId 1, pf_namespace_id = NamespaceId 1,
      pf_table_id = TableId 1, pf_partition_id = PartitionId 1, pf_object_store_id = u,
      pf_max_sequence_number = SequenceNumber 7, pf_min_time = Timestamp 1, pf_max_time = Timestamp 9,
      pf_to_delete = d, pf_file_size_bytes = 100, pf_row_count = 10,
      pf_compaction_level = CompactionLevel_Initial, pf_created_at = Timestamp 3,
      pf_column_set = ColumnSet []\<rparr>"

definition sample_params :: "Uuid \<Rightarrow> ParquetFileParams" where
  "sample_params u =
     \<lparr>pfp_sequencer_id = SequencerId 1, pfp_namespace_id = NamespaceId 1, pfp_table_id = TableId 1,
      pfp_partition_id = PartitionId 1, pfp_object_store_id = u,
      pfp_max_sequence_number = SequenceNumber 7, pfp_min_time = Timestamp 1,
      pfp_max_time = Timestamp 9, pfp_file_size_bytes = 100, pfp_row_count = 10,
      pfp_compaction_level = CompactionLevel_Initial, pfp_created_at = Timestamp 3,
      pfp_column_set = ColumnSet []\<rparr>"

lemmas sample_file_defs =
  sample_file_def sample_params_def MemCollections_default_def parquet_files_create_def
  parquet_files_flag_for_delete_def parquet_files_delete_old_def Let_def

theorem file_removed_only_by_delete_old_witness:
  "\<exists>s f. \<not> file_kept f (snd (parquet_files_delete_old (Timestamp 20) s))
     \<and> f \<in> set (parquet_files s) \<and> pf_to_delete f = Some (Timestamp 5)
     \<and> (\<exists>older marked. pf_to_delete f = Some marked \<and> marked < older)"
proof -
  let ?f = "sample_file 1 10 (Some (Timestamp 5))"
  let ?s = "MemCollections_default\<lparr>parquet_files := [?f]\<rparr>"
  have f: "?f \<in> set (parquet_files ?s)" by simp
  have n: "\<not> file_kept ?f (snd (parquet_files_delete_old (Timestamp 20) ?s))"
    by (simp add: file_kept_def sample_file_defs less_Timestamp_def)
  from file_removed_only_by_delete_old [OF step_delete_old f n]
  have "\<exists>older marked. pf_to_delete ?f = Some marked \<and> marked < older" by blast
  with f n show ?thesis
    by (intro exI [of _ ?s] exI [of _ ?f]) (simp add: sample_file_def)
qed

section \<open>Identifiers of files can be reused\<close>

text \<open>
  The catalog after two files were created, the first was flagged and removed, and a third was
  created.
\<close>

definition reuse_catalog :: MemCollections where
  "reuse_catalog =
     snd (parquet_files_create (sample_params 12)
       (snd (parquet_files_delete_old (Timestamp 20)
         (snd (parquet_files_flag_for_delete 5 (ParquetFileId 1)
           (snd (parquet_files_create (sample_params 11)
             (snd (parquet_files_create (sample_params 10) MemCollections_default)))))))))"

lemma reuse_catalog_files:
  "parquet_files reuse_catalog = [sample_file 2 11 None, sample_file 2 12 None]"
  by (simp add: reuse_catalog_def sample_file_defs less_Timestamp_def)

lemma update_first_append:
  "update_first p f (xs @ ys) = (if \<exists>x\<in>set xs. p x then update_first p f xs @ ys else xs @ update_first p f ys)"
  by (induction xs) auto

lemma parquet_files_create_OkD:
  assumes "parquet_files_create p s = (Ok new, s')"
  shows "parquet_files s' = parquet_files s @ [new] \<and> pf_id new = ParquetFileId (next_id (parquet_files s))
    \<and> pf_to_delete new = None \<and> new \<notin> set (parquet_files s)"
  using assms by (auto simp: parquet_files_create_def Let_def split: if_splits)

lemma flag_misses_new_file:
  assumes "parquet_files s = fs @ [new]" and "pf_to_delete new = None" and "new \<notin> set fs"
  shows "new \<in> set (parquet_files (snd (parquet_files_flag_for_delete now (pf_id new) s))) \<longleftrightarrow> (\<exists>f\<in>set fs. pf_id f = pf_id new)"
proof -
  let ?up = "pf_to_delete_update (\<lambda>_. Some (Timestamp now))"
  have "find (\<lambda>f. pf_id f = pf_id new) (parquet_files s) \<noteq> None" by (auto simp: assms(1) find_None_iff)
  then have "parquet_files (snd (parquet_files_flag_for_delete now (pf_id new) s))
      = update_first (\<lambda>f. pf_id f = pf_id new) ?up (fs @ [new])"
    by (auto simp: parquet_files_flag_for_delete_def assms(1) Let_def split: option.splits)
  moreover have "new \<noteq> ?up f" for f using assms(2) by (metis option.distinct(1) ParquetFile.select_convs(10) ParquetFile.surjective ParquetFile.update_convs(10))
  ultimately show ?thesis using assms(3) by (auto simp: update_first_append dest: set_update_first)
qed

lemma reuse_catalog_reachable: "cat_reachable reuse_catalog"
  unfolding reuse_catalog_def
  by (intro reachable_step [OF _ step_file] reachable_step [OF _ step_delete_old]
      reachable_step [OF _ step_flag] reachable_default)

text \<open>
  C34. When an identifier is used twice.  The identifier of a new file is the number of files plus one, and
  \<open>delete_old\<close> makes that number smaller.  In a catalog whose \<open>n\<close> files are numbered from 1, after
  \<open>delete_old\<close> has left \<open>m\<close> of them the next file gets the number \<open>m + 1\<close>; another file has that number
  exactly when some file was deleted and file \<open>m + 1\<close> was not.  In that case, and only then, flagging the
  new file for deletion by its identifier leaves it unflagged: the older file is flagged in its place.
\<close>

theorem parquet_file_id_reused_iff:
  assumes "\<And>i. i < length (parquet_files s) \<Longrightarrow> pf_id (parquet_files s ! i) = ParquetFileId (int i + 1)"
    and "parquet_files_delete_old older_than s = (Ok deleted, s')" and "parquet_files_create p s' = (Ok new, s'')"
  shows "pf_id new = ParquetFileId (next_id (parquet_files s'))
    \<and> ((\<exists>f\<in>set (parquet_files s'). pf_id f = pf_id new)
         \<longleftrightarrow> deleted \<noteq> [] \<and> parquet_files s ! length (parquet_files s') \<in> set (parquet_files s'))
    \<and> (new \<in> set (parquet_files (snd (parquet_files_flag_for_delete now (pf_id new) s'')))
         \<longleftrightarrow> deleted \<noteq> [] \<and> parquet_files s ! length (parquet_files s') \<in> set (parquet_files s'))"
proof -
  let ?fs = "parquet_files s" and ?keep = "parquet_files s'"
  note new = parquet_files_create_OkD [OF assms(3)]
  obtain P where del: "deleted = filter P ?fs" "?keep = filter (\<lambda>f. \<not> P f) ?fs"
    using assms(2) by (auto simp: parquet_files_delete_old_def o_def)
  have len: "length deleted + length ?keep = length ?fs" unfolding del by (rule sum_length_filter_compl)
  have "(\<exists>f\<in>set ?keep. pf_id f = pf_id new) \<longleftrightarrow> deleted \<noteq> [] \<and> ?fs ! length ?keep \<in> set ?keep"
  proof
    assume "\<exists>f\<in>set ?keep. pf_id f = pf_id new"
    then obtain f where f: "f \<in> set ?keep" "pf_id f = pf_id new" by blast
    then obtain i where i: "i < length ?fs" "f = ?fs ! i" unfolding del by (auto simp: in_set_conv_nth)
    then have "i = length ?keep" using assms(1) [of i] f(2) new by simp
    then show "deleted \<noteq> [] \<and> ?fs ! length ?keep \<in> set ?keep" using i f(1) len by auto
  next
    assume coll: "deleted \<noteq> [] \<and> ?fs ! length ?keep \<in> set ?keep"
    then have "length ?keep < length ?fs" using len by (cases deleted) auto
    then show "\<exists>f\<in>set ?keep. pf_id f = pf_id new" using coll assms(1) new by force
  qed
  with flag_misses_new_file [of s'' ?keep new now] new show ?thesis by simp
qed

theorem parquet_file_id_reused_iff_witness:
  "\<exists>s deleted s' new s''. parquet_files_delete_old (Timestamp 20) s = (Ok deleted, s') \<and> parquet_files_create (sample_params 12) s' = (Ok new, s'')
     \<and> pf_id new = ParquetFileId 2 \<and> (\<exists>f\<in>set (parquet_files s'). pf_id f = pf_id new)
     \<and> new \<in> set (parquet_files (snd (parquet_files_flag_for_delete 30 (pf_id new) s'')))"
proof -
  define s where "s = snd (parquet_files_flag_for_delete 5 (ParquetFileId 1)
           (snd (parquet_files_create (sample_params 11)
             (snd (parquet_files_create (sample_params 10) MemCollections_default)))))"
  have fs: "parquet_files s = [sample_file 1 10 (Some (Timestamp 5)), sample_file 2 11 None]"
    by (simp add: s_def sample_file_defs less_Timestamp_def)
  have del: "parquet_files_delete_old (Timestamp 20) s = (Ok [sample_file 1 10 (Some (Timestamp 5))], s\<lparr>parquet_files := [sample_file 2 11 None]\<rparr>)"
    by (simp add: parquet_files_delete_old_def fs) (simp add: sample_file_def less_Timestamp_def)
  obtain new s'' where new: "parquet_files_create (sample_params 12) (s\<lparr>parquet_files := [sample_file 2 11 None]\<rparr>) = (Ok new, s'')"
    by (simp add: sample_file_defs Let_def)
  have ids: "\<And>i. i < length (parquet_files s) \<Longrightarrow> pf_id (parquet_files s ! i) = ParquetFileId (int i + 1)"
    by (auto simp: fs sample_file_def less_Suc_eq)
  from parquet_file_id_reused_iff [OF ids del new, of 30] show ?thesis
    using del new by (intro exI conjI) (auto simp: fs)
qed

section \<open>Ranking of partitions\<close>

lemma map_of_hm_bump:
  "map_of (hm_bump k m) k' =
     (if k' = k then Some (case map_of m k of None \<Rightarrow> 1 | Some n \<Rightarrow> n + 1) else map_of m k')"
  by (induction k m rule: hm_bump.induct) auto

lemma fst_set_hm_bump: "fst ` set (hm_bump k m) = insert k (fst ` set m)"
  by (induction k m rule: hm_bump.induct) auto

lemma distinct_hm_bump: "distinct (map fst m) \<Longrightarrow> distinct (map fst (hm_bump k m))"
proof (induction k m rule: hm_bump.induct)
  case (2 k k' n m)
  then show ?case using fst_set_hm_bump [of k m] by auto
qed simp

lemma distinct_fold_hm_bump: "distinct (map fst m) \<Longrightarrow> distinct (map fst (fold hm_bump ks m))"
  by (induction ks arbitrary: m) (simp_all add: distinct_hm_bump)

lemma map_of_fold_hm_bump:
  "map_of (fold hm_bump ks m) k =
     (case map_of m k of
        None \<Rightarrow> if k \<in> set ks then Some (count_list ks k) else None
      | Some n \<Rightarrow> Some (n + count_list ks k))"
  by (induction ks arbitrary: m) (auto simp: map_of_hm_bump count_list_0_iff split: option.splits)

lemma distinct_duplicate_count: "distinct (map fst (duplicate_count ks))"
  by (simp add: duplicate_count_def distinct_fold_hm_bump)

lemma set_duplicate_count: "(k, n) \<in> set (duplicate_count ks) \<longleftrightarrow> k \<in> set ks \<and> n = count_list ks k"
proof -
  have "(k, n) \<in> set (duplicate_count ks) \<longleftrightarrow> map_of (duplicate_count ks) k = Some n"
    using distinct_duplicate_count by (metis map_of_eq_Some_iff)
  then show ?thesis by (auto simp: duplicate_count_def map_of_fold_hm_bump)
qed

text \<open>
  The generic fact: the first \<open>n\<close> keys of a list sorted by descending count, with a stable sort.
\<close>

definition top_keys :: "nat \<Rightarrow> ('k \<times> nat) list \<Rightarrow> 'k list" where
  "top_keys n kvs = take n (map fst (sort_key (\<lambda>(_, v). - int v) kvs))"

lemma sort_key_desc: "sorted_wrt (\<lambda>a b. snd b \<le> snd a) (sort_key (\<lambda>(_, v). - int v) kvs)"
proof -
  have "sorted (map (\<lambda>(_, v). - int v) (sort_key (\<lambda>(_, v). - int v) kvs))" by simp
  then show ?thesis by (auto simp: sorted_map elim: sorted_wrt_mono_rel [rotated])
qed

lemma top_keys_props:
  assumes "distinct (map fst kvs)" and "\<And>k v. (k, v) \<in> set kvs \<Longrightarrow> v = cnt k"
  shows "distinct (top_keys n kvs)" and "length (top_keys n kvs) \<le> n"
    and "set (top_keys n kvs) \<subseteq> fst ` set kvs"
    and "sorted_wrt (\<lambda>a b. cnt b \<le> cnt a) (top_keys n kvs)"
    and "q \<in> fst ` set kvs \<Longrightarrow> q \<notin> set (top_keys n kvs) \<Longrightarrow>
           length (top_keys n kvs) = n \<and> (\<forall>p\<in>set (top_keys n kvs). cnt q \<le> cnt p)"
proof -
  define xs where "xs = sort_key (\<lambda>(_, v). - int v) kvs"
  have set_xs: "set xs = set kvs" and mset_xs: "mset xs = mset kvs" by (simp_all add: xs_def)
  have top: "top_keys n kvs = map fst (take n xs)" by (simp add: top_keys_def xs_def take_map)
  have "mset (map fst xs) = mset (map fst kvs)" using mset_xs by (metis mset_map)
  then have dist: "distinct (map fst xs)" using assms(1) mset_eq_imp_distinct_iff by blast
  have desc: "sorted_wrt (\<lambda>a b. snd b \<le> snd a) xs" unfolding xs_def by (rule sort_key_desc)
  have cnt: "x \<in> set xs \<Longrightarrow> snd x = cnt (fst x)" for x using assms(2) set_xs by (cases x) auto
  show "distinct (top_keys n kvs)" using dist unfolding top take_map [symmetric] by (rule distinct_take)
  show "length (top_keys n kvs) \<le> n" by (simp add: top)
  show "set (top_keys n kvs) \<subseteq> fst ` set kvs" using set_xs by (auto simp: top dest: in_set_takeD)
  have "sorted_wrt (\<lambda>a b. snd b \<le> snd a) (take n xs)" using desc by (rule sorted_wrt_take)
  then have "sorted_wrt (\<lambda>a b. cnt (fst b) \<le> cnt (fst a)) (take n xs)"
    by (rule sorted_wrt_mono_rel [rotated]) (metis cnt in_set_takeD)
  then show "sorted_wrt (\<lambda>a b. cnt b \<le> cnt a) (top_keys n kvs)" by (simp add: top sorted_wrt_map)
  show "length (top_keys n kvs) = n \<and> (\<forall>p\<in>set (top_keys n kvs). cnt q \<le> cnt p)"
    if q: "q \<in> fst ` set kvs" "q \<notin> set (top_keys n kvs)"
  proof -
    from q set_xs obtain y where y: "y \<in> set xs" "q = fst y" by auto
    have "set xs = set (take n xs) \<union> set (drop n xs)" by (metis append_take_drop_id set_append)
    with y q(2) have yd: "y \<in> set (drop n xs)" by (auto simp: top)
    then have "n < length xs" by (metis drop_all empty_iff empty_set not_le)
    moreover have "snd y \<le> snd x" if "x \<in> set (take n xs)" for x
      using desc yd that by (metis append_take_drop_id sorted_wrt_append)
    ultimately show ?thesis using y cnt by (auto simp: top) (metis cnt in_set_takeD snd_conv)
  qed
qed

text \<open>The recent level-0 files of a sequencer, one entry per file.\<close>

definition recent_level_0_partitions ::
    "(nat \<Rightarrow> int) \<Rightarrow> SequencerId \<Rightarrow> nat \<Rightarrow> MemCollections \<Rightarrow> PartitionParam list" where
  "recent_level_0_partitions nanos_ago sequencer_id num_hours s =
     map PartitionParam_of
       (filter (\<lambda>f. pf_sequencer_id f = sequencer_id
                    \<and> pf_created_at f > Timestamp (nanos_ago (60 * 60 * num_hours))
                    \<and> pf_compaction_level f = CompactionLevel_Initial \<and> pf_to_delete f = None)
          (parquet_files s))"

text \<open>
  C30. The partitions with the highest recent throughput are reported correctly for every iteration
  order of the hash map: at most the requested number of different partitions, in descending order
  of their number of recent level-0 files, each with at least the requested number of files; and a
  partition with enough files is left out only when the answer is full of partitions with at least
  as many files.
\<close>

theorem recent_highest_throughput_partitions_correct:
  assumes perm: "\<And>xs. mset (hash_order xs) = mset xs"
  shows "\<exists>ps. parquet_files_recent_highest_throughput_partitions nanos_ago hash_order q hours
                min_files num s = (Ok ps, s)
     \<and> distinct ps \<and> length ps \<le> num
     \<and> (\<forall>p\<in>set ps. 1 \<le> count_list (recent_level_0_partitions nanos_ago q hours s) p
          \<and> min_files \<le> count_list (recent_level_0_partitions nanos_ago q hours s) p)
     \<and> sorted_wrt (\<lambda>a b. count_list (recent_level_0_partitions nanos_ago q hours s) b
          \<le> count_list (recent_level_0_partitions nanos_ago q hours s) a) ps
     \<and> (\<forall>p'. 1 \<le> count_list (recent_level_0_partitions nanos_ago q hours s) p'
          \<and> min_files \<le> count_list (recent_level_0_partitions nanos_ago q hours s) p' \<and> p' \<notin> set ps
          \<longrightarrow> length ps = num \<and>
              (\<forall>p\<in>set ps. count_list (recent_level_0_partitions nanos_ago q hours s) p'
                 \<le> count_list (recent_level_0_partitions nanos_ago q hours s) p))"
proof -
  define parts where "parts = recent_level_0_partitions nanos_ago q hours s"
  define kvs where "kvs = filter (\<lambda>(_, v). v \<ge> min_files) (hash_order (duplicate_count parts))"
  have set_eq: "set (hash_order (duplicate_count parts)) = set (duplicate_count parts)"
    using perm by (rule mset_eq_setD)
  have set_kvs: "set kvs = {(k, v). k \<in> set parts \<and> v = count_list parts k \<and> min_files \<le> v}"
    unfolding kvs_def set_filter set_eq by (auto simp: set_duplicate_count)
  have "mset (map fst (hash_order (duplicate_count parts))) = mset (map fst (duplicate_count parts))"
    using perm by (metis mset_map)
  then have "distinct (map fst (hash_order (duplicate_count parts)))"
    using distinct_duplicate_count mset_eq_imp_distinct_iff by blast
  then have dist: "distinct (map fst kvs)" unfolding kvs_def by (rule distinct_map_filterI)
  have cnt: "(k, v) \<in> set kvs \<Longrightarrow> v = count_list parts k" for k v using set_kvs by auto
  note top = top_keys_props [where cnt = "count_list parts" and n = num, OF dist cnt]
  have keys: "p \<in> fst ` set kvs \<longleftrightarrow> 1 \<le> count_list parts p \<and> min_files \<le> count_list parts p" for p
    using count_list_0_iff [of parts p] by (force simp: set_kvs image_iff Suc_le_eq)
  have run: "parquet_files_recent_highest_throughput_partitions nanos_ago hash_order q hours
      min_files num s = (Ok (top_keys num kvs), s)"
    by (simp add: parquet_files_recent_highest_throughput_partitions_def top_keys_def kvs_def
        parts_def recent_level_0_partitions_def Let_def)
  have "\<forall>p\<in>set (top_keys num kvs). 1 \<le> count_list parts p \<and> min_files \<le> count_list parts p"
    using top(3) keys by (meson subsetD)
  moreover have "\<forall>p'. 1 \<le> count_list parts p' \<and> min_files \<le> count_list parts p'
        \<and> p' \<notin> set (top_keys num kvs) \<longrightarrow>
      length (top_keys num kvs) = num
      \<and> (\<forall>p\<in>set (top_keys num kvs). count_list parts p' \<le> count_list parts p)"
  proof (intro allI impI)
    fix p' assume p': "1 \<le> count_list parts p' \<and> min_files \<le> count_list parts p'
        \<and> p' \<notin> set (top_keys num kvs)"
    then have "p' \<in> fst ` set kvs" using keys by simp
    with p' show "length (top_keys num kvs) = num
        \<and> (\<forall>p\<in>set (top_keys num kvs). count_list parts p' \<le> count_list parts p)"
      using top(5) by simp
  qed
  ultimately show ?thesis
    unfolding parts_def [symmetric] using run top(1,2,4) by (intro exI [of _ "top_keys num kvs"] conjI)
qed

theorem recent_highest_throughput_partitions_correct_witness:
  "\<exists>ps. parquet_files_recent_highest_throughput_partitions (\<lambda>_. 0) (\<lambda>xs. xs) (SequencerId 1) 1 2 5
          reuse_catalog = (Ok ps, reuse_catalog) \<and> distinct ps \<and> length ps \<le> 5"
proof -
  have "\<And>xs :: (PartitionParam \<times> nat) list. mset ((\<lambda>xs. xs) xs) = mset xs" by simp
  from recent_highest_throughput_partitions_correct [OF this] show ?thesis by blast
qed

end
