(* ===== verification/Mem_Txn.thy ===== *)
theory Mem_Txn
  imports Catalog_Files
begin

text \<open>
  Transactions of the in-memory catalog: \<open>MemTxn\<close>, \<open>MemTxnInner\<close> and the \<open>Catalog\<close> and
  \<open>TransactionFinalize\<close> implementations of \<open>src/iox_catalog/src/mem.rs\<close>.  A transaction owns the
  guard of the catalog's mutex and works on a copy of the collections; without a transaction the
  repositories work on the guarded collections themselves.
\<close>

section \<open>Transactions\<close>

datatype MemTxnInner =
    MemTxnInner_Txn MemCollections MemCollections bool
  | MemTxnInner_NoTxn MemCollections

fun MemTxn_stage :: "MemTxnInner \<Rightarrow> MemCollections" where
  "MemTxn_stage (MemTxnInner_Txn guard stage finalized) = stage"
| "MemTxn_stage (MemTxnInner_NoTxn collections) = collections"

fun MemTxn_set_stage :: "MemCollections \<Rightarrow> MemTxnInner \<Rightarrow> MemTxnInner" where
  "MemTxn_set_stage s (MemTxnInner_Txn guard stage finalized) = MemTxnInner_Txn guard s finalized"
| "MemTxn_set_stage s (MemTxnInner_NoTxn collections) = MemTxnInner_NoTxn s"

text \<open>A repository method called on a transaction runs on its stage.\<close>

definition MemTxn_call :: "'a cat_method \<Rightarrow> (Error, MemTxnInner, 'a) call" where
  "MemTxn_call m txn =
     (case m (MemTxn_stage txn) of (r, s) \<Rightarrow> (r, MemTxn_set_stage s txn))"

text \<open>What the mutex guards, that is what the next client finds once the guard is released.\<close>

fun MemTxn_guarded :: "MemTxnInner \<Rightarrow> MemCollections" where
  "MemTxn_guarded (MemTxnInner_Txn guard stage finalized) = guard"
| "MemTxn_guarded (MemTxnInner_NoTxn collections) = collections"

definition start_transaction :: "MemCollections \<Rightarrow> MemTxnInner" where
  "start_transaction collections = MemTxnInner_Txn collections collections False"

definition repositories :: "MemCollections \<Rightarrow> MemTxnInner" where
  "repositories collections = MemTxnInner_NoTxn collections"

fun commit_inplace :: "(Error, MemTxnInner, unit) call" where
  "commit_inplace (MemTxnInner_Txn guard stage finalized) =
     (if finalized then (Panic, MemTxnInner_Txn guard stage finalized)
      else (Ok (), MemTxnInner_Txn stage MemCollections_default True))"
| "commit_inplace (MemTxnInner_NoTxn collections) = (Panic, MemTxnInner_NoTxn collections)"

fun abort_inplace :: "(Error, MemTxnInner, unit) call" where
  "abort_inplace (MemTxnInner_Txn guard stage finalized) =
     (if finalized then (Panic, MemTxnInner_Txn guard stage finalized)
      else (Ok (), MemTxnInner_Txn guard stage True))"
| "abort_inplace (MemTxnInner_NoTxn collections) = (Panic, MemTxnInner_NoTxn collections)"

text \<open>
  A client's use of a transaction: any sequence of repository calls, each of which may succeed or
  fail, and of finalizations.  The run is \<open>None\<close> when a finalization panics.
\<close>

datatype txn_op =
    is_call: Op_Call "unit cat_method"
  | Op_Commit
  | Op_Abort

fun txn_run :: "txn_op list \<Rightarrow> MemTxnInner \<Rightarrow> MemTxnInner option" where
  "txn_run [] txn = Some txn"
| "txn_run (Op_Call m # ops) txn = txn_run ops (snd (MemTxn_call m txn))"
| "txn_run (Op_Commit # ops) txn = (case commit_inplace txn of (Ok _, txn) \<Rightarrow> txn_run ops txn | _ \<Rightarrow> None)"
| "txn_run (Op_Abort # ops) txn = (case abort_inplace txn of (Ok _, txn) \<Rightarrow> txn_run ops txn | _ \<Rightarrow> None)"

text \<open>The writes of the calls of a sequence, in order, and the number of its finalizations.\<close>

fun call_writes :: "txn_op list \<Rightarrow> MemCollections \<Rightarrow> MemCollections" where
  "call_writes [] c = c"
| "call_writes (Op_Call m # ops) c = call_writes ops (snd (m c))"
| "call_writes (_ # ops) c = call_writes ops c"

abbreviation finalizations :: "txn_op list \<Rightarrow> nat" where
  "finalizations ops \<equiv> length (filter (\<lambda>op. \<not> is_call op) ops)"

lemma MemTxn_call_Txn [simp]:
  "snd (MemTxn_call m (MemTxnInner_Txn g st fin)) = MemTxnInner_Txn g (snd (m st)) fin"
  by (simp add: MemTxn_call_def split: prod.splits)

lemma MemTxn_call_NoTxn [simp]:
  "snd (MemTxn_call m (MemTxnInner_NoTxn c)) = MemTxnInner_NoTxn (snd (m c))"
  by (simp add: MemTxn_call_def split: prod.splits)

text \<open>After its finalization a transaction no longer changes what the mutex guards.\<close>

lemma txn_run_finalized:
  "case txn_run ops (MemTxnInner_Txn g st True) of
     None \<Rightarrow> 0 < finalizations ops
   | Some txn \<Rightarrow> finalizations ops = 0 \<and> MemTxn_guarded txn = g"
  by (induction ops "MemTxnInner_Txn g st True" arbitrary: st rule: txn_run.induct) (simp_all split: option.splits)

lemma no_finalization: "finalizations ops = 0 \<Longrightarrow> Op_Commit \<notin> set ops"
  by (auto simp: filter_empty_conv)

lemma txn_run_open:
  "case txn_run ops (MemTxnInner_Txn g st False) of
     None \<Rightarrow> 1 < finalizations ops
   | Some txn \<Rightarrow> finalizations ops \<le> 1 \<and> MemTxn_guarded txn =
       (if Op_Commit \<in> set ops then call_writes (takeWhile (\<lambda>op. op \<noteq> Op_Commit) ops) st else g)"
proof (induction ops arbitrary: st)
  case (Cons op ops)
  show ?case
  proof (cases op)
    case (Op_Call m)
    with Cons [of "snd (m st)"] show ?thesis by (simp split: option.splits)
  next
    case Op_Commit
    with txn_run_finalized [of ops st MemCollections_default] show ?thesis by (simp split: option.splits)
  next
    case Op_Abort
    with txn_run_finalized [of ops g st] no_finalization [of ops] show ?thesis by (simp split: option.splits)
  qed
qed simp

lemma txn_run_NoTxn:
  "txn_run ops (MemTxnInner_NoTxn c) =
     (if finalizations ops = 0 then Some (MemTxnInner_NoTxn (call_writes ops c)) else None)"
  by (induction ops c rule: call_writes.induct) simp_all

text \<open>
  C23. Transactions are atomic, whatever sequence of repository calls, commits and aborts a client runs.
  The run panics exactly when it finalizes more than once.  Otherwise the catalog that the next client
  sees is the start catalog with all writes of the calls before the commit, in order, when the run commits, and the
  start catalog itself when it aborts or drops the transaction, calls after the finalization
  having no effect.  Without a transaction every write is visible and any finalization panics.
\<close>

theorem transaction_atomic:
  "(case txn_run ops (start_transaction c) of
      None \<Rightarrow> 1 < finalizations ops
    | Some txn \<Rightarrow> finalizations ops \<le> 1 \<and> MemTxn_guarded txn =
        (if Op_Commit \<in> set ops then call_writes (takeWhile (\<lambda>op. op \<noteq> Op_Commit) ops) c else c))
   \<and> map_option MemTxn_guarded (txn_run ops (repositories c)) =
       (if finalizations ops = 0 then Some (call_writes ops c) else None)"
  using txn_run_open [of ops c c] by (simp add: start_transaction_def repositories_def txn_run_NoTxn)

section \<open>Clients of the catalog\<close>

text \<open>
  The catalog with its mutex.  Either the collections are free, or one client holds the guard
  through a transaction or through plain repositories.
\<close>

datatype sys = Free MemCollections | Held nat MemTxnInner

inductive sys_step :: "sys \<Rightarrow> sys \<Rightarrow> bool" where
  sys_start: "sys_step (Free c) (Held i (start_transaction c))"
| sys_repos: "sys_step (Free c) (Held i (repositories c))"
| sys_call: "cat_step (MemTxn_stage txn) s \<Longrightarrow> sys_step (Held i txn) (Held i (MemTxn_set_stage s txn))"
| sys_commit: "commit_inplace txn = (Ok (), txn') \<Longrightarrow> sys_step (Held i txn) (Held i txn')"
| sys_abort: "abort_inplace txn = (Ok (), txn') \<Longrightarrow> sys_step (Held i txn) (Held i txn')"
| sys_drop: "sys_step (Held i txn) (Free (MemTxn_guarded txn))"

inductive sys_reachable :: "sys \<Rightarrow> bool" where
  sys_init: "sys_reachable (Free MemCollections_default)"
| sys_next: "sys_reachable x \<Longrightarrow> sys_step x y \<Longrightarrow> sys_reachable y"

fun sys_guarded :: "sys \<Rightarrow> MemCollections" where
  "sys_guarded (Free c) = c"
| "sys_guarded (Held i txn) = MemTxn_guarded txn"

fun sys_visible :: "sys \<Rightarrow> MemCollections" where
  "sys_visible (Free c) = c"
| "sys_visible (Held i txn) = MemTxn_stage txn"

lemma sys_step_reachable:
  assumes "sys_step x y" and "cat_reachable (sys_guarded x)" and "cat_reachable (sys_visible x)"
  shows "cat_reachable (sys_guarded y) \<and> cat_reachable (sys_visible y)"
  using assms
proof (induction rule: sys_step.induct)
  case (sys_call txn s i)
  then show ?case by (cases txn) (auto intro: reachable_step)
next
  case (sys_commit txn txn' i)
  then show ?case by (cases txn) (auto intro: reachable_default split: if_splits)
next
  case (sys_abort txn txn' i)
  then show ?case by (cases txn) (auto split: if_splits)
qed (auto simp: start_transaction_def repositories_def)

text \<open>
  C1. However many clients share the catalog, in every reachable state of the system both the
  committed collections and the collections that the current client sees are well formed; in
  particular no commit, abort or dropped transaction leaves a partly applied write behind.
\<close>

theorem sys_reachable_wf:
  assumes "sys_reachable x"
  shows "cat_wf (sys_guarded x) \<and> cat_wf (sys_visible x)"
proof -
  have "cat_reachable (sys_guarded x) \<and> cat_reachable (sys_visible x)"
    using assms by (induction rule: sys_reachable.induct) (auto intro: reachable_default dest: sys_step_reachable)
  then show ?thesis by (blast intro: cat_reachable_cat_wf)
qed

theorem sys_reachable_wf_witness:
  "sys_reachable (Held 3 (MemTxnInner_Txn MemCollections_default
       (snd (kafka_topics_create_or_get ''t'' MemCollections_default)) False))
   \<and> cat_wf (snd (kafka_topics_create_or_get ''t'' MemCollections_default))"
proof -
  have "sys_reachable (Held 3 (start_transaction MemCollections_default))"
    by (rule sys_next [OF sys_init sys_start])
  moreover have "cat_step (MemTxn_stage (start_transaction MemCollections_default))
      (snd (kafka_topics_create_or_get ''t'' MemCollections_default))"
    by (simp add: start_transaction_def step_topic)
  ultimately have r: "sys_reachable (Held 3 (MemTxn_set_stage
      (snd (kafka_topics_create_or_get ''t'' MemCollections_default)) (start_transaction MemCollections_default)))"
    by (rule sys_next [OF _ sys_call])
  from sys_reachable_wf [OF r] r show ?thesis by (simp add: start_transaction_def)
qed

end
