(* ===== verification/Catalog_Schema.thy ===== *)
theory Catalog_Schema
  imports Catalog_Repos
begin

text \<open>
  Schemas on top of the repositories: reading them from the catalog (\<open>get_schema_by_id\<close>,
  \<open>get_schema_by_name\<close>, \<open>get_table_schema_by_id\<close> and \<open>list_schemas\<close> of
  \<open>src/iox_catalog/src/interface.rs\<close>), and validating a write against a cached schema while pushing
  its new tables and columns to the catalog (\<open>validate_or_insert_schema\<close> of
  \<open>src/iox_catalog/src/lib.rs\<close>).
\<close>

section \<open>Reading schemas\<close>

text \<open>A column read from the catalog goes into its table's schema, replacing an equal name.\<close>

definition TableSchema_put :: "string \<Rightarrow> ColumnSchema \<Rightarrow> TableSchema \<Rightarrow> TableSchema" where
  "TableSchema_put name c t = t\<lparr>tsc_columns := bt_insert name c (tsc_columns t)\<rparr>"

type_synonym TableMap = "(TableId, string \<times> TableSchema) BTreeMap"

definition table_id_to_schema :: "Table list \<Rightarrow> TableMap" where
  "table_id_to_schema ts =
     foldl (\<lambda>m t. bt_insert (tbl_id t) (tbl_name t, TableSchema_new (tbl_id t)) m) [] ts"

fun schema_put_columns :: "Column list \<Rightarrow> TableMap \<Rightarrow> (Error, TableMap) res" where
  "schema_put_columns [] m = Ok m"
| "schema_put_columns (c # cs) m =
     (case bt_get m (col_table_id c) of
        None \<Rightarrow> Panic
      | Some (name, t) \<Rightarrow>
          (case ColumnType_try_from (col_column_type c) of
             Some column_type \<Rightarrow>
               schema_put_columns cs
                 (bt_insert (col_table_id c)
                    (name, TableSchema_put (col_name c)
                       \<lparr>cs_id = col_id c, cs_column_type = column_type\<rparr> t) m)
           | None \<Rightarrow> Err (Error_UnknownColumnType (col_column_type c) (col_name c))))"

definition schema_put_tables :: "TableMap \<Rightarrow> NamespaceSchema \<Rightarrow> NamespaceSchema" where
  "schema_put_tables m ns =
     foldl (\<lambda>ns (_, name, t). ns\<lparr>nsc_tables := bt_insert name t (nsc_tables ns)\<rparr>) ns m"

definition get_schema_internal :: "Namespace \<Rightarrow> NamespaceSchema cat_method" where
  "get_schema_internal namespace =
     m_bind (columns_list_by_namespace_id (ns_id namespace)) (\<lambda>cols.
     m_bind (tables_list_by_namespace_id (ns_id namespace)) (\<lambda>tabs.
     m_bind (m_lift (schema_put_columns cols (table_id_to_schema tabs))) (\<lambda>m.
     m_return (schema_put_tables m
       (NamespaceSchema_new (ns_id namespace) (ns_kafka_topic_id namespace)
          (ns_query_pool_id namespace))))))"

definition get_schema_by_id :: "NamespaceId \<Rightarrow> NamespaceSchema cat_method" where
  "get_schema_by_id i =
     m_bind (namespaces_get_by_id i) (\<lambda>r.
       case r of
         None \<Rightarrow> m_lift (Err (Error_NamespaceNotFoundById i))
       | Some namespace \<Rightarrow> get_schema_internal namespace)"

definition get_schema_by_name :: "string \<Rightarrow> NamespaceSchema cat_method" where
  "get_schema_by_name name =
     m_bind (namespaces_get_by_name name) (\<lambda>r.
       case r of
         None \<Rightarrow> m_lift (Err (Error_NamespaceNotFoundByName name))
       | Some namespace \<Rightarrow> get_schema_internal namespace)"

fun table_schema_put_columns :: "Column list \<Rightarrow> TableSchema \<Rightarrow> (Error, TableSchema) res" where
  "table_schema_put_columns [] t = Ok t"
| "table_schema_put_columns (c # cs) t =
     (case ColumnType_try_from (col_column_type c) of
        Some column_type \<Rightarrow>
          table_schema_put_columns cs
            (TableSchema_put (col_name c) \<lparr>cs_id = col_id c, cs_column_type = column_type\<rparr> t)
      | None \<Rightarrow> Err (Error_UnknownColumnType (col_column_type c) (col_name c)))"

definition get_table_schema_by_id :: "TableId \<Rightarrow> TableSchema cat_method" where
  "get_table_schema_by_id i =
     m_bind (columns_list_by_table_id i) (\<lambda>cols.
       m_lift (table_schema_put_columns cols (TableSchema_new i)))"

text \<open>
  \<open>list_schemas\<close> collects the columns by namespace and table, and then pairs every namespace that
  got an entry with it.  The \<open>HashMap\<close>s are only looked up, never iterated over, so they are
  functions; \<open>joined.remove\<close> takes the entry away from a later namespace of the same identifier.
\<close>

type_synonym NamespaceTables = "(string, TableSchema) BTreeMap"

fun join_columns ::
    "(TableId \<rightharpoonup> Table) \<Rightarrow> Column list \<Rightarrow> (NamespaceId \<rightharpoonup> NamespaceTables)
       \<Rightarrow> (Error, NamespaceId \<rightharpoonup> NamespaceTables) res" where
  "join_columns tabs [] joined = Ok joined"
| "join_columns tabs (c # cs) joined =
     (case tabs (col_table_id c) of
        None \<Rightarrow> Panic
      | Some table \<Rightarrow>
          (let ns_tables = (case joined (tbl_namespace_id table) of None \<Rightarrow> [] | Some m \<Rightarrow> m);
               table_schema = (case bt_get ns_tables (tbl_name table) of
                                 None \<Rightarrow> TableSchema_new (col_table_id c) | Some t \<Rightarrow> t)
           in case TableSchema_add_column c table_schema of
                (Ok _, t) \<Rightarrow>
                  join_columns tabs cs
                    (joined(tbl_namespace_id table \<mapsto> bt_insert (tbl_name table) t ns_tables))
              | (Err e, t) \<Rightarrow> Err e
              | (Panic, t) \<Rightarrow> Panic))"

fun join_namespaces ::
    "Namespace list \<Rightarrow> (NamespaceId \<rightharpoonup> NamespaceTables) \<Rightarrow> (Namespace \<times> NamespaceSchema) list" where
  "join_namespaces [] joined = []"
| "join_namespaces (v # vs) joined =
     (case joined (ns_id v) of
        None \<Rightarrow> join_namespaces vs joined
      | Some m \<Rightarrow>
          (v, (NamespaceSchema_new (ns_id v) (ns_kafka_topic_id v) (ns_query_pool_id v))
                \<lparr>nsc_tables := m\<rparr>)
            # join_namespaces vs (joined(ns_id v := None)))"

definition list_schemas :: "(Namespace \<times> NamespaceSchema) list cat_method" where
  "list_schemas =
     m_bind columns_list (\<lambda>cols.
       let retain_table_ids = col_table_id ` set cols in
     m_bind tables_list (\<lambda>tabs.
       let tabs = map_of (rev (map (\<lambda>t. (tbl_id t, t)) (filter (\<lambda>t. tbl_id t \<in> retain_table_ids) tabs))) in
     m_bind namespaces_list (\<lambda>nss.
     m_bind (m_lift (join_columns tabs cols Map.empty)) (\<lambda>joined.
     m_return (join_namespaces nss joined)))))"

section \<open>Validating a write\<close>

text \<open>\<open>std::borrow::Cow\<close>: the caller's value, or a clone that was changed.\<close>

datatype 'a Cow = Cow_Borrowed 'a | Cow_Owned 'a

fun cow_get :: "'a Cow \<Rightarrow> 'a" where
  "cow_get (Cow_Borrowed x) = x"
| "cow_get (Cow_Owned x) = x"

text \<open>
  What validation reads of a \<open>MutableBatch\<close>: the names and types of its columns, in the order in
  which its \<open>HashMap\<close> of columns happens to be iterated over.
\<close>

type_synonym batch_columns = "(string \<times> InfluxColumnType) list"

definition TIME_COLUMN :: string where "TIME_COLUMN = ''time''"

fun validate_columns :: "batch_columns \<Rightarrow> TableSchema \<Rightarrow> (Error, ColumnUpsertRequest list) res" where
  "validate_columns [] table = Ok []"
| "validate_columns ((name, influx_type) # cols) table =
     (case bt_get (tsc_columns table) name of
        Some existing \<Rightarrow>
          (if ColumnSchema_matches_type existing influx_type then validate_columns cols table
           else Err (Error_ColumnTypeMismatch name (ColumnType_as_str (cs_column_type existing))
                       (InfluxColumnType_to_str influx_type)))
      | None \<Rightarrow>
          res_map (\<lambda>column_batch.
              \<lparr>cur_name = name, cur_table_id = tsc_id table,
               cur_column_type = ColumnType_from_influx influx_type\<rparr> # column_batch)
            (validate_columns cols table))"

fun cow_add_columns :: "Column list \<Rightarrow> TableSchema Cow \<Rightarrow> (Error, TableSchema Cow) res" where
  "cow_add_columns [] table = Ok table"
| "cow_add_columns (c # cs) table =
     (case TableSchema_add_column c (cow_get table) of
        (Ok _, t) \<Rightarrow> cow_add_columns cs (Cow_Owned t)
      | (Err e, t) \<Rightarrow> Err e
      | (Panic, t) \<Rightarrow> Panic)"

definition schema_insert_table :: "string \<Rightarrow> TableSchema \<Rightarrow> NamespaceSchema \<Rightarrow> NamespaceSchema" where
  "schema_insert_table name t ns = ns\<lparr>nsc_tables := bt_insert name t (nsc_tables ns)\<rparr>"

text \<open>The table's entry in the cached schema; a table that has none is created with a time column.\<close>

definition validate_table ::
    "string \<Rightarrow> NamespaceSchema Cow \<Rightarrow> (NamespaceSchema Cow \<times> TableSchema) cat_method" where
  "validate_table table_name schema =
     (case bt_get (nsc_tables (cow_get schema)) table_name of
        Some t \<Rightarrow> m_return (schema, t)
      | None \<Rightarrow>
          m_bind (tables_create_or_get table_name (nsc_id (cow_get schema))) (\<lambda>t.
          m_bind (columns_create_or_get TIME_COLUMN (tbl_id t) ColumnType_Time) (\<lambda>time_col.
          m_bind (m_lift (res_map cow_get
                    (cow_add_columns [time_col] (Cow_Owned (TableSchema_new (tbl_id t)))))) (\<lambda>table.
          let old = bt_get (nsc_tables (cow_get schema)) table_name;
              schema' = schema_insert_table table_name table (cow_get schema)
          in if old \<noteq> None then m_lift Panic
             else case bt_get (nsc_tables schema') table_name of
                    None \<Rightarrow> m_lift Panic
                  | Some t \<Rightarrow> m_return (Cow_Owned schema', t)))))"

definition validate_mutable_batch ::
    "batch_columns \<Rightarrow> string \<Rightarrow> NamespaceSchema Cow \<Rightarrow> NamespaceSchema Cow cat_method" where
  "validate_mutable_batch mb table_name schema =
     m_bind (validate_table table_name schema) (\<lambda>(schema, t).
     m_bind (m_lift (validate_columns mb t)) (\<lambda>column_batch.
     m_bind (if column_batch = [] then m_return (Cow_Borrowed t)
             else m_bind (columns_create_or_get_many column_batch)
                    (\<lambda>cs. m_lift (cow_add_columns cs (Cow_Borrowed t)))) (\<lambda>table.
     case table of
       Cow_Borrowed _ \<Rightarrow> m_return schema
     | Cow_Owned t' \<Rightarrow>
         (if bt_get (nsc_tables (cow_get schema)) table_name = None then m_lift Panic
          else m_return (Cow_Owned (schema_insert_table table_name t' (cow_get schema)))))))"

fun validate_batches ::
    "(string \<times> batch_columns) list \<Rightarrow> NamespaceSchema Cow \<Rightarrow> NamespaceSchema Cow cat_method" where
  "validate_batches [] schema s = (Ok schema, s)"
| "validate_batches ((table_name, batch) # tabs) schema s =
     m_bind (validate_mutable_batch batch table_name schema) (validate_batches tabs) s"

definition validate_or_insert_schema ::
    "(string \<times> batch_columns) list \<Rightarrow> NamespaceSchema \<Rightarrow> NamespaceSchema option cat_method" where
  "validate_or_insert_schema tabs schema =
     m_bind (validate_batches tabs (Cow_Borrowed schema)) (\<lambda>schema.
       case schema of
         Cow_Owned v \<Rightarrow> m_return (Some v)
       | Cow_Borrowed _ \<Rightarrow> m_return None)"

section \<open>Default records\<close>

definition SHARED_KAFKA_TOPIC :: string where "SHARED_KAFKA_TOPIC = ''iox-shared''"

definition SHARED_QUERY_POOL :: string where "SHARED_QUERY_POOL = SHARED_KAFKA_TOPIC"

fun create_default_sequencers ::
    "KafkaTopic \<Rightarrow> int list \<Rightarrow> (SequencerId, Sequencer) BTreeMap
       \<Rightarrow> (SequencerId, Sequencer) BTreeMap cat_method" where
  "create_default_sequencers topic [] acc s = (Ok acc, s)"
| "create_default_sequencers topic (p # ps) acc s =
     m_bind (sequencers_create_or_get topic (KafkaPartition p)) (\<lambda>q.
       create_default_sequencers topic ps (bt_insert (sq_id q) q acc)) s"

definition create_or_get_default_records ::
    "int \<Rightarrow> (KafkaTopic \<times> QueryPool \<times> (SequencerId, Sequencer) BTreeMap) cat_method" where
  "create_or_get_default_records kafka_partition_count =
     m_bind (kafka_topics_create_or_get SHARED_KAFKA_TOPIC) (\<lambda>topic.
     m_bind (query_pools_create_or_get SHARED_QUERY_POOL) (\<lambda>pool.
     m_bind (create_default_sequencers topic [0..kafka_partition_count - 1] []) (\<lambda>qs.
     m_return (topic, pool, qs))))"
end
