(* ===== verification/Schema_Validation.thy ===== *)
theory Schema_Validation
  imports Catalog_Schema
begin

text \<open>
  Correctness of schema validation on top of the in-memory catalog: what
  \<open>validate_or_insert_schema\<close> returns agrees with the catalog, covers every batch with the right
  types, keeps everything that the cached schema had, and needs no second round; it does not panic.
\<close>

section \<open>Contracts\<close>

text \<open>Every column of a cached table schema is a row of the catalog.\<close>

definition table_agrees :: "MemCollections \<Rightarrow> TableSchema \<Rightarrow> bool" where
  "table_agrees s t \<longleftrightarrow>
     (\<forall>cname cs. bt_get (tsc_columns t) cname = Some cs \<longrightarrow>
        (\<exists>c\<in>set (columns s). col_table_id c = tsc_id t \<and> col_name c = cname
           \<and> ColumnSchema_try_from c = Some cs))"

definition schema_agrees :: "MemCollections \<Rightarrow> NamespaceSchema \<Rightarrow> bool" where
  "schema_agrees s sch \<longleftrightarrow>
     (\<forall>tname t. bt_get (nsc_tables sch) tname = Some t \<longrightarrow>
        table_agrees s t
        \<and> (\<exists>tb\<in>set (tables s). tbl_id tb = tsc_id t \<and> tbl_namespace_id tb = nsc_id sch
              \<and> tbl_name tb = tname))"

definition table_ext :: "TableSchema \<Rightarrow> TableSchema \<Rightarrow> bool" where
  "table_ext t t' \<longleftrightarrow> tsc_id t' = tsc_id t \<and> bt_get (tsc_columns t) \<subseteq>\<^sub>m bt_get (tsc_columns t')"

definition schema_ext :: "NamespaceSchema \<Rightarrow> NamespaceSchema \<Rightarrow> bool" where
  "schema_ext sch sch' \<longleftrightarrow> nsc_id sch' = nsc_id sch
     \<and> (\<forall>tname t. bt_get (nsc_tables sch) tname = Some t \<longrightarrow>
          (\<exists>t'. bt_get (nsc_tables sch') tname = Some t' \<and> table_ext t t'))"

definition covers :: "TableSchema \<Rightarrow> batch_columns \<Rightarrow> bool" where
  "covers t mb \<longleftrightarrow>
     (\<forall>(name, ty)\<in>set mb. \<exists>cs. bt_get (tsc_columns t) name = Some cs
        \<and> cs_column_type cs = ColumnType_from_influx ty)"

definition schema_covers :: "NamespaceSchema \<Rightarrow> (string \<times> batch_columns) list \<Rightarrow> bool" where
  "schema_covers sch tabs \<longleftrightarrow>
     (\<forall>(tname, mb)\<in>set tabs. \<exists>t. bt_get (nsc_tables sch) tname = Some t \<and> covers t mb)"

text \<open>The limits that the catalog compares with are not negative.\<close>

definition limits_ok :: "MemCollections \<Rightarrow> bool" where
  "limits_ok s \<longleftrightarrow>
     (\<forall>n\<in>set (namespaces s). 0 \<le> ns_max_tables n \<and> 0 \<le> ns_max_columns_per_table n)"

definition grows :: "MemCollections \<Rightarrow> MemCollections \<Rightarrow> bool" where
  "grows s s' \<longleftrightarrow> namespaces s' = namespaces s \<and> set (tables s) \<subseteq> set (tables s')
     \<and> set (columns s) \<subseteq> set (columns s')"

lemma grows_refl [simp]: "grows s s"
  by (simp add: grows_def)

lemma grows_trans: "grows s s' \<Longrightarrow> grows s' s'' \<Longrightarrow> grows s s''"
  by (auto simp: grows_def)

lemma grows_limits: "grows s s' \<Longrightarrow> limits_ok s \<Longrightarrow> limits_ok s'"
  by (simp add: grows_def limits_ok_def)

lemma table_agrees_grows: "grows s s' \<Longrightarrow> table_agrees s t \<Longrightarrow> table_agrees s' t"
  unfolding grows_def table_agrees_def by blast

lemma schema_agrees_grows: "grows s s' \<Longrightarrow> schema_agrees s sch \<Longrightarrow> schema_agrees s' sch"
  unfolding schema_agrees_def using table_agrees_grows by (fastforce simp: grows_def)

lemma table_ext_refl [simp]: "table_ext t t"
  by (simp add: table_ext_def)

lemma schema_ext_refl [simp]: "schema_ext sch sch"
  by (auto simp: schema_ext_def)

lemma table_ext_trans: "table_ext a b \<Longrightarrow> table_ext b c \<Longrightarrow> table_ext a c"
  unfolding table_ext_def by (auto intro: map_le_trans)

lemma schema_extD:
  assumes "schema_ext sch sch'" and "bt_get (nsc_tables sch) tname = Some t"
  obtains t' where "bt_get (nsc_tables sch') tname = Some t'" and "table_ext t t'"
  using assms unfolding schema_ext_def by blast

lemma schema_ext_trans: "schema_ext a b \<Longrightarrow> schema_ext b c \<Longrightarrow> schema_ext a c"
proof -
  assume ab: "schema_ext a b" and bc: "schema_ext b c"
  have "\<exists>t''. bt_get (nsc_tables c) tname = Some t'' \<and> table_ext t t''"
    if "bt_get (nsc_tables a) tname = Some t" for tname t
    using that by (elim schema_extD [OF ab] schema_extD [OF bc]) (auto intro: table_ext_trans)
  with ab bc show ?thesis by (simp add: schema_ext_def)
qed

lemma table_ext_get:
  "table_ext t t' \<Longrightarrow> bt_get (tsc_columns t) k = Some v \<Longrightarrow> bt_get (tsc_columns t') k = Some v"
  by (auto simp: table_ext_def map_le_def dom_def)

lemma covers_ext: "table_ext t t' \<Longrightarrow> covers t mb \<Longrightarrow> covers t' mb"
  unfolding covers_def by (fastforce dest: table_ext_get)

lemma schema_covers_ext:
  assumes "schema_ext sch sch'" and "schema_covers sch tabs"
  shows "schema_covers sch' tabs"
proof -
  have "\<exists>t. bt_get (nsc_tables sch') tname = Some t \<and> covers t mb" if tm: "(tname, mb) \<in> set tabs" for tname mb
  proof -
    obtain t where "bt_get (nsc_tables sch) tname = Some t" "covers t mb"
      using assms(2) tm by (auto simp: schema_covers_def)
    with assms(1) show ?thesis by (blast elim: schema_extD intro: covers_ext)
  qed
  then show ?thesis by (auto simp: schema_covers_def)
qed

section \<open>The catalog calls\<close>

lemma columns_create_or_get_grows: "grows s (snd (columns_create_or_get name t ct s))"
  by (auto simp: grows_def columns_create_or_get_def Let_def split: option.splits)

lemma columns_create_or_get_Ok:
  assumes "columns_create_or_get name t ct s = (Ok c, s')"
  shows "col_name c = name" and "col_table_id c = t" and "col_column_type c = ColumnType_as_i16 ct"
    and "c \<in> set (columns s')"
  using assms
  by (auto simp: columns_create_or_get_def Let_def dest!: find_SomeD split: option.splits if_splits)

lemma columns_create_or_get_no_panic:
  assumes "cat_wf s" and "limits_ok s"
  shows "fst (columns_create_or_get name t ct s) \<noteq> Panic"
  using assms
  by (auto simp: columns_create_or_get_def Let_def limits_ok_def cat_wf_def columns_wf_def
      dest!: find_SomeD split: option.splits)

lemma columns_create_or_get_many_grows: "grows s (snd (columns_create_or_get_many cs s))"
proof (induction cs arbitrary: s)
  case (Cons c cs)
  show ?case
    unfolding columns_create_or_get_many.simps
  proof (rule m_bind_state [where P = "grows s"], rule columns_create_or_get_grows)
    fix x s' assume 1: "columns_create_or_get (cur_name c) (cur_table_id c) (cur_column_type c) s = (Ok x, s')"
    show "grows s (snd (m_bind (columns_create_or_get_many cs) (\<lambda>xs. m_return (x # xs)) s'))"
      by (rule m_bind_state [where P = "grows s"])
        (metis 1 columns_create_or_get_grows grows_trans snd_conv Cons.IH,
         metis 1 columns_create_or_get_grows grows_trans snd_conv Cons.IH m_return_def)
  qed
qed simp

lemma columns_create_or_get_many_no_panic:
  assumes "cat_wf s" and "limits_ok s"
  shows "fst (columns_create_or_get_many cs s) \<noteq> Panic"
  using assms
proof (induction cs arbitrary: s)
  case (Cons c cs)
  let ?m = "columns_create_or_get (cur_name c) (cur_table_id c) (cur_column_type c)"
  obtain r s' where m: "?m s = (r, s')" by (cases "?m s")
  have "cat_wf s'" and "limits_ok s'"
    using columns_create_or_get_wf [OF Cons.prems(1)] columns_create_or_get_grows grows_limits Cons.prems m
    by (metis snd_conv)+
  with Cons.IH have "fst (columns_create_or_get_many cs s') \<noteq> Panic" by blast
  moreover have "r \<noteq> Panic" using columns_create_or_get_no_panic [OF Cons.prems] m by (metis fst_conv)
  ultimately show ?case
    using m by (auto simp: m_bind_def m_return_def split: res.splits prod.splits)
qed simp

lemma columns_create_or_get_many_Ok:
  assumes "columns_create_or_get_many reqs s = (Ok cs, s')"
  shows "map (\<lambda>c. (col_name c, col_table_id c, col_column_type c)) cs
           = map (\<lambda>q. (cur_name q, cur_table_id q, ColumnType_as_i16 (cur_column_type q))) reqs
         \<and> set cs \<subseteq> set (columns s')"
  using assms
proof (induction reqs arbitrary: s cs)
  case (Cons q reqs)
  from Cons.prems obtain c s1 cs1
    where c: "columns_create_or_get (cur_name q) (cur_table_id q) (cur_column_type q) s = (Ok c, s1)"
      and cs1: "columns_create_or_get_many reqs s1 = (Ok cs1, s')" and cs: "cs = c # cs1"
    by (auto simp: m_return_def elim!: m_bind_OkE)
  have "c \<in> set (columns s')"
    using columns_create_or_get_Ok(4) [OF c] columns_create_or_get_many_grows [of s1 reqs] cs1
    by (auto simp: grows_def)
  with Cons.IH [OF cs1] columns_create_or_get_Ok [OF c] show ?case by (simp add: cs)
qed simp

lemma tables_create_or_get_grows: "grows s (snd (tables_create_or_get name ns s))"
  by (auto simp: grows_def tables_create_or_get_def Let_def split: option.splits)

lemma tables_create_or_get_Ok:
  assumes "tables_create_or_get name ns s = (Ok t, s')"
  shows "tbl_name t = name" and "tbl_namespace_id t = ns" and "t \<in> set (tables s')"
  using assms
  by (auto simp: tables_create_or_get_def Let_def dest!: find_SomeD split: option.splits if_splits)

lemma tables_create_or_get_no_panic: "limits_ok s \<Longrightarrow> fst (tables_create_or_get name ns s) \<noteq> Panic"
  by (auto simp: tables_create_or_get_def Let_def limits_ok_def dest!: find_SomeD split: option.splits)

section \<open>The validation steps\<close>

lemma validate_columns_no_panic: "validate_columns mb t \<noteq> Panic"
  by (induction mb t rule: validate_columns.induct) (auto split: option.splits, case_tac "validate_columns cols table", auto)

lemma validate_columns_Ok:
  assumes "validate_columns mb t = Ok reqs"
  shows "map (\<lambda>q. (cur_name q, cur_table_id q, cur_column_type q)) reqs
           = map (\<lambda>(n, ty). (n, tsc_id t, ColumnType_from_influx ty))
               (filter (\<lambda>(n, ty). bt_get (tsc_columns t) n = None) mb)
         \<and> (\<forall>(n, ty)\<in>set mb. \<forall>cs. bt_get (tsc_columns t) n = Some cs \<longrightarrow>
               cs_column_type cs = ColumnType_from_influx ty)"
  using assms
proof (induction mb t arbitrary: reqs rule: validate_columns.induct)
  case (2 name ty cols table)
  show ?case
  proof (cases "bt_get (tsc_columns table) name")
    case None
    with 2 show ?thesis by (cases "validate_columns cols table") auto
  next
    case (Some e)
    with 2 show ?thesis by (auto simp: ColumnSchema_matches_type_iff split: if_splits)
  qed
qed simp

lemma validate_columns_covered:
  assumes "covers t mb"
  shows "validate_columns mb t = Ok []"
  using assms by (induction mb t rule: validate_columns.induct) (auto simp: covers_def ColumnSchema_matches_type_iff)

text \<open>Adding columns with fresh names succeeds and adds just those.\<close>

lemma cow_add_columns_Ok:
  assumes "distinct (map col_name cs)"
    and "\<forall>c\<in>set cs. bt_get (tsc_columns (cow_get t)) (col_name c) = None
           \<and> ColumnSchema_try_from c \<noteq> None"
  shows "\<exists>t'. cow_add_columns cs t = Ok t' \<and> tsc_id (cow_get t') = tsc_id (cow_get t)
           \<and> (\<forall>k. bt_get (tsc_columns (cow_get t')) k =
                (case find (\<lambda>c. col_name c = k) cs of
                   Some c \<Rightarrow> ColumnSchema_try_from c
                 | None \<Rightarrow> bt_get (tsc_columns (cow_get t)) k))
           \<and> (if cs = [] then t' = t else \<exists>x. t' = Cow_Owned x)"
  using assms
proof (induction cs arbitrary: t)
  case (Cons c cs)
  from Cons.prems obtain sch where sch: "ColumnSchema_try_from c = Some sch" by auto
  let ?t = "(cow_get t)\<lparr>tsc_columns := bt_insert (col_name c) sch (tsc_columns (cow_get t))\<rparr>"
  have add: "TableSchema_add_column c (cow_get t) = (Ok () :: (Error, unit) res, ?t)"
    using Cons.prems sch by (simp add: TableSchema_add_column_def Let_def)
  have d: "distinct (map col_name cs)" using Cons.prems(1) by simp
  have "\<forall>d\<in>set cs. bt_get (tsc_columns (cow_get (Cow_Owned ?t))) (col_name d) = None
           \<and> ColumnSchema_try_from d \<noteq> None"
    using Cons.prems by (auto simp: image_iff)
  from Cons.IH [OF d this] obtain t' where
    t': "cow_add_columns cs (Cow_Owned ?t) = Ok t'" "tsc_id (cow_get t') = tsc_id (cow_get (Cow_Owned ?t))"
      "\<forall>k. bt_get (tsc_columns (cow_get t')) k =
         (case find (\<lambda>c. col_name c = k) cs of Some c \<Rightarrow> ColumnSchema_try_from c
          | None \<Rightarrow> bt_get (tsc_columns (cow_get (Cow_Owned ?t))) k)"
      "if cs = [] then t' = Cow_Owned ?t else \<exists>x. t' = Cow_Owned x"
    by (elim exE conjE)
  have fresh: "find (\<lambda>d. col_name d = col_name c) cs = None"
    using Cons.prems(1) by (auto simp: find_None_iff) (metis image_eqI)
  have "bt_get (tsc_columns (cow_get t')) k =
      (case find (\<lambda>c. col_name c = k) (c # cs) of Some c \<Rightarrow> ColumnSchema_try_from c
       | None \<Rightarrow> bt_get (tsc_columns (cow_get t)) k)" for k
    using t'(3) [rule_format, of k] fresh sch by (auto split: option.splits)
  moreover have "cow_add_columns (c # cs) t = Ok t'" using t'(1) add by simp
  moreover have "tsc_id (cow_get t') = tsc_id (cow_get t)" using t'(2) by simp
  moreover have "\<exists>x. t' = Cow_Owned x" using t'(4) by (auto split: if_splits)
  ultimately show ?case by (metis list.distinct(1))
qed simp

text \<open>
  The contract of one step of validation, for the schema it starts from and the schema it leaves:
  the new schema agrees with the new catalog and extends the old one, and a step that leaves the
  caller's schema borrowed has changed nothing.
\<close>

definition step_post ::
    "NamespaceSchema Cow \<Rightarrow> MemCollections \<Rightarrow> NamespaceSchema Cow \<Rightarrow> MemCollections \<Rightarrow> bool" where
  "step_post sch s sch' s' \<longleftrightarrow>
     schema_agrees s' (cow_get sch') \<and> schema_ext (cow_get sch) (cow_get sch')
     \<and> (\<forall>x. sch' = Cow_Borrowed x \<longrightarrow> sch' = sch \<and> s' = s)"

lemma step_post_trans: "step_post a s b s' \<Longrightarrow> step_post b s' c s'' \<Longrightarrow> step_post a s c s''"
  unfolding step_post_def by (metis schema_ext_trans)

text \<open>Putting a table that agrees with the catalog into the schema.\<close>

lemma schema_insert_table_agrees:
  assumes "schema_agrees s sch" and "table_agrees s t"
    and "tb \<in> set (tables s)" "tbl_id tb = tsc_id t" "tbl_namespace_id tb = nsc_id sch" "tbl_name tb = name"
  shows "schema_agrees s (schema_insert_table name t sch)"
  using assms by (auto simp: schema_agrees_def schema_insert_table_def)

lemma schema_insert_table_ext:
  assumes "\<And>t0. bt_get (nsc_tables sch) name = Some t0 \<Longrightarrow> table_ext t0 t"
  shows "schema_ext sch (schema_insert_table name t sch)"
  using assms by (auto simp: schema_ext_def schema_insert_table_def)

text \<open>Whatever the outcome, the catalog only grows and stays well formed.\<close>

definition keeps :: "MemCollections \<Rightarrow> MemCollections \<Rightarrow> bool" where
  "keeps s0 s \<longleftrightarrow> grows s0 s \<and> cat_wf s \<and> limits_ok s"

lemma keepsI: "(\<And>s. grows s (snd (m s))) \<Longrightarrow> (\<And>s. cat_wf s \<Longrightarrow> cat_wf (snd (m s))) \<Longrightarrow> m_preserves (keeps s0) m"
  unfolding m_preserves_def keeps_def using grows_trans grows_limits by blast

lemma m_preserves_lift: "m_preserves P (m_lift r)"
  by (simp add: m_preserves_def m_lift_def)

named_theorems keeps_intros

lemmas [keeps_intros] =
  m_preserves_bind m_preserves_return m_preserves_lift
  keepsI [OF tables_create_or_get_grows tables_create_or_get_wf]
  keepsI [OF columns_create_or_get_grows columns_create_or_get_wf]
  keepsI [OF columns_create_or_get_many_grows columns_create_or_get_many_wf]

lemma validate_table_keeps [keeps_intros]: "m_preserves (keeps s0) (validate_table name sch)"
  unfolding validate_table_def Let_def
  by (auto split: option.split intro!: keeps_intros)

lemma validate_mutable_batch_keeps [keeps_intros]:
  "m_preserves (keeps s0) (validate_mutable_batch mb name sch)"
  unfolding validate_mutable_batch_def
  by (auto split: Cow.split prod.split intro!: keeps_intros)

lemma validate_batches_keeps [keeps_intros]: "m_preserves (keeps s0) (validate_batches tabs sch)"
proof (induction tabs arbitrary: sch)
  case (Cons tab tabs)
  have "validate_batches (tab # tabs) sch
      = m_bind (validate_mutable_batch (snd tab) (fst tab) sch) (validate_batches tabs)"
    by (cases tab) (simp add: fun_eq_iff)
  with Cons.IH show ?case by (auto intro!: keeps_intros)
qed (simp add: m_preserves_def)

lemma keepsD: "m_preserves (keeps s) m \<Longrightarrow> cat_wf s \<Longrightarrow> limits_ok s \<Longrightarrow> m s = (r, s')
    \<Longrightarrow> grows s s' \<and> cat_wf s' \<and> limits_ok s'"
  unfolding m_preserves_def keeps_def using grows_refl by (metis snd_conv)

lemma time_column_table:
  assumes "columns_create_or_get TIME_COLUMN tid ColumnType_Time s = (Ok c, s')"
  obtains table where "cow_add_columns [c] (Cow_Owned (TableSchema_new tid)) = Ok (Cow_Owned table)"
    and "tsc_id table = tid" and "table_agrees s' table"
proof -
  note c = columns_create_or_get_Ok [OF assms]
  have "distinct (map col_name [c])"
    and "\<forall>d\<in>set [c]. bt_get (tsc_columns (cow_get (Cow_Owned (TableSchema_new tid)))) (col_name d) = None
           \<and> ColumnSchema_try_from d \<noteq> None"
    using c by (simp_all add: TableSchema_new_def ColumnSchema_try_from_def ColumnType_try_from_def)
  from cow_add_columns_Ok [OF this] obtain table where
    t: "cow_add_columns [c] (Cow_Owned (TableSchema_new tid)) = Ok (Cow_Owned table)"
      "tsc_id table = tid"
      "\<And>k. bt_get (tsc_columns table) k =
         (if col_name c = k then ColumnSchema_try_from c else None)"
    by (auto simp: TableSchema_new_def)
  have "table_agrees s' table"
    unfolding table_agrees_def using t(2,3) c by (auto split: if_splits)
  with t that show ?thesis by blast
qed

lemma validate_table_Ok:
  assumes "schema_agrees s (cow_get sch)" and "validate_table name sch s = (Ok (sch', t), s')"
  shows "step_post sch s sch' s' \<and> bt_get (nsc_tables (cow_get sch')) name = Some t"
proof (cases "bt_get (nsc_tables (cow_get sch)) name")
  case (Some t0)
  with assms show ?thesis by (auto simp: validate_table_def m_return_def step_post_def)
next
  case None
  from assms(2) obtain tb s1 c where
    tb: "tables_create_or_get name (nsc_id (cow_get sch)) s = (Ok tb, s1)"
    and c: "columns_create_or_get TIME_COLUMN (tbl_id tb) ColumnType_Time s1 = (Ok c, s')"
    and rest: "m_bind (m_lift (res_map cow_get (cow_add_columns [c] (Cow_Owned (TableSchema_new (tbl_id tb))))))
        (\<lambda>table. m_return (Cow_Owned (schema_insert_table name table (cow_get sch)), table)) s' = (Ok (sch', t), s')"
    by (auto simp: validate_table_def None Let_def schema_insert_table_def m_lift_def m_return_def elim!: m_bind_OkE)
  obtain table where table: "cow_add_columns [c] (Cow_Owned (TableSchema_new (tbl_id tb))) = Ok (Cow_Owned table)"
      "tsc_id table = tbl_id tb" "table_agrees s' table"
    by (rule time_column_table [OF c])
  from rest table(1) have res: "t = table" "sch' = Cow_Owned (schema_insert_table name table (cow_get sch))"
    by (auto simp: m_bind_def m_lift_def m_return_def)
  have "grows s s1" and g: "grows s1 s'"
    using tables_create_or_get_grows columns_create_or_get_grows tb c by (metis snd_conv)+
  then have "schema_agrees s' (cow_get sch)" using assms(1) schema_agrees_grows by blast
  moreover have "tb \<in> set (tables s')" using tables_create_or_get_Ok(3) [OF tb] g by (auto simp: grows_def)
  ultimately have "schema_agrees s' (cow_get sch')"
    using table tables_create_or_get_Ok(1,2) [OF tb] by (auto simp: res intro: schema_insert_table_agrees)
  moreover have "schema_ext (cow_get sch) (cow_get sch')"
    by (auto simp: res None intro: schema_insert_table_ext)
  ultimately show ?thesis by (auto simp: step_post_def res schema_insert_table_def)
qed

lemma validate_table_no_panic:
  assumes "cat_wf s" and "limits_ok s"
  shows "fst (validate_table name sch s) \<noteq> Panic"
proof (cases "bt_get (nsc_tables (cow_get sch)) name")
  case None
  let ?m = "tables_create_or_get name (nsc_id (cow_get sch))"
  obtain r s1 where m: "?m s = (r, s1)" by (cases "?m s")
  have r: "r \<noteq> Panic" using tables_create_or_get_no_panic [OF assms(2)] m by (metis fst_conv)
  have s1: "cat_wf s1" "limits_ok s1"
    using keepsD [OF keepsI [OF tables_create_or_get_grows tables_create_or_get_wf] assms m] by simp_all
  show ?thesis
  proof (cases r)
    case (Ok tb)
    let ?m = "columns_create_or_get TIME_COLUMN (tbl_id tb) ColumnType_Time"
    obtain r2 s2 where m2: "?m s1 = (r2, s2)" by (cases "?m s1")
    have r2: "r2 \<noteq> Panic" using columns_create_or_get_no_panic [OF s1] m2 by (metis fst_conv)
    show ?thesis
    proof (cases r2)
      case c: (Ok c)
      obtain table where
        "cow_add_columns [c] (Cow_Owned (TableSchema_new (tbl_id tb))) = Ok (Cow_Owned table)"
        by (rule time_column_table [OF m2 [unfolded c]])
      with m m2 c Ok show ?thesis
        by (simp add: validate_table_def None Let_def m_bind_def m_lift_def m_return_def
            schema_insert_table_def del: cow_add_columns.simps)
    qed (use r2 m2 m Ok None in \<open>simp_all add: validate_table_def\<close>)
  qed (use r m None in \<open>simp_all add: validate_table_def\<close>)
qed (simp add: validate_table_def m_return_def)

text \<open>The columns that the catalog returns for the new columns of a batch.\<close>

lemma created_columns:
  assumes "validate_columns mb t = Ok reqs" and "columns_create_or_get_many reqs s = (Ok cs, s')"
  shows "map (\<lambda>c. (col_name c, col_table_id c, col_column_type c)) cs
      = map (\<lambda>(n, ty). (n, tsc_id t, ColumnType_as_i16 (ColumnType_from_influx ty)))
          (filter (\<lambda>(n, ty). bt_get (tsc_columns t) n = None) mb)" (is "_ = map _ ?new")
    and "set cs \<subseteq> set (columns s')"
proof -
  have "map (\<lambda>(n, i, ty). (n, i, ColumnType_as_i16 ty))
          (map (\<lambda>q. (cur_name q, cur_table_id q, cur_column_type q)) reqs)
      = map (\<lambda>(n, i, ty). (n, i, ColumnType_as_i16 ty))
          (map (\<lambda>(n, ty). (n, tsc_id t, ColumnType_from_influx ty)) ?new)"
    using validate_columns_Ok [OF assms(1)] by simp
  then have "map (\<lambda>q. (cur_name q, cur_table_id q, ColumnType_as_i16 (cur_column_type q))) reqs
      = map (\<lambda>(n, ty). (n, tsc_id t, ColumnType_as_i16 (ColumnType_from_influx ty))) ?new"
    by (simp add: comp_def split_beta)
  with columns_create_or_get_many_Ok [OF assms(2)]
  show "map (\<lambda>c. (col_name c, col_table_id c, col_column_type c)) cs
      = map (\<lambda>(n, ty). (n, tsc_id t, ColumnType_as_i16 (ColumnType_from_influx ty))) ?new"
    and "set cs \<subseteq> set (columns s')" by simp_all
qed

lemma created_columns_facts:
  assumes "validate_columns mb t = Ok reqs" and "columns_create_or_get_many reqs s = (Ok cs, s')"
    and "distinct (map fst mb)"
  shows "distinct (map col_name cs)"
    and "c \<in> set cs \<Longrightarrow> c \<in> set (columns s') \<and> col_table_id c = tsc_id t
           \<and> bt_get (tsc_columns t) (col_name c) = None
           \<and> (\<exists>ty. ColumnSchema_try_from c = Some \<lparr>cs_id = col_id c, cs_column_type = ColumnType_from_influx ty\<rparr>
                   \<and> (col_name c, ty) \<in> set mb)"
    and "(n, ty) \<in> set mb \<Longrightarrow> bt_get (tsc_columns t) n = None \<Longrightarrow> \<exists>c\<in>set cs. col_name c = n"
    and "length cs = length reqs"
proof -
  let ?new = "filter (\<lambda>(n, ty). bt_get (tsc_columns t) n = None) mb"
  note cc = created_columns [OF assms(1,2)]
  from arg_cong [OF cc(1), of "map fst"] have names: "map col_name cs = map fst ?new"
    by (simp add: comp_def split_beta)
  show "distinct (map col_name cs)"
    unfolding names using assms(3) by (rule distinct_map_filterI)
  show "c \<in> set cs \<Longrightarrow> c \<in> set (columns s') \<and> col_table_id c = tsc_id t
           \<and> bt_get (tsc_columns t) (col_name c) = None
           \<and> (\<exists>ty. ColumnSchema_try_from c = Some \<lparr>cs_id = col_id c, cs_column_type = ColumnType_from_influx ty\<rparr>
                   \<and> (col_name c, ty) \<in> set mb)"
  proof -
    assume c: "c \<in> set cs"
    then have "(col_name c, col_table_id c, col_column_type c) \<in>
        set (map (\<lambda>(n, ty). (n, tsc_id t, ColumnType_as_i16 (ColumnType_from_influx ty))) ?new)"
      unfolding cc(1) [symmetric] by force
    then obtain ty where "(col_name c, ty) \<in> set mb" "bt_get (tsc_columns t) (col_name c) = None"
        "col_table_id c = tsc_id t" "col_column_type c = ColumnType_as_i16 (ColumnType_from_influx ty)"
      by auto
    with c cc(2) show ?thesis by (auto simp: ColumnSchema_try_from_def)
  qed
  show "\<exists>c\<in>set cs. col_name c = n" if "(n, ty) \<in> set mb" "bt_get (tsc_columns t) n = None"
  proof -
    have "n \<in> set (map fst ?new)" using that by force
    then show ?thesis unfolding names [symmetric] by auto
  qed
  have "length cs = length ?new" using arg_cong [OF names, of length] by simp
  also have "\<dots> = length reqs"
    using arg_cong [OF conjunct1 [OF validate_columns_Ok [OF assms(1)]], of length] by simp
  finally show "length cs = length reqs" .
qed

lemma new_columns_added:
  assumes "validate_columns mb t = Ok reqs" and "columns_create_or_get_many reqs s = (Ok cs, s')"
    and "distinct (map fst mb)" and "reqs \<noteq> []"
  obtains t' where "cow_add_columns cs (Cow_Borrowed t) = Ok (Cow_Owned t')"
    and "table_ext t t'" and "table_agrees s' t \<longrightarrow> table_agrees s' t'" and "covers t' mb"
proof -
  note cf = created_columns_facts [OF assms(1-3)]
  have "\<forall>c\<in>set cs. bt_get (tsc_columns (cow_get (Cow_Borrowed t))) (col_name c) = None
           \<and> ColumnSchema_try_from c \<noteq> None"
  proof
    fix c assume "c \<in> set cs"
    from cf(2) [OF this] show "bt_get (tsc_columns (cow_get (Cow_Borrowed t))) (col_name c) = None
           \<and> ColumnSchema_try_from c \<noteq> None" by auto
  qed
  moreover have "cs \<noteq> []" using cf(4) assms(4) by auto
  ultimately obtain t' where t': "cow_add_columns cs (Cow_Borrowed t) = Ok (Cow_Owned t')" "tsc_id t' = tsc_id t"
      "\<And>k. bt_get (tsc_columns t') k = (case find (\<lambda>c. col_name c = k) cs of
             Some c \<Rightarrow> ColumnSchema_try_from c | None \<Rightarrow> bt_get (tsc_columns t) k)"
    using cow_add_columns_Ok [OF cf(1), of "Cow_Borrowed t"] by (auto cong: option.case_cong)
  have new: "bt_get (tsc_columns t') (col_name c) = ColumnSchema_try_from c" if "c \<in> set cs" for c
    using t'(3) find_unique [OF cf(1) that, of "\<lambda>d. col_name d = col_name c"] by simp
  have old: "bt_get (tsc_columns t') k = Some v" if "bt_get (tsc_columns t) k = Some v" for k v
  proof -
    have "col_name c \<noteq> k" if "c \<in> set cs" for c using cf(2) [OF that] \<open>_ = Some v\<close> by auto
    then have "find (\<lambda>c. col_name c = k) cs = None" by (simp add: find_None_iff)
    with t'(3) that show ?thesis by simp
  qed
  have ext: "table_ext t t'" using t'(2) old by (auto simp: table_ext_def map_le_def)
  have "table_agrees s' t'" if "table_agrees s' t"
    unfolding table_agrees_def
  proof (intro allI impI)
    fix k v assume kv: "bt_get (tsc_columns t') k = Some v"
    show "\<exists>c\<in>set (columns s'). col_table_id c = tsc_id t' \<and> col_name c = k \<and> ColumnSchema_try_from c = Some v"
    proof (cases "find (\<lambda>c. col_name c = k) cs")
      case None
      with kv t' that show ?thesis by (auto simp: table_agrees_def)
    next
      case (Some c)
      with kv t' cf(2) [of c] show ?thesis by (auto dest!: find_SomeD)
    qed
  qed
  moreover have "covers t' mb"
    unfolding covers_def
  proof (intro ballI, unfold split_paired_all prod.case)
    fix n ty assume m: "(n, ty) \<in> set mb"
    show "\<exists>v. bt_get (tsc_columns t') n = Some v \<and> cs_column_type v = ColumnType_from_influx ty"
    proof (cases "bt_get (tsc_columns t) n")
      case None
      with cf(3) [OF m] obtain c where c: "c \<in> set cs" "col_name c = n" by auto
      with cf(2) [of c] obtain ty' where ty': "(n, ty') \<in> set mb"
          "ColumnSchema_try_from c = Some \<lparr>cs_id = col_id c, cs_column_type = ColumnType_from_influx ty'\<rparr>" by auto
      from eq_key_imp_eq_value [OF assms(3) m ty'(1)] have "ty' = ty" by simp
      with new [OF c(1)] c ty' show ?thesis by simp
    next
      case (Some v)
      with validate_columns_Ok [OF assms(1)] m have "cs_column_type v = ColumnType_from_influx ty" by blast
      with old [OF Some] show ?thesis by simp
    qed
  qed
  ultimately show ?thesis using that t'(1) ext by blast
qed

section \<open>One batch\<close>

lemma validate_mutable_batch_cases:
  assumes "validate_table name sch s = (Ok (sch1, t), s1)"
    and "bt_get (nsc_tables (cow_get sch1)) name = Some t"
    and "distinct (map fst mb)"
  obtains
    (mismatch) e where "validate_mutable_batch mb name sch s = (Err e, s1)"
  | (covered) "validate_columns mb t = Ok []" "validate_mutable_batch mb name sch s = (Ok sch1, s1)"
  | (failed) reqs e s2 where "columns_create_or_get_many reqs s1 = (e, s2)" "\<And>cs. e \<noteq> Ok cs"
      "fst (validate_mutable_batch mb name sch s) = Panic \<longrightarrow> e = Panic"
      "\<not> is_ok (fst (validate_mutable_batch mb name sch s))"
  | (added) reqs cs s2 t' where "validate_columns mb t = Ok reqs"
      "columns_create_or_get_many reqs s1 = (Ok cs, s2)"
      "table_ext t t'" "table_agrees s2 t \<longrightarrow> table_agrees s2 t'" "covers t' mb"
      "validate_mutable_batch mb name sch s = (Ok (Cow_Owned (schema_insert_table name t' (cow_get sch1))), s2)"
proof (cases "validate_columns mb t")
  case (Err e)
  then have "validate_mutable_batch mb name sch s = (Err e, s1)"
    using assms(1) by (simp add: validate_mutable_batch_def m_bind_def m_lift_def)
  then show ?thesis by (rule mismatch)
next
  case (Ok reqs)
  show ?thesis
  proof (cases "reqs = []")
    case True
    with Ok assms(1) have "validate_mutable_batch mb name sch s = (Ok sch1, s1)"
      by (simp add: validate_mutable_batch_def m_bind_def m_lift_def m_return_def)
    with Ok True covered show ?thesis by simp
  next
    case False
    obtain e s2 where es: "columns_create_or_get_many reqs s1 = (e, s2)"
      by (cases "columns_create_or_get_many reqs s1")
    have v: "validate_mutable_batch mb name sch s =
       m_bind (m_bind (columns_create_or_get_many reqs) (\<lambda>cs. m_lift (cow_add_columns cs (Cow_Borrowed t))))
         (\<lambda>table. case table of Cow_Borrowed _ \<Rightarrow> m_return sch1
            | Cow_Owned t' \<Rightarrow> m_return (Cow_Owned (schema_insert_table name t' (cow_get sch1)))) s1"
      using Ok False assms(1,2)
      by (simp add: validate_mutable_batch_def m_bind_def m_lift_def
          cong: Cow.case_cong res.case_cong prod.case_cong)
    show ?thesis
    proof (cases e)
      case cs: (Ok cs)
      obtain t' where t': "cow_add_columns cs (Cow_Borrowed t) = Ok (Cow_Owned t')"
        "table_ext t t'" "table_agrees s2 t \<longrightarrow> table_agrees s2 t'" "covers t' mb"
        by (rule new_columns_added [OF Ok es [unfolded cs] assms(3) False])
      have "validate_mutable_batch mb name sch s
          = (Ok (Cow_Owned (schema_insert_table name t' (cow_get sch1))), s2)"
        using v es cs t'(1) by (simp add: m_bind_def m_lift_def m_return_def)
      with Ok es cs t' added show ?thesis by blast
    next
      case (Err x)
      with v es have "validate_mutable_batch mb name sch s = (Err x, s2)" by (simp add: m_bind_def)
      with failed [OF es] Err show ?thesis by simp
    next
      case Panic
      with v es have "validate_mutable_batch mb name sch s = (Panic, s2)" by (simp add: m_bind_def)
      with failed [OF es] Panic show ?thesis by simp
    qed
  qed
qed (simp add: validate_columns_no_panic)

lemma validate_mutable_batch_table_Ok:
  assumes "validate_mutable_batch mb name sch s = (Ok sch', s')"
  obtains sch1 t s1 where "validate_table name sch s = (Ok (sch1, t), s1)"
  using assms by (auto simp: validate_mutable_batch_def elim!: m_bind_OkE)

lemma validate_columns_Nil_covers:
  assumes "validate_columns mb t = Ok []"
  shows "covers t mb"
proof -
  note v = validate_columns_Ok [OF assms]
  from v have "filter (\<lambda>(n, ty). bt_get (tsc_columns t) n = None) mb = []" by simp
  then have "\<exists>cs. bt_get (tsc_columns t) n = Some cs" if "(n, ty) \<in> set mb" for n ty
    using that by (auto simp: filter_empty_conv)
  with v show ?thesis unfolding covers_def by blast
qed

lemma validate_mutable_batch_Ok:
  assumes "schema_agrees s (cow_get sch)" and "distinct (map fst mb)"
    and "validate_mutable_batch mb name sch s = (Ok sch', s')"
  shows "step_post sch s sch' s' \<and> schema_covers (cow_get sch') [(name, mb)]"
proof -
  obtain sch1 t s1 where vt: "validate_table name sch s = (Ok (sch1, t), s1)"
    by (rule validate_mutable_batch_table_Ok [OF assms(3)])
  note p1 = validate_table_Ok [OF assms(1) vt]
  from p1 have post: "step_post sch s sch1 s1" and t: "bt_get (nsc_tables (cow_get sch1)) name = Some t" by simp_all
  show ?thesis
    using vt t assms(2)
  proof (cases rule: validate_mutable_batch_cases)
    case covered
    with assms(3) have "sch' = sch1" "s' = s1" by simp_all
    with post t validate_columns_Nil_covers [OF covered(1)] show ?thesis by (simp add: schema_covers_def)
  next
    case (added reqs cs s2 t')
    with assms(3) have eq: "sch' = Cow_Owned (schema_insert_table name t' (cow_get sch1))" "s' = s2" by simp_all
    have g: "grows s1 s2" using columns_create_or_get_many_grows added(2) by (metis snd_conv)
    then have a: "schema_agrees s2 (cow_get sch1)"
      using post schema_agrees_grows by (auto simp: step_post_def)
    with t have "table_agrees s2 t" by (auto simp: schema_agrees_def)
    with added(4) have t': "table_agrees s2 t'" by blast
    from a t obtain tb where "tb \<in> set (tables s2)" "tbl_id tb = tsc_id t"
      "tbl_namespace_id tb = nsc_id (cow_get sch1)" "tbl_name tb = name" by (auto simp: schema_agrees_def)
    with added(3) have "schema_agrees s2 (schema_insert_table name t' (cow_get sch1))"
      by (intro schema_insert_table_agrees [OF a t']) (auto simp: table_ext_def)
    moreover have "schema_ext (cow_get sch1) (schema_insert_table name t' (cow_get sch1))"
      using t added(3) by (intro schema_insert_table_ext) simp
    ultimately have "step_post sch1 s1 sch' s'" by (simp add: step_post_def eq)
    with post added(5) show ?thesis
      by (auto simp: schema_covers_def eq schema_insert_table_def intro: step_post_trans)
  qed (use assms(3) in auto)
qed

lemma validate_mutable_batch_no_panic:
  assumes "cat_wf s" and "limits_ok s" and "schema_agrees s (cow_get sch)" and "distinct (map fst mb)"
  shows "fst (validate_mutable_batch mb name sch s) \<noteq> Panic"
proof -
  obtain r s1 where vt: "validate_table name sch s = (r, s1)" by (cases "validate_table name sch s")
  have r: "r \<noteq> Panic" using validate_table_no_panic [OF assms(1,2)] vt by (metis fst_conv)
  show ?thesis
  proof (cases r)
    case (Ok x)
    obtain sch1 t where x: "x = (sch1, t)" by (cases x)
    note vt' = vt [unfolded Ok x]
    have t: "bt_get (nsc_tables (cow_get sch1)) name = Some t"
      using validate_table_Ok [OF assms(3) vt'] by simp
    have s1: "cat_wf s1" "limits_ok s1" using keepsD [OF validate_table_keeps assms(1,2) vt] by simp_all
    show ?thesis
      using vt' t assms(4)
    proof (cases rule: validate_mutable_batch_cases)
      case (failed reqs e s2)
      with columns_create_or_get_many_no_panic [OF s1, of reqs] show ?thesis by auto
    qed auto
  qed (use r vt in \<open>auto simp: validate_mutable_batch_def m_bind_def\<close>)
qed

lemma validate_mutable_batch_covered:
  assumes "schema_covers (cow_get sch) [(name, mb)]"
  shows "validate_mutable_batch mb name sch s = (Ok sch, s)"
proof -
  obtain t where "bt_get (nsc_tables (cow_get sch)) name = Some t" "covers t mb"
    using assms by (auto simp: schema_covers_def)
  then show ?thesis
    by (simp add: validate_mutable_batch_def validate_table_def m_bind_def m_return_def m_lift_def
        validate_columns_covered)
qed

section \<open>A whole write\<close>

definition batches_ok :: "(string \<times> batch_columns) list \<Rightarrow> bool" where
  "batches_ok tabs \<longleftrightarrow> (\<forall>(tname, mb)\<in>set tabs. distinct (map fst mb))"

lemma validate_batches_Ok:
  assumes "schema_agrees s (cow_get sch)" and "batches_ok tabs"
    and "validate_batches tabs sch s = (Ok sch', s')"
  shows "step_post sch s sch' s' \<and> schema_covers (cow_get sch') tabs"
  using assms
proof (induction tabs arbitrary: sch s)
  case Nil
  then show ?case by (simp add: step_post_def schema_covers_def)
next
  case (Cons tab tabs)
  obtain name mb where tab: "tab = (name, mb)" by (cases tab)
  from Cons.prems(3) obtain sch1 s1 where
    v1: "validate_mutable_batch mb name sch s = (Ok sch1, s1)" and
    v2: "validate_batches tabs sch1 s1 = (Ok sch', s')"
    by (auto simp: tab elim: m_bind_OkE)
  have p1: "step_post sch s sch1 s1" "schema_covers (cow_get sch1) [(name, mb)]"
    using validate_mutable_batch_Ok [OF Cons.prems(1) _ v1] Cons.prems(2) by (simp_all add: tab batches_ok_def)
  then have p2: "step_post sch1 s1 sch' s'" "schema_covers (cow_get sch') tabs"
    using Cons.IH [OF _ _ v2] Cons.prems(2) by (simp_all add: step_post_def batches_ok_def)
  have "schema_covers (cow_get sch') [(name, mb)]"
    using p1(2) p2(1) schema_covers_ext by (auto simp: step_post_def)
  with p1 p2 show ?case by (auto simp: tab schema_covers_def intro: step_post_trans)
qed

lemma validate_batches_no_panic:
  assumes "cat_wf s" and "limits_ok s" and "schema_agrees s (cow_get sch)" and "batches_ok tabs"
  shows "fst (validate_batches tabs sch s) \<noteq> Panic"
  using assms
proof (induction tabs arbitrary: sch s)
  case (Cons tab tabs)
  obtain name mb where tab: "tab = (name, mb)" by (cases tab)
  have d: "distinct (map fst mb)" and ok: "batches_ok tabs" using Cons.prems(4) by (simp_all add: tab batches_ok_def)
  obtain r s1 where v: "validate_mutable_batch mb name sch s = (r, s1)"
    by (cases "validate_mutable_batch mb name sch s")
  have r: "r \<noteq> Panic" using validate_mutable_batch_no_panic [OF Cons.prems(1-3) d] v by (metis fst_conv)
  show ?case
  proof (cases r)
    case (Ok sch1)
    have "schema_agrees s1 (cow_get sch1)"
      using validate_mutable_batch_Ok [OF Cons.prems(3) d v [unfolded Ok]] by (simp add: step_post_def)
    with Cons.IH [of s1 sch1] keepsD [OF validate_mutable_batch_keeps Cons.prems(1,2) v] ok v Ok
    show ?thesis by (simp add: tab)
  qed (use r v in \<open>auto simp: tab m_bind_def\<close>)
qed simp

lemma validate_batches_covered:
  "schema_covers (cow_get sch) tabs \<Longrightarrow> validate_batches tabs sch s = (Ok sch, s)"
proof (induction tabs)
  case (Cons tab tabs)
  obtain name mb where "tab = (name, mb)" by (cases tab)
  with Cons validate_mutable_batch_covered [of sch name mb s] show ?case
    by (simp add: schema_covers_def)
qed simp

lemma validate_or_insert_schema_cow:
  assumes "validate_or_insert_schema tabs sch s = (Ok r, s')"
  obtains sch' where "validate_batches tabs (Cow_Borrowed sch) s = (Ok sch', s')"
    and "(r = None \<and> sch' = Cow_Borrowed (cow_get sch')) \<or> (r = Some (cow_get sch') \<and> sch' = Cow_Owned (cow_get sch'))"
  using assms by (auto simp: validate_or_insert_schema_def m_return_def split: Cow.splits elim!: m_bind_OkE)

text \<open>
  C3. A successful validation is correct.  The schema that the caller goes on with (the returned
  one, or its own when \<open>None\<close> is returned) agrees with the catalog row by row, keeps every table and
  column of the schema that it started from, and has every column of every batch with the batch's
  type.  \<open>None\<close> means that the catalog was not changed.  Validating the same write again finds nothing
  to do.
\<close>

theorem validate_or_insert_schema_correct:
  assumes "schema_agrees s sch" and "batches_ok tabs"
    and "validate_or_insert_schema tabs sch s = (Ok r, s')"
  shows "schema_agrees s' (case r of None \<Rightarrow> sch | Some v \<Rightarrow> v)
    \<and> schema_ext sch (case r of None \<Rightarrow> sch | Some v \<Rightarrow> v)
    \<and> schema_covers (case r of None \<Rightarrow> sch | Some v \<Rightarrow> v) tabs
    \<and> (r = None \<longrightarrow> s' = s)
    \<and> validate_or_insert_schema tabs (case r of None \<Rightarrow> sch | Some v \<Rightarrow> v) s' = (Ok None, s')"
proof -
  obtain sch' where v: "validate_batches tabs (Cow_Borrowed sch) s = (Ok sch', s')"
    and r: "(r = None \<and> sch' = Cow_Borrowed (cow_get sch')) \<or> (r = Some (cow_get sch') \<and> sch' = Cow_Owned (cow_get sch'))"
    by (rule validate_or_insert_schema_cow [OF assms(3)])
  have p: "step_post (Cow_Borrowed sch) s sch' s'" "schema_covers (cow_get sch') tabs"
    using validate_batches_Ok [OF _ assms(2) v] assms(1) by simp_all
  then have eq: "(case r of None \<Rightarrow> sch | Some v \<Rightarrow> v) = cow_get sch'" and "r = None \<longrightarrow> s' = s"
    using r by (auto simp: step_post_def)
  moreover have "validate_or_insert_schema tabs (cow_get sch') s' = (Ok None, s')"
    using validate_batches_covered [of "Cow_Borrowed (cow_get sch')" tabs s'] p(2)
    by (simp add: validate_or_insert_schema_def m_bind_def m_return_def)
  ultimately show ?thesis using p by (simp add: step_post_def)
qed

text \<open>A catalog with a namespace, and the write of a table with a tag, a field and its time.\<close>

definition ns_catalog :: MemCollections where
  "ns_catalog = snd (namespaces_create ''ns'' ''inf'' (KafkaTopicId 1) (QueryPoolId 1) MemCollections_default)"

definition ns_schema :: NamespaceSchema where
  "ns_schema = NamespaceSchema_new (NamespaceId 1) (KafkaTopicId 1) (QueryPoolId 1)"

definition cpu_write :: "(string \<times> batch_columns) list" where
  "cpu_write = [(''cpu'', [(''time'', InfluxColumnType_Timestamp), (''host'', InfluxColumnType_Tag),
                           (''usage'', InfluxColumnType_Field InfluxFieldType_Float)])]"

lemma ns_catalog_facts: "cat_wf ns_catalog" "limits_ok ns_catalog" "schema_agrees ns_catalog ns_schema" "batches_ok cpu_write"
  by (simp_all add: ns_catalog_def ns_schema_def cpu_write_def schema_agrees_def NamespaceSchema_new_def
      batches_ok_def cat_wf_def wf_parts ids_ok_def limits_ok_def namespaces_create_def
      MemCollections_default_def Let_def)

lemma cpu_write_Ok:
  "\<exists>v s'. validate_or_insert_schema cpu_write ns_schema ns_catalog = (Ok (Some v), s') \<and> length (columns s') = 3"
proof -
  have "(case validate_or_insert_schema cpu_write ns_schema ns_catalog of
      (Ok (Some v), s') \<Rightarrow> length (columns s') = 3 | _ \<Rightarrow> False)" by code_simp
  then show ?thesis by (auto split: prod.splits res.splits option.splits)
qed

theorem validate_or_insert_schema_correct_witness:
  "\<exists>v s'. validate_or_insert_schema cpu_write ns_schema ns_catalog = (Ok (Some v), s')
     \<and> schema_covers v cpu_write \<and> schema_agrees s' v
     \<and> validate_or_insert_schema cpu_write v s' = (Ok None, s')"
proof -
  obtain v s' where v: "validate_or_insert_schema cpu_write ns_schema ns_catalog = (Ok (Some v), s')"
    using cpu_write_Ok by blast
  from validate_or_insert_schema_correct [OF ns_catalog_facts(3,4) v] v show ?thesis by auto
qed

text \<open>
  C5. Validation never panics, although it asserts that a new table is not in the schema, that a
  changed one is, and that no column is added twice; and whatever its outcome, it leaves a well-formed
  catalog that has all the namespaces, tables and columns it had.
\<close>

theorem validate_or_insert_schema_safe:
  assumes "cat_wf s" and "limits_ok s" and "schema_agrees s sch" and "batches_ok tabs"
  shows "fst (validate_or_insert_schema tabs sch s) \<noteq> Panic
    \<and> cat_wf (snd (validate_or_insert_schema tabs sch s))
    \<and> grows s (snd (validate_or_insert_schema tabs sch s))"
proof -
  have "fst (validate_or_insert_schema tabs sch s) \<noteq> Panic"
    using validate_batches_no_panic [OF assms(1,2) _ assms(4), of "Cow_Borrowed sch"] assms(3)
    by (auto simp: validate_or_insert_schema_def m_bind_def m_return_def split: prod.splits res.splits Cow.splits)
  moreover have "m_preserves (keeps s) (validate_or_insert_schema tabs sch)"
    unfolding validate_or_insert_schema_def by (auto split: Cow.split intro!: keeps_intros)
  with assms have "keeps s (snd (validate_or_insert_schema tabs sch s))"
    by (auto simp: m_preserves_def keeps_def)
  ultimately show ?thesis by (simp add: keeps_def)
qed

theorem validate_or_insert_schema_safe_witness:
  "fst (validate_or_insert_schema cpu_write ns_schema ns_catalog) \<noteq> Panic
   \<and> cat_wf (snd (validate_or_insert_schema cpu_write ns_schema ns_catalog))"
  using validate_or_insert_schema_safe [OF ns_catalog_facts] by simp

end
