(* ===== verification/Schema_Reading.thy ===== *)
theory Schema_Reading
  imports Schema_Validation
begin

text \<open>
  Correctness of the functions that read schemas from the catalog: on a well-formed catalog they do
  not fail, and what they return is exactly what the rows of the namespace or table say.
\<close>

section \<open>What a schema should hold\<close>

text \<open>The schema of a table, read directly off the rows.\<close>

definition row_column :: "MemCollections \<Rightarrow> TableId \<Rightarrow> string \<Rightarrow> ColumnSchema option" where
  "row_column s tid cname =
     (case find (\<lambda>c. col_table_id c = tid \<and> col_name c = cname) (columns s) of
        Some c \<Rightarrow> ColumnSchema_try_from c
      | None \<Rightarrow> None)"

definition row_table :: "MemCollections \<Rightarrow> NamespaceId \<Rightarrow> string \<Rightarrow> TableId option" where
  "row_table s nid tname =
     map_option tbl_id (find (\<lambda>t. tbl_namespace_id t = nid \<and> tbl_name t = tname) (tables s))"

section \<open>One table\<close>

lemma TableSchema_put_simps [simp]:
  "tsc_id (TableSchema_put n c t) = tsc_id t"
  "bt_get (tsc_columns (TableSchema_put n c t)) k = (if k = n then Some c else bt_get (tsc_columns t) k)"
  by (simp_all add: TableSchema_put_def)

lemma table_schema_put_columns_Ok:
  assumes "\<forall>c\<in>set cs. ColumnType_try_from (col_column_type c) \<noteq> None" and "distinct (map col_name cs)"
  shows "\<exists>t'. table_schema_put_columns cs t = Ok t' \<and> tsc_id t' = tsc_id t
    \<and> (\<forall>k. bt_get (tsc_columns t') k = (case find (\<lambda>c. col_name c = k) cs of
          Some c \<Rightarrow> ColumnSchema_try_from c | None \<Rightarrow> bt_get (tsc_columns t) k))"
  using assms
proof (induction cs arbitrary: t)
  case (Cons c cs)
  then obtain ty where ty: "ColumnType_try_from (col_column_type c) = Some ty" by auto
  let ?t = "TableSchema_put (col_name c) \<lparr>cs_id = col_id c, cs_column_type = ty\<rparr> t"
  from Cons.IH [of ?t] Cons.prems obtain t' where t': "table_schema_put_columns cs ?t = Ok t'"
      "tsc_id t' = tsc_id ?t"
      "\<forall>k. bt_get (tsc_columns t') k = (case find (\<lambda>c. col_name c = k) cs of
          Some c \<Rightarrow> ColumnSchema_try_from c | None \<Rightarrow> bt_get (tsc_columns ?t) k)"
    by auto
  have "find (\<lambda>d. col_name d = col_name c) cs = None"
    using Cons.prems(2) by (auto simp: find_None_iff) (metis image_eqI)
  then have "bt_get (tsc_columns t') k = (case find (\<lambda>c. col_name c = k) (c # cs) of
          Some c \<Rightarrow> ColumnSchema_try_from c | None \<Rightarrow> bt_get (tsc_columns t) k)" for k
    using t'(3) [rule_format, of k] ty by (auto simp: ColumnSchema_try_from_def split: option.splits)
  moreover have "table_schema_put_columns (c # cs) t = Ok t'" and "tsc_id t' = tsc_id t"
    using t'(1,2) ty by simp_all
  ultimately show ?case by blast
qed simp

lemma find_filter: "find P (filter Q xs) = find (\<lambda>x. Q x \<and> P x) xs"
  by (induction xs) auto

lemma table_columns_distinct:
  "columns_wf s \<Longrightarrow> distinct (map col_name (filter (\<lambda>c. col_table_id c = tid) (columns s)))"
proof -
  have "distinct (map col_name (filter (\<lambda>c. col_table_id c = tid) cs))"
    if "distinct (map (\<lambda>c. (col_table_id c, col_name c)) cs)" for cs :: "Column list"
    using that by (induction cs) (auto simp: image_iff)
  then show "columns_wf s \<Longrightarrow> ?thesis" by (simp add: columns_wf_def)
qed

lemma get_table_schema_by_id_Ok:
  assumes "columns_wf s"
  shows "\<exists>t. get_table_schema_by_id tid s = (Ok t, s) \<and> tsc_id t = tid
           \<and> bt_get (tsc_columns t) = row_column s tid"
proof -
  let ?cs = "filter (\<lambda>c. col_table_id c = tid) (columns s)"
  have "\<forall>c\<in>set ?cs. ColumnType_try_from (col_column_type c) \<noteq> None"
    using assms by (simp add: columns_wf_def)
  from table_schema_put_columns_Ok [OF this table_columns_distinct [OF assms], of "TableSchema_new tid"]
  obtain t where t: "table_schema_put_columns ?cs (TableSchema_new tid) = Ok t" "tsc_id t = tid"
      "\<And>k. bt_get (tsc_columns t) k = (case find (\<lambda>c. col_name c = k) ?cs of
          Some c \<Rightarrow> ColumnSchema_try_from c | None \<Rightarrow> None)"
    by (auto simp: TableSchema_new_def cong: option.case_cong)
  have "bt_get (tsc_columns t) = row_column s tid"
    by (simp add: fun_eq_iff t(3) row_column_def find_filter)
  with t(1,2) show ?thesis
    by (simp add: get_table_schema_by_id_def columns_list_by_table_id_def m_bind_def m_lift_def)
qed

section \<open>All tables of a namespace\<close>

text \<open>A row of the table map after the columns have been put in.\<close>

lemma schema_put_columns_Ok:
  assumes "\<forall>c\<in>set cs. ColumnType_try_from (col_column_type c) \<noteq> None \<and> bt_get m (col_table_id c) \<noteq> None"
  shows "\<exists>m'. schema_put_columns cs m = Ok m' \<and> (bt_wf m \<longrightarrow> bt_wf m')
    \<and> (\<forall>tid. bt_get m' tid = (case bt_get m tid of None \<Rightarrow> None | Some (n, t) \<Rightarrow>
          (case table_schema_put_columns (filter (\<lambda>c. col_table_id c = tid) cs) t of
             Ok t' \<Rightarrow> Some (n, t') | _ \<Rightarrow> None)))"
  using assms
proof (induction cs arbitrary: m)
  case Nil
  then show ?case by (auto split: option.splits)
next
  case (Cons c cs)
  then obtain n t ty where c: "bt_get m (col_table_id c) = Some (n, t)"
      "ColumnType_try_from (col_column_type c) = Some ty" by auto
  let ?m = "bt_insert (col_table_id c) (n, TableSchema_put (col_name c) \<lparr>cs_id = col_id c, cs_column_type = ty\<rparr> t) m"
  have "\<forall>c\<in>set cs. ColumnType_try_from (col_column_type c) \<noteq> None \<and> bt_get ?m (col_table_id c) \<noteq> None"
    using Cons.prems by simp
  from Cons.IH [OF this] obtain m' where m': "schema_put_columns cs ?m = Ok m'" "bt_wf ?m \<longrightarrow> bt_wf m'"
    "\<And>tid. bt_get m' tid = (case bt_get ?m tid of None \<Rightarrow> None | Some (n, t) \<Rightarrow>
          (case table_schema_put_columns (filter (\<lambda>c. col_table_id c = tid) cs) t of
             Ok t' \<Rightarrow> Some (n, t') | _ \<Rightarrow> None))" by (elim exE conjE) (rule that, auto)
  have "bt_get m' tid = (case bt_get m tid of None \<Rightarrow> None | Some (n, t) \<Rightarrow>
          (case table_schema_put_columns (filter (\<lambda>c. col_table_id c = tid) (c # cs)) t of
             Ok t' \<Rightarrow> Some (n, t') | _ \<Rightarrow> None))" for tid
    using c by (cases "tid = col_table_id c") (auto simp: m'(3) split: option.splits)
  with m'(1,2) c show ?case by auto
qed

lemma table_id_to_schema_insert_all:
  "table_id_to_schema ts = bt.insert_all [] (map (\<lambda>t. (tbl_id t, tbl_name t, TableSchema_new (tbl_id t))) ts)"
  by (simp add: table_id_to_schema_def bt.insert_all_def foldl_map)

lemma table_id_to_schema_get:
  assumes "distinct (map tbl_id ts)"
  shows "bt_get (table_id_to_schema ts) tid = Some (n, t) \<longleftrightarrow>
    (\<exists>tb\<in>set ts. tbl_id tb = tid \<and> tbl_name tb = n \<and> t = TableSchema_new tid)"
proof -
  let ?kvs = "map (\<lambda>t. (tbl_id t, tbl_name t, TableSchema_new (tbl_id t))) ts"
  have "distinct (map fst (rev ?kvs))" using assms by (simp add: comp_def flip: rev_map)
  from map_of_eq_Some_iff [OF this] have "map_of (rev ?kvs) tid = Some (n, t) \<longleftrightarrow> (tid, n, t) \<in> set ?kvs"
    by simp
  moreover have "bt_get (table_id_to_schema ts) tid = map_of (rev ?kvs) tid"
    by (simp add: table_id_to_schema_insert_all bt.get_insert_all bt.get_entries map_add_def split: option.split)
  ultimately show ?thesis by auto
qed

lemma schema_put_tables_insert_all:
  "nsc_tables (schema_put_tables m ns) = bt.insert_all (nsc_tables ns) (map snd m)"
  "nsc_id (schema_put_tables m ns) = nsc_id ns"
proof -
  show "nsc_tables (schema_put_tables m ns) = bt.insert_all (nsc_tables ns) (map snd m)"
    unfolding schema_put_tables_def bt.insert_all_def
    by (induction m arbitrary: ns) (auto simp: split_beta)
  show "nsc_id (schema_put_tables m ns) = nsc_id ns"
    unfolding schema_put_tables_def by (induction m arbitrary: ns) (auto simp: split_beta)
qed

lemma map_of_snd_unique:
  assumes "\<And>a b x y. (a, k, x) \<in> set m \<Longrightarrow> (b, k, y) \<in> set m \<Longrightarrow> x = y"
  shows "map_of (rev (map snd m)) k = Some v \<longleftrightarrow> (\<exists>a. (a, k, v) \<in> set m)"
proof
  assume "map_of (rev (map snd m)) k = Some v"
  from map_of_SomeD [OF this] show "\<exists>a. (a, k, v) \<in> set m" by force
next
  assume "\<exists>a. (a, k, v) \<in> set m"
  then obtain a where a: "(a, k, v) \<in> set m" by blast
  then have "(k, v) \<in> set (rev (map snd m))" by force
  then have "map_of (rev (map snd m)) k \<noteq> None" by (metis fst_conv image_eqI map_of_eq_None_iff)
  then obtain w where w: "map_of (rev (map snd m)) k = Some w" by blast
  from map_of_SomeD [OF this] obtain b where "(b, k, w) \<in> set m" by force
  with assms [OF a this] w show "map_of (rev (map snd m)) k = Some v" by simp
qed

lemma tables_wf_ids: "tables_wf s \<Longrightarrow> distinct (map tbl_id (tables s))"
proof -
  assume "tables_wf s"
  then have "distinct (map TableId_get (map tbl_id (tables s)))"
    using ids_ok_distinct by (simp add: tables_wf_def comp_def)
  then show ?thesis using distinct_map by blast
qed

lemma row_table_iff:
  assumes "tables_wf s"
  shows "row_table s nid tname = Some tid \<longleftrightarrow>
    (\<exists>t\<in>set (tables s). tbl_namespace_id t = nid \<and> tbl_name t = tname \<and> tbl_id t = tid)"
proof
  assume "row_table s nid tname = Some tid"
  then show "\<exists>t\<in>set (tables s). tbl_namespace_id t = nid \<and> tbl_name t = tname \<and> tbl_id t = tid"
    by (auto simp: row_table_def dest: find_SomeD)
next
  assume "\<exists>t\<in>set (tables s). tbl_namespace_id t = nid \<and> tbl_name t = tname \<and> tbl_id t = tid"
  then obtain t where t: "t \<in> set (tables s)" "tbl_namespace_id t = nid" "tbl_name t = tname" "tbl_id t = tid"
    by blast
  have "find (\<lambda>t. tbl_namespace_id t = nid \<and> tbl_name t = tname) (tables s) = Some t"
    using assms t by (intro find_unique [where f = "\<lambda>t. (tbl_namespace_id t, tbl_name t)"]) (auto simp: tables_wf_def)
  with t(4) show "row_table s nid tname = Some tid" by (simp add: row_table_def)
qed

lemma get_schema_internal_Ok:
  assumes "tables_wf s" and "columns_wf s"
  shows "\<exists>sch. get_schema_internal n s = (Ok sch, s) \<and> nsc_id sch = ns_id n
    \<and> (\<forall>tname t. bt_get (nsc_tables sch) tname = Some t \<longleftrightarrow>
         (\<exists>tid. row_table s (ns_id n) tname = Some tid \<and> get_table_schema_by_id tid s = (Ok t, s)))"
proof -
  let ?ts = "filter (\<lambda>t. tbl_namespace_id t = ns_id n) (tables s)"
  let ?cs = "filter (\<lambda>c. col_table_id c \<in> set (map tbl_id ?ts)) (columns s)"
  let ?m = "table_id_to_schema ?ts"
  have d: "distinct (map tbl_id ?ts)" using tables_wf_ids [OF assms(1)] by (rule distinct_map_filterI)
  note get_m = table_id_to_schema_get [OF d]
  have wf: "bt_wf ?m" by (simp add: table_id_to_schema_insert_all bt.invar_insert_all)
  have "bt_get ?m tid \<noteq> None" if "tid \<in> set (map tbl_id ?ts)" for tid
    using that get_m [of tid] by fastforce
  then have "\<forall>c\<in>set ?cs. ColumnType_try_from (col_column_type c) \<noteq> None \<and> bt_get ?m (col_table_id c) \<noteq> None"
    using assms(2) by (simp add: columns_wf_def)
  from schema_put_columns_Ok [OF this] obtain m' where
    m'0: "schema_put_columns ?cs ?m = Ok m'" "bt_wf ?m \<longrightarrow> bt_wf m'"
      "\<forall>tid. bt_get m' tid = (case bt_get ?m tid of None \<Rightarrow> None | Some (n, t) \<Rightarrow>
          (case table_schema_put_columns (filter (\<lambda>c. col_table_id c = tid) ?cs) t of
             Ok t' \<Rightarrow> Some (n, t') | _ \<Rightarrow> None))" by (elim exE conjE)
  note m' = m'0(1) m'0(2) [rule_format, OF wf] m'0(3) [rule_format]
  have cols: "filter (\<lambda>c. col_table_id c = tid) ?cs = filter (\<lambda>c. col_table_id c = tid) (columns s)"
    if "tid \<in> set (map tbl_id ?ts)" for tid
    using that by (auto simp: intro!: filter_cong)
  have row: "bt_get m' tid = Some (tname, t) \<longleftrightarrow>
      row_table s (ns_id n) tname = Some tid \<and> get_table_schema_by_id tid s = (Ok t, s)" for tid tname t
  proof -
    have "bt_get m' tid = Some (tname, t) \<longleftrightarrow> bt_get ?m tid = Some (tname, TableSchema_new tid)
        \<and> table_schema_put_columns (filter (\<lambda>c. col_table_id c = tid) ?cs) (TableSchema_new tid) = Ok t"
    proof (cases "bt_get ?m tid")
      case (Some nt)
      with get_m [of tid "fst nt" "snd nt"] have "snd nt = TableSchema_new tid" by auto
      with Some show ?thesis by (cases nt) (auto simp: m'(3) split: res.splits)
    qed (simp add: m'(3))
    also have "\<dots> \<longleftrightarrow> row_table s (ns_id n) tname = Some tid \<and> get_table_schema_by_id tid s = (Ok t, s)"
      unfolding get_m row_table_iff [OF assms(1)]
      using cols by (auto simp: get_table_schema_by_id_def columns_list_by_table_id_def m_bind_def m_lift_def)
    finally show ?thesis .
  qed
  have mem: "(tid, tname, t) \<in> set m' \<longleftrightarrow> bt_get m' tid = Some (tname, t)" for tid tname t
    using m'(2) bt.get_entries [OF m'(2)] by (simp add: bt_wf_def strict_sorted_iff)
  let ?sch = "schema_put_tables m' (NamespaceSchema_new (ns_id n) (ns_kafka_topic_id n) (ns_query_pool_id n))"
  have "bt_get (nsc_tables ?sch) tname = map_of (rev (map snd m')) tname" for tname
    by (simp add: schema_put_tables_insert_all bt.get_insert_all NamespaceSchema_new_def map_add_def split: option.split)
  then have "bt_get (nsc_tables ?sch) tname = Some t \<longleftrightarrow> (\<exists>tid. bt_get m' tid = Some (tname, t))" for tname t
    using map_of_snd_unique [of tname m' t] mem row by auto
  moreover have "get_schema_internal n s = (Ok ?sch, s)"
    using m'(1) by (simp add: get_schema_internal_def columns_list_by_namespace_id_def
        tables_list_by_namespace_id_def m_bind_def m_lift_def m_return_def)
  ultimately show ?thesis
    using row by (intro exI [of _ ?sch]) (simp add: schema_put_tables_insert_all NamespaceSchema_new_def)
qed

text \<open>
  C9. Reading a namespace's schema by its name returns, on a well-formed catalog, exactly the rows:
  a table is in the schema with an identifier and a map of columns just if the catalog has that table
  row in the namespace, and its columns, with identifiers and types, are just the column rows of that
  table.  It never panics on an orphaned column and never meets an unknown type; for a name that no
  namespace has it reports so.
\<close>

theorem get_schema_by_name_exact:
  assumes "cat_wf s"
  shows "case find (\<lambda>n. ns_name n = name) (namespaces s) of
      None \<Rightarrow> get_schema_by_name name s = (Err (Error_NamespaceNotFoundByName name), s)
    | Some n \<Rightarrow>
        (\<exists>sch. get_schema_by_name name s = (Ok sch, s) \<and> nsc_id sch = ns_id n
           \<and> (\<forall>tname. map_option (\<lambda>t. (tsc_id t, bt_get (tsc_columns t))) (bt_get (nsc_tables sch) tname)
                = map_option (\<lambda>tid. (tid, row_column s tid)) (row_table s (ns_id n) tname)))"
proof (cases "find (\<lambda>n. ns_name n = name) (namespaces s)")
  case None
  then show ?thesis
    by (simp add: get_schema_by_name_def namespaces_get_by_name_def m_bind_def m_lift_def)
next
  case (Some n)
  have wf: "tables_wf s" "columns_wf s" using assms by (simp_all add: cat_wf_def)
  obtain sch where sch: "get_schema_internal n s = (Ok sch, s)" "nsc_id sch = ns_id n"
    "\<And>tname t. bt_get (nsc_tables sch) tname = Some t \<longleftrightarrow>
         (\<exists>tid. row_table s (ns_id n) tname = Some tid \<and> get_table_schema_by_id tid s = (Ok t, s))"
    using get_schema_internal_Ok [OF wf, of n] by blast
  have "map_option (\<lambda>t. (tsc_id t, bt_get (tsc_columns t))) (bt_get (nsc_tables sch) tname)
      = map_option (\<lambda>tid. (tid, row_column s tid)) (row_table s (ns_id n) tname)" for tname
  proof (cases "row_table s (ns_id n) tname")
    case None
    then have "bt_get (nsc_tables sch) tname = None" using sch(3) [of tname] by (metis not_None_eq option.distinct(1))
    with None show ?thesis by simp
  next
    case (Some tid)
    obtain t where "get_table_schema_by_id tid s = (Ok t, s)" "tsc_id t = tid" "bt_get (tsc_columns t) = row_column s tid"
      using get_table_schema_by_id_Ok [OF wf(2)] by blast
    with sch(3) Some show ?thesis by auto
  qed
  with sch(1,2) Some show ?thesis
    by (simp add: get_schema_by_name_def namespaces_get_by_name_def m_bind_def)
qed

theorem get_schema_by_name_exact_witness:
  "\<exists>sch t. get_schema_by_name ''ns'' (sample_catalog 10) = (Ok sch, sample_catalog 10)
     \<and> bt_get (nsc_tables sch) ''cpu'' = Some t \<and> tsc_id t = TableId 1
     \<and> bt_get (tsc_columns t) ''host'' = Some \<lparr>cs_id = ColumnId 1, cs_column_type = ColumnType_Tag\<rparr>"
proof -
  let ?s = "sample_catalog 10"
  have n: "find (\<lambda>n. ns_name n = ''ns'') (namespaces ?s) = Some (sample_namespace 10)"
    and t: "row_table ?s (ns_id (sample_namespace 10)) ''cpu'' = Some (TableId 1)"
    and c: "row_column ?s (TableId 1) ''host'' = Some \<lparr>cs_id = ColumnId 1, cs_column_type = ColumnType_Tag\<rparr>"
    by (simp_all add: sample_defs row_table_def row_column_def ColumnSchema_try_from_def ColumnType_try_from_def)
  from get_schema_by_name_exact [OF sample_catalog_wf [of 10], of "''ns''"] n obtain sch where
    sch: "get_schema_by_name ''ns'' ?s = (Ok sch, ?s)"
      "\<forall>tname. map_option (\<lambda>t. (tsc_id t, bt_get (tsc_columns t))) (bt_get (nsc_tables sch) tname)
         = map_option (\<lambda>tid. (tid, row_column ?s tid)) (row_table ?s (ns_id (sample_namespace 10)) tname)"
    by auto
  from sch(2) [rule_format, of "''cpu''"] t c sch(1) show ?thesis by auto
qed

section \<open>All namespaces\<close>

text \<open>What is joined after the columns \<open>done\<close>: the columns of a table among them.\<close>

definition cols_of :: "Column list \<Rightarrow> TableId \<Rightarrow> string \<Rightarrow> ColumnSchema option" where
  "cols_of cs tid cname =
     (case find (\<lambda>c. col_table_id c = tid \<and> col_name c = cname) cs of
        Some c \<Rightarrow> ColumnSchema_try_from c
      | None \<Rightarrow> None)"

lemma row_column_cols_of: "row_column s = cols_of (columns s)"
  by (simp add: fun_eq_iff row_column_def cols_of_def)

abbreviation table_view :: "TableSchema \<Rightarrow> TableId \<times> (string \<Rightarrow> ColumnSchema option)" where
  "table_view t \<equiv> (tsc_id t, bt_get (tsc_columns t))"

definition joined_view ::
    "(NamespaceId \<rightharpoonup> NamespaceTables) \<Rightarrow> NamespaceId \<Rightarrow> string
       \<Rightarrow> (TableId \<times> (string \<Rightarrow> ColumnSchema option)) option" where
  "joined_view joined nid tname =
     map_option table_view (bt_get (case joined nid of None \<Rightarrow> [] | Some m \<Rightarrow> m) tname)"

definition expected_view ::
    "MemCollections \<Rightarrow> Column list \<Rightarrow> NamespaceId \<Rightarrow> string
       \<Rightarrow> (TableId \<times> (string \<Rightarrow> ColumnSchema option)) option" where
  "expected_view s cs nid tname =
     (case row_table s nid tname of
        None \<Rightarrow> None
      | Some tid \<Rightarrow> if tid \<in> col_table_id ` set cs then Some (tid, cols_of cs tid) else None)"

definition has_column :: "MemCollections \<Rightarrow> Column list \<Rightarrow> NamespaceId \<Rightarrow> bool" where
  "has_column s cs nid \<longleftrightarrow>
     (\<exists>c\<in>set cs. \<exists>t\<in>set (tables s). tbl_id t = col_table_id c \<and> tbl_namespace_id t = nid)"

lemma cols_of_snoc:
  assumes "find (\<lambda>d. col_table_id d = col_table_id c \<and> col_name d = col_name c) cs = None"
  shows "cols_of (cs @ [c]) tid = (if tid = col_table_id c
     then (cols_of cs tid)(col_name c := ColumnSchema_try_from c) else cols_of cs tid)"
  using assms by (auto simp: cols_of_def fun_eq_iff find_append split: option.splits)

lemma cols_of_unseen: "tid \<notin> col_table_id ` set cs \<Longrightarrow> cols_of cs tid = Map.empty"
proof -
  assume "tid \<notin> col_table_id ` set cs"
  then have "find (\<lambda>c. col_table_id c = tid \<and> col_name c = k) cs = None" for k
    by (auto simp: find_None_iff)
  then show ?thesis by (simp add: cols_of_def fun_eq_iff)
qed

lemma has_column_append: "has_column s (cs @ ds) nid \<longleftrightarrow> has_column s cs nid \<or> has_column s ds nid"
  by (auto simp: has_column_def)

text \<open>One column of the join.\<close>

lemma join_step:
  assumes wf: "tables_wf s" and tb: "tb \<in> set (tables s)" "tbl_id tb = col_table_id c"
    and fresh: "find (\<lambda>d. col_table_id d = col_table_id c \<and> col_name d = col_name c) cs = None"
    and valid: "ColumnSchema_try_from c = Some v"
    and view: "joined_view joined = expected_view s cs"
  defines "m \<equiv> (case joined (tbl_namespace_id tb) of None \<Rightarrow> [] | Some m \<Rightarrow> m)"
  defines "t0 \<equiv> (case bt_get m (tbl_name tb) of None \<Rightarrow> TableSchema_new (col_table_id c) | Some t \<Rightarrow> t)"
  shows "\<exists>t. TableSchema_add_column c t0 = (Ok () :: (Error, unit) res, t)
    \<and> joined_view (joined(tbl_namespace_id tb \<mapsto> bt_insert (tbl_name tb) t m)) = expected_view s (cs @ [c])"
proof -
  let ?nid = "tbl_namespace_id tb" and ?n = "tbl_name tb"
  have row: "row_table s ?nid ?n = Some (col_table_id c)"
    using row_table_iff [OF wf] tb by auto
  have t0: "table_view t0 = (col_table_id c, cols_of cs (col_table_id c))"
  proof (cases "col_table_id c \<in> col_table_id ` set cs")
    case True
    with row have "joined_view joined ?nid ?n = Some (col_table_id c, cols_of cs (col_table_id c))"
      by (simp add: view expected_view_def)
    then show ?thesis by (auto simp: t0_def m_def joined_view_def)
  next
    case False
    with row have "joined_view joined ?nid ?n = None" by (simp add: view expected_view_def)
    then show ?thesis
      using cols_of_unseen [OF False] by (simp add: t0_def m_def joined_view_def TableSchema_new_def fun_eq_iff)
  qed
  let ?t = "t0\<lparr>tsc_columns := bt_insert (col_name c) v (tsc_columns t0)\<rparr>"
  have "bt_get (tsc_columns t0) (col_name c) = None" using t0 fresh by (simp add: cols_of_def)
  then have add: "TableSchema_add_column c t0 = (Ok () :: (Error, unit) res, ?t)"
    using valid by (simp add: TableSchema_add_column_def Let_def)
  have "joined_view (joined(?nid \<mapsto> bt_insert ?n ?t m)) nid tname = expected_view s (cs @ [c]) nid tname" for nid tname
  proof (cases "nid = ?nid \<and> tname = ?n")
    case True
    with t0 row show ?thesis
      by (simp add: joined_view_def expected_view_def cols_of_snoc [OF fresh] valid bt_get_insert)
  next
    case False
    have "joined_view (joined(?nid \<mapsto> bt_insert ?n ?t m)) nid tname = joined_view joined nid tname"
      using False by (auto simp: joined_view_def m_def)
    also have "\<dots> = expected_view s (cs @ [c]) nid tname"
    proof (cases "row_table s nid tname")
      case (Some tid)
      then have "tid \<noteq> col_table_id c"
        using row_table_iff [OF wf] row False tables_wf_ids [OF wf] tb
        by (metis (no_types, lifting) distinct_map inj_on_eq_iff)
      with Some show ?thesis by (simp add: view expected_view_def cols_of_snoc [OF fresh])
    qed (simp add: view expected_view_def)
    finally show ?thesis .
  qed
  with add show ?thesis by blast
qed

lemma join_columns_Ok:
  assumes wf: "tables_wf s" "columns_wf s"
    and tabs: "\<And>c. c \<in> set (columns s) \<Longrightarrow>
      \<exists>tb\<in>set (tables s). tabs (col_table_id c) = Some tb \<and> tbl_id tb = col_table_id c"
    and "columns s = seen @ cs"
    and "joined_view joined = expected_view s seen" and "\<And>nid. joined nid \<noteq> None \<longleftrightarrow> has_column s seen nid"
  shows "\<exists>j. join_columns tabs cs joined = Ok j \<and> joined_view j = expected_view s (columns s)
    \<and> (\<forall>nid. j nid \<noteq> None \<longleftrightarrow> has_column s (columns s) nid)"
  using assms(4-)
proof (induction cs arbitrary: seen joined)
  case (Cons c cs)
  have cin: "c \<in> set (columns s)" using Cons.prems(1) by simp
  from tabs [OF this] obtain tb where tb: "tb \<in> set (tables s)" "tabs (col_table_id c) = Some tb" "tbl_id tb = col_table_id c"
    by blast
  from wf(2) cin obtain v where v: "ColumnSchema_try_from c = Some v"
    by (auto simp: columns_wf_def ColumnSchema_try_from_def)
  have "(col_table_id c, col_name c) \<notin> (\<lambda>c. (col_table_id c, col_name c)) ` set seen"
    using wf(2) by (auto simp: columns_wf_def Cons.prems(1))
  then have fresh: "find (\<lambda>d. col_table_id d = col_table_id c \<and> col_name d = col_name c) seen = None"
    by (auto simp: find_None_iff image_iff)
  let ?m = "case joined (tbl_namespace_id tb) of None \<Rightarrow> [] | Some m \<Rightarrow> m"
  let ?t0 = "case bt_get ?m (tbl_name tb) of None \<Rightarrow> TableSchema_new (col_table_id c) | Some t \<Rightarrow> t"
  from join_step [OF wf(1) tb(1,3) fresh v Cons.prems(2)] obtain t where
    t: "TableSchema_add_column c ?t0 = (Ok () :: (Error, unit) res, t)"
       "joined_view (joined(tbl_namespace_id tb \<mapsto> bt_insert (tbl_name tb) t ?m)) = expected_view s (seen @ [c])"
    by blast
  let ?j = "joined(tbl_namespace_id tb \<mapsto> bt_insert (tbl_name tb) t ?m)"
  have ns: "tbl_namespace_id t' = tbl_namespace_id tb" if "t' \<in> set (tables s)" "tbl_id t' = col_table_id c" for t'
    using tables_wf_ids [OF wf(1)] tb(1,3) that by (metis distinct_map inj_on_eq_iff)
  have "has_column s [c] nid \<longleftrightarrow> nid = tbl_namespace_id tb" for nid
  proof
    assume "has_column s [c] nid"
    then obtain t' where "t' \<in> set (tables s)" "tbl_id t' = col_table_id c" "tbl_namespace_id t' = nid"
      unfolding has_column_def by auto
    with ns show "nid = tbl_namespace_id tb" by simp
  next
    assume "nid = tbl_namespace_id tb"
    with tb(1,3) show "has_column s [c] nid" unfolding has_column_def by auto
  qed
  then have hc: "?j nid \<noteq> None \<longleftrightarrow> has_column s (seen @ [c]) nid" for nid
    using Cons.prems(3) [of nid] by (simp add: has_column_append)
  have "columns s = (seen @ [c]) @ cs" using Cons.prems(1) by simp
  from Cons.IH [OF this t(2) hc] obtain j where
    "join_columns tabs cs ?j = Ok j" "joined_view j = expected_view s (columns s)"
    "\<forall>nid. j nid \<noteq> None \<longleftrightarrow> has_column s (columns s) nid" by blast
  moreover have "join_columns tabs (c # cs) joined = join_columns tabs cs ?j"
    using tb(2) t(1) by (simp add: Let_def)
  ultimately show ?case by (intro exI [of _ j]) simp
qed simp

lemma join_namespaces_facts:
  assumes "distinct (map ns_id vs)"
  shows "map fst (join_namespaces vs j) = filter (\<lambda>v. j (ns_id v) \<noteq> None) vs"
    and "(v, sch) \<in> set (join_namespaces vs j) \<Longrightarrow> nsc_id sch = ns_id v \<and> j (ns_id v) = Some (nsc_tables sch)"
proof -
  have cong: "join_namespaces vs j = join_namespaces vs j'" if "\<And>v. v \<in> set vs \<Longrightarrow> j (ns_id v) = j' (ns_id v)" for vs j j'
    using that
  proof (induction vs arbitrary: j j')
    case (Cons v vs)
    have "j (ns_id v) = j' (ns_id v)" using Cons.prems by simp
    moreover have "join_namespaces vs j = join_namespaces vs j'"
      and "join_namespaces vs (j(ns_id v := None)) = join_namespaces vs (j'(ns_id v := None))"
      using Cons.prems by (auto intro!: Cons.IH)
    ultimately show ?case by (auto split: option.splits)
  qed simp
  have drop: "join_namespaces vs (j(ns_id v := None)) = join_namespaces vs j" if "ns_id v \<notin> ns_id ` set vs" for vs j and v :: Namespace
    using that by (intro cong) (auto simp: image_iff)
  show "map fst (join_namespaces vs j) = filter (\<lambda>v. j (ns_id v) \<noteq> None) vs"
    using assms by (induction vs) (auto simp: drop split: option.splits)
  show "(v, sch) \<in> set (join_namespaces vs j) \<Longrightarrow> nsc_id sch = ns_id v \<and> j (ns_id v) = Some (nsc_tables sch)"
    using assms by (induction vs) (auto simp: drop NamespaceSchema_new_def split: option.splits)
qed

lemma tables_by_id:
  assumes "tables_wf s" and "tb \<in> set (tables s)" and "P (tbl_id tb)"
  shows "map_of (rev (map (\<lambda>t. (tbl_id t, t)) (filter (\<lambda>t. P (tbl_id t)) (tables s)))) (tbl_id tb) = Some tb"
proof -
  let ?kvs = "map (\<lambda>t. (tbl_id t, t)) (filter (\<lambda>t. P (tbl_id t)) (tables s))"
  have "distinct (map fst (rev ?kvs))"
    using distinct_map_filterI [OF tables_wf_ids [OF assms(1)]] by (simp add: comp_def flip: rev_map)
  from map_of_eq_Some_iff [OF this] assms(2,3) show ?thesis by auto
qed

text \<open>
  C12. On a well-formed catalog \<open>list_schemas\<close> succeeds and its lookups cannot fail: it returns, in
  the order of the rows, the namespaces that have a column, each with exactly the tables of the
  namespace that have one, and these with exactly their column rows.
\<close>

theorem list_schemas_exact:
  assumes "cat_wf s"
  shows "\<exists>ps. list_schemas s = (Ok ps, s)
    \<and> map fst ps = filter (\<lambda>v. has_column s (columns s) (ns_id v)) (namespaces s)
    \<and> (\<forall>(v, sch)\<in>set ps. nsc_id sch = ns_id v
         \<and> (\<forall>tname. map_option table_view (bt_get (nsc_tables sch) tname)
               = expected_view s (columns s) (ns_id v) tname))"
proof -
  have wf: "tables_wf s" "columns_wf s" and "namespaces_wf s" using assms by (simp_all add: cat_wf_def)
  then have "distinct (map NamespaceId_get (map ns_id (namespaces s)))"
    using ids_ok_distinct by (simp add: namespaces_wf_def comp_def)
  then have ids: "distinct (map ns_id (namespaces s))" using distinct_map by blast
  let ?tabs = "map_of (rev (map (\<lambda>t. (tbl_id t, t))
      (filter (\<lambda>t. tbl_id t \<in> col_table_id ` set (columns s)) (tables s))))"
  have tabs: "\<exists>tb\<in>set (tables s). ?tabs (col_table_id c) = Some tb \<and> tbl_id tb = col_table_id c"
    if c: "c \<in> set (columns s)" for c
  proof -
    from wf(2) c obtain tb where tb: "tb \<in> set (tables s)" "tbl_id tb = col_table_id c"
      by (force simp: columns_wf_def)
    with tables_by_id [OF wf(1) tb(1), of "\<lambda>i. i \<in> col_table_id ` set (columns s)"] c show ?thesis
      by (intro bexI [of _ tb]) auto
  qed
  have "joined_view Map.empty = expected_view s []"
    and "Map.empty nid \<noteq> None \<longleftrightarrow> has_column s [] nid" for nid
    by (simp_all add: joined_view_def expected_view_def has_column_def fun_eq_iff split: option.split)
  from join_columns_Ok [OF wf tabs _ this] obtain j where
    j: "join_columns ?tabs (columns s) Map.empty = Ok j" "joined_view j = expected_view s (columns s)"
       "\<forall>nid. j nid \<noteq> None \<longleftrightarrow> has_column s (columns s) nid" by auto
  have "list_schemas s = (Ok (join_namespaces (namespaces s) j), s)"
    using j(1) by (simp add: list_schemas_def columns_list_def tables_list_def namespaces_list_def
        m_bind_def m_lift_def m_return_def Let_def)
  moreover have "map fst (join_namespaces (namespaces s) j)
      = filter (\<lambda>v. has_column s (columns s) (ns_id v)) (namespaces s)"
    using join_namespaces_facts(1) [OF ids] j(3) by simp
  moreover have "map_option table_view (bt_get (nsc_tables sch) tname) = expected_view s (columns s) (ns_id v) tname"
    if "j (ns_id v) = Some (nsc_tables sch)" for v sch tname
    using fun_cong [OF fun_cong [OF j(2)], of "ns_id v" tname] that by (simp add: joined_view_def)
  ultimately show ?thesis using join_namespaces_facts(2) [OF ids] by fastforce
qed

theorem list_schemas_exact_witness:
  "\<exists>sch. list_schemas (sample_catalog 10) = (Ok [(sample_namespace 10, sch)], sample_catalog 10)
     \<and> map_option tsc_id (bt_get (nsc_tables sch) ''cpu'') = Some (TableId 1)"
proof -
  let ?s = "sample_catalog 10"
  obtain ps where ps: "list_schemas ?s = (Ok ps, ?s)"
      "map fst ps = filter (\<lambda>v. has_column ?s (columns ?s) (ns_id v)) (namespaces ?s)"
      "\<forall>(v, sch)\<in>set ps. nsc_id sch = ns_id v
         \<and> (\<forall>tname. map_option table_view (bt_get (nsc_tables sch) tname)
               = expected_view ?s (columns ?s) (ns_id v) tname)"
    using list_schemas_exact [OF sample_catalog_wf [of 10]] by blast
  have "map fst ps = [sample_namespace 10]"
    unfolding ps(2) by (simp add: sample_defs has_column_def)
  then obtain sch where sch: "ps = [(sample_namespace 10, sch)]" by auto
  have e: "expected_view ?s (columns ?s) (ns_id (sample_namespace 10)) ''cpu''
      = Some (TableId 1, cols_of (columns ?s) (TableId 1))"
    by (simp add: sample_defs expected_view_def row_table_def)
  have "map_option table_view (bt_get (nsc_tables sch) ''cpu'')
      = expected_view ?s (columns ?s) (ns_id (sample_namespace 10)) ''cpu''"
    using ps(3) by (simp add: sch)
  with e have "map_option tsc_id (bt_get (nsc_tables sch) ''cpu'') = Some (TableId 1)" by auto
  with ps(1) sch show ?thesis by blast
qed

end
