(* ===== verification/Column_Stats.thy ===== *)
theory Column_Stats
  imports Data_Types
begin

text \<open>
  Column statistics of \<open>src/data_types/src/lib.rs\<close>: \<open>StatValues\<close>, \<open>Statistics\<close>,
  \<open>ColumnSummary\<close> and \<open>TableSummary\<close>.  The trait bounds \<open>PartialOrd\<close> and \<open>IsNan\<close> of the generic
  code are a record of comparison functions that every operation takes; floats compare with IEEE
  semantics, the other types are totally ordered.  Counts are natural numbers: those of a batch count
  rows that are in memory.  Summaries can come from files, and merging them panics when a count
  leaves the range of \<open>u64\<close>, as the additions do where the build checks for overflow.
\<close>

section \<open>Comparison\<close>

record 'a PartialOrd =
  po_lt :: "'a \<Rightarrow> 'a \<Rightarrow> bool"
  po_le :: "'a \<Rightarrow> 'a \<Rightarrow> bool"
  po_is_nan :: "'a \<Rightarrow> bool"

definition ord_total :: "'a::linorder PartialOrd" where
  "ord_total = \<lparr>po_lt = (<), po_le = (\<le>), po_is_nan = (\<lambda>_. False)\<rparr>"

definition ord_f64 :: "f64 PartialOrd" where
  "ord_f64 = \<lparr>po_lt = f64_lt, po_le = f64_le, po_is_nan = f64_is_nan\<rparr>"

section \<open>Statistics of one column\<close>

record 'a StatValues =
  sv_min :: "'a option"
  sv_max :: "'a option"
  sv_total_count :: nat
  sv_null_count :: "nat option"
  sv_distinct_count :: "nat option"

datatype StatOverlap = StatOverlap_NonZero | StatOverlap_Zero | StatOverlap_Unknown

definition StatValues_overlaps ::
    "'a PartialOrd \<Rightarrow> 'a StatValues \<Rightarrow> 'a StatValues \<Rightarrow> StatOverlap" where
  "StatValues_overlaps ord self other =
     (case (sv_min self, sv_max self, sv_min other, sv_max other) of
        (Some self_min, Some self_max, Some other_min, Some other_max) \<Rightarrow>
          (if po_le ord self_min other_max \<and> po_le ord other_min self_max
           then StatOverlap_NonZero else StatOverlap_Zero)
      | _ \<Rightarrow> StatOverlap_Unknown)"

definition StatValues_default :: "'a StatValues" where
  "StatValues_default =
     \<lparr>sv_min = None, sv_max = None, sv_total_count = 0, sv_null_count = None,
      sv_distinct_count = None\<rparr>"

definition StatValues_new_empty :: "'a StatValues" where
  "StatValues_new_empty =
     \<lparr>sv_min = None, sv_max = None, sv_total_count = 0, sv_null_count = Some 0,
      sv_distinct_count = None\<rparr>"

definition StatValues_is_none :: "'a StatValues \<Rightarrow> bool" where
  "StatValues_is_none s \<longleftrightarrow> sv_min s = None \<and> sv_max s = None"

definition StatValues_update_for_nulls :: "nat \<Rightarrow> 'a StatValues \<Rightarrow> 'a StatValues" where
  "StatValues_update_for_nulls num_nulls s =
     s\<lparr>sv_total_count := sv_total_count s + num_nulls,
       sv_null_count := map_option (\<lambda>x. x + num_nulls) (sv_null_count s)\<rparr>"

text \<open>The new minimum and maximum when one more value is known.\<close>

definition update_min :: "'a PartialOrd \<Rightarrow> 'a option \<Rightarrow> 'a \<Rightarrow> 'a option" where
  "update_min ord m other =
     (case m of None \<Rightarrow> Some other | Some s \<Rightarrow> if po_lt ord other s then Some other else Some s)"

definition update_max :: "'a PartialOrd \<Rightarrow> 'a option \<Rightarrow> 'a \<Rightarrow> 'a option" where
  "update_max ord m other =
     (case m of None \<Rightarrow> Some other | Some s \<Rightarrow> if po_lt ord s other then Some other else Some s)"

definition StatValues_update :: "'a PartialOrd \<Rightarrow> 'a \<Rightarrow> 'a StatValues \<Rightarrow> 'a StatValues" where
  "StatValues_update ord other s =
     (let s = s\<lparr>sv_total_count := sv_total_count s + 1, sv_distinct_count := None\<rparr>
      in if \<not> po_is_nan ord other
         then s\<lparr>sv_min := update_min ord (sv_min s) other, sv_max := update_max ord (sv_max s) other\<rparr>
         else s)"

definition StatValues_update_from :: "'a PartialOrd \<Rightarrow> 'a StatValues \<Rightarrow> 'a StatValues \<Rightarrow> 'a StatValues" where
  "StatValues_update_from ord other s =
     s\<lparr>sv_total_count := sv_total_count s + sv_total_count other,
       sv_null_count := (case (sv_null_count s, sv_null_count other) of
                           (Some a, Some b) \<Rightarrow> Some (a + b) | _ \<Rightarrow> None),
       sv_distinct_count := None,
       sv_min := (case sv_min other of None \<Rightarrow> sv_min s | Some o' \<Rightarrow> update_min ord (sv_min s) o'),
       sv_max := (case sv_max other of None \<Rightarrow> sv_max s | Some o' \<Rightarrow> update_max ord (sv_max s) o')\<rparr>"

text \<open>The constructors check their arguments with assertions.\<close>

definition StatValues_new_with_distinct ::
    "'a PartialOrd \<Rightarrow> 'a option \<Rightarrow> 'a option \<Rightarrow> nat \<Rightarrow> nat option \<Rightarrow> nat option
       \<Rightarrow> ('e, 'a StatValues) res" where
  "StatValues_new_with_distinct ord mi ma total_count null_count distinct_count =
     (if (case mi of Some m \<Rightarrow> po_is_nan ord m | None \<Rightarrow> False) then Panic
      else if (case ma of Some m \<Rightarrow> po_is_nan ord m | None \<Rightarrow> False) then Panic
      else if (case (mi, ma) of (Some a, Some b) \<Rightarrow> \<not> po_le ord a b | _ \<Rightarrow> False) then Panic
      else Ok \<lparr>sv_min = mi, sv_max = ma, sv_total_count = total_count, sv_null_count = null_count,
               sv_distinct_count = distinct_count\<rparr>)"

definition StatValues_new ::
    "'a PartialOrd \<Rightarrow> 'a option \<Rightarrow> 'a option \<Rightarrow> nat \<Rightarrow> nat option \<Rightarrow> ('e, 'a StatValues) res" where
  "StatValues_new ord mi ma total_count null_count =
     StatValues_new_with_distinct ord mi ma total_count null_count None"

definition StatValues_new_all_null ::
    "'a PartialOrd \<Rightarrow> nat \<Rightarrow> nat option \<Rightarrow> ('e, 'a StatValues) res" where
  "StatValues_new_all_null ord total_count distinct_count =
     (if distinct_count = Some 0 then Panic
      else StatValues_new_with_distinct ord None None total_count (Some total_count) distinct_count)"

definition StatValues_new_non_null ::
    "'a PartialOrd \<Rightarrow> 'a option \<Rightarrow> 'a option \<Rightarrow> nat \<Rightarrow> ('e, 'a StatValues) res" where
  "StatValues_new_non_null ord mi ma total_count =
     StatValues_new_with_distinct ord mi ma total_count (Some 0) None"

section \<open>Statistics of a column of any type\<close>

datatype Statistics =
    Statistics_I64 "int StatValues"
  | Statistics_U64 "nat StatValues"
  | Statistics_F64 "f64 StatValues"
  | Statistics_Bool "bool StatValues"
  | Statistics_String "string StatValues"

fun Statistics_total_count :: "Statistics \<Rightarrow> nat" where
  "Statistics_total_count (Statistics_I64 s) = sv_total_count s"
| "Statistics_total_count (Statistics_U64 s) = sv_total_count s"
| "Statistics_total_count (Statistics_F64 s) = sv_total_count s"
| "Statistics_total_count (Statistics_Bool s) = sv_total_count s"
| "Statistics_total_count (Statistics_String s) = sv_total_count s"

fun Statistics_is_none :: "Statistics \<Rightarrow> bool" where
  "Statistics_is_none (Statistics_I64 s) = StatValues_is_none s"
| "Statistics_is_none (Statistics_U64 s) = StatValues_is_none s"
| "Statistics_is_none (Statistics_F64 s) = StatValues_is_none s"
| "Statistics_is_none (Statistics_Bool s) = StatValues_is_none s"
| "Statistics_is_none (Statistics_String s) = StatValues_is_none s"

fun Statistics_null_count :: "Statistics \<Rightarrow> nat option" where
  "Statistics_null_count (Statistics_I64 s) = sv_null_count s"
| "Statistics_null_count (Statistics_U64 s) = sv_null_count s"
| "Statistics_null_count (Statistics_F64 s) = sv_null_count s"
| "Statistics_null_count (Statistics_Bool s) = sv_null_count s"
| "Statistics_null_count (Statistics_String s) = sv_null_count s"

fun Statistics_distinct_count :: "Statistics \<Rightarrow> nat option" where
  "Statistics_distinct_count (Statistics_I64 s) = sv_distinct_count s"
| "Statistics_distinct_count (Statistics_U64 s) = sv_distinct_count s"
| "Statistics_distinct_count (Statistics_F64 s) = sv_distinct_count s"
| "Statistics_distinct_count (Statistics_Bool s) = sv_distinct_count s"
| "Statistics_distinct_count (Statistics_String s) = sv_distinct_count s"

fun Statistics_update_for_nulls :: "nat \<Rightarrow> Statistics \<Rightarrow> Statistics" where
  "Statistics_update_for_nulls n (Statistics_I64 s) = Statistics_I64 (StatValues_update_for_nulls n s)"
| "Statistics_update_for_nulls n (Statistics_U64 s) = Statistics_U64 (StatValues_update_for_nulls n s)"
| "Statistics_update_for_nulls n (Statistics_F64 s) = Statistics_F64 (StatValues_update_for_nulls n s)"
| "Statistics_update_for_nulls n (Statistics_Bool s) = Statistics_Bool (StatValues_update_for_nulls n s)"
| "Statistics_update_for_nulls n (Statistics_String s) = Statistics_String (StatValues_update_for_nulls n s)"

fun Statistics_type_name :: "Statistics \<Rightarrow> string" where
  "Statistics_type_name (Statistics_I64 _) = ''I64''"
| "Statistics_type_name (Statistics_U64 _) = ''U64''"
| "Statistics_type_name (Statistics_F64 _) = ''F64''"
| "Statistics_type_name (Statistics_Bool _) = ''Bool''"
| "Statistics_type_name (Statistics_String _) = ''String''"

fun Statistics_as_i64 :: "Statistics \<Rightarrow> int StatValues option" where
  "Statistics_as_i64 (Statistics_I64 s) = Some s"
| "Statistics_as_i64 _ = None"

section \<open>Summaries of columns and tables\<close>

datatype InfluxDbType = InfluxDbType_Tag | InfluxDbType_Field | InfluxDbType_Timestamp

record ColumnSummary =
  csm_name :: string
  csm_influxdb_type :: "InfluxDbType option"
  csm_stats :: Statistics

definition ColumnSummary_total_count :: "ColumnSummary \<Rightarrow> nat" where
  "ColumnSummary_total_count c = Statistics_total_count (csm_stats c)"

text \<open>Statistics of different types are declared unreachable.\<close>

fun Statistics_update_from :: "Statistics \<Rightarrow> Statistics \<Rightarrow> ('e, Statistics) res" where
  "Statistics_update_from (Statistics_F64 o') (Statistics_F64 s) =
     Ok (Statistics_F64 (StatValues_update_from ord_f64 o' s))"
| "Statistics_update_from (Statistics_I64 o') (Statistics_I64 s) =
     Ok (Statistics_I64 (StatValues_update_from ord_total o' s))"
| "Statistics_update_from (Statistics_Bool o') (Statistics_Bool s) =
     Ok (Statistics_Bool (StatValues_update_from ord_total o' s))"
| "Statistics_update_from (Statistics_String o') (Statistics_String s) =
     Ok (Statistics_String (StatValues_update_from ord_total o' s))"
| "Statistics_update_from (Statistics_U64 o') (Statistics_U64 s) =
     Ok (Statistics_U64 (StatValues_update_from ord_total o' s))"
| "Statistics_update_from _ _ = Panic"

text \<open>The counts after an update, which are \<open>u64\<close>.\<close>

definition Statistics_checked :: "Statistics \<Rightarrow> ('e, Statistics) res" where
  "Statistics_checked s =
     (if Statistics_total_count s < 2 ^ 64 \<and> (case Statistics_null_count s of Some k \<Rightarrow> k < 2 ^ 64 | None \<Rightarrow> True)
      then Ok s else Panic)"

definition ColumnSummary_update_from :: "ColumnSummary \<Rightarrow> ColumnSummary \<Rightarrow> ('e, ColumnSummary) res" where
  "ColumnSummary_update_from other c =
     res_map (\<lambda>s. c\<lparr>csm_stats := s\<rparr>) (res_bind (Statistics_update_from (csm_stats other) (csm_stats c)) Statistics_checked)"

definition ColumnSummary_update_to_total_count :: "nat \<Rightarrow> ColumnSummary \<Rightarrow> ('e, ColumnSummary) res" where
  "ColumnSummary_update_to_total_count len c =
     (if ColumnSummary_total_count c \<le> len
      then res_map (\<lambda>s. c\<lparr>csm_stats := s\<rparr>)
             (Statistics_checked (Statistics_update_for_nulls (len - ColumnSummary_total_count c) (csm_stats c)))
      else Panic)"

datatype TableSummary = TableSummary (tsm_columns: "ColumnSummary list")

definition TableSummary_column :: "TableSummary \<Rightarrow> string \<Rightarrow> ColumnSummary option" where
  "TableSummary_column t name = find (\<lambda>c. csm_name c = name) (tsm_columns t)"

text \<open>The row count is that of the first column; a mismatch is only logged.\<close>

definition TableSummary_total_count :: "TableSummary \<Rightarrow> nat" where
  "TableSummary_total_count t =
     (case tsm_columns t of [] \<Rightarrow> 0 | c # _ \<Rightarrow> ColumnSummary_total_count c)"

fun update_existing_columns ::
    "TableSummary \<Rightarrow> nat \<Rightarrow> ColumnSummary list \<Rightarrow> ('e, ColumnSummary list) res" where
  "update_existing_columns other new_total_count [] = Ok []"
| "update_existing_columns other new_total_count (col # cols) =
     res_bind (case TableSummary_column other (csm_name col) of
                 Some other_col \<Rightarrow> ColumnSummary_update_from other_col col
               | None \<Rightarrow> ColumnSummary_update_to_total_count new_total_count col)
       (\<lambda>c. res_map (\<lambda>cs. c # cs) (update_existing_columns other new_total_count cols))"

fun add_new_columns ::
    "nat \<Rightarrow> ColumnSummary list \<Rightarrow> TableSummary \<Rightarrow> ('e, TableSummary) res" where
  "add_new_columns new_total_count [] t = Ok t"
| "add_new_columns new_total_count (col # cols) t =
     (if TableSummary_column t (csm_name col) = None
      then res_bind (ColumnSummary_update_to_total_count new_total_count col)
             (\<lambda>new_col. add_new_columns new_total_count cols (TableSummary (tsm_columns t @ [new_col])))
      else add_new_columns new_total_count cols t)"

definition TableSummary_update_from :: "TableSummary \<Rightarrow> TableSummary \<Rightarrow> ('e, TableSummary) res" where
  "TableSummary_update_from other t =
     (let new_total_count = TableSummary_total_count t + TableSummary_total_count other
      in if new_total_count \<ge> 2 ^ 64 then Panic
         else res_bind (update_existing_columns other new_total_count (tsm_columns t))
                (\<lambda>cols. add_new_columns new_total_count (tsm_columns other) (TableSummary cols)))"

definition TIME_COLUMN_NAME :: string where "TIME_COLUMN_NAME = ''time''"

definition TableSummary_time_range :: "TableSummary \<Rightarrow> ('e, TimestampMinMax option) res" where
  "TableSummary_time_range t =
     (case TableSummary_column t TIME_COLUMN_NAME of
        Some c \<Rightarrow>
          (case csm_stats c of
             Statistics_I64 s \<Rightarrow>
               (case (sv_min s, sv_max s) of
                  (Some mi, Some ma) \<Rightarrow> res_map Some (TimestampMinMax_new mi ma)
                | _ \<Rightarrow> Ok None)
           | _ \<Rightarrow> Ok None)
      | None \<Rightarrow> Ok None)"

section \<open>What statistics mean\<close>

text \<open>The values that count for the minimum and maximum: not null, not NaN.\<close>

definition known :: "'a PartialOrd \<Rightarrow> 'a option list \<Rightarrow> 'a list" where
  "known ord xs = filter (\<lambda>x. \<not> po_is_nan ord x) (map the (filter (\<lambda>x. x \<noteq> None) xs))"

definition nulls :: "'a option list \<Rightarrow> nat" where
  "nulls xs = length (filter (\<lambda>x. x = None) xs)"

definition is_min :: "('a \<Rightarrow> 'k::linorder) \<Rightarrow> 'a option \<Rightarrow> 'a list \<Rightarrow> bool" where
  "is_min key m vs \<longleftrightarrow>
     (case m of None \<Rightarrow> vs = [] | Some x \<Rightarrow> x \<in> set vs \<and> (\<forall>v\<in>set vs. key x \<le> key v))"

definition is_max :: "('a \<Rightarrow> 'k::linorder) \<Rightarrow> 'a option \<Rightarrow> 'a list \<Rightarrow> bool" where
  "is_max key m vs \<longleftrightarrow>
     (case m of None \<Rightarrow> vs = [] | Some x \<Rightarrow> x \<in> set vs \<and> (\<forall>v\<in>set vs. key v \<le> key x))"

definition summarises ::
    "'a PartialOrd \<Rightarrow> ('a \<Rightarrow> 'k::linorder) \<Rightarrow> 'a StatValues \<Rightarrow> 'a option list \<Rightarrow> bool" where
  "summarises ord key s xs \<longleftrightarrow>
     sv_total_count s = length xs \<and> sv_null_count s = Some (nulls xs)
     \<and> is_min key (sv_min s) (known ord xs) \<and> is_max key (sv_max s) (known ord xs)"

lemma known_simps [simp]:
  "known ord [] = []"
  "known ord (None # xs) = known ord xs"
  "known ord (Some x # xs) = (if po_is_nan ord x then known ord xs else x # known ord xs)"
  "known ord (xs @ ys) = known ord xs @ known ord ys"
  "known ord (replicate n None) = []"
  by (simp_all add: known_def filter_replicate)

lemma nulls_simps [simp]:
  "nulls [] = 0" "nulls (None # xs) = Suc (nulls xs)" "nulls (Some x # xs) = nulls xs"
  "nulls (xs @ ys) = nulls xs + nulls ys" "nulls (replicate n None) = n"
  by (simp_all add: nulls_def filter_replicate)

lemma known_not_nan: "x \<in> set (known ord xs) \<Longrightarrow> \<not> po_is_nan ord x"
  by (simp add: known_def)

text \<open>Statistics do not depend on the order of the rows.\<close>

lemma summarises_perm:
  assumes "mset xs = mset ys"
  shows "summarises ord key s xs \<longleftrightarrow> summarises ord key s ys"
proof -
  have "length xs = length ys" using assms by (rule mset_eq_length)
  moreover have "nulls xs = nulls ys"
    using arg_cong [OF assms, of "\<lambda>m. size (filter_mset (\<lambda>x. x = None) m)"]
    by (simp add: nulls_def flip: mset_filter)
  moreover have "mset (known ord xs) = mset (known ord ys)"
    using assms by (simp add: known_def)
  then have "set (known ord xs) = set (known ord ys)" and "known ord xs = [] \<longleftrightarrow> known ord ys = []"
    by (rule mset_eq_setD, metis \<open>mset (known ord xs) = _\<close> mset_zero_iff)
  ultimately show ?thesis by (simp add: summarises_def is_min_def is_max_def cong: option.case_cong)
qed

text \<open>
  The contract of the comparison functions: away from NaN they compare a key from a total order.
\<close>

locale stat_order =
  fixes ord :: "'a PartialOrd" and key :: "'a \<Rightarrow> 'k::linorder"
  assumes lt_key: "po_lt ord a b \<longleftrightarrow> \<not> po_is_nan ord a \<and> \<not> po_is_nan ord b \<and> key a < key b"
    and le_key: "po_le ord a b \<longleftrightarrow> \<not> po_is_nan ord a \<and> \<not> po_is_nan ord b \<and> key a \<le> key b"
begin

lemma update_min_is_min:
  assumes "is_min key m vs" and "\<And>v. v \<in> set vs \<Longrightarrow> \<not> po_is_nan ord v"
    and "is_min key (Some o') ws" and "\<not> po_is_nan ord o'"
  shows "is_min key (update_min ord m o') (vs @ ws)"
  using assms by (cases m) (fastforce simp: is_min_def update_min_def lt_key)+

lemma update_max_is_max:
  assumes "is_max key m vs" and "\<And>v. v \<in> set vs \<Longrightarrow> \<not> po_is_nan ord v"
    and "is_max key (Some o') ws" and "\<not> po_is_nan ord o'"
  shows "is_max key (update_max ord m o') (vs @ ws)"
  using assms by (cases m) (fastforce simp: is_max_def update_max_def lt_key)+

lemma update_summarises:
  assumes "summarises ord key s xs"
  shows "summarises ord key (StatValues_update ord v s) (xs @ [Some v])"
proof (cases "po_is_nan ord v")
  case True
  with assms show ?thesis by (simp add: summarises_def StatValues_update_def)
next
  case False
  have "is_min key (Some v) [v]" and "is_max key (Some v) [v]" by (simp_all add: is_min_def is_max_def)
  with assms False known_not_nan [of _ ord xs] show ?thesis
    by (auto simp: summarises_def StatValues_update_def intro: update_min_is_min update_max_is_max)
qed

lemma update_from_summarises:
  assumes "summarises ord key s xs" and "summarises ord key s' ys"
  shows "summarises ord key (StatValues_update_from ord s' s) (xs @ ys)"
proof -
  have mi: "is_min key (case sv_min s' of None \<Rightarrow> sv_min s | Some o' \<Rightarrow> update_min ord (sv_min s) o') (known ord xs @ known ord ys)"
  proof (cases "sv_min s'")
    case (Some o')
    then have "is_min key (Some o') (known ord ys)" using assms(2) by (simp add: summarises_def)
    moreover from this have "\<not> po_is_nan ord o'" by (auto simp: is_min_def dest: known_not_nan)
    ultimately show ?thesis
      using assms(1) Some known_not_nan [of _ ord xs] by (auto simp: summarises_def intro: update_min_is_min)
  qed (use assms in \<open>simp add: summarises_def is_min_def\<close>)
  have ma: "is_max key (case sv_max s' of None \<Rightarrow> sv_max s | Some o' \<Rightarrow> update_max ord (sv_max s) o') (known ord xs @ known ord ys)"
  proof (cases "sv_max s'")
    case (Some o')
    then have "is_max key (Some o') (known ord ys)" using assms(2) by (simp add: summarises_def)
    moreover from this have "\<not> po_is_nan ord o'" by (auto simp: is_max_def dest: known_not_nan)
    ultimately show ?thesis
      using assms(1) Some known_not_nan [of _ ord xs] by (auto simp: summarises_def intro: update_max_is_max)
  qed (use assms in \<open>simp add: summarises_def is_max_def\<close>)
  from assms mi ma show ?thesis by (simp add: summarises_def StatValues_update_from_def)
qed

text \<open>Statistics whose ranges are reported disjoint share no value.\<close>

lemma overlaps_sound:
  assumes "summarises ord key s xs" and "summarises ord key s' ys"
    and "x \<in> set (known ord xs)" and "y \<in> set (known ord ys)" and "key x = key y"
  shows "StatValues_overlaps ord s s' = StatOverlap_NonZero"
proof -
  obtain mi ma mi' ma' where m: "sv_min s = Some mi" "sv_max s = Some ma" "sv_min s' = Some mi'" "sv_max s' = Some ma'"
    using assms by (auto simp: summarises_def is_min_def is_max_def split: option.splits)
  then have "key mi \<le> key x" "key x \<le> key ma" "key mi' \<le> key y" "key y \<le> key ma'"
    and "mi \<in> set (known ord xs)" "ma \<in> set (known ord xs)" "mi' \<in> set (known ord ys)" "ma' \<in> set (known ord ys)"
    using assms by (auto simp: summarises_def is_min_def is_max_def)
  with m assms(5) known_not_nan show ?thesis
    by (auto simp: StatValues_overlaps_def le_key intro: order_trans dest: known_not_nan)
qed

end

interpretation total: stat_order ord_total "\<lambda>x. x"
  by unfold_locales (simp_all add: ord_total_def)

interpretation f64: stat_order ord_f64 f64_key
  by unfold_locales (simp_all add: ord_f64_def f64_lt_def f64_le_def)

lemma new_empty_summarises: "summarises ord key StatValues_new_empty []"
  by (simp add: summarises_def StatValues_new_empty_def is_min_def is_max_def)

lemma update_for_nulls_summarises:
  "summarises ord key s xs \<Longrightarrow> summarises ord key (StatValues_update_for_nulls n s) (xs @ replicate n None)"
  by (auto simp: summarises_def StatValues_update_for_nulls_def)

section \<open>What summaries mean\<close>

text \<open>The rows of a column of one of the five types; \<open>None\<close> is a null.\<close>

datatype ColumnValues =
    CV_I64 "int option list"
  | CV_U64 "nat option list"
  | CV_F64 "f64 option list"
  | CV_Bool "bool option list"
  | CV_String "string option list"

fun stats_of :: "Statistics \<Rightarrow> ColumnValues \<Rightarrow> bool" where
  "stats_of (Statistics_I64 s) (CV_I64 xs) = summarises ord_total (\<lambda>x. x) s xs"
| "stats_of (Statistics_U64 s) (CV_U64 xs) = summarises ord_total (\<lambda>x. x) s xs"
| "stats_of (Statistics_F64 s) (CV_F64 xs) = summarises ord_f64 f64_key s xs"
| "stats_of (Statistics_Bool s) (CV_Bool xs) = summarises ord_total (\<lambda>x. x) s xs"
| "stats_of (Statistics_String s) (CV_String xs) = summarises ord_total (\<lambda>x. x) s xs"
| "stats_of _ _ = False"

fun cv_length :: "ColumnValues \<Rightarrow> nat" where
  "cv_length (CV_I64 xs) = length xs"
| "cv_length (CV_U64 xs) = length xs"
| "cv_length (CV_F64 xs) = length xs"
| "cv_length (CV_Bool xs) = length xs"
| "cv_length (CV_String xs) = length xs"

fun cv_pad :: "nat \<Rightarrow> ColumnValues \<Rightarrow> ColumnValues" where
  "cv_pad n (CV_I64 xs) = CV_I64 (xs @ replicate n None)"
| "cv_pad n (CV_U64 xs) = CV_U64 (xs @ replicate n None)"
| "cv_pad n (CV_F64 xs) = CV_F64 (xs @ replicate n None)"
| "cv_pad n (CV_Bool xs) = CV_Bool (xs @ replicate n None)"
| "cv_pad n (CV_String xs) = CV_String (xs @ replicate n None)"

fun cv_append :: "ColumnValues \<Rightarrow> ColumnValues \<Rightarrow> ColumnValues option" where
  "cv_append (CV_I64 xs) (CV_I64 ys) = Some (CV_I64 (xs @ ys))"
| "cv_append (CV_U64 xs) (CV_U64 ys) = Some (CV_U64 (xs @ ys))"
| "cv_append (CV_F64 xs) (CV_F64 ys) = Some (CV_F64 (xs @ ys))"
| "cv_append (CV_Bool xs) (CV_Bool ys) = Some (CV_Bool (xs @ ys))"
| "cv_append (CV_String xs) (CV_String ys) = Some (CV_String (xs @ ys))"
| "cv_append _ _ = None"

lemma stats_of_length: "stats_of s v \<Longrightarrow> Statistics_total_count s = cv_length v"
  by (cases "(s, v)" rule: stats_of.cases) (auto simp: summarises_def)

lemma stats_of_pad: "stats_of s v \<Longrightarrow> stats_of (Statistics_update_for_nulls n s) (cv_pad n v)"
  by (cases "(s, v)" rule: stats_of.cases) (auto intro: update_for_nulls_summarises)

lemma nulls_le: "nulls xs \<le> length xs"
  by (simp add: nulls_def)

lemma stats_of_checked: "stats_of s v \<Longrightarrow> cv_length v < 2 ^ 64 \<Longrightarrow> Statistics_checked s = Ok s"
  by (cases "(s, v)" rule: stats_of.cases) (auto simp: Statistics_checked_def summarises_def intro: le_less_trans [OF nulls_le])

text \<open>Updating statistics is appending rows; it panics exactly when the types differ.\<close>

lemma Statistics_update_from_cases:
  assumes "stats_of s v" and "stats_of s' v'"
  shows "case cv_append v v' of
      Some w \<Rightarrow> \<exists>s''. Statistics_update_from s' s = (Ok s'' :: ('e, Statistics) res) \<and> stats_of s'' w
    | None \<Rightarrow> Statistics_update_from s' s = (Panic :: ('e, Statistics) res)"
  using assms
  by (cases "(s, v)" rule: stats_of.cases; cases "(s', v')" rule: stats_of.cases)
    (auto intro: total.update_from_summarises f64.update_from_summarises)

text \<open>
  A table summary describes a table of \<open>n\<close> rows: a map from column names to rows.  A table without
  columns has no rows, because the code takes the row count from the first column.
\<close>

definition table_summarises :: "TableSummary \<Rightarrow> nat \<Rightarrow> (string \<rightharpoonup> ColumnValues) \<Rightarrow> bool" where
  "table_summarises t n T \<longleftrightarrow>
     distinct (map csm_name (tsm_columns t)) \<and> dom T = csm_name ` set (tsm_columns t)
     \<and> (\<forall>c\<in>set (tsm_columns t). \<exists>v. T (csm_name c) = Some v \<and> stats_of (csm_stats c) v \<and> cv_length v = n)
     \<and> (tsm_columns t = [] \<longrightarrow> n = 0)"

text \<open>The union of two tables: rows of common columns are appended, the others padded with nulls.\<close>

definition table_union ::
    "nat \<Rightarrow> (string \<rightharpoonup> ColumnValues) \<Rightarrow> nat \<Rightarrow> (string \<rightharpoonup> ColumnValues) \<Rightarrow> string \<rightharpoonup> ColumnValues" where
  "table_union n A m B = (\<lambda>k. case (A k, B k) of
       (Some v, Some w) \<Rightarrow> cv_append v w
     | (Some v, None) \<Rightarrow> Some (cv_pad m v)
     | (None, Some w) \<Rightarrow> Some (cv_pad n w)
     | (None, None) \<Rightarrow> None)"

definition same_types :: "(string \<rightharpoonup> ColumnValues) \<Rightarrow> (string \<rightharpoonup> ColumnValues) \<Rightarrow> bool" where
  "same_types A B \<longleftrightarrow> (\<forall>k v w. A k = Some v \<longrightarrow> B k = Some w \<longrightarrow> cv_append v w \<noteq> None)"

lemma cv_length_pad [simp]: "cv_length (cv_pad n v) = cv_length v + n"
  by (cases v) simp_all

lemma cv_length_append: "cv_append v w = Some x \<Longrightarrow> cv_length x = cv_length v + cv_length w"
  by (cases "(v, w)" rule: cv_append.cases) auto

lemma TableSummary_total_count_eq:
  "table_summarises t n T \<Longrightarrow> TableSummary_total_count t = n"
  by (auto simp: table_summarises_def TableSummary_total_count_def ColumnSummary_total_count_def
      stats_of_length split: list.splits)

lemma TableSummary_column_Some:
  assumes "table_summarises t n T" and "T k = Some v"
  shows "\<exists>c\<in>set (tsm_columns t). TableSummary_column t k = Some c \<and> csm_name c = k \<and> stats_of (csm_stats c) v \<and> cv_length v = n"
proof -
  have "k \<in> csm_name ` set (tsm_columns t)" using assms by (auto simp: table_summarises_def)
  then obtain c where c: "c \<in> set (tsm_columns t)" "csm_name c = k" by auto
  then have "find (\<lambda>c. csm_name c = k) (tsm_columns t) = Some c"
    using assms(1) by (intro find_unique [where f = csm_name]) (auto simp: table_summarises_def)
  with c assms show ?thesis by (auto simp: TableSummary_column_def table_summarises_def)
qed

lemma TableSummary_column_None:
  assumes "table_summarises t n T"
  shows "T k = None \<longleftrightarrow> TableSummary_column t k = None"
proof -
  have "T k = None \<longleftrightarrow> k \<notin> csm_name ` set (tsm_columns t)"
    using assms by (metis domIff table_summarises_def)
  then show ?thesis by (auto simp: TableSummary_column_def find_None_iff)
qed

text \<open>What every column of the merged summary has to satisfy.\<close>

definition column_ok :: "nat \<Rightarrow> (string \<rightharpoonup> ColumnValues) \<Rightarrow> ColumnSummary \<Rightarrow> bool" where
  "column_ok n T c \<longleftrightarrow> (\<exists>v. T (csm_name c) = Some v \<and> stats_of (csm_stats c) v \<and> cv_length v = n)"

lemma update_to_total_count_Ok:
  assumes "stats_of (csm_stats c) v" and "cv_length v = n" and "n + m < 2 ^ 64"
  shows "\<exists>c'. ColumnSummary_update_to_total_count (n + m) c = (Ok c' :: ('e, ColumnSummary) res) \<and> csm_name c' = csm_name c
    \<and> stats_of (csm_stats c') (cv_pad m v)"
  using assms stats_of_length [OF assms(1)] stats_of_pad [OF assms(1), of m]
  by (auto simp: ColumnSummary_update_to_total_count_def ColumnSummary_total_count_def stats_of_checked)

lemma update_existing_column:
  assumes b: "table_summarises b m B" and c: "column_ok n A c" and small: "n + m < 2 ^ 64"
  shows "case B (csm_name c) of
      Some w \<Rightarrow>
        (if cv_append (the (A (csm_name c))) w = None
         then (case TableSummary_column b (csm_name c) of
                 Some other_col \<Rightarrow> ColumnSummary_update_from other_col c
               | None \<Rightarrow> ColumnSummary_update_to_total_count (n + m) c) = (Panic :: ('e, ColumnSummary) res)
         else \<exists>c'. (case TableSummary_column b (csm_name c) of
                 Some other_col \<Rightarrow> ColumnSummary_update_from other_col c
               | None \<Rightarrow> ColumnSummary_update_to_total_count (n + m) c) = (Ok c' :: ('e, ColumnSummary) res)
               \<and> csm_name c' = csm_name c \<and> column_ok (n + m) (table_union n A m B) c')
    | None \<Rightarrow> \<exists>c'. (case TableSummary_column b (csm_name c) of
                 Some other_col \<Rightarrow> ColumnSummary_update_from other_col c
               | None \<Rightarrow> ColumnSummary_update_to_total_count (n + m) c) = (Ok c' :: ('e, ColumnSummary) res)
               \<and> csm_name c' = csm_name c \<and> column_ok (n + m) (table_union n A m B) c'"
proof -
  from c obtain v where v: "A (csm_name c) = Some v" "stats_of (csm_stats c) v" "cv_length v = n"
    by (auto simp: column_ok_def)
  show ?thesis
  proof (cases "B (csm_name c)")
    case None
    with TableSummary_column_None [OF b] have "TableSummary_column b (csm_name c) = None" by simp
    with update_to_total_count_Ok [OF v(2,3) small] v None show ?thesis
      by (auto simp: column_ok_def table_union_def)
  next
    case (Some w)
    from TableSummary_column_Some [OF b Some] obtain d where
      d: "TableSummary_column b (csm_name c) = Some d" "stats_of (csm_stats d) w" "cv_length w = m" by auto
    note upd = Statistics_update_from_cases [OF v(2) d(2), where 'e = 'e]
    show ?thesis
    proof (cases "cv_append v w")
      case None
      with upd d v Some show ?thesis by (simp add: ColumnSummary_update_from_def)
    next
      case (Some x)
      with upd obtain s where s: "Statistics_update_from (csm_stats d) (csm_stats c) = (Ok s :: ('e, Statistics) res)" "stats_of s x"
        by auto
      have "column_ok (n + m) (table_union n A m B) (c\<lparr>csm_stats := s\<rparr>)"
        using s d v Some \<open>B _ = Some w\<close> by (simp add: column_ok_def table_union_def cv_length_append)
      moreover have "cv_length x < 2 ^ 64" using small by (simp add: cv_length_append [OF Some] v(3) d(3))
      with s(2) have "Statistics_checked s = (Ok s :: ('e, Statistics) res)" by (rule stats_of_checked)
      ultimately show ?thesis using s d v Some \<open>B _ = Some w\<close> by (simp add: ColumnSummary_update_from_def)
    qed
  qed
qed

lemma update_existing_columns_Ok:
  assumes b: "table_summarises b m B" and "\<forall>c\<in>set cols. column_ok n A c" and small: "n + m < 2 ^ 64"
  shows "if \<forall>c\<in>set cols. \<forall>w. B (csm_name c) = Some w \<longrightarrow> cv_append (the (A (csm_name c))) w \<noteq> None
    then \<exists>cs. update_existing_columns b (n + m) cols = (Ok cs :: ('e, ColumnSummary list) res)
           \<and> map csm_name cs = map csm_name cols
           \<and> (\<forall>c\<in>set cs. column_ok (n + m) (table_union n A m B) c)
    else update_existing_columns b (n + m) cols = (Panic :: ('e, ColumnSummary list) res)"
  using assms(2)
proof (induction cols)
  case (Cons c cols)
  have c: "column_ok n A c" and cols: "\<forall>c\<in>set cols. column_ok n A c" using Cons.prems by simp_all
  note IH = Cons.IH [OF cols]
  note step = update_existing_column [OF b c small, where 'e = 'e]
  show ?case
  proof (cases "\<exists>w. B (csm_name c) = Some w \<and> cv_append (the (A (csm_name c))) w = None")
    case True
    with step show ?thesis by (auto split: if_splits)
  next
    case False
    then obtain c' where c': "(case TableSummary_column b (csm_name c) of
          Some other_col \<Rightarrow> ColumnSummary_update_from other_col c
        | None \<Rightarrow> ColumnSummary_update_to_total_count (n + m) c) = (Ok c' :: ('e, ColumnSummary) res)"
        "csm_name c' = csm_name c" "column_ok (n + m) (table_union n A m B) c'"
      using step by (auto split: option.splits)
    from IH c' False show ?thesis by (auto split: if_splits)
  qed
qed simp

lemma add_new_columns_Ok:
  assumes "\<forall>c\<in>set cols. column_ok m B c" and "distinct (map csm_name cols)"
    and "distinct (map csm_name (tsm_columns t))"
    and "\<forall>c\<in>set (tsm_columns t). column_ok (n + m) (table_union n A m B) c"
    and "\<forall>c\<in>set cols. csm_name c \<in> csm_name ` set (tsm_columns t) \<longleftrightarrow> A (csm_name c) \<noteq> None"
    and small: "m + n < 2 ^ 64"
  shows "\<exists>t'. add_new_columns (n + m) cols t = (Ok t' :: ('e, TableSummary) res) \<and> distinct (map csm_name (tsm_columns t'))
    \<and> csm_name ` set (tsm_columns t') = csm_name ` set (tsm_columns t) \<union> csm_name ` set cols
    \<and> (\<forall>c\<in>set (tsm_columns t'). column_ok (n + m) (table_union n A m B) c)"
  using assms(1-5)
proof (induction cols arbitrary: t)
  case (Cons c cols)
  have None_iff: "TableSummary_column t (csm_name c) = None \<longleftrightarrow> csm_name c \<notin> csm_name ` set (tsm_columns t)"
    by (auto simp: TableSummary_column_def find_None_iff image_iff)
  show ?case
  proof (cases "A (csm_name c)")
    case None
    then have fresh: "csm_name c \<notin> csm_name ` set (tsm_columns t)" using Cons.prems(5) by simp
    from Cons.prems(1) obtain w where w: "B (csm_name c) = Some w" "stats_of (csm_stats c) w" "cv_length w = m"
      by (auto simp: column_ok_def)
    from update_to_total_count_Ok [OF w(2,3) small] obtain c' where
      c': "ColumnSummary_update_to_total_count (n + m) c = (Ok c' :: ('e, ColumnSummary) res)" "csm_name c' = csm_name c" "stats_of (csm_stats c') (cv_pad n w)"
      by (auto simp: add.commute)
    let ?t = "TableSummary (tsm_columns t @ [c'])"
    have "column_ok (n + m) (table_union n A m B) c'"
      using w c' None by (simp add: column_ok_def table_union_def)
    then have "\<exists>t'. add_new_columns (n + m) cols ?t = (Ok t' :: ('e, TableSummary) res) \<and> distinct (map csm_name (tsm_columns t'))
      \<and> csm_name ` set (tsm_columns t') = csm_name ` set (tsm_columns ?t) \<union> csm_name ` set cols
      \<and> (\<forall>c\<in>set (tsm_columns t'). column_ok (n + m) (table_union n A m B) c)"
      using Cons.prems fresh c'(2) by (intro Cons.IH) (auto simp: image_iff)
    then show ?thesis using c' fresh None_iff by auto
  next
    case (Some v)
    then have seen: "csm_name c \<in> csm_name ` set (tsm_columns t)" using Cons.prems(5) by simp
    have "\<exists>t'. add_new_columns (n + m) cols t = (Ok t' :: ('e, TableSummary) res) \<and> distinct (map csm_name (tsm_columns t'))
      \<and> csm_name ` set (tsm_columns t') = csm_name ` set (tsm_columns t) \<union> csm_name ` set cols
      \<and> (\<forall>c\<in>set (tsm_columns t'). column_ok (n + m) (table_union n A m B) c)"
      using Cons.prems by (intro Cons.IH) auto
    then show ?thesis using seen None_iff by auto
  qed
qed auto

text \<open>
  Summaries whose common columns have the same types; with another type of a common column the code
  panics, although its comment says that nothing is updated.
\<close>

lemma same_types_columns:
  assumes "table_summarises a n A"
  shows "same_types A B \<longleftrightarrow>
    (\<forall>c\<in>set (tsm_columns a). \<forall>w. B (csm_name c) = Some w \<longrightarrow> cv_append (the (A (csm_name c))) w \<noteq> None)"
proof
  assume "same_types A B"
  then show "\<forall>c\<in>set (tsm_columns a). \<forall>w. B (csm_name c) = Some w \<longrightarrow> cv_append (the (A (csm_name c))) w \<noteq> None"
    using assms by (fastforce simp: same_types_def table_summarises_def)
next
  assume *: "\<forall>c\<in>set (tsm_columns a). \<forall>w. B (csm_name c) = Some w \<longrightarrow> cv_append (the (A (csm_name c))) w \<noteq> None"
  have domA: "dom A = csm_name ` set (tsm_columns a)" using assms by (simp add: table_summarises_def)
  show "same_types A B"
    unfolding same_types_def
  proof (intro allI impI)
    fix k v w assume k: "A k = Some v" "B k = Some w"
    then have "k \<in> csm_name ` set (tsm_columns a)" using domA by blast
    with * k show "cv_append v w \<noteq> None" by auto
  qed
qed

lemma update_from_type_conflict:
  assumes a: "table_summarises a n A" and b: "table_summarises b m B" and "n + m < 2 ^ 64" and "\<not> same_types A B"
  shows "TableSummary_update_from b a = (Panic :: ('e, TableSummary) res)"
proof -
  have "\<forall>c\<in>set (tsm_columns a). column_ok n A c" using a by (simp add: table_summarises_def column_ok_def)
  note upd = update_existing_columns_Ok [OF b this assms(3), where 'e = 'e, folded same_types_columns [OF a]]
  have "TableSummary_total_count a + TableSummary_total_count b = n + m"
    using TableSummary_total_count_eq a b by simp
  then show ?thesis using upd assms(3,4) by (simp add: TableSummary_update_from_def Let_def)
qed

text \<open>
  C28. Merging two table summaries describes the union of the two tables, for tables whose common
  columns have the same types: the merged summary has the columns of both, each with the statistics of
  all its rows, missing ones counted as nulls; and when the number of rows is no \<open>u64\<close> the merge panics.
\<close>

theorem TableSummary_update_from_correct:
  assumes a: "table_summarises a n A" and b: "table_summarises b m B" and types: "same_types A B"
  shows "if n + m < 2 ^ 64
    then \<exists>c. TableSummary_update_from b a = (Ok c :: ('e, TableSummary) res)
            \<and> table_summarises c (n + m) (table_union n A m B)
    else TableSummary_update_from b a = (Panic :: ('e, TableSummary) res)"
proof -
  have total: "TableSummary_total_count a + TableSummary_total_count b = n + m"
    using TableSummary_total_count_eq a b by simp
  have ok: "\<forall>c\<in>set (tsm_columns a). column_ok n A c" "\<forall>c\<in>set (tsm_columns b). column_ok m B c"
    using a b by (simp_all add: table_summarises_def column_ok_def)
  have domA: "dom A = csm_name ` set (tsm_columns a)" and domB: "dom B = csm_name ` set (tsm_columns b)"
    using a b by (simp_all add: table_summarises_def)
  show ?thesis
  proof (cases "n + m < 2 ^ 64")
    case True
    from update_existing_columns_Ok [OF b ok(1) True, where 'e = 'e, folded same_types_columns [OF a]] types obtain cs where cs: "update_existing_columns b (n + m) (tsm_columns a) = (Ok cs :: ('e, ColumnSummary list) res)"
      "map csm_name cs = map csm_name (tsm_columns a)" "\<forall>c\<in>set cs. column_ok (n + m) (table_union n A m B) c"
      by auto
    have names: "csm_name ` set cs = dom A" using cs(2) domA by (metis list.set_map)
    have "\<exists>t'. add_new_columns (n + m) (tsm_columns b) (TableSummary cs) = (Ok t' :: ('e, TableSummary) res)
        \<and> distinct (map csm_name (tsm_columns t'))
        \<and> csm_name ` set (tsm_columns t') = csm_name ` set (tsm_columns (TableSummary cs)) \<union> csm_name ` set (tsm_columns b)
        \<and> (\<forall>c\<in>set (tsm_columns t'). column_ok (n + m) (table_union n A m B) c)"
      using ok(2) a b cs True by (intro add_new_columns_Ok) (auto simp: table_summarises_def names)
    then obtain t' where t': "add_new_columns (n + m) (tsm_columns b) (TableSummary cs) = (Ok t' :: ('e, TableSummary) res)"
        "distinct (map csm_name (tsm_columns t'))" "csm_name ` set (tsm_columns t') = dom A \<union> dom B"
        "\<forall>c\<in>set (tsm_columns t'). column_ok (n + m) (table_union n A m B) c"
      using names domB by auto
    have "dom (table_union n A m B) = dom A \<union> dom B"
      using types by (auto simp: table_union_def same_types_def dom_def split: option.splits)
    moreover have "tsm_columns t' = [] \<longrightarrow> n + m = 0"
      using t'(3) domA domB a b by (auto simp: table_summarises_def)
    ultimately have "table_summarises t' (n + m) (table_union n A m B)"
      using t'(2,3,4) by (auto simp: table_summarises_def column_ok_def)
    with t'(1) cs(1) True total show ?thesis by (simp add: TableSummary_update_from_def Let_def)
  qed (use total in \<open>simp add: TableSummary_update_from_def Let_def\<close>)
qed

definition one_row :: "int \<Rightarrow> int StatValues" where
  "one_row x = StatValues_update ord_total x StatValues_new_empty"

definition sample_summary :: "string \<Rightarrow> int \<Rightarrow> TableSummary" where
  "sample_summary name x =
     TableSummary [\<lparr>csm_name = name, csm_influxdb_type = None, csm_stats = Statistics_I64 (one_row x)\<rparr>]"

lemma sample_summary_summarises: "table_summarises (sample_summary name x) 1 [name \<mapsto> CV_I64 [Some x]]"
  using total.update_summarises [OF new_empty_summarises, of x]
  by (simp add: table_summarises_def sample_summary_def one_row_def)

theorem TableSummary_update_from_correct_witness:
  "\<exists>c. TableSummary_update_from (sample_summary ''b'' 2) (sample_summary ''a'' 1) = (Ok c :: (unit, TableSummary) res)
     \<and> table_summarises c (1 + 1) [''a'' \<mapsto> CV_I64 [Some 1, None], ''b'' \<mapsto> CV_I64 [Some 2, None]]"
proof -
  let ?A = "[''a'' \<mapsto> CV_I64 [Some 1]]" and ?B = "[''b'' \<mapsto> CV_I64 [Some 2]]"
  have "same_types ?A ?B" by (simp add: same_types_def)
  moreover have "table_union 1 ?A 1 ?B = [''a'' \<mapsto> CV_I64 [Some 1, None], ''b'' \<mapsto> CV_I64 [Some 2, None]]"
    by (auto simp: table_union_def fun_eq_iff)
  ultimately show ?thesis
    using TableSummary_update_from_correct [OF sample_summary_summarises [of "''a''" 1] sample_summary_summarises [of "''b''" 2], where 'e = unit]
    by simp
qed

text \<open>
  Pruning by statistics is sound for floats, NaN and signed zero included: if two columns have a
  value in common, the overlap of their statistics is never reported as \<open>Zero\<close> or \<open>Unknown\<close>.
\<close>

lemma StatValues_overlaps_sound:
  assumes "summarises ord_f64 f64_key s xs" and "summarises ord_f64 f64_key s' ys"
    and "Some x \<in> set xs" and "Some y \<in> set ys" and "f64_le x y" and "f64_le y x"
  shows "StatValues_overlaps ord_f64 s s' = StatOverlap_NonZero"
proof (rule f64.overlaps_sound [OF assms(1,2)])
  show "x \<in> set (known ord_f64 xs)" "y \<in> set (known ord_f64 ys)" "f64_key x = f64_key y"
    using assms(3-6) by (force simp: known_def ord_f64_def f64_le_def)+
qed

end
