(* ===== verification/Bit_Set.thy ===== *)
theory Bit_Set
  imports Iox_Prelude
begin

text \<open>
  The Arrow-compatible bit set of \<open>src/arrow_util/src/bitset.rs\<close>: a vector of bytes, least
  significant bit first, with a length in bits.  \<open>usize\<close> is a natural number, a byte an 8-bit word.
  Operations that can panic (an assertion, an index, \<open>last_mut().unwrap()\<close>) return \<open>None\<close> then.
\<close>

unbundle bit_operations_syntax

section \<open>The type and its operations\<close>

type_synonym byte = "8 word"

record BitSet =
  bs_buffer :: "byte list"
  bs_len :: nat

text \<open>\<open>(n + 7) >> 3\<close>, the bytes that \<open>n\<close> bits need.\<close>

abbreviation bytes_for :: "nat \<Rightarrow> nat" where
  "bytes_for n \<equiv> (n + 7) div 8"

text \<open>\<open>Vec::resize\<close> and a change of the last element.\<close>

definition vec_resize :: "nat \<Rightarrow> 'a \<Rightarrow> 'a list \<Rightarrow> 'a list" where
  "vec_resize n x xs = (if n \<le> length xs then take n xs else xs @ replicate (n - length xs) x)"

definition update_last :: "('a \<Rightarrow> 'a) \<Rightarrow> 'a list \<Rightarrow> 'a list option" where
  "update_last f xs = (if xs = [] then None else Some (butlast xs @ [f (last xs)]))"

text \<open>\<open>(1 << n) - 1\<close> on a byte.\<close>

definition low_mask :: "nat \<Rightarrow> byte" where
  "low_mask n = push_bit n 1 - 1"

definition BitSet_new :: BitSet where
  "BitSet_new = \<lparr>bs_buffer = [], bs_len = 0\<rparr>"

definition BitSet_append_unset :: "nat \<Rightarrow> BitSet \<Rightarrow> BitSet" where
  "BitSet_append_unset cnt b =
     (let len = bs_len b + cnt
      in \<lparr>bs_buffer = vec_resize (bytes_for len) 0 (bs_buffer b), bs_len = len\<rparr>)"

definition BitSet_with_size :: "nat \<Rightarrow> BitSet" where
  "BitSet_with_size cnt = BitSet_append_unset cnt BitSet_new"

definition BitSet_append_set :: "nat \<Rightarrow> BitSet \<Rightarrow> BitSet option" where
  "BitSet_append_set cnt b =
     (let new_len = bs_len b + cnt; skew = bs_len b mod 8; rem = new_len mod 8
      in Option.bind (if skew \<noteq> 0 then update_last (\<lambda>x. x OR push_bit skew 0xFF) (bs_buffer b)
                      else Some (bs_buffer b)) (\<lambda>buffer.
         let buffer = vec_resize (bytes_for new_len) 0xFF buffer
         in map_option (\<lambda>buffer. \<lparr>bs_buffer = buffer, bs_len = new_len\<rparr>)
              (if rem \<noteq> 0 then update_last (\<lambda>x. x AND low_mask rem) buffer else Some buffer)))"

definition BitSet_truncate :: "nat \<Rightarrow> BitSet \<Rightarrow> BitSet option" where
  "BitSet_truncate len b =
     (let buffer = take (bytes_for len) (bs_buffer b); overrun = len mod 8
      in map_option (\<lambda>buffer. \<lparr>bs_buffer = buffer, bs_len = len\<rparr>)
           (if overrun > 0 then update_last (\<lambda>x. x AND low_mask overrun) buffer else Some buffer))"

text \<open>The bytes of an unaligned append: the low part goes into the last byte, the high part is pushed.\<close>

fun append_whole_bytes :: "nat \<Rightarrow> byte list \<Rightarrow> byte list \<Rightarrow> byte list option" where
  "append_whole_bytes skew [] buffer = Some buffer"
| "append_whole_bytes skew (x # xs) buffer =
     Option.bind (update_last (\<lambda>y. y OR push_bit skew x) buffer)
       (\<lambda>buffer. append_whole_bytes skew xs (buffer @ [drop_bit (8 - skew) x]))"

definition BitSet_append_bits :: "nat \<Rightarrow> byte list \<Rightarrow> BitSet \<Rightarrow> BitSet option" where
  "BitSet_append_bits cnt to_set b =
     (if bytes_for cnt \<noteq> length to_set then None
      else
        (let new_len = bs_len b + cnt; new_buf_len = bytes_for new_len;
             whole_bytes = cnt div 8; overrun = cnt mod 8; skew = bs_len b mod 8
         in if new_buf_len < length (bs_buffer b) then None
            else if skew = 0
            then
              (let buffer = bs_buffer b @ take whole_bytes to_set;
                   buffer = (if overrun > 0 then buffer @ [to_set ! whole_bytes AND low_mask overrun]
                             else buffer)
               in Some \<lparr>bs_buffer = buffer, bs_len = new_len\<rparr>)
            else
              Option.bind (append_whole_bytes skew (take whole_bytes to_set) (bs_buffer b)) (\<lambda>buffer.
                map_option (\<lambda>buffer. \<lparr>bs_buffer = buffer, bs_len = new_len\<rparr>)
                  (if overrun > 0
                   then
                     (let masked = to_set ! whole_bytes AND low_mask overrun
                      in map_option (\<lambda>buffer.
                           if overrun > 8 - skew then buffer @ [drop_bit (8 - skew) masked] else buffer)
                           (update_last (\<lambda>y. y OR push_bit skew masked) buffer))
                   else Some buffer))))"

definition BitSet_extend_from :: "BitSet \<Rightarrow> BitSet \<Rightarrow> BitSet option" where
  "BitSet_extend_from other b = BitSet_append_bits (bs_len other) (bs_buffer other) b"

text \<open>\<open>&xs[i..j]\<close>, a panic when it is out of range.\<close>

definition slice :: "nat \<Rightarrow> nat \<Rightarrow> 'a list \<Rightarrow> 'a list option" where
  "slice i j xs = (if i \<le> j \<and> j \<le> length xs then Some (take (j - i) (drop i xs)) else None)"

definition BitSet_extend_from_range :: "BitSet \<Rightarrow> nat \<Rightarrow> nat \<Rightarrow> BitSet \<Rightarrow> BitSet option" where
  "BitSet_extend_from_range other start end' b =
     (if end' < start then None
      else
        (let cnt = end' - start
         in if cnt = 0 then Some b
            else
              (let start_byte = start div 8; end_byte = bytes_for end'; skew = start mod 8
               in if skew = 0
                  then Option.bind (slice start_byte end_byte (bs_buffer other))
                         (\<lambda>bytes. BitSet_append_bits cnt bytes b)
                  else if start_byte + 1 = end_byte
                  then (if start_byte < length (bs_buffer other)
                        then BitSet_append_bits cnt [drop_bit skew (bs_buffer other ! start_byte)] b
                        else None)
                  else
                    (let offset = 8 - skew
                     in if start_byte < length (bs_buffer other)
                        then Option.bind
                               (BitSet_append_bits offset [drop_bit skew (bs_buffer other ! start_byte)] b)
                               (\<lambda>b. Option.bind (slice (start_byte + 1) end_byte (bs_buffer other))
                                      (\<lambda>bytes. BitSet_append_bits (cnt - offset) bytes b))
                        else None))))"

definition BitSet_set :: "nat \<Rightarrow> BitSet \<Rightarrow> BitSet option" where
  "BitSet_set idx b =
     (if \<not> idx \<le> bs_len b then None
      else
        (let byte_idx = idx div 8; bit_idx = idx mod 8
         in if byte_idx < length (bs_buffer b)
            then Some (b\<lparr>bs_buffer := (bs_buffer b)
              [byte_idx := bs_buffer b ! byte_idx OR push_bit bit_idx 1]\<rparr>)
            else None))"

definition BitSet_get :: "BitSet \<Rightarrow> nat \<Rightarrow> bool option" where
  "BitSet_get b idx =
     (if \<not> idx \<le> bs_len b then None
      else
        (let byte_idx = idx div 8; bit_idx = idx mod 8
         in if byte_idx < length (bs_buffer b)
            then Some (drop_bit bit_idx (bs_buffer b ! byte_idx) AND 1 \<noteq> 0)
            else None))"

definition BitSet_is_empty :: "BitSet \<Rightarrow> bool" where
  "BitSet_is_empty b \<longleftrightarrow> bs_len b = 0"

definition BitSet_byte_len :: "BitSet \<Rightarrow> nat" where
  "BitSet_byte_len b = length (bs_buffer b)"

definition BitSet_is_all_set :: "BitSet \<Rightarrow> bool option" where
  "BitSet_is_all_set b =
     (if bs_len b = 0 then Some False
      else
        (let full_blocks = bs_len b div 8 - 1
         in if \<not> (\<forall>v\<in>set (take full_blocks (bs_buffer b)). v = 0xFF) then Some False
            else
              (let mask = (if bs_len b mod 8 = 0 then 0xFF else NOT (push_bit (bs_len b mod 8) 0xFF))
               in if bs_buffer b = [] then None else Some (last (bs_buffer b) = mask))))"

definition BitSet_is_all_unset :: "BitSet \<Rightarrow> bool" where
  "BitSet_is_all_unset b \<longleftrightarrow> (\<forall>v\<in>set (bs_buffer b). v = 0)"

text \<open>
  \<open>iter_set_positions_with_offset\<close>: the iterator keeps the bits that are left of the current byte,
  takes the lowest one and clears it.  The positions of one byte are collected by counting down the
  bits that are left.
\<close>

definition trailing_zeros :: "byte \<Rightarrow> nat" where
  "trailing_zeros x = (case find (bit x) [0..<8] of Some i \<Rightarrow> i | None \<Rightarrow> 8)"

function byte_positions :: "nat \<Rightarrow> byte \<Rightarrow> nat list" where
  "byte_positions byte_idx in_progress =
     (if in_progress = 0 then []
      else
        (let bit_pos = trailing_zeros in_progress
         in (8 * byte_idx + bit_pos)
              # byte_positions byte_idx (in_progress XOR push_bit bit_pos 1)))"
  by pat_completeness auto

lemma finite_bits: "finite {i. bit (x :: byte) i}"
  by (rule finite_subset [of _ "{..<8}"]) (auto dest: bit_imp_le_length)

lemma trailing_zeros_bit: "x \<noteq> 0 \<Longrightarrow> bit x (trailing_zeros x) \<and> trailing_zeros x < 8"
proof -
  assume "x \<noteq> 0"
  then obtain i where i: "bit x i" by (metis bit_eqI bit_0_eq bot_apply bot_bool_def)
  then have "i \<in> set [0..<8]" using bit_imp_le_length by fastforce
  with i obtain j where "find (bit x) [0..<8] = Some j" by (cases "find (bit x) [0..<8]") (auto simp: find_None_iff)
  then show ?thesis by (auto simp: trailing_zeros_def dest: find_SomeD)
qed

lemma bit_clear [simp]: "bit (x XOR 2 ^ i :: byte) j \<longleftrightarrow> (if j = i \<and> i < 8 then \<not> bit x j else bit x j)"
  by (auto simp: bit_simps dest: bit_imp_le_length)

termination byte_positions
proof (relation "measure (\<lambda>(_, x). card {i. bit x i})", goal_cases)
  case (2 byte_idx x bit_pos)
  then have b: "bit x (trailing_zeros x)" "trailing_zeros x < 8" using trailing_zeros_bit by auto
  have "Collect (bit (x XOR 2 ^ trailing_zeros x)) = Collect (bit x) - {trailing_zeros x}"
    using b by (auto split: if_splits)
  moreover have "card (Collect (bit x) - {trailing_zeros x}) < card (Collect (bit x))"
    using b finite_bits by (intro card_Diff1_less) auto
  ultimately show ?case using 2 by simp
qed simp

declare byte_positions.simps [simp del]

text \<open>All positions from byte \<open>byte_idx\<close> on, when \<open>in_progress\<close> is what is left of that byte.\<close>

fun positions_from :: "nat \<Rightarrow> byte \<Rightarrow> byte list \<Rightarrow> nat list" where
  "positions_from byte_idx in_progress [] = byte_positions byte_idx in_progress"
| "positions_from byte_idx in_progress (x # xs) =
     byte_positions byte_idx in_progress @ positions_from (byte_idx + 1) x xs"

definition iter_set_positions_with_offset :: "byte list \<Rightarrow> nat \<Rightarrow> nat list" where
  "iter_set_positions_with_offset bytes offset =
     (let byte_idx = offset div 8;
          in_progress = (if byte_idx < length bytes then bytes ! byte_idx else 0);
          skew = offset mod 8
      in positions_from byte_idx (in_progress AND push_bit skew 0xFF) (drop (byte_idx + 1) bytes))"

definition iter_set_positions :: "byte list \<Rightarrow> nat list" where
  "iter_set_positions bytes = iter_set_positions_with_offset bytes 0"

end
