(* ===== verification/Packed_Strings.thy ===== *)
theory Packed_Strings
  imports Bit_Set
begin

text \<open>
  Packed strings and string dictionaries: \<open>PackedStringArray\<close> of \<open>src/arrow_util/src/string.rs\<close> and
  \<open>StringDictionary\<close> of \<open>src/arrow_util/src/dictionary.rs\<close>, with the key type \<open>i32\<close> that the write
  path uses.  A string is the list of its UTF-8 bytes.  An operation that panics returns \<open>None\<close>: an
  offset that does not fit into \<open>i32\<close>, a slice out of range, an arithmetic overflow.
\<close>

section \<open>Packed strings\<close>

record PackedStringArray =
  psa_offsets :: "nat list"
  psa_storage :: string

definition i32_max :: nat where "i32_max = 2 ^ 31 - 1"

text \<open>\<open>K::from_usize\<close>\<close>

definition K_from_usize :: "nat \<Rightarrow> nat option" where
  "K_from_usize n = (if n \<le> i32_max then Some n else None)"

definition PackedStringArray_new :: PackedStringArray where
  "PackedStringArray_new = \<lparr>psa_offsets = [0], psa_storage = []\<rparr>"

definition PackedStringArray_new_empty :: "nat \<Rightarrow> PackedStringArray" where
  "PackedStringArray_new_empty len = \<lparr>psa_offsets = replicate (len + 1) 0, psa_storage = []\<rparr>"

definition PackedStringArray_append :: "string \<Rightarrow> PackedStringArray \<Rightarrow> (nat \<times> PackedStringArray) option" where
  "PackedStringArray_append data a =
     (if psa_offsets a = [] then None
      else
        (let id' = length (psa_offsets a) - 1
         in Option.bind (K_from_usize (length (psa_storage a) + length data)) (\<lambda>offset.
              Some (id', \<lparr>psa_offsets = psa_offsets a @ [offset], psa_storage = psa_storage a @ data\<rparr>))))"

definition PackedStringArray_extend_from :: "PackedStringArray \<Rightarrow> PackedStringArray \<Rightarrow> PackedStringArray option" where
  "PackedStringArray_extend_from other a =
     (let offset = length (psa_storage a)
      in Option.bind (those (map (\<lambda>x. K_from_usize (x + offset)) (drop 1 (psa_offsets other)))) (\<lambda>offsets.
           Some \<lparr>psa_offsets = psa_offsets a @ offsets, psa_storage = psa_storage a @ psa_storage other\<rparr>))"

definition PackedStringArray_extend_from_range ::
    "PackedStringArray \<Rightarrow> nat \<Rightarrow> nat \<Rightarrow> PackedStringArray \<Rightarrow> PackedStringArray option" where
  "PackedStringArray_extend_from_range other start end' a =
     (if \<not> start < length (psa_offsets other) \<or> \<not> end' < length (psa_offsets other) then None
      else
        (let first_offset = psa_offsets other ! start; end_offset = psa_offsets other ! end';
             insert_offset = length (psa_storage a)
         in Option.bind (slice first_offset end_offset (psa_storage other)) (\<lambda>bytes.
            Option.bind (slice (start + 1) (end' + 1) (psa_offsets other)) (\<lambda>offs.
            Option.bind (those (map (\<lambda>x. if x < first_offset then None
                                         else K_from_usize (x - first_offset + insert_offset)) offs)) (\<lambda>offsets.
              Some \<lparr>psa_offsets = psa_offsets a @ offsets, psa_storage = psa_storage a @ bytes\<rparr>)))))"

text \<open>\<open>get\<close> returns no string for an index out of range, and panics when the offsets are out of order.\<close>

definition PackedStringArray_get :: "PackedStringArray \<Rightarrow> nat \<Rightarrow> string option option" where
  "PackedStringArray_get a index =
     (if \<not> index < length (psa_offsets a) then Some None
      else if \<not> index + 1 < length (psa_offsets a) then Some None
      else map_option Some (slice (psa_offsets a ! index) (psa_offsets a ! (index + 1)) (psa_storage a)))"

definition PackedStringArray_extend :: "nat \<Rightarrow> PackedStringArray \<Rightarrow> PackedStringArray option" where
  "PackedStringArray_extend len a =
     Option.bind (K_from_usize (length (psa_storage a))) (\<lambda>offset.
       Some (a\<lparr>psa_offsets := vec_resize (length (psa_offsets a) + len) offset (psa_offsets a)\<rparr>))"

definition PackedStringArray_truncate :: "nat \<Rightarrow> PackedStringArray \<Rightarrow> PackedStringArray option" where
  "PackedStringArray_truncate len a =
     (let offsets = take (len + 1) (psa_offsets a)
      in if offsets = [] then None
         else Some \<lparr>psa_offsets = offsets, psa_storage = take (last offsets) (psa_storage a)\<rparr>)"

definition PackedStringArray_clear :: "PackedStringArray \<Rightarrow> PackedStringArray" where
  "PackedStringArray_clear a = \<lparr>psa_offsets = take 1 (psa_offsets a), psa_storage = []\<rparr>"

definition PackedStringArray_len :: "PackedStringArray \<Rightarrow> nat option" where
  "PackedStringArray_len a = (if psa_offsets a = [] then None else Some (length (psa_offsets a) - 1))"

definition PackedStringArray_is_empty :: "PackedStringArray \<Rightarrow> bool" where
  "PackedStringArray_is_empty a \<longleftrightarrow> length (psa_offsets a) = 1"

text \<open>The iterator: \<open>get\<close> at increasing indices until it returns no string.\<close>

function PackedStringIterator_from :: "PackedStringArray \<Rightarrow> nat \<Rightarrow> string list option" where
  "PackedStringIterator_from a index =
     (case PackedStringArray_get a index of
        None \<Rightarrow> None
      | Some None \<Rightarrow> Some []
      | Some (Some item) \<Rightarrow> map_option ((#) item) (PackedStringIterator_from a (index + 1)))"
  by pat_completeness auto

termination PackedStringIterator_from
  by (relation "measure (\<lambda>(a, index). length (psa_offsets a) - index)")
    (auto simp: PackedStringArray_get_def split: if_splits)

declare PackedStringIterator_from.simps [simp del]

definition PackedStringArray_iter :: "PackedStringArray \<Rightarrow> string list option" where
  "PackedStringArray_iter a = PackedStringIterator_from a 0"

section \<open>Dictionaries\<close>

text \<open>
  The hash map \<open>dedup\<close> holds keys; an entry is found by comparing the string of its key, the hash only
  narrows the search.
\<close>

record StringDictionary =
  sd_dedup :: "nat list"
  sd_storage :: PackedStringArray

definition StringDictionary_new :: StringDictionary where
  "StringDictionary_new = \<lparr>sd_dedup = [], sd_storage = PackedStringArray_new\<rparr>"

fun dedup_find :: "PackedStringArray \<Rightarrow> string \<Rightarrow> nat list \<Rightarrow> nat option option" where
  "dedup_find storage value [] = Some None"
| "dedup_find storage value (key # keys) =
     (case PackedStringArray_get storage key of
        Some (Some s) \<Rightarrow> (if value = s then Some (Some key) else dedup_find storage value keys)
      | _ \<Rightarrow> None)"

definition StringDictionary_lookup_value_or_insert ::
    "string \<Rightarrow> StringDictionary \<Rightarrow> (nat \<times> StringDictionary) option" where
  "StringDictionary_lookup_value_or_insert value d =
     Option.bind (dedup_find (sd_storage d) value (sd_dedup d)) (\<lambda>entry.
       case entry of
         Some key \<Rightarrow> Some (key, d)
       | None \<Rightarrow>
           Option.bind (PackedStringArray_append value (sd_storage d)) (\<lambda>(index, storage).
           Option.bind (K_from_usize index) (\<lambda>key.
             Some (key, \<lparr>sd_dedup = sd_dedup d @ [key], sd_storage = storage\<rparr>))))"

definition StringDictionary_lookup_value :: "StringDictionary \<Rightarrow> string \<Rightarrow> nat option option" where
  "StringDictionary_lookup_value d value = dedup_find (sd_storage d) value (sd_dedup d)"

text \<open>\<open>K::as_()\<close>: an \<open>i32\<close> cast to \<open>usize\<close> is sign-extended, so \<open>-1\<close> is the largest index.\<close>

definition K_as_usize :: "int \<Rightarrow> nat" where
  "K_as_usize k = nat (k mod 2 ^ 64)"

definition StringDictionary_lookup_id :: "StringDictionary \<Rightarrow> int \<Rightarrow> string option option" where
  "StringDictionary_lookup_id d id' = PackedStringArray_get (sd_storage d) (K_as_usize id')"

definition StringDictionary_truncate :: "int \<Rightarrow> StringDictionary \<Rightarrow> StringDictionary option" where
  "StringDictionary_truncate id' d =
     (let id' = K_as_usize id'; dedup = filter (\<lambda>k. k \<le> id') (sd_dedup d)
      in if id' + 1 \<ge> 2 ^ 64 then None
         else map_option (\<lambda>storage. \<lparr>sd_dedup = dedup, sd_storage = storage\<rparr>)
                (PackedStringArray_truncate (id' + 1) (sd_storage d)))"

definition StringDictionary_clear :: "StringDictionary \<Rightarrow> StringDictionary" where
  "StringDictionary_clear d = \<lparr>sd_dedup = [], sd_storage = PackedStringArray_clear (sd_storage d)\<rparr>"

text \<open>\<open>TryFrom<PackedStringArray>\<close>: the error names the first duplicate.\<close>

fun dedup_from :: "PackedStringArray \<Rightarrow> nat \<Rightarrow> string list \<Rightarrow> nat list \<Rightarrow> (string, nat list) res" where
  "dedup_from storage idx [] dedup = Ok dedup"
| "dedup_from storage idx (value # values) dedup =
     (case dedup_find storage value dedup of
        None \<Rightarrow> Panic
      | Some (Some _) \<Rightarrow> Err value
      | Some None \<Rightarrow>
          (case K_from_usize idx of
             None \<Rightarrow> Panic
           | Some key \<Rightarrow> dedup_from storage (idx + 1) values (dedup @ [key])))"

definition StringDictionary_try_from :: "PackedStringArray \<Rightarrow> (string, StringDictionary) res" where
  "StringDictionary_try_from storage =
     (case PackedStringArray_iter storage of
        None \<Rightarrow> Panic
      | Some values \<Rightarrow> res_map (\<lambda>dedup. \<lparr>sd_dedup = dedup, sd_storage = storage\<rparr>) (dedup_from storage 0 values []))"

section \<open>Packed strings are lists of strings\<close>

text \<open>The array that holds given strings: the offsets are the running totals of the lengths.\<close>

definition psa_of :: "string list \<Rightarrow> PackedStringArray" where
  "psa_of xs = \<lparr>psa_offsets = map (\<lambda>i. length (concat (take i xs))) [0..<length xs + 1], psa_storage = concat xs\<rparr>"

abbreviation total_len :: "string list \<Rightarrow> nat" where
  "total_len xs \<equiv> length (concat xs)"

lemma length_offsets [simp]: "length (psa_offsets (psa_of xs)) = length xs + 1"
  by (simp add: psa_of_def)

lemma nth_offsets [simp]: "i \<le> length xs \<Longrightarrow> psa_offsets (psa_of xs) ! i = total_len (take i xs)"
  by (simp add: psa_of_def del: upt_Suc)

lemma storage_of [simp]: "psa_storage (psa_of xs) = concat xs"
  by (simp add: psa_of_def)

lemma offsets_nonempty [simp]: "psa_offsets (psa_of xs) \<noteq> []"
  by (simp add: psa_of_def)

lemma psa_eqI:
  assumes "length (psa_offsets a) = length xs + 1"
    and "\<And>i. i \<le> length xs \<Longrightarrow> psa_offsets a ! i = total_len (take i xs)"
    and "psa_storage a = concat xs"
  shows "a = psa_of xs"
proof -
  have "psa_offsets a = psa_offsets (psa_of xs)"
    by (rule nth_equalityI) (use assms(1,2) in \<open>auto simp: less_Suc_eq_le\<close>)
  with assms(3) show ?thesis by (cases a) (simp add: psa_of_def)
qed

lemma new_psa: "PackedStringArray_new = psa_of []"
  by (simp add: PackedStringArray_new_def psa_of_def)

lemma concat_replicate_Nil [simp]: "concat (replicate n []) = []"
  by (induction n) auto

lemma new_empty_psa: "PackedStringArray_new_empty n = psa_of (replicate n [])"
  by (rule psa_eqI) (auto simp: PackedStringArray_new_empty_def nth_append less_Suc_eq_le min_def simp del: replicate_Suc)

lemma append_psa:
  "PackedStringArray_append s (psa_of xs) =
     (if total_len (xs @ [s]) \<le> i32_max then Some (length xs, psa_of (xs @ [s])) else None)"
proof -
  have "\<lparr>psa_offsets = psa_offsets (psa_of xs) @ [total_len xs + length s], psa_storage = concat xs @ s\<rparr> = psa_of (xs @ [s])"
    by (rule psa_eqI) (auto simp: nth_append)
  then show ?thesis by (simp add: PackedStringArray_append_def K_from_usize_def)
qed

lemma those_map_Some: "(\<And>x. x \<in> set xs \<Longrightarrow> f x = Some (g x)) \<Longrightarrow> those (map f xs) = Some (map g xs)"
  by (induction xs) auto

lemma total_len_take_le: "total_len (take i xs) \<le> total_len xs"
  by (metis append_take_drop_id concat_append length_append le_add1)

lemma extend_from_psa:
  assumes "total_len (xs @ ys) \<le> i32_max"
  shows "PackedStringArray_extend_from (psa_of ys) (psa_of xs) = Some (psa_of (xs @ ys))"
proof -
  let ?offs = "drop 1 (psa_offsets (psa_of ys))"
  have "x + total_len xs \<le> i32_max" if "x \<in> set ?offs" for x
  proof -
    from that have "x \<in> set (psa_offsets (psa_of ys))" by (rule in_set_dropD)
    then obtain i where "x = total_len (take i ys)" by (auto simp: psa_of_def simp del: upt_Suc)
    then show ?thesis using assms total_len_take_le [of i ys] by simp
  qed
  then have "those (map (\<lambda>x. K_from_usize (x + total_len xs)) ?offs) = Some (map (\<lambda>x. x + total_len xs) ?offs)"
    by (intro those_map_Some) (simp add: K_from_usize_def)
  moreover have "\<lparr>psa_offsets = psa_offsets (psa_of xs) @ map (\<lambda>x. x + total_len xs) ?offs, psa_storage = concat xs @ concat ys\<rparr> = psa_of (xs @ ys)"
    by (rule psa_eqI) (auto simp: nth_append not_less Suc_diff_Suc Suc_le_eq)
  ultimately show ?thesis by (simp add: PackedStringArray_extend_from_def)
qed

lemma take_concat: "take (total_len (take i xs)) (concat xs) = concat (take i xs)"
  by (metis append_eq_conv_conj append_take_drop_id concat_append)

lemma drop_concat: "drop (total_len (take i xs)) (concat xs) = concat (drop i xs)"
  by (metis append_eq_conv_conj append_take_drop_id concat_append)

lemma slice_concat:
  assumes "i \<le> j"
  shows "slice (total_len (take i xs)) (total_len (take j xs)) (concat xs) = Some (concat (take (j - i) (drop i xs)))"
proof -
  have eq: "take j xs = take i xs @ take (j - i) (drop i xs)" using assms by (metis add.commute le_add_diff_inverse2 take_add)
  have "total_len (take i xs) \<le> total_len (take j xs)" by (simp add: eq)
  moreover have "total_len (take j xs) - total_len (take i xs) = total_len (take (j - i) (drop i xs))"
    by (simp add: eq)
  ultimately show ?thesis
    by (simp only: slice_def total_len_take_le drop_concat take_concat) simp
qed

lemma get_psa: "PackedStringArray_get (psa_of xs) i = Some (if i < length xs then Some (xs ! i) else None)"
proof (cases "i < length xs")
  case True
  then have "take (Suc i - i) (drop i xs) = [xs ! i]" by (simp add: take_Suc hd_drop_conv_nth)
  with True slice_concat [of i "Suc i" xs] show ?thesis by (simp add: PackedStringArray_get_def)
qed (simp add: PackedStringArray_get_def)

lemma extend_from_range_psa:
  assumes "s \<le> e" and "e \<le> length ys" and "total_len (xs @ take (e - s) (drop s ys)) \<le> i32_max"
  shows "PackedStringArray_extend_from_range (psa_of ys) s e (psa_of xs) = Some (psa_of (xs @ take (e - s) (drop s ys)))"
proof -
  let ?zs = "take (e - s) (drop s ys)" and ?offs = "take (e - s) (drop (s + 1) (psa_offsets (psa_of ys)))"
  let ?f = "\<lambda>x. x - total_len (take s ys) + total_len xs"
  have nth: "?offs ! k = total_len (take s ys) + total_len (take (k + 1) ?zs)" if "k < e - s" for k
  proof -
    have "take (s + (k + 1)) ys = take s ys @ take (k + 1) (drop s ys)" by (rule take_add)
    then have "total_len (take (s + (k + 1)) ys) = total_len (take s ys) + total_len (take (k + 1) ?zs)"
      using that by (simp add: min_def)
    then show ?thesis using that assms by (simp add: add.commute)
  qed
  have len: "length ?offs = e - s" using assms by simp
  have "those (map (\<lambda>x. if x < total_len (take s ys) then None else K_from_usize (?f x)) ?offs) = Some (map ?f ?offs)"
  proof (rule those_map_Some)
    fix x assume "x \<in> set ?offs"
    then obtain k where "k < e - s" "x = ?offs ! k" using len by (metis in_set_conv_nth)
    then have x: "x = total_len (take s ys) + total_len (take (k + 1) ?zs)" using nth by simp
    then show "(if x < total_len (take s ys) then None else K_from_usize (?f x)) = Some (?f x)"
      using assms(3) total_len_take_le [of "k + 1" ?zs] by (simp add: K_from_usize_def)
  qed
  moreover have "slice (s + 1) (e + 1) (psa_offsets (psa_of ys)) = Some ?offs"
    using assms by (simp add: slice_def)
  moreover have "\<lparr>psa_offsets = psa_offsets (psa_of xs) @ map ?f ?offs, psa_storage = concat xs @ concat ?zs\<rparr> = psa_of (xs @ ?zs)"
  proof (rule psa_eqI)
    fix i assume i: "i \<le> length (xs @ ?zs)"
    show "psa_offsets \<lparr>psa_offsets = psa_offsets (psa_of xs) @ map ?f ?offs, psa_storage = concat xs @ concat ?zs\<rparr> ! i
        = total_len (take i (xs @ ?zs))"
    proof (cases "i \<le> length xs")
      case False
      then have "i - (length xs + 1) < e - s" using i assms by simp
      with False nth [of "i - (length xs + 1)"] len show ?thesis by (simp add: nth_append Suc_diff_Suc min_def)
    qed (simp add: nth_append)
  qed (use assms len in simp_all)
  ultimately show ?thesis
    using assms slice_concat [OF assms(1), of ys]
    by (simp add: PackedStringArray_extend_from_range_def Let_def)
qed

lemma extend_psa:
  assumes "total_len xs \<le> i32_max"
  shows "PackedStringArray_extend n (psa_of xs) = Some (psa_of (xs @ replicate n []))"
proof -
  have "vec_resize (length xs + 1 + n) (total_len xs) (psa_offsets (psa_of xs)) = psa_offsets (psa_of (xs @ replicate n []))"
    by (rule nth_equalityI) (auto simp: vec_resize_def nth_append less_Suc_eq_le not_less min_def)
  with assms show ?thesis by (simp add: PackedStringArray_extend_def K_from_usize_def psa_of_def)
qed

lemma truncate_psa: "PackedStringArray_truncate n (psa_of xs) = Some (psa_of (take n xs))"
proof -
  let ?offs = "take (n + 1) (psa_offsets (psa_of xs))"
  have len: "length ?offs = length (take n xs) + 1" by simp
  have nth: "?offs ! i = total_len (take i (take n xs))" if "i \<le> length (take n xs)" for i
  proof -
    have "i \<le> n" "i \<le> length xs" using that by simp_all
    then show ?thesis by (simp add: min_absorb1)
  qed
  have "last ?offs = ?offs ! length (take n xs)" using len by (subst last_conv_nth) (simp_all only: length_0_conv [symmetric], simp_all)
  also have "\<dots> = total_len (take n xs)" unfolding nth [OF order_refl] by (simp only: take_all order_refl)
  finally have last: "last ?offs = total_len (take n xs)" .
  have "\<lparr>psa_offsets = ?offs, psa_storage = take (last ?offs) (concat xs)\<rparr> = psa_of (take n xs)"
    unfolding last take_concat by (rule psa_eqI) (use len nth in simp_all)
  then show ?thesis by (simp add: PackedStringArray_truncate_def Let_def)
qed

lemma clear_psa: "PackedStringArray_clear (psa_of xs) = psa_of []"
  by (simp add: PackedStringArray_clear_def psa_of_def take_map del: upt_Suc)

lemma len_psa [simp]: "PackedStringArray_len (psa_of xs) = Some (length xs)"
  by (simp add: PackedStringArray_len_def)

lemma iter_psa: "PackedStringArray_iter (psa_of xs) = Some xs"
proof -
  have "PackedStringIterator_from (psa_of xs) i = Some (drop i xs)" for i
  proof (induction "length xs - i" arbitrary: i)
    case 0
    then show ?case by (simp add: PackedStringIterator_from.simps [of _ i] get_psa)
  next
    case (Suc n)
    then have "PackedStringIterator_from (psa_of xs) (Suc i) = Some (drop (Suc i) xs)" by simp
    with Suc(2) show ?case
      by (simp add: PackedStringIterator_from.simps [of _ i] get_psa Cons_nth_drop_Suc)
  qed
  then show ?thesis by (simp add: PackedStringArray_iter_def)
qed

section \<open>Dictionaries are lists of distinct strings\<close>

definition sd_of :: "string list \<Rightarrow> StringDictionary" where
  "sd_of xs = \<lparr>sd_dedup = [0..<length xs], sd_storage = psa_of xs\<rparr>"

text \<open>The position of a string in the dictionary.\<close>

fun index_of :: "string list \<Rightarrow> string \<Rightarrow> nat" where
  "index_of [] x = 0"
| "index_of (y # ys) x = (if y = x then 0 else Suc (index_of ys x))"

lemma index_of_less: "x \<in> set xs \<Longrightarrow> index_of xs x < length xs \<and> xs ! index_of xs x = x"
  by (induction xs) auto

lemma index_of_append: "index_of (xs @ ys) x = (if x \<in> set xs then index_of xs x else length xs + index_of ys x)"
  by (induction xs) auto

lemma index_of_nth: "distinct xs \<Longrightarrow> i < length xs \<Longrightarrow> index_of xs (xs ! i) = i"
  using index_of_less [of "xs ! i" xs] by (auto simp: nth_eq_iff_index_eq)

lemma dedup_find_of:
  assumes "\<And>k. k \<in> set ks \<Longrightarrow> k < length xs"
  shows "dedup_find (psa_of xs) v ks = Some (find (\<lambda>k. xs ! k = v) ks)"
  using assms by (induction ks) (auto simp: get_psa)

lemma find_upt: "distinct xs \<Longrightarrow> find (\<lambda>k. xs ! k = v) [0..<length xs] = (if v \<in> set xs then Some (index_of xs v) else None)"
proof (cases "v \<in> set xs")
  case True
  assume d: "distinct xs"
  have "find (\<lambda>k. xs ! k = v) [0..<length xs] = Some (index_of xs v)"
    unfolding find_Some_iff
  proof (intro exI [of _ "index_of xs v"] conjI allI impI)
    fix j assume "j < index_of xs v"
    then show "xs ! ([0..<length xs] ! j) \<noteq> v"
      using index_of_less [OF True] index_of_nth [OF d, of j] by auto
  qed (use index_of_less [OF True] in simp_all)
  with True show ?thesis by simp
qed (auto simp: find_None_iff)

lemma lookup_value_or_insert_of:
  assumes "distinct xs"
  shows "StringDictionary_lookup_value_or_insert v (sd_of xs) =
     (if v \<in> set xs then Some (index_of xs v, sd_of xs)
      else if total_len (xs @ [v]) \<le> i32_max \<and> length xs \<le> i32_max then Some (length xs, sd_of (xs @ [v]))
      else None)"
proof -
  have "dedup_find (psa_of xs) v [0..<length xs] = Some (if v \<in> set xs then Some (index_of xs v) else None)"
    using find_upt [OF assms, of v] by (subst dedup_find_of) simp_all
  then show ?thesis
    by (simp add: StringDictionary_lookup_value_or_insert_def sd_of_def append_psa K_from_usize_def)
qed

lemma lookup_id_of:
  "StringDictionary_lookup_id (sd_of xs) (int i) =
     Some (if i mod 2 ^ 64 < length xs then Some (xs ! (i mod 2 ^ 64)) else None)"
  by (simp add: StringDictionary_lookup_id_def sd_of_def get_psa K_as_usize_def nat_mod_distrib nat_power_eq)

lemma filter_le_upt: "filter (\<lambda>k. k \<le> i) [0..<n] = [0..<min (i + 1) n]"
  by (induction n) (auto simp: min_def)

lemma truncate_of:
  assumes "i + 1 < 2 ^ 64"
  shows "StringDictionary_truncate (int i) (sd_of xs) = Some (sd_of (take (i + 1) xs))"
proof -
  have "K_as_usize (int i) = i" using assms by (simp add: K_as_usize_def nat_mod_distrib nat_power_eq)
  then show ?thesis using assms
    by (simp add: StringDictionary_truncate_def sd_of_def truncate_psa filter_le_upt Let_def min_def)
qed

text \<open>Truncating to the identifier of a null overflows.\<close>

lemma truncate_null: "StringDictionary_truncate (- 1) d = None"
  by (simp add: StringDictionary_truncate_def K_as_usize_def)

lemma clear_of: "StringDictionary_clear (sd_of xs) = sd_of []"
  by (simp add: StringDictionary_clear_def sd_of_def clear_psa)

lemma new_sd: "StringDictionary_new = sd_of []"
  by (simp add: StringDictionary_new_def sd_of_def new_psa)

end
