(* ===== verification/Mutable_Batch.thy ===== *)
theory Mutable_Batch
  imports Column_Stats Packed_Strings
begin

text \<open>
  The mutable batch that collects writes: \<open>Column\<close> of \<open>src/mutable_batch/src/column.rs\<close>,
  \<open>MutableBatch\<close> of \<open>lib.rs\<close> and the transactional \<open>Writer\<close> of \<open>writer.rs\<close>.  An iterator of values
  is the list of what it yields, a row range a pair of bounds, and the hash map of the column names an
  association list.  A write returns its outcome and the writer it leaves on every branch, since a
  writer that failed is rolled back when it is dropped.
\<close>

section \<open>Columns\<close>

type_synonym DID = int

definition INVALID_DID :: DID where "INVALID_DID = - 1"

datatype ColumnData =
    ColumnData_F64 "f64 list" "f64 StatValues"
  | ColumnData_I64 "int list" "int StatValues"
  | ColumnData_U64 "nat list" "nat StatValues"
  | ColumnData_String PackedStringArray "string StatValues"
  | ColumnData_Bool BitSet "bool StatValues"
  | ColumnData_Tag "DID list" StringDictionary "string StatValues"

record Batch_Column =
  bc_influx_type :: InfluxColumnType
  bc_valid :: BitSet
  bc_data :: ColumnData

definition Column_new :: "nat \<Rightarrow> InfluxColumnType \<Rightarrow> ('e, Batch_Column) res" where
  "Column_new row_count column_type =
     (let valid = BitSet_append_unset row_count BitSet_new; total_count = row_count
      in res_map (\<lambda>data. \<lparr>bc_influx_type = column_type, bc_valid = valid, bc_data = data\<rparr>)
           (case column_type of
              InfluxColumnType_Field InfluxFieldType_Boolean \<Rightarrow>
                res_map (ColumnData_Bool (BitSet_append_unset row_count BitSet_new))
                  (StatValues_new_all_null ord_total total_count None)
            | InfluxColumnType_Field InfluxFieldType_UInteger \<Rightarrow>
                res_map (ColumnData_U64 (replicate row_count 0))
                  (StatValues_new_all_null ord_total total_count None)
            | InfluxColumnType_Field InfluxFieldType_Float \<Rightarrow>
                res_map (ColumnData_F64 (replicate row_count 0))
                  (StatValues_new_all_null ord_f64 total_count None)
            | InfluxColumnType_Field InfluxFieldType_Integer \<Rightarrow>
                res_map (ColumnData_I64 (replicate row_count 0))
                  (StatValues_new_all_null ord_total total_count None)
            | InfluxColumnType_Timestamp \<Rightarrow>
                res_map (ColumnData_I64 (replicate row_count 0))
                  (StatValues_new_all_null ord_total total_count None)
            | InfluxColumnType_Field InfluxFieldType_String \<Rightarrow>
                res_map (ColumnData_String (PackedStringArray_new_empty row_count))
                  (StatValues_new_all_null ord_total total_count (Some 1))
            | InfluxColumnType_Tag \<Rightarrow>
                res_map (ColumnData_Tag (replicate row_count INVALID_DID) StringDictionary_new)
                  (StatValues_new_all_null ord_total total_count (Some 1))))"

fun ColumnData_push_nulls :: "nat \<Rightarrow> nat \<Rightarrow> ColumnData \<Rightarrow> ColumnData option" where
  "ColumnData_push_nulls len delta (ColumnData_F64 data stats) =
     Some (ColumnData_F64 (vec_resize len 0 data) (StatValues_update_for_nulls delta stats))"
| "ColumnData_push_nulls len delta (ColumnData_I64 data stats) =
     Some (ColumnData_I64 (vec_resize len 0 data) (StatValues_update_for_nulls delta stats))"
| "ColumnData_push_nulls len delta (ColumnData_U64 data stats) =
     Some (ColumnData_U64 (vec_resize len 0 data) (StatValues_update_for_nulls delta stats))"
| "ColumnData_push_nulls len delta (ColumnData_String data stats) =
     map_option (\<lambda>data. ColumnData_String data (StatValues_update_for_nulls delta stats))
       (PackedStringArray_extend delta data)"
| "ColumnData_push_nulls len delta (ColumnData_Bool data stats) =
     Some (ColumnData_Bool (BitSet_append_unset delta data) (StatValues_update_for_nulls delta stats))"
| "ColumnData_push_nulls len delta (ColumnData_Tag data dict stats) =
     Some (ColumnData_Tag (vec_resize len INVALID_DID data) dict (StatValues_update_for_nulls delta stats))"

definition Column_push_nulls_to_len :: "nat \<Rightarrow> Batch_Column \<Rightarrow> Batch_Column option" where
  "Column_push_nulls_to_len len col =
     (if bs_len (bc_valid col) = len then Some col
      else if \<not> len > bs_len (bc_valid col) then None
      else
        (let delta = len - bs_len (bc_valid col)
         in map_option (\<lambda>data. col\<lparr>bc_valid := BitSet_append_unset delta (bc_valid col), bc_data := data\<rparr>)
              (ColumnData_push_nulls len delta (bc_data col))))"

definition Column_len :: "Batch_Column \<Rightarrow> nat" where
  "Column_len col = bs_len (bc_valid col)"

text \<open>\<open>NonZeroU64::new\<close>\<close>

definition NonZeroU64_new :: "nat \<Rightarrow> nat option" where
  "NonZeroU64_new n = (if n = 0 then None else Some n)"

definition Column_stats :: "Batch_Column \<Rightarrow> Statistics option" where
  "Column_stats col =
     (case bc_data col of
        ColumnData_F64 _ stats \<Rightarrow> Some (Statistics_F64 stats)
      | ColumnData_I64 _ stats \<Rightarrow> Some (Statistics_I64 stats)
      | ColumnData_U64 _ stats \<Rightarrow> Some (Statistics_U64 stats)
      | ColumnData_Bool _ stats \<Rightarrow> Some (Statistics_Bool stats)
      | ColumnData_String _ stats \<Rightarrow> Some (Statistics_String stats)
      | ColumnData_Tag _ dictionary stats \<Rightarrow>
          Option.bind (PackedStringArray_len (sd_storage dictionary)) (\<lambda>values_len.
          Option.bind (sv_null_count stats) (\<lambda>null_count.
            (let distinct_count = (if null_count > 0 then values_len + 1 else values_len)
             in Some (Statistics_String (stats\<lparr>sv_distinct_count := NonZeroU64_new distinct_count\<rparr>))))))"

section \<open>Batches and writers\<close>

record MutableBatch =
  mb_column_names :: "(string \<times> nat) list"
  mb_columns :: "Batch_Column list"
  mb_row_count :: nat

definition MutableBatch_new :: MutableBatch where
  "MutableBatch_new = \<lparr>mb_column_names = [], mb_columns = [], mb_row_count = 0\<rparr>"

datatype Batch_Error = ColumnNotFound string

definition MutableBatch_column :: "MutableBatch \<Rightarrow> string \<Rightarrow> (Batch_Error, Batch_Column) res" where
  "MutableBatch_column b column =
     (case map_of (mb_column_names b) column of
        None \<Rightarrow> Err (ColumnNotFound column)
      | Some idx \<Rightarrow> if idx < length (mb_columns b) then Ok (mb_columns b ! idx) else Panic)"

datatype Writer_Error =
    TypeMismatch string InfluxColumnType InfluxColumnType
  | InsufficientValues
  | KeyNotFound nat

record Writer =
  wr_batch :: MutableBatch
  wr_statistics :: "(nat \<times> Statistics) list"
  wr_initial_rows :: nat
  wr_initial_cols :: nat
  wr_to_insert :: nat
  wr_success :: bool

type_synonym 'a writer_call = "(Writer_Error, Writer, 'a) call"

definition Writer_new :: "MutableBatch \<Rightarrow> nat \<Rightarrow> Writer" where
  "Writer_new batch to_insert =
     \<lparr>wr_batch = batch, wr_statistics = [], wr_initial_rows = mb_row_count batch,
      wr_initial_cols = length (mb_columns batch), wr_to_insert = to_insert, wr_success = False\<rparr>"

definition wr_set_columns :: "Batch_Column list \<Rightarrow> Writer \<Rightarrow> Writer" where
  "wr_set_columns cols w = w\<lparr>wr_batch := (wr_batch w)\<lparr>mb_columns := cols\<rparr>\<rparr>"

text \<open>\<open>column_mut\<close> returns the index of the column; the caller changes the column in place.\<close>

definition Writer_column_mut :: "string \<Rightarrow> InfluxColumnType \<Rightarrow> nat writer_call" where
  "Writer_column_mut name influx_type w =
     (let batch = wr_batch w; columns_len = length (mb_columns batch);
          (names, column_idx) =
            (case map_of (mb_column_names batch) name of
               Some i \<Rightarrow> (mb_column_names batch, i)
             | None \<Rightarrow> (mb_column_names batch @ [(name, columns_len)], columns_len));
          w = w\<lparr>wr_batch := batch\<lparr>mb_column_names := names\<rparr>\<rparr>
      in case (if columns_len = column_idx
               then res_map (\<lambda>col. wr_set_columns (mb_columns batch @ [col]) w)
                      (Column_new (wr_initial_rows w) influx_type)
               else Ok w) of
           Ok w \<Rightarrow>
             (if \<not> column_idx < length (mb_columns (wr_batch w)) then (Panic, w)
              else
                (let col = mb_columns (wr_batch w) ! column_idx
                 in if bc_influx_type col \<noteq> influx_type
                    then (Err (TypeMismatch name (bc_influx_type col) influx_type), w)
                    else if bs_len (bc_valid col) \<noteq> wr_initial_rows w then (Panic, w)
                    else (Ok column_idx, w)))
         | Err e \<Rightarrow> (Err e, w)
         | Panic \<Rightarrow> (Panic, w))"

text \<open>
  Every write looks its column up, changes it, and records the statistics of the new rows.  What is
  done to the column is given the initial number of rows and the number of rows to insert.
\<close>

type_synonym column_write = "nat \<Rightarrow> nat \<Rightarrow> (Writer_Error, Batch_Column, Statistics) call"

definition Writer_write_column :: "string \<Rightarrow> InfluxColumnType \<Rightarrow> column_write \<Rightarrow> unit writer_call" where
  "Writer_write_column name influx_type f =
     m_bind (Writer_column_mut name influx_type) (\<lambda>col_idx w.
       case f (wr_initial_rows w) (wr_to_insert w) (mb_columns (wr_batch w) ! col_idx) of
         (r, col) \<Rightarrow>
           (let w = wr_set_columns ((mb_columns (wr_batch w))[col_idx := col]) w
            in case r of
                 Ok stats \<Rightarrow> (Ok (), w\<lparr>wr_statistics := wr_statistics w @ [(col_idx, stats)]\<rparr>)
               | Err e \<Rightarrow> (Err e, w)
               | Panic \<Rightarrow> (Panic, w)))"

definition set_position_iterator :: "byte list option \<Rightarrow> nat \<Rightarrow> nat list" where
  "set_position_iterator valid_mask to_insert =
     (case valid_mask of
        Some bytes \<Rightarrow> takeWhile (\<lambda>idx. idx < to_insert) (iter_set_positions bytes)
      | None \<Rightarrow> [0..<to_insert])"

definition append_valid_mask :: "byte list option \<Rightarrow> nat \<Rightarrow> Batch_Column \<Rightarrow> Batch_Column option" where
  "append_valid_mask valid_mask to_insert column =
     map_option (\<lambda>v. column\<lparr>bc_valid := v\<rparr>)
       (case valid_mask of
          Some bytes \<Rightarrow> BitSet_append_bits to_insert bytes (bc_valid column)
        | None \<Rightarrow> BitSet_append_set to_insert (bc_valid column))"

text \<open>
  The loop of the typed writes: for every position take the next value, store it and update the
  statistics.  Storing a value may panic.
\<close>

fun write_loop ::
    "(nat \<Rightarrow> 'v \<Rightarrow> 'd \<Rightarrow> 'd option) \<Rightarrow> ('v \<Rightarrow> 's \<Rightarrow> 's) \<Rightarrow> nat list \<Rightarrow> 'v list
       \<Rightarrow> (Writer_Error, 'd \<times> 's, unit) call" where
  "write_loop put upd [] vs (d, s) = (Ok (), (d, s))"
| "write_loop put upd (i # is) [] (d, s) = (Err InsufficientValues, (d, s))"
| "write_loop put upd (i # is) (v # vs) (d, s) =
     (case put i v d of
        None \<Rightarrow> (Panic, (d, s))
      | Some d' \<Rightarrow> write_loop put upd is vs (d', upd v s))"

text \<open>The end of the typed writes: the validity mask, the nulls among the new rows.\<close>

definition finish_write ::
    "byte list option \<Rightarrow> nat \<Rightarrow> ('a StatValues \<Rightarrow> Statistics) \<Rightarrow> (Writer_Error, unit) res \<Rightarrow> 'a StatValues
       \<Rightarrow> (Writer_Error, Batch_Column, Statistics) call" where
  "finish_write valid_mask to_insert mk r stats col =
     (case r of
        Err e \<Rightarrow> (Err e, col)
      | Panic \<Rightarrow> (Panic, col)
      | Ok _ \<Rightarrow>
          (case append_valid_mask valid_mask to_insert col of
             None \<Rightarrow> (Panic, col)
           | Some col \<Rightarrow>
               (if to_insert < sv_total_count stats then (Panic, col)
                else (Ok (mk (StatValues_update_for_nulls (to_insert - sv_total_count stats) stats)), col))))"

definition vec_put :: "nat \<Rightarrow> nat \<Rightarrow> 'a \<Rightarrow> 'a list \<Rightarrow> 'a list option" where
  "vec_put initial_rows idx value data =
     (if initial_rows + idx < length data then Some (data[initial_rows + idx := value]) else None)"

definition write_f64_column :: "byte list option \<Rightarrow> f64 list \<Rightarrow> column_write" where
  "write_f64_column valid_mask values initial_rows to_insert col =
     (case bc_data col of
        ColumnData_F64 col_data st \<Rightarrow>
          (case write_loop (vec_put initial_rows) (StatValues_update ord_f64)
                  (set_position_iterator valid_mask to_insert) values
                  (vec_resize (initial_rows + to_insert) 0 col_data, StatValues_new_empty) of
             (r, col_data, stats) \<Rightarrow>
               finish_write valid_mask to_insert Statistics_F64 r stats (col\<lparr>bc_data := ColumnData_F64 col_data st\<rparr>))
      | _ \<Rightarrow> (Panic, col))"

definition write_i64_column :: "byte list option \<Rightarrow> int list \<Rightarrow> column_write" where
  "write_i64_column valid_mask values initial_rows to_insert col =
     (case bc_data col of
        ColumnData_I64 col_data st \<Rightarrow>
          (case write_loop (vec_put initial_rows) (StatValues_update ord_total)
                  (set_position_iterator valid_mask to_insert) values
                  (vec_resize (initial_rows + to_insert) 0 col_data, StatValues_new_empty) of
             (r, col_data, stats) \<Rightarrow>
               finish_write valid_mask to_insert Statistics_I64 r stats (col\<lparr>bc_data := ColumnData_I64 col_data st\<rparr>))
      | _ \<Rightarrow> (Panic, col))"

definition write_u64_column :: "byte list option \<Rightarrow> nat list \<Rightarrow> column_write" where
  "write_u64_column valid_mask values initial_rows to_insert col =
     (case bc_data col of
        ColumnData_U64 col_data st \<Rightarrow>
          (case write_loop (vec_put initial_rows) (StatValues_update ord_total)
                  (set_position_iterator valid_mask to_insert) values
                  (vec_resize (initial_rows + to_insert) 0 col_data, StatValues_new_empty) of
             (r, col_data, stats) \<Rightarrow>
               finish_write valid_mask to_insert Statistics_U64 r stats (col\<lparr>bc_data := ColumnData_U64 col_data st\<rparr>))
      | _ \<Rightarrow> (Panic, col))"

definition write_bool_column :: "byte list option \<Rightarrow> bool list \<Rightarrow> column_write" where
  "write_bool_column valid_mask values initial_rows to_insert col =
     (case bc_data col of
        ColumnData_Bool col_data st \<Rightarrow>
          (case write_loop (\<lambda>idx value d. if value then BitSet_set (initial_rows + idx) d else Some d)
                  (StatValues_update ord_total) (set_position_iterator valid_mask to_insert) values
                  (BitSet_append_unset to_insert col_data, StatValues_new_empty) of
             (r, col_data, stats) \<Rightarrow>
               finish_write valid_mask to_insert Statistics_Bool r stats (col\<lparr>bc_data := ColumnData_Bool col_data st\<rparr>))
      | _ \<Rightarrow> (Panic, col))"

text \<open>\<open>col_data.extend(n - col_data.len())\<close>\<close>

definition string_pad_to :: "nat \<Rightarrow> PackedStringArray \<Rightarrow> PackedStringArray option" where
  "string_pad_to n d =
     Option.bind (PackedStringArray_len d) (\<lambda>len.
       if n < len then None else PackedStringArray_extend (n - len) d)"

definition string_put :: "nat \<Rightarrow> nat \<Rightarrow> string \<Rightarrow> PackedStringArray \<Rightarrow> PackedStringArray option" where
  "string_put initial_rows idx value d =
     Option.bind (string_pad_to (initial_rows + idx) d) (\<lambda>d.
       map_option snd (PackedStringArray_append value d))"

definition write_string_column :: "byte list option \<Rightarrow> string list \<Rightarrow> column_write" where
  "write_string_column valid_mask values initial_rows to_insert col =
     (case bc_data col of
        ColumnData_String col_data st \<Rightarrow>
          (case write_loop (string_put initial_rows) (StatValues_update ord_total)
                  (set_position_iterator valid_mask to_insert) values (col_data, StatValues_new_empty) of
             (r, col_data, stats) \<Rightarrow>
               (case (r, string_pad_to (initial_rows + to_insert) col_data) of
                  (Ok _, None) \<Rightarrow> (Panic, col\<lparr>bc_data := ColumnData_String col_data st\<rparr>)
                | (Ok _, Some padded) \<Rightarrow>
                    finish_write valid_mask to_insert Statistics_String r stats
                      (col\<lparr>bc_data := ColumnData_String padded st\<rparr>)
                | _ \<Rightarrow>
                    finish_write valid_mask to_insert Statistics_String r stats
                      (col\<lparr>bc_data := ColumnData_String col_data st\<rparr>)))
      | _ \<Rightarrow> (Panic, col))"

definition tag_put :: "nat \<Rightarrow> nat \<Rightarrow> string \<Rightarrow> DID list \<times> StringDictionary \<Rightarrow> (DID list \<times> StringDictionary) option" where
  "tag_put initial_rows idx value d =
     (case d of (col_data, dict) \<Rightarrow>
        Option.bind (StringDictionary_lookup_value_or_insert value dict) (\<lambda>(did, dict).
          map_option (\<lambda>col_data. (col_data, dict)) (vec_put initial_rows idx (int did) col_data)))"

definition write_tag_column :: "byte list option \<Rightarrow> string list \<Rightarrow> column_write" where
  "write_tag_column valid_mask values initial_rows to_insert col =
     (case bc_data col of
        ColumnData_Tag col_data dict st \<Rightarrow>
          (case write_loop (tag_put initial_rows) (StatValues_update ord_total)
                  (set_position_iterator valid_mask to_insert) values
                  ((vec_resize (initial_rows + to_insert) INVALID_DID col_data, dict), StatValues_new_empty) of
             (r, (col_data, dict), stats) \<Rightarrow>
               finish_write valid_mask to_insert Statistics_String r stats
                 (col\<lparr>bc_data := ColumnData_Tag col_data dict st\<rparr>))
      | _ \<Rightarrow> (Panic, col))"

text \<open>
  \<open>write_tag_dict\<close>: the values are keys into a list of strings, whose identifiers in the column's
  dictionary are computed when they are first used.
\<close>

fun tag_dict_loop ::
    "nat \<Rightarrow> nat list \<Rightarrow> nat list
       \<Rightarrow> (Writer_Error, (DID list \<times> StringDictionary) \<times> (string \<times> DID option) list \<times> string StatValues, unit) call" where
  "tag_dict_loop initial_rows [] keys st = (Ok (), st)"
| "tag_dict_loop initial_rows (idx # is) [] st = (Err InsufficientValues, st)"
| "tag_dict_loop initial_rows (idx # is) (key # keys) st =
     (case st of ((col_data, dict), mapping, stats) \<Rightarrow>
        if \<not> key < length mapping then (Err (KeyNotFound key), st)
        else
          (case mapping ! key of
             (value, Some did) \<Rightarrow>
               (case vec_put initial_rows idx did col_data of
                  None \<Rightarrow> (Panic, st)
                | Some col_data \<Rightarrow>
                    tag_dict_loop initial_rows is keys
                      ((col_data, dict), mapping, StatValues_update ord_total value stats))
           | (value, None) \<Rightarrow>
               (case StringDictionary_lookup_value_or_insert value dict of
                  None \<Rightarrow> (Panic, st)
                | Some (did, dict) \<Rightarrow>
                    (let mapping = mapping[key := (value, Some (int did))]
                     in case vec_put initial_rows idx (int did) col_data of
                          None \<Rightarrow> (Panic, ((col_data, dict), mapping, stats))
                        | Some col_data \<Rightarrow>
                            tag_dict_loop initial_rows is keys
                              ((col_data, dict), mapping, StatValues_update ord_total value stats)))))"

definition write_tag_dict_column :: "byte list option \<Rightarrow> nat list \<Rightarrow> string list \<Rightarrow> column_write" where
  "write_tag_dict_column valid_mask keys values initial_rows to_insert col =
     (case bc_data col of
        ColumnData_Tag col_data dict st \<Rightarrow>
          (case tag_dict_loop initial_rows (set_position_iterator valid_mask to_insert) keys
                  ((vec_resize (initial_rows + to_insert) INVALID_DID col_data, dict),
                   map (\<lambda>value. (value, None)) values, StatValues_new_empty) of
             (r, (col_data, dict), mapping, stats) \<Rightarrow>
               finish_write valid_mask to_insert Statistics_String r stats
                 (col\<lparr>bc_data := ColumnData_Tag col_data dict st\<rparr>))
      | _ \<Rightarrow> (Panic, col))"

definition Writer_write_f64 :: "string \<Rightarrow> byte list option \<Rightarrow> f64 list \<Rightarrow> unit writer_call" where
  "Writer_write_f64 name valid_mask values =
     Writer_write_column name (InfluxColumnType_Field InfluxFieldType_Float) (write_f64_column valid_mask values)"

definition Writer_write_i64 :: "string \<Rightarrow> byte list option \<Rightarrow> int list \<Rightarrow> unit writer_call" where
  "Writer_write_i64 name valid_mask values =
     Writer_write_column name (InfluxColumnType_Field InfluxFieldType_Integer) (write_i64_column valid_mask values)"

definition Writer_write_u64 :: "string \<Rightarrow> byte list option \<Rightarrow> nat list \<Rightarrow> unit writer_call" where
  "Writer_write_u64 name valid_mask values =
     Writer_write_column name (InfluxColumnType_Field InfluxFieldType_UInteger) (write_u64_column valid_mask values)"

definition Writer_write_bool :: "string \<Rightarrow> byte list option \<Rightarrow> bool list \<Rightarrow> unit writer_call" where
  "Writer_write_bool name valid_mask values =
     Writer_write_column name (InfluxColumnType_Field InfluxFieldType_Boolean) (write_bool_column valid_mask values)"

definition Writer_write_string :: "string \<Rightarrow> byte list option \<Rightarrow> string list \<Rightarrow> unit writer_call" where
  "Writer_write_string name valid_mask values =
     Writer_write_column name (InfluxColumnType_Field InfluxFieldType_String) (write_string_column valid_mask values)"

definition Writer_write_tag :: "string \<Rightarrow> byte list option \<Rightarrow> string list \<Rightarrow> unit writer_call" where
  "Writer_write_tag name valid_mask values =
     Writer_write_column name InfluxColumnType_Tag (write_tag_column valid_mask values)"

definition Writer_write_tag_dict :: "string \<Rightarrow> byte list option \<Rightarrow> nat list \<Rightarrow> string list \<Rightarrow> unit writer_call" where
  "Writer_write_tag_dict name valid_mask keys values =
     Writer_write_column name InfluxColumnType_Tag (write_tag_dict_column valid_mask keys values)"

text \<open>\<open>write_time\<close> takes a value for every row.\<close>

definition Writer_write_time :: "string \<Rightarrow> int list \<Rightarrow> unit writer_call" where
  "Writer_write_time name values =
     Writer_write_column name InfluxColumnType_Timestamp (write_i64_column None values)"

section \<open>Copying rows from another batch\<close>

text \<open>\<open>values().iter().map(|value| dst_dict.lookup_value_or_insert(value))\<close>\<close>

fun intern_all :: "string list \<Rightarrow> StringDictionary \<Rightarrow> (nat list \<times> StringDictionary) option" where
  "intern_all [] d = Some ([], d)"
| "intern_all (v # vs) d =
     Option.bind (StringDictionary_lookup_value_or_insert v d) (\<lambda>(did, d).
       map_option (\<lambda>(dids, d). (did # dids, d)) (intern_all vs d))"

text \<open>\<open>mapping[*src_id as usize]\<close>\<close>

definition map_did :: "nat list \<Rightarrow> DID \<Rightarrow> DID option" where
  "map_did mapping src_id =
     (if src_id = INVALID_DID then Some INVALID_DID
      else if K_as_usize src_id < length mapping then Some (int (mapping ! K_as_usize src_id))
      else None)"

definition batch_column_data :: "ColumnData \<Rightarrow> ColumnData \<Rightarrow> (ColumnData \<times> Statistics) option" where
  "batch_column_data src dst =
     (case (dst, src) of
        (ColumnData_F64 dst_data st, ColumnData_F64 src_data stats) \<Rightarrow>
          Some (ColumnData_F64 (dst_data @ src_data) st, Statistics_F64 stats)
      | (ColumnData_I64 dst_data st, ColumnData_I64 src_data stats) \<Rightarrow>
          Some (ColumnData_I64 (dst_data @ src_data) st, Statistics_I64 stats)
      | (ColumnData_U64 dst_data st, ColumnData_U64 src_data stats) \<Rightarrow>
          Some (ColumnData_U64 (dst_data @ src_data) st, Statistics_U64 stats)
      | (ColumnData_Bool dst_data st, ColumnData_Bool src_data stats) \<Rightarrow>
          map_option (\<lambda>d. (ColumnData_Bool d st, Statistics_Bool stats)) (BitSet_extend_from src_data dst_data)
      | (ColumnData_String dst_data st, ColumnData_String src_data stats) \<Rightarrow>
          map_option (\<lambda>d. (ColumnData_String d st, Statistics_String stats))
            (PackedStringArray_extend_from src_data dst_data)
      | (ColumnData_Tag dst_data dst_dict st, ColumnData_Tag src_data src_dict stats) \<Rightarrow>
          Option.bind (PackedStringArray_iter (sd_storage src_dict)) (\<lambda>values.
          Option.bind (intern_all values dst_dict) (\<lambda>(mapping, dst_dict).
          Option.bind (those (map (map_did mapping) src_data)) (\<lambda>dids.
            Some (ColumnData_Tag (dst_data @ dids) dst_dict st, Statistics_String stats))))
      | _ \<Rightarrow> None)"

definition write_batch_column :: "Batch_Column \<Rightarrow> column_write" where
  "write_batch_column src_col initial_rows to_insert dst_col =
     (case batch_column_data (bc_data src_col) (bc_data dst_col) of
        None \<Rightarrow> (Panic, dst_col)
      | Some (data, stats) \<Rightarrow>
          (case BitSet_extend_from (bc_valid src_col) (bc_valid dst_col) of
             None \<Rightarrow> (Panic, dst_col\<lparr>bc_data := data\<rparr>)
           | Some v \<Rightarrow> (Ok stats, dst_col\<lparr>bc_data := data, bc_valid := v\<rparr>)))"

text \<open>The columns of the source in the order of its hash map.\<close>

fun Writer_write_columns ::
    "(Batch_Column \<Rightarrow> column_write) \<Rightarrow> MutableBatch \<Rightarrow> (string \<times> nat) list \<Rightarrow> unit writer_call" where
  "Writer_write_columns f src [] w = (Ok (), w)"
| "Writer_write_columns f src ((name, idx) # names) w =
     (if \<not> idx < length (mb_columns src) then (Panic, w)
      else
        (let src_col = mb_columns src ! idx
         in m_bind (Writer_write_column name (bc_influx_type src_col) (f src_col))
              (\<lambda>_. Writer_write_columns f src names) w))"

definition Writer_write_batch :: "MutableBatch \<Rightarrow> unit writer_call" where
  "Writer_write_batch src w =
     (if mb_row_count src \<noteq> wr_to_insert w then (Panic, w)
      else Writer_write_columns write_batch_column src (mb_column_names src) w)"

type_synonym range = "nat \<times> nat"

text \<open>The statistics of the rows of a range that are not null.\<close>

definition compute_stats ::
    "'a PartialOrd \<Rightarrow> byte list \<Rightarrow> range \<Rightarrow> (nat \<Rightarrow> 'a option) \<Rightarrow> 'a StatValues \<Rightarrow> 'a StatValues option" where
  "compute_stats ord valid r accessor stats =
     (case r of (start, end') \<Rightarrow>
        Option.bind (those (map accessor
            (takeWhile (\<lambda>idx. idx < end') (iter_set_positions_with_offset valid start)))) (\<lambda>values.
          if end' < start \<or> end' - start < length values then None
          else Some (StatValues_update_for_nulls (end' - start - length values)
                       (fold (StatValues_update ord) values stats))))"

definition vec_get :: "'a list \<Rightarrow> nat \<Rightarrow> 'a option" where
  "vec_get xs i = (if i < length xs then Some (xs ! i) else None)"

text \<open>The loop over the ranges: copy the rows, then update the statistics.\<close>

fun write_ranges :: "(range \<Rightarrow> 'd \<Rightarrow> 'd option) \<Rightarrow> range list \<Rightarrow> 'd \<Rightarrow> 'd option" where
  "write_ranges f [] d = Some d"
| "write_ranges f (r # rs) d = Option.bind (f r d) (write_ranges f rs)"

definition write_slice :: "'a PartialOrd \<Rightarrow> range list \<Rightarrow> byte list \<Rightarrow> 'a list \<Rightarrow> 'a list \<Rightarrow> ('a list \<times> 'a StatValues) option" where
  "write_slice ord ranges valid src_data dst_data =
     write_ranges (\<lambda>r (dst_data, stats).
         Option.bind (slice (fst r) (snd r) src_data) (\<lambda>vs.
         map_option (Pair (dst_data @ vs)) (compute_stats ord valid r (vec_get src_data) stats)))
       ranges (dst_data, StatValues_new_empty)"

text \<open>The rows of a tag column, with the identifiers of the destination computed when first used.\<close>

fun copy_dids ::
    "StringDictionary \<Rightarrow> DID list \<Rightarrow> (DID list \<times> StringDictionary \<times> DID option list \<times> string StatValues)
       \<Rightarrow> (DID list \<times> StringDictionary \<times> DID option list \<times> string StatValues) option" where
  "copy_dids src_dict [] st = Some st"
| "copy_dids src_dict (src_id # src_ids) (dst_data, dst_dict, mapping, stats) =
     (if src_id = INVALID_DID
      then copy_dids src_dict src_ids
             (dst_data @ [INVALID_DID], dst_dict, mapping, StatValues_update_for_nulls 1 stats)
      else if \<not> K_as_usize src_id < length mapping then None
      else
        (case mapping ! K_as_usize src_id of
           Some did \<Rightarrow>
             copy_dids src_dict src_ids
               (dst_data @ [did], dst_dict, mapping, stats\<lparr>sv_total_count := sv_total_count stats + 1\<rparr>)
         | None \<Rightarrow>
             (case StringDictionary_lookup_id src_dict src_id of
                Some (Some value) \<Rightarrow>
                  Option.bind (StringDictionary_lookup_value_or_insert value dst_dict) (\<lambda>(did, dst_dict).
                    copy_dids src_dict src_ids
                      (dst_data @ [int did], dst_dict, mapping[K_as_usize src_id := Some (int did)],
                       StatValues_update ord_total value stats))
              | _ \<Rightarrow> None)))"

definition ranges_column_data :: "range list \<Rightarrow> byte list \<Rightarrow> ColumnData \<Rightarrow> ColumnData \<Rightarrow> (ColumnData \<times> Statistics) option" where
  "ranges_column_data ranges valid src dst =
     (case (dst, src) of
        (ColumnData_F64 dst_data st, ColumnData_F64 src_data _) \<Rightarrow>
          map_option (\<lambda>(d, stats). (ColumnData_F64 d st, Statistics_F64 stats))
            (write_slice ord_f64 ranges valid src_data dst_data)
      | (ColumnData_I64 dst_data st, ColumnData_I64 src_data _) \<Rightarrow>
          map_option (\<lambda>(d, stats). (ColumnData_I64 d st, Statistics_I64 stats))
            (write_slice ord_total ranges valid src_data dst_data)
      | (ColumnData_U64 dst_data st, ColumnData_U64 src_data _) \<Rightarrow>
          map_option (\<lambda>(d, stats). (ColumnData_U64 d st, Statistics_U64 stats))
            (write_slice ord_total ranges valid src_data dst_data)
      | (ColumnData_Bool dst_data st, ColumnData_Bool src_data _) \<Rightarrow>
          map_option (\<lambda>(d, stats). (ColumnData_Bool d st, Statistics_Bool stats))
            (write_ranges (\<lambda>r (d, stats).
                Option.bind (BitSet_extend_from_range src_data (fst r) (snd r) d) (\<lambda>d.
                map_option (Pair d) (compute_stats ord_total valid r (BitSet_get src_data) stats)))
              ranges (dst_data, StatValues_new_empty))
      | (ColumnData_String dst_data st, ColumnData_String src_data _) \<Rightarrow>
          map_option (\<lambda>(d, stats). (ColumnData_String d st, Statistics_String stats))
            (write_ranges (\<lambda>r (d, stats).
                Option.bind (PackedStringArray_extend_from_range src_data (fst r) (snd r) d) (\<lambda>d.
                map_option (Pair d)
                  (compute_stats ord_total valid r
                     (\<lambda>x. Option.bind (PackedStringArray_get src_data x) (\<lambda>v. v)) stats)))
              ranges (dst_data, StatValues_new_empty))
      | (ColumnData_Tag dst_data dst_dict st, ColumnData_Tag src_data src_dict _) \<Rightarrow>
          Option.bind (PackedStringArray_len (sd_storage src_dict)) (\<lambda>len.
            map_option (\<lambda>(d, dict, mapping, stats). (ColumnData_Tag d dict st, Statistics_String stats))
              (write_ranges (\<lambda>r acc.
                  Option.bind (slice (fst r) (snd r) src_data) (\<lambda>ids. copy_dids src_dict ids acc))
                ranges (dst_data, dst_dict, replicate len None, StatValues_new_empty)))
      | _ \<Rightarrow> None)"

definition write_ranges_column :: "range list \<Rightarrow> Batch_Column \<Rightarrow> column_write" where
  "write_ranges_column ranges src_col initial_rows to_insert dst_col =
     (case ranges_column_data ranges (bs_buffer (bc_valid src_col)) (bc_data src_col) (bc_data dst_col) of
        None \<Rightarrow> (Panic, dst_col)
      | Some (data, stats) \<Rightarrow>
          (case write_ranges (\<lambda>r. BitSet_extend_from_range (bc_valid src_col) (fst r) (snd r))
                  ranges (bc_valid dst_col) of
             None \<Rightarrow> (Panic, dst_col\<lparr>bc_data := data\<rparr>)
           | Some v \<Rightarrow> (Ok stats, dst_col\<lparr>bc_data := data, bc_valid := v\<rparr>)))"

definition Writer_write_batch_ranges :: "MutableBatch \<Rightarrow> range list \<Rightarrow> unit writer_call" where
  "Writer_write_batch_ranges src ranges w =
     (if wr_to_insert w = mb_row_count src then Writer_write_batch src w
      else Writer_write_columns (write_ranges_column ranges) src (mb_column_names src) w)"

definition Writer_write_batch_range :: "MutableBatch \<Rightarrow> range \<Rightarrow> unit writer_call" where
  "Writer_write_batch_range src r = Writer_write_batch_ranges src [r]"

section \<open>Commit and rollback\<close>

text \<open>Merging the statistics of the new rows into a column that was written.\<close>

fun commit_column_data :: "nat \<Rightarrow> Statistics \<Rightarrow> ColumnData \<Rightarrow> ColumnData option" where
  "commit_column_data final_rows (Statistics_F64 new) (ColumnData_F64 col_data stats) =
     (if length col_data \<noteq> final_rows then None
      else Some (ColumnData_F64 col_data (StatValues_update_from ord_f64 new stats)))"
| "commit_column_data final_rows (Statistics_I64 new) (ColumnData_I64 col_data stats) =
     (if length col_data \<noteq> final_rows then None
      else Some (ColumnData_I64 col_data (StatValues_update_from ord_total new stats)))"
| "commit_column_data final_rows (Statistics_U64 new) (ColumnData_U64 col_data stats) =
     (if length col_data \<noteq> final_rows then None
      else Some (ColumnData_U64 col_data (StatValues_update_from ord_total new stats)))"
| "commit_column_data final_rows (Statistics_String new) (ColumnData_String col_data stats) =
     (if PackedStringArray_len col_data \<noteq> Some final_rows then None
      else Some (ColumnData_String col_data (StatValues_update_from ord_total new stats)))"
| "commit_column_data final_rows (Statistics_Bool new) (ColumnData_Bool col_data stats) =
     (if bs_len col_data \<noteq> final_rows then None
      else Some (ColumnData_Bool col_data (StatValues_update_from ord_total new stats)))"
| "commit_column_data final_rows (Statistics_String new) (ColumnData_Tag col_data dict stats) =
     (if length col_data \<noteq> final_rows then None
      else
        (let stats = StatValues_update_from ord_total new stats
         in Option.bind (sv_null_count stats) (\<lambda>null_count.
            map_option (\<lambda>len.
                ColumnData_Tag col_data dict (stats\<lparr>sv_distinct_count :=
                  NonZeroU64_new (if null_count = 0 then len else len + 1)\<rparr>))
              (PackedStringArray_len (sd_storage dict)))))"
| "commit_column_data final_rows _ _ = None"

fun commit_columns ::
    "nat \<Rightarrow> nat \<Rightarrow> nat \<Rightarrow> Batch_Column list \<Rightarrow> (nat \<times> Statistics) list \<Rightarrow> Batch_Column list option" where
  "commit_columns initial_rows to_insert col_idx [] statistics = Some []"
| "commit_columns initial_rows to_insert col_idx (col # cols) statistics =
     (let final_rows = initial_rows + to_insert
      in if bs_len (bc_valid col) = initial_rows
         then
           Option.bind (Column_push_nulls_to_len final_rows col) (\<lambda>col.
             map_option ((#) col) (commit_columns initial_rows to_insert (col_idx + 1) cols statistics))
         else if bs_len (bc_valid col) \<noteq> final_rows then None
         else
           (case statistics of
              [] \<Rightarrow> None
            | (stats_col_idx, stats) # statistics \<Rightarrow>
                if stats_col_idx \<noteq> col_idx then None
                else if Statistics_total_count stats \<noteq> to_insert then None
                else
                  Option.bind (commit_column_data final_rows stats (bc_data col)) (\<lambda>data.
                    map_option ((#) (col\<lparr>bc_data := data\<rparr>))
                      (commit_columns initial_rows to_insert (col_idx + 1) cols statistics))))"

definition Writer_commit :: "Writer \<Rightarrow> Writer option" where
  "Writer_commit w =
     (let initial_rows = wr_initial_rows w; to_insert = wr_to_insert w; final_rows = initial_rows + to_insert;
          statistics = sort_key fst (wr_statistics w)
      in map_option (\<lambda>cols.
             w\<lparr>wr_batch := (wr_batch w)\<lparr>mb_columns := cols, mb_row_count := final_rows\<rparr>,
               wr_statistics := statistics, wr_success := True\<rparr>)
           (commit_columns initial_rows to_insert 0 (mb_columns (wr_batch w)) statistics))"

fun rollback_data :: "nat \<Rightarrow> ColumnData \<Rightarrow> ColumnData option" where
  "rollback_data initial_rows (ColumnData_F64 col_data st) = Some (ColumnData_F64 (take initial_rows col_data) st)"
| "rollback_data initial_rows (ColumnData_I64 col_data st) = Some (ColumnData_I64 (take initial_rows col_data) st)"
| "rollback_data initial_rows (ColumnData_U64 col_data st) = Some (ColumnData_U64 (take initial_rows col_data) st)"
| "rollback_data initial_rows (ColumnData_String col_data st) =
     map_option (\<lambda>d. ColumnData_String d st) (PackedStringArray_truncate initial_rows col_data)"
| "rollback_data initial_rows (ColumnData_Bool col_data st) =
     map_option (\<lambda>d. ColumnData_Bool d st) (BitSet_truncate initial_rows col_data)"
| "rollback_data initial_rows (ColumnData_Tag col_data dict st) =
     (let col_data = take initial_rows col_data
      in map_option (\<lambda>dict. ColumnData_Tag col_data dict st)
           (if col_data = [] then Some (StringDictionary_clear dict)
            else StringDictionary_truncate (Max (set col_data)) dict))"

definition rollback_column :: "nat \<Rightarrow> Batch_Column \<Rightarrow> Batch_Column option" where
  "rollback_column initial_rows col =
     Option.bind (BitSet_truncate initial_rows (bc_valid col)) (\<lambda>v.
     Option.bind (rollback_data initial_rows (bc_data col)) (\<lambda>d.
       Some (col\<lparr>bc_valid := v, bc_data := d\<rparr>)))"

definition Writer_drop :: "Writer \<Rightarrow> MutableBatch option" where
  "Writer_drop w =
     (if wr_success w then Some (wr_batch w)
      else
        (let initial_rows = wr_initial_rows w; initial_cols = wr_initial_cols w; batch = wr_batch w;
             batch = (if length (mb_columns batch) \<noteq> initial_cols
                      then batch\<lparr>mb_columns := take initial_cols (mb_columns batch),
                                 mb_column_names := filter (\<lambda>(_, v). v < initial_cols) (mb_column_names batch)\<rparr>
                      else batch)
         in map_option (\<lambda>cols. batch\<lparr>mb_columns := cols\<rparr>)
              (those (map (rollback_column initial_rows) (mb_columns batch)))))"

text \<open>
  A writer that lives for one call: commit when the write succeeded, otherwise roll back as the
  writer goes out of scope, also when the write or the commit panics.  The state that goes with a panic
  is coarse: of a step that panics half way the columns and statistics from before the step are
  taken, here and in the writes of single columns.
\<close>

definition with_writer :: "nat \<Rightarrow> unit writer_call \<Rightarrow> (Writer_Error, MutableBatch, unit) call" where
  "with_writer to_insert f batch =
     (case f (Writer_new batch to_insert) of
        (Ok _, w) \<Rightarrow>
          (case Writer_commit w of
             Some w \<Rightarrow> (Ok (), wr_batch w)
           | None \<Rightarrow>
               (case Writer_drop w of
                  Some b \<Rightarrow> (Panic, b)
                | None \<Rightarrow> (Panic, wr_batch w)))
      | (Err e, w) \<Rightarrow>
          (case Writer_drop w of
             Some b \<Rightarrow> (Err e, b)
           | None \<Rightarrow> (Panic, wr_batch w))
      | (Panic, w) \<Rightarrow>
          (case Writer_drop w of
             Some b \<Rightarrow> (Panic, b)
           | None \<Rightarrow> (Panic, wr_batch w)))"

definition MutableBatch_extend_from :: "MutableBatch \<Rightarrow> (Writer_Error, MutableBatch, unit) call" where
  "MutableBatch_extend_from other = with_writer (mb_row_count other) (Writer_write_batch other)"

definition MutableBatch_extend_from_range :: "MutableBatch \<Rightarrow> range \<Rightarrow> (Writer_Error, MutableBatch, unit) call" where
  "MutableBatch_extend_from_range other r b =
     (if snd r < fst r then (Panic, b)
      else with_writer (snd r - fst r) (Writer_write_batch_range other r) b)"

definition MutableBatch_extend_from_ranges :: "MutableBatch \<Rightarrow> range list \<Rightarrow> (Writer_Error, MutableBatch, unit) call" where
  "MutableBatch_extend_from_ranges other ranges b =
     (if (\<exists>r\<in>set ranges. snd r < fst r) then (Panic, b)
      else with_writer (sum_list (map (\<lambda>r. snd r - fst r) ranges)) (Writer_write_batch_ranges other ranges) b)"

end
