(* ===== verification/Bit_Set_Correct.thy ===== *)
theory Bit_Set_Correct
  imports Bit_Set
begin

text \<open>
  The bit set refines a list of booleans: every operation on a well-formed bit set does what its
  name says on the list, keeps the bit set well formed and does not panic.
\<close>

section \<open>Bits of a byte vector\<close>

definition bit_at :: "byte list \<Rightarrow> nat \<Rightarrow> bool" where
  "bit_at xs i \<longleftrightarrow> i < 8 * length xs \<and> bit (xs ! (i div 8)) (i mod 8)"

lemma byte_bit_ge [simp]: "8 \<le> n \<Longrightarrow> \<not> bit (x :: byte) n"
  using bit_imp_le_length by fastforce

lemma bit_at_Nil [simp]: "\<not> bit_at [] i"
  by (simp add: bit_at_def)

lemma bit_at_ge: "8 * length xs \<le> i \<Longrightarrow> \<not> bit_at xs i"
  by (simp add: bit_at_def)

lemma bit_at_append:
  "bit_at (xs @ ys) i \<longleftrightarrow> (if i < 8 * length xs then bit_at xs i else bit_at ys (i - 8 * length xs))"
proof (cases "i < 8 * length xs")
  case False
  then have "i div 8 = length xs + (i - 8 * length xs) div 8" and "i mod 8 = (i - 8 * length xs) mod 8"
    by (auto simp: not_less le_iff_add)
  with False show ?thesis by (auto simp: bit_at_def nth_append)
qed (auto simp: bit_at_def nth_append)

lemma bit_at_single [simp]: "bit_at [x] i \<longleftrightarrow> bit x i"
  by (cases "i < 8") (auto simp: bit_at_def not_less)

lemma bit_at_Cons: "bit_at (x # xs) i \<longleftrightarrow> (if i < 8 then bit x i else bit_at xs (i - 8))"
  using bit_at_append [of "[x]" xs i] by simp

lemma bit_at_replicate [simp]:
  "bit_at (replicate n x) i \<longleftrightarrow> i < 8 * n \<and> bit x (i mod 8)"
  by (auto simp: bit_at_def)

lemma bit_at_take: "bit_at (take n xs) i \<longleftrightarrow> i < 8 * n \<and> bit_at xs i"
  by (auto simp: bit_at_def)

lemma bit_at_drop: "bit_at (drop n xs) i \<longleftrightarrow> bit_at xs (8 * n + i)"
  by (auto simp: bit_at_def nth_append)

lemma bit_low_mask [simp]: "bit (low_mask n) i \<longleftrightarrow> i < n \<and> i < 8"
  by (auto simp: low_mask_def bit_mask_iff simp flip: mask_eq_exp_minus_1)

lemma bit_255_int [simp]: "bit (255 :: int) i \<longleftrightarrow> i < 8"
proof -
  have "(255 :: int) = mask 8" by (simp add: mask_eq_exp_minus_1)
  then show ?thesis by (simp only: bit_mask_iff) simp
qed

lemma update_last_Some:
  assumes "xs \<noteq> []"
  obtains ys where "update_last f xs = Some ys" and "length ys = length xs"
    and "\<And>i. bit_at ys i \<longleftrightarrow>
      (if i < 8 * (length xs - 1) then bit_at xs i else bit (f (last xs)) (i - 8 * (length xs - 1)))"
proof (rule that)
  show "update_last f xs = Some (butlast xs @ [f (last xs)])" using assms by (simp add: update_last_def)
  show "length (butlast xs @ [f (last xs)]) = length xs" using assms by simp
  show "bit_at (butlast xs @ [f (last xs)]) i \<longleftrightarrow>
      (if i < 8 * (length xs - 1) then bit_at xs i else bit (f (last xs)) (i - 8 * (length xs - 1)))" for i
    using assms bit_at_append [of "butlast xs" "[last xs]" i] by (simp add: bit_at_append)
qed

lemma bit_last: "xs \<noteq> [] \<Longrightarrow> bit (last xs) j \<longleftrightarrow> bit_at xs (8 * (length xs - 1) + j) \<and> j < 8"
  using bit_at_append [of "butlast xs" "[last xs]" "8 * (length xs - 1) + j"] by (cases "j < 8") auto

lemma bytes_for_eq: "bytes_for n = n div 8 + of_bool (n mod 8 \<noteq> 0)"
proof -
  have "n + 7 = 8 * (n div 8) + (n mod 8 + 7)" by simp
  then have "bytes_for n = n div 8 + (n mod 8 + 7) div 8" by (metis div_mult_self4 zero_neq_numeral)
  moreover have "(n mod 8 + 7) div 8 = of_bool (n mod 8 \<noteq> 0)"
    by (cases "n mod 8 = 0") (auto intro: div_nat_eqI)
  ultimately show ?thesis by simp
qed

section \<open>The abstraction\<close>

definition bits :: "BitSet \<Rightarrow> bool list" where
  "bits b = map (bit_at (bs_buffer b)) [0..<bs_len b]"

definition bs_wf :: "BitSet \<Rightarrow> bool" where
  "bs_wf b \<longleftrightarrow> length (bs_buffer b) = bytes_for (bs_len b) \<and> (\<forall>i\<ge>bs_len b. \<not> bit_at (bs_buffer b) i)"

lemma bs_wf_code [code]:
  "bs_wf b \<longleftrightarrow> length (bs_buffer b) = bytes_for (bs_len b)
     \<and> (\<forall>i\<in>set [bs_len b..<8 * length (bs_buffer b)]. \<not> bit_at (bs_buffer b) i)"
  unfolding bs_wf_def by (auto simp: bit_at_def)

lemma length_bits [simp]: "length (bits b) = bs_len b"
  by (simp add: bits_def)

lemma nth_bits [simp]: "i < bs_len b \<Longrightarrow> bits b ! i = bit_at (bs_buffer b) i"
  by (simp add: bits_def)

lemma bit_at_bits: "bs_wf b \<Longrightarrow> bit_at (bs_buffer b) i \<longleftrightarrow> i < bs_len b \<and> bits b ! i"
  by (cases "i < bs_len b") (auto simp: bs_wf_def)

text \<open>How to show that an operation appends \<open>n\<close> bits.\<close>

lemma bits_appendI:
  assumes "bs_wf b" and "length buf = bytes_for (bs_len b + n)" and "length ys = n"
    and "\<And>i. bit_at buf i \<longleftrightarrow> bit_at (bs_buffer b) i \<or> (bs_len b \<le> i \<and> i < bs_len b + n \<and> ys ! (i - bs_len b))"
  shows "bs_wf \<lparr>bs_buffer = buf, bs_len = bs_len b + n\<rparr> \<and> bits \<lparr>bs_buffer = buf, bs_len = bs_len b + n\<rparr> = bits b @ ys"
proof
  show "bs_wf \<lparr>bs_buffer = buf, bs_len = bs_len b + n\<rparr>"
    using assms by (auto simp: bs_wf_def)
  show "bits \<lparr>bs_buffer = buf, bs_len = bs_len b + n\<rparr> = bits b @ ys"
    using assms by (intro nth_equalityI) (auto simp: nth_append bs_wf_def)
qed

lemma len_bound: "bs_wf b \<Longrightarrow> bs_len b \<le> 8 * length (bs_buffer b)"
  by (simp add: bs_wf_def)

lemma skew_last:
  assumes "bs_wf b" and "bs_len b mod 8 \<noteq> 0"
  shows "bs_buffer b \<noteq> []" and "8 * (length (bs_buffer b) - 1) + bs_len b mod 8 = bs_len b"
proof -
  have "length (bs_buffer b) = bs_len b div 8 + 1" using assms unfolding bs_wf_def bytes_for_eq by simp
  then show "bs_buffer b \<noteq> []" and "8 * (length (bs_buffer b) - 1) + bs_len b mod 8 = bs_len b" by auto
qed

text \<open>Clearing the bits of the last byte from position \<open>n\<close> on.\<close>

lemma mask_last:
  assumes l: "length buf = bytes_for n"
  shows "\<exists>b'. (if n mod 8 \<noteq> 0 then update_last (\<lambda>x. x AND low_mask (n mod 8)) buf else Some buf) = Some b'
    \<and> length b' = bytes_for n \<and> (\<forall>i. bit_at b' i \<longleftrightarrow> i < n \<and> bit_at buf i)"
proof (cases "n mod 8 = 0")
  case True
  then have "8 * bytes_for n = n" unfolding bytes_for_eq using mult_div_mod_eq [of 8 n] by simp
  then have "bit_at buf i \<Longrightarrow> i < n" for i using l by (simp add: bit_at_def)
  with True l show ?thesis by auto
next
  case False
  define k where "k = bytes_for n - 1"
  define r where "r = n mod 8"
  have n: "8 * k + r = n" "length buf = Suc k" "r < 8" unfolding k_def r_def l bytes_for_eq using False by simp_all
  then have ne: "buf \<noteq> []" by auto
  obtain ys where ys: "update_last (\<lambda>x. x AND low_mask r) buf = Some ys" "length ys = length buf"
      "\<And>i. bit_at ys i \<longleftrightarrow> (if i < 8 * (length buf - 1) then bit_at buf i
         else bit (last buf AND low_mask r) (i - 8 * (length buf - 1)))"
    by (rule update_last_Some [OF ne, of "\<lambda>x. x AND low_mask r"]) (rule that)
  have "bit_at ys i \<longleftrightarrow> i < n \<and> bit_at buf i" for i
  proof (cases "i < 8 * k")
    case True
    with n show ?thesis by (simp add: ys(3))
  next
    case F: False
    then obtain j where j: "i = 8 * k + j" by (metis le_add_diff_inverse not_less)
    have "i < n \<longleftrightarrow> j < r" using n(1) j by linarith
    with F n j bit_last [OF ne, of j] show ?thesis by (auto simp: ys(3) bit_and_iff)
  qed
  moreover have "(if n mod 8 \<noteq> 0 then update_last (\<lambda>x. x AND low_mask (n mod 8)) buf else Some buf) = Some ys"
    using ys(1) False by (simp only: r_def not_False_eq_True if_True)
  moreover have "length ys = bytes_for n" using ys(2) l by (simp only:)
  ultimately show ?thesis by (intro exI [of _ ys] conjI allI)
qed

section \<open>Appending and truncating\<close>

lemma append_unset_bits:
  assumes "bs_wf b"
  shows "bs_wf (BitSet_append_unset n b) \<and> bits (BitSet_append_unset n b) = bits b @ replicate n False"
proof -
  have le: "length (bs_buffer b) \<le> bytes_for (bs_len b + n)" using assms by (simp add: bs_wf_def)
  have "length (vec_resize (bytes_for (bs_len b + n)) 0 (bs_buffer b)) = bytes_for (bs_len b + n)"
    using le by (auto simp: vec_resize_def)
  moreover have "bit_at (vec_resize (bytes_for (bs_len b + n)) 0 (bs_buffer b)) i \<longleftrightarrow>
      bit_at (bs_buffer b) i \<or> (bs_len b \<le> i \<and> i < bs_len b + n \<and> replicate n False ! (i - bs_len b))" for i
    using le bit_at_ge [of "bs_buffer b" i] by (auto simp: vec_resize_def bit_at_append)
  ultimately show ?thesis
    using bits_appendI [OF assms, of _ n "replicate n False"] by (simp add: BitSet_append_unset_def Let_def)
qed

lemma append_set_bits:
  assumes "bs_wf b"
  shows "\<exists>b'. BitSet_append_set n b = Some b' \<and> bs_wf b' \<and> bits b' = bits b @ replicate n True"
proof -
  let ?skew = "bs_len b mod 8" and ?nl = "bs_len b + n"
  let ?rem = "?nl mod 8"
  have "\<exists>b1. (if ?skew \<noteq> 0 then update_last (\<lambda>x. x OR push_bit ?skew 0xFF) (bs_buffer b) else Some (bs_buffer b)) = Some b1
      \<and> length b1 = length (bs_buffer b)
      \<and> (\<forall>i. bit_at b1 i \<longleftrightarrow> bit_at (bs_buffer b) i \<or> (bs_len b \<le> i \<and> i < 8 * length (bs_buffer b)))"
  proof (cases "?skew = 0")
    case True
    then have "8 * length (bs_buffer b) = bs_len b"
      using assms mult_div_mod_eq [of 8 "bs_len b"] unfolding bs_wf_def bytes_for_eq by simp
    with True show ?thesis by auto
  next
    case False
    note sl = skew_last [OF assms False]
    obtain ys where ys: "update_last (\<lambda>x. x OR push_bit ?skew 0xFF) (bs_buffer b) = Some ys" "length ys = length (bs_buffer b)"
      "\<And>i. bit_at ys i \<longleftrightarrow> (if i < 8 * (length (bs_buffer b) - 1) then bit_at (bs_buffer b) i
         else bit (last (bs_buffer b) OR push_bit ?skew 0xFF) (i - 8 * (length (bs_buffer b) - 1)))"
      by (rule update_last_Some [OF sl(1), of "\<lambda>x. x OR push_bit ?skew 0xFF"]) (rule that)
    have "bit_at ys i \<longleftrightarrow> bit_at (bs_buffer b) i \<or> (bs_len b \<le> i \<and> i < 8 * length (bs_buffer b))" for i
    proof (cases "i < 8 * (length (bs_buffer b) - 1)")
      case True
      with sl(2) show ?thesis by (simp add: ys(3))
    next
      case F: False
      then obtain j where j: "i = 8 * (length (bs_buffer b) - 1) + j" by (metis le_add_diff_inverse not_less)
      from sl(1) have l: "8 * length (bs_buffer b) = 8 * (length (bs_buffer b) - 1) + 8" by (cases "bs_buffer b") auto
      have "bs_len b \<le> i \<longleftrightarrow> ?skew \<le> j" using sl(2) j by linarith
      moreover have "i < 8 * length (bs_buffer b) \<longleftrightarrow> j < 8" using l j by linarith
      ultimately show ?thesis
        using F j bit_last [OF sl(1), of j] bit_at_ge [of "bs_buffer b" i]
        by (auto simp: ys(3) bit_or_iff bit_push_bit_iff not_less)
    qed
    with ys False show ?thesis by auto
  qed
  then obtain b1 where b1: "(if ?skew \<noteq> 0 then update_last (\<lambda>x. x OR push_bit ?skew 0xFF) (bs_buffer b) else Some (bs_buffer b)) = Some b1"
      "length b1 = length (bs_buffer b)"
      "\<And>i. bit_at b1 i \<longleftrightarrow> bit_at (bs_buffer b) i \<or> (bs_len b \<le> i \<and> i < 8 * length (bs_buffer b))" by blast
  let ?b2 = "vec_resize (bytes_for ?nl) 0xFF b1"
  have le: "length b1 \<le> bytes_for ?nl" using assms b1(2) by (simp add: bs_wf_def)
  have l2: "length ?b2 = bytes_for ?nl" using le by (auto simp: vec_resize_def)
  have b2: "bit_at ?b2 i \<longleftrightarrow> bit_at (bs_buffer b) i \<or> (bs_len b \<le> i \<and> i < 8 * bytes_for ?nl)" for i
    using le b1(2,3) len_bound [OF assms] bit_at_ge [of "bs_buffer b" i]
    by (auto simp: vec_resize_def bit_at_append)
  from mask_last [OF l2] obtain b3 where
    b3: "(if ?rem \<noteq> 0 then update_last (\<lambda>x. x AND low_mask ?rem) ?b2 else Some ?b2) = Some b3"
      "length b3 = bytes_for ?nl" "\<And>i. bit_at b3 i \<longleftrightarrow> i < ?nl \<and> bit_at ?b2 i" by blast
  have b3': "bit_at b3 i \<longleftrightarrow> bit_at (bs_buffer b) i \<or> (bs_len b \<le> i \<and> i < ?nl)" for i
  proof -
    have "bit_at (bs_buffer b) i \<Longrightarrow> i < bs_len b" using assms by (auto simp: bs_wf_def not_le [symmetric])
    moreover have "?nl \<le> 8 * bytes_for ?nl" by simp
    ultimately show ?thesis unfolding b3(3) b2 by auto
  qed
  have "BitSet_append_set n b = Some \<lparr>bs_buffer = b3, bs_len = ?nl\<rparr>"
    using b1(1) b3(1) by (simp add: BitSet_append_set_def Let_def)
  moreover have "bs_wf \<lparr>bs_buffer = b3, bs_len = ?nl\<rparr> \<and> bits \<lparr>bs_buffer = b3, bs_len = ?nl\<rparr> = bits b @ replicate n True"
    using b3(2) b3' by (intro bits_appendI [OF assms]) auto
  ultimately show ?thesis by blast
qed

lemma truncate_bits:
  assumes "bs_wf b" and "n \<le> bs_len b"
  shows "\<exists>b'. BitSet_truncate n b = Some b' \<and> bs_wf b' \<and> bits b' = take n (bits b)"
proof -
  let ?buf = "take (bytes_for n) (bs_buffer b)" and ?o = "n mod 8"
  have le: "bytes_for n \<le> length (bs_buffer b)" using assms by (simp add: bs_wf_def)
  have l: "length ?buf = bytes_for n" using le by simp
  from mask_last [OF l] obtain b' where
    b0: "(if ?o \<noteq> 0 then update_last (\<lambda>x. x AND low_mask ?o) ?buf else Some ?buf) = Some b'"
      "length b' = bytes_for n" "\<And>i. bit_at b' i \<longleftrightarrow> i < n \<and> bit_at ?buf i" by blast
  have n8: "n \<le> 8 * bytes_for n" by simp
  have b': "bit_at b' i \<longleftrightarrow> i < n \<and> bit_at (bs_buffer b) i" for i
    unfolding b0(3) bit_at_take using n8 less_le_trans by blast
  have "BitSet_truncate n b = Some \<lparr>bs_buffer = b', bs_len = n\<rparr>"
    using b0(1) by (simp add: BitSet_truncate_def Let_def split: if_splits)
  moreover have "bs_wf \<lparr>bs_buffer = b', bs_len = n\<rparr>" using b' b0(2) by (simp add: bs_wf_def)
  moreover have "bits \<lparr>bs_buffer = b', bs_len = n\<rparr> = take n (bits b)"
    using b' assms by (intro nth_equalityI) auto
  ultimately show ?thesis by blast
qed

section \<open>Appending packed bits\<close>

text \<open>The unaligned loop: the appended bits start at bit \<open>skew\<close> of the last byte.\<close>

lemma append_whole_bytes_Some:
  assumes "buf \<noteq> []" and "skew < 8"
  shows "\<exists>buf'. append_whole_bytes skew xs buf = Some buf' \<and> length buf' = length buf + length xs
    \<and> (\<forall>i. bit_at buf' i \<longleftrightarrow> bit_at buf i
          \<or> (8 * (length buf - 1) + skew \<le> i \<and> bit_at xs (i - (8 * (length buf - 1) + skew))))"
  using assms
proof (induction xs arbitrary: buf)
  case (Cons x xs)
  let ?L = "8 * (length buf - 1)"
  obtain ys where ys: "update_last (\<lambda>y. y OR push_bit skew x) buf = Some ys" "length ys = length buf"
      "\<And>i. bit_at ys i \<longleftrightarrow> (if i < ?L then bit_at buf i else bit (last buf OR push_bit skew x) (i - ?L))"
    by (rule update_last_Some [OF Cons.prems(1), of "\<lambda>y. y OR push_bit skew x"]) (rule that)
  let ?buf = "ys @ [drop_bit (8 - skew) x]"
  from Cons.IH [of ?buf] Cons.prems(2) obtain buf' where buf': "append_whole_bytes skew xs ?buf = Some buf'"
      "length buf' = length ?buf + length xs"
      "\<And>i. bit_at buf' i \<longleftrightarrow> bit_at ?buf i \<or> (8 * (length ?buf - 1) + skew \<le> i \<and> bit_at xs (i - (8 * (length ?buf - 1) + skew)))"
    by auto
  have L: "8 * length buf = ?L + 8" using Cons.prems(1) by (cases buf) auto
  have "bit_at ?buf i \<longleftrightarrow> bit_at buf i \<or> (?L + skew \<le> i \<and> bit x (i - (?L + skew)))" for i
  proof (cases "i < ?L")
    case True
    then show ?thesis using ys L by (simp add: bit_at_append)
  next
    case False
    then obtain j where j: "i = ?L + j" by (metis le_add_diff_inverse not_less)
    show ?thesis
    proof (cases "j < 8")
      case True
      then show ?thesis
        using ys j L bit_last [OF Cons.prems(1), of j] by (auto simp: bit_at_append bit_simps)
    next
      case F: False
      then have "\<not> bit_at buf i" using j L by (intro bit_at_ge) simp
      moreover have "i - (?L + skew) = 8 - skew + (i - (?L + 8))" using F j Cons.prems(2) by simp
      ultimately show ?thesis
        using ys j L F Cons.prems(2) by (auto simp: bit_at_append bit_drop_bit_eq)
    qed
  qed
  note step = this
  have off: "8 * (length ?buf - 1) + skew = ?L + skew + 8" using ys(2) L by simp
  have "bit_at buf' i \<longleftrightarrow> bit_at buf i \<or> (?L + skew \<le> i \<and> bit_at (x # xs) (i - (?L + skew)))" for i
  proof (cases "?L + skew + 8 \<le> i")
    case True
    then have "i - (?L + skew + 8) = i - (?L + skew) - 8" "\<not> bit x (i - (?L + skew))" by simp_all
    with True show ?thesis unfolding buf'(3) off step bit_at_Cons by auto
  next
    case False
    then show ?thesis unfolding buf'(3) off step bit_at_Cons by auto
  qed
  moreover have "append_whole_bytes skew (x # xs) buf = Some buf'" using ys(1) buf'(1) by simp
  moreover have "length buf' = length buf + length (x # xs)" using ys(2) buf'(2) by simp
  ultimately show ?case by blast
qed simp

lemma append_whole_bytes_snoc:
  "append_whole_bytes skew (xs @ [x]) buf = Option.bind (append_whole_bytes skew xs buf) (\<lambda>buf.
     map_option (\<lambda>buf. buf @ [drop_bit (8 - skew) x]) (update_last (\<lambda>y. y OR push_bit skew x) buf))"
  by (induction xs arbitrary: buf) (auto simp: update_last_def split: Option.bind_splits)

lemma bytes_for_add: "bytes_for (8 * q + r) = q + bytes_for r"
proof -
  have "8 * q + r + 7 = 8 * q + (r + 7)" by simp
  then show ?thesis by (metis div_mult_self4 zero_neq_numeral)
qed

lemma bytes_for_small: "0 < r \<Longrightarrow> r \<le> 8 \<Longrightarrow> bytes_for r = 1" "8 < r \<Longrightarrow> r \<le> 16 \<Longrightarrow> bytes_for r = 2"
  by (auto intro: div_nat_eqI)

text \<open>The bytes that are appended, with the bits after the last one cleared.\<close>

definition masked_bytes :: "nat \<Rightarrow> byte list \<Rightarrow> byte list" where
  "masked_bytes n xs = take (n div 8) xs @ (if n mod 8 > 0 then [xs ! (n div 8) AND low_mask (n mod 8)] else [])"

lemma masked_bytes_props:
  assumes "length xs = bytes_for n"
  shows "length (masked_bytes n xs) = bytes_for n" and "bit_at (masked_bytes n xs) i \<longleftrightarrow> i < n \<and> bit_at xs i"
proof -
  let ?w = "n div 8" and ?o = "n mod 8"
  have n: "n = 8 * ?w + ?o" by simp
  have l: "length xs = ?w + of_bool (?o \<noteq> 0)" using assms unfolding bytes_for_eq .
  then show "length (masked_bytes n xs) = bytes_for n" unfolding bytes_for_eq by (auto simp: masked_bytes_def)
  have lt: "length (take ?w xs) = ?w" using l by simp
  show "bit_at (masked_bytes n xs) i \<longleftrightarrow> i < n \<and> bit_at xs i"
  proof (cases "i < 8 * ?w")
    case True
    then have "i < n" using n by linarith
    with True lt show ?thesis by (simp add: masked_bytes_def bit_at_append bit_at_take)
  next
    case False
    then obtain j where j: "i = 8 * ?w + j" by (metis le_add_diff_inverse not_less)
    have i: "i < n \<longleftrightarrow> j < ?o" using n j by linarith
    show ?thesis
    proof (cases "?o = 0")
      case True
      with i False lt show ?thesis by (simp add: masked_bytes_def bit_at_take)
    next
      case o: False
      then have "take ?w xs @ [xs ! ?w] = xs"
        using l take_Suc_conv_app_nth [of ?w xs] by simp
      moreover have "bit_at (take ?w xs @ [xs ! ?w]) i \<longleftrightarrow> bit (xs ! ?w) j"
        unfolding bit_at_append lt using j by simp
      ultimately have "bit_at xs i \<longleftrightarrow> bit (xs ! ?w) j" by (simp only:)
      with i j o lt show ?thesis by (auto simp: masked_bytes_def bit_at_append bit_and_iff)
    qed
  qed
qed

lemma append_bits_bits:
  assumes wf: "bs_wf b" and l: "length xs = bytes_for n"
  shows "\<exists>b'. BitSet_append_bits n xs b = Some b' \<and> bs_wf b' \<and> bits b' = bits b @ map (bit_at xs) [0..<n]"
proof -
  let ?w = "n div 8" and ?o = "n mod 8" and ?skew = "bs_len b mod 8" and ?T = "masked_bytes n xs"
  note T = masked_bytes_props [OF l]
  have enough: "\<not> bytes_for (bs_len b + n) < length (bs_buffer b)" using wf by (simp add: bs_wf_def)
  have result: ?thesis if "BitSet_append_bits n xs b = Some \<lparr>bs_buffer = buf, bs_len = bs_len b + n\<rparr>"
    and "length buf = bytes_for (bs_len b + n)"
    and "\<And>i. bit_at buf i \<longleftrightarrow> bit_at (bs_buffer b) i \<or> (bs_len b \<le> i \<and> bit_at ?T (i - bs_len b))" for buf
  proof -
    have "bit_at buf i \<longleftrightarrow> bit_at (bs_buffer b) i \<or>
        (bs_len b \<le> i \<and> i < bs_len b + n \<and> map (bit_at xs) [0..<n] ! (i - bs_len b))" for i
      unfolding that(3) T(2) by auto
    from bits_appendI [OF wf that(2) _ this] that(1) show ?thesis by auto
  qed
  have len: "bs_len b = 8 * (bs_len b div 8) + ?skew" and n: "n = 8 * ?w + ?o" by simp_all
  show ?thesis
  proof (cases "?skew = 0")
    case True
    have L: "8 * length (bs_buffer b) = bs_len b"
      using wf mult_div_mod_eq [of 8 "bs_len b"] True unfolding bs_wf_def bytes_for_eq by simp
    show ?thesis
    proof (rule result [of "bs_buffer b @ ?T"])
      show "BitSet_append_bits n xs b = Some \<lparr>bs_buffer = bs_buffer b @ ?T, bs_len = bs_len b + n\<rparr>"
        using l enough True by (simp add: BitSet_append_bits_def masked_bytes_def Let_def)
      show "length (bs_buffer b @ ?T) = bytes_for (bs_len b + n)"
        using T(1) bytes_for_add [of "length (bs_buffer b)" n] unfolding L by simp
      show "bit_at (bs_buffer b @ ?T) i \<longleftrightarrow> bit_at (bs_buffer b) i \<or> (bs_len b \<le> i \<and> bit_at ?T (i - bs_len b))" for i
        using bit_at_ge [of "bs_buffer b" i] unfolding bit_at_append L by auto
    qed
  next
    case False
    note sl = skew_last [OF wf False]
    have s8: "?skew < 8" and lb: "length (bs_buffer b) = bs_len b div 8 + 1"
      using wf False unfolding bs_wf_def bytes_for_eq by simp_all
    from append_whole_bytes_Some [OF sl(1) s8, of ?T] obtain B where
      B: "append_whole_bytes ?skew ?T (bs_buffer b) = Some B" "length B = length (bs_buffer b) + length ?T"
         "\<And>i. bit_at B i \<longleftrightarrow> bit_at (bs_buffer b) i \<or> (bs_len b \<le> i \<and> bit_at ?T (i - bs_len b))"
      unfolding sl(2) by blast
    have total: "bs_len b + n = 8 * (bs_len b div 8 + ?w) + (?skew + ?o)" using len n by simp
    show ?thesis
    proof (cases "?o = 0")
      case True
      show ?thesis
      proof (rule result [OF _ _ B(3)])
        show "BitSet_append_bits n xs b = Some \<lparr>bs_buffer = B, bs_len = bs_len b + n\<rparr>"
          using l enough False True B(1) by (simp add: BitSet_append_bits_def masked_bytes_def Let_def)
        show "length B = bytes_for (bs_len b + n)"
          unfolding total bytes_for_add B(2) T(1) lb using True False s8 bytes_for_small(1) [of ?skew]
          by (simp add: bytes_for_eq)
      qed
    next
      case o: False
      let ?m = "xs ! ?w AND low_mask ?o"
      have Tsplit: "?T = take ?w xs @ [?m]" using o by (simp add: masked_bytes_def)
      from B(1) obtain B1 B2 where B12: "append_whole_bytes ?skew (take ?w xs) (bs_buffer b) = Some B1"
          "update_last (\<lambda>y. y OR push_bit ?skew ?m) B1 = Some B2" "B = B2 @ [drop_bit (8 - ?skew) ?m]"
        unfolding Tsplit append_whole_bytes_snoc by (auto simp: bind_eq_Some_conv)
      have lT: "length ?T = ?w + 1" using T(1) o unfolding bytes_for_eq by simp
      have res: "BitSet_append_bits n xs b
          = Some \<lparr>bs_buffer = (if ?o > 8 - ?skew then B else B2), bs_len = bs_len b + n\<rparr>"
        using l enough False o B12 by (simp add: BitSet_append_bits_def Let_def)
      show ?thesis
      proof (cases "?o > 8 - ?skew")
        case True
        show ?thesis
        proof (rule result [OF _ _ B(3)])
          show "BitSet_append_bits n xs b = Some \<lparr>bs_buffer = B, bs_len = bs_len b + n\<rparr>" using res True by simp
          have "8 < ?skew + ?o" "?skew + ?o \<le> 16" using True s8 by linarith+
          then show "length B = bytes_for (bs_len b + n)"
            unfolding total bytes_for_add B(2) lT lb using bytes_for_small(2) [of "?skew + ?o"] by simp
        qed
      next
        case small: False
        show ?thesis
        proof (rule result [of B2])
          show "BitSet_append_bits n xs b = Some \<lparr>bs_buffer = B2, bs_len = bs_len b + n\<rparr>" using res small by simp
          have "0 < ?skew + ?o" "?skew + ?o \<le> 8" using small o s8 by linarith+
          moreover have "length B2 = length (bs_buffer b) + ?w" using B(2) lT B12(3) by simp
          ultimately show "length B2 = bytes_for (bs_len b + n)"
            unfolding total bytes_for_add lb using bytes_for_small(1) [of "?skew + ?o"] by simp
          have "\<not> bit (drop_bit (8 - ?skew) ?m) j" for j using small by (auto simp: bit_drop_bit_eq bit_and_iff)
          then have "bit_at B2 i \<longleftrightarrow> bit_at B i" for i
            using bit_at_ge [of B2 i] unfolding B12(3) bit_at_append bit_at_single by auto
          then show "bit_at B2 i \<longleftrightarrow> bit_at (bs_buffer b) i \<or> (bs_len b \<le> i \<and> bit_at ?T (i - bs_len b))" for i
            unfolding B(3) by simp
        qed
      qed
    qed
  qed
qed

lemma map_bit_at_bits: "map (bit_at (bs_buffer b)) [0..<bs_len b] = bits b"
  by (simp add: bits_def)

lemma extend_from_bits:
  assumes "bs_wf b" and "bs_wf other"
  shows "\<exists>b'. BitSet_extend_from other b = Some b' \<and> bs_wf b' \<and> bits b' = bits b @ bits other"
  using append_bits_bits [OF assms(1), of "bs_buffer other" "bs_len other"] assms(2)
  by (simp add: BitSet_extend_from_def map_bit_at_bits bs_wf_def)

lemma take_drop_bits:
  "i \<le> j \<Longrightarrow> j \<le> bs_len b \<Longrightarrow>
     take (j - i) (drop i (bits b)) = map (\<lambda>k. bit_at (bs_buffer b) (i + k)) [0..<j - i]"
  by (rule nth_equalityI) auto

lemma append_bits_shifted:
  assumes "bs_wf b" and "length xs = bytes_for n" and "\<And>k. k < n \<Longrightarrow> bit_at xs k \<longleftrightarrow> f k"
  shows "\<exists>b'. BitSet_append_bits n xs b = Some b' \<and> bs_wf b' \<and> bits b' = bits b @ map f [0..<n]"
proof -
  have "map (bit_at xs) [0..<n] = map f [0..<n]" using assms(3) by simp
  with append_bits_bits [OF assms(1,2)] show ?thesis by simp
qed

lemma slice_Some: "i \<le> j \<Longrightarrow> j \<le> length xs \<Longrightarrow> slice i j xs = Some (take (j - i) (drop i xs))"
  by (simp add: slice_def)

text \<open>
  The bytes \<open>i..j\<close> of a buffer hold the bits from \<open>8 * i\<close> on.
\<close>

lemma append_slice:
  assumes "bs_wf b" and "j = i + bytes_for n" and "j \<le> length buf"
  shows "\<exists>b'. Option.bind (slice i j buf) (\<lambda>bytes. BitSet_append_bits n bytes b) = Some b' \<and> bs_wf b'
    \<and> bits b' = bits b @ map (\<lambda>k. bit_at buf (8 * i + k)) [0..<n]"
proof -
  define m where "m = bytes_for n"
  have n: "n \<le> 8 * m" by (simp add: m_def)
  have j: "j = i + m" using assms(2) by (simp add: m_def)
  let ?bytes = "take m (drop i buf)"
  have "slice i j buf = Some ?bytes" using assms(3) j by (simp add: slice_def)
  moreover have "length ?bytes = bytes_for n" using assms(3) j by (simp add: m_def [symmetric])
  then have "\<exists>b'. BitSet_append_bits n ?bytes b = Some b' \<and> bs_wf b'
      \<and> bits b' = bits b @ map (\<lambda>k. bit_at buf (8 * i + k)) [0..<n]"
    by (rule append_bits_shifted [OF assms(1)]) (use n in \<open>simp add: bit_at_take bit_at_drop\<close>)
  ultimately show ?thesis by simp
qed

lemma append_shifted_byte:
  assumes "bs_wf b" and "q < length buf" and "r < 8" and "0 < n" and "r + n \<le> 8"
  shows "\<exists>b'. BitSet_append_bits n [drop_bit r (buf ! q)] b = Some b' \<and> bs_wf b'
    \<and> bits b' = bits b @ map (\<lambda>k. bit_at buf (8 * q + r + k)) [0..<n]"
proof (rule append_bits_shifted [OF assms(1)])
  show "length [drop_bit r (buf ! q)] = bytes_for n" using assms(4,5) by (simp add: bytes_for_small(1))
next
  fix k assume "k < n"
  then have k: "r + k < 8" using assms(5) by simp
  have sk: "8 * q + r + k = 8 * q + (r + k)" by simp
  have "(8 * q + r + k) div 8 = q" "(8 * q + r + k) mod 8 = r + k" using k by (subst sk, simp)+
  moreover have "8 * q + r + k < 8 * length buf" using k assms(2) by linarith
  ultimately show "bit_at [drop_bit r (buf ! q)] k \<longleftrightarrow> bit_at buf (8 * q + r + k)"
    by (simp add: bit_at_def [of buf] bit_drop_bit_eq)
qed

lemma map_upt_split:
  "i \<le> (n :: nat) \<Longrightarrow> map f [0..<i] @ map (\<lambda>k. f (i + k)) [0..<n - i] = map f [0..<n]"
  by (rule nth_equalityI) (auto simp: nth_append)

lemma extend_from_range_bits:
  assumes wf: "bs_wf b" "bs_wf other" and le: "s \<le> e" "e \<le> bs_len other"
  shows "\<exists>b'. BitSet_extend_from_range other s e b = Some b' \<and> bs_wf b'
    \<and> bits b' = bits b @ take (e - s) (drop s (bits other))"
proof (cases "e = s")
  case True
  with wf show ?thesis by (simp add: BitSet_extend_from_range_def)
next
  case False
  let ?buf = "bs_buffer other"
  define q r c where "q = s div 8" and "r = s mod 8" and "c = e - s"
  have s: "s = 8 * q + r" and r8: "r < 8" by (simp_all add: q_def r_def)
  have e: "e = 8 * q + (r + c)" and c: "0 < c" using False le s by (simp_all add: c_def)
  define B where "B = bytes_for (r + c)"
  have eb: "bytes_for e = q + B" unfolding e B_def by (rule bytes_for_add)
  have rc: "r + c \<le> 8 * B" by (simp add: B_def)
  then have "B \<noteq> 0" using c by auto
  have "bytes_for e \<le> length ?buf" using wf(2) le by (simp add: bs_wf_def div_le_mono)
  then have blen: "q + B \<le> length ?buf" by (simp only: eb)
  have target: "take (e - s) (drop s (bits other)) = map (\<lambda>k. bit_at ?buf (8 * q + r + k)) [0..<c]"
    unfolding take_drop_bits [OF le] s [symmetric] c_def ..
  have unf: "BitSet_extend_from_range other s e b =
      (if r = 0 then Option.bind (slice q (q + B) ?buf) (\<lambda>bytes. BitSet_append_bits c bytes b)
       else if B = 1 then BitSet_append_bits c [drop_bit r (?buf ! q)] b
       else Option.bind (BitSet_append_bits (8 - r) [drop_bit r (?buf ! q)] b)
          (\<lambda>b. Option.bind (slice (q + 1) (q + B) ?buf) (\<lambda>bytes. BitSet_append_bits (c - (8 - r)) bytes b)))"
    using le c blen \<open>B \<noteq> 0\<close>
    unfolding BitSet_extend_from_range_def Let_def eb q_def [symmetric] r_def [symmetric] c_def [symmetric]
    by simp
  consider "r = 0" | "r \<noteq> 0" "B = 1" | "r \<noteq> 0" "2 \<le> B" using \<open>B \<noteq> 0\<close> by linarith
  then show ?thesis
  proof cases
    case 1
    with append_slice [OF wf(1) _ blen, of q c] show ?thesis unfolding unf target B_def by simp
  next
    case 2
    then have "r + c \<le> 8" using rc by simp
    with append_shifted_byte [OF wf(1) _ r8 c, of q ?buf] 2 blen show ?thesis unfolding unf target by simp
  next
    case 3
    then have big: "8 < r + c" using bytes_for_small(1) [of "r + c"] c by (fastforce simp: B_def)
    then have "r + c = 8 * 1 + (c - (8 - r))" using r8 by simp
    then have B: "B = 1 + bytes_for (c - (8 - r))" unfolding B_def by (metis bytes_for_add)
    from append_shifted_byte [OF wf(1) _ r8, of q ?buf "8 - r"] blen \<open>B \<noteq> 0\<close> r8
    obtain b1 where b1: "BitSet_append_bits (8 - r) [drop_bit r (?buf ! q)] b = Some b1" "bs_wf b1"
      "bits b1 = bits b @ map (\<lambda>k. bit_at ?buf (8 * q + r + k)) [0..<8 - r]" by auto
    from append_slice [OF b1(2) _ blen, of "q + 1" "c - (8 - r)"] B
    obtain b2 where b2: "Option.bind (slice (q + 1) (q + B) ?buf) (\<lambda>bytes. BitSet_append_bits (c - (8 - r)) bytes b1) = Some b2"
      "bs_wf b2" "bits b2 = bits b1 @ map (\<lambda>k. bit_at ?buf (8 * (q + 1) + k)) [0..<c - (8 - r)]" by auto
    have "(\<lambda>k. bit_at ?buf (8 * (q + 1) + k)) = (\<lambda>k. bit_at ?buf (8 * q + r + (8 - r + k)))"
      using r8 by (simp add: algebra_simps)
    then have "bits b2 = bits b @ map (\<lambda>k. bit_at ?buf (8 * q + r + k)) [0..<c]"
      using map_upt_split [of "8 - r" c "\<lambda>k. bit_at ?buf (8 * q + r + k)"] big by (simp only: b1 b2) simp
    with b1 b2 3 show ?thesis unfolding unf target by simp
  qed
qed

section \<open>Reading and setting one bit\<close>

lemma get_bits:
  assumes "bs_wf b" and "i < bs_len b"
  shows "BitSet_get b i = Some (bits b ! i)"
proof -
  have "i < 8 * length (bs_buffer b)" using assms len_bound [of b] by simp
  then have "i div 8 < length (bs_buffer b)" by (simp add: div_less_iff_less_mult mult.commute)
  then show ?thesis using assms \<open>i < 8 * length (bs_buffer b)\<close>
    by (simp add: BitSet_get_def Let_def bit_at_def bit_iff_odd_drop_bit odd_iff_mod_2_eq_one and_one_eq)
qed

lemma bit_at_update:
  assumes "q < length xs" and "r < 8"
  shows "bit_at (xs[q := xs ! q OR push_bit r 1]) j \<longleftrightarrow> bit_at xs j \<or> j = 8 * q + r"
proof -
  have "j = 8 * q + r \<longleftrightarrow> j div 8 = q \<and> j mod 8 = r" using assms(2) by auto
  moreover have "bit (push_bit r 1 :: byte) i \<longleftrightarrow> i = r" if "i < 8" for i
    using that assms(2) by (auto simp: bit_push_bit_iff bit_1_iff simp del: push_bit_of_1)
  moreover have "j < 8 * length xs \<longleftrightarrow> j div 8 < length xs" by (simp add: div_less_iff_less_mult mult.commute)
  ultimately show ?thesis using assms
    by (cases "j div 8 = q") (simp_all add: bit_at_def bit_or_iff del: push_bit_of_1)
qed

lemma set_bits:
  assumes "bs_wf b" and "i < bs_len b"
  shows "\<exists>b'. BitSet_set i b = Some b' \<and> bs_wf b' \<and> bits b' = (bits b)[i := True]"
proof -
  have q: "i div 8 < length (bs_buffer b)"
    using assms len_bound [of b] by (simp add: div_less_iff_less_mult mult.commute)
  define buf where "buf = (bs_buffer b)[i div 8 := bs_buffer b ! (i div 8) OR push_bit (i mod 8) 1]"
  have bit: "bit_at buf j \<longleftrightarrow> bit_at (bs_buffer b) j \<or> j = i" for j
    using bit_at_update [OF q, of "i mod 8" j] by (simp add: buf_def)
  have "length buf = length (bs_buffer b)" by (simp add: buf_def)
  then have "bs_wf (b\<lparr>bs_buffer := buf\<rparr>)" using assms bit by (auto simp: bs_wf_def)
  moreover have "bits (b\<lparr>bs_buffer := buf\<rparr>) = (bits b)[i := True]"
  proof (rule nth_equalityI)
    fix j assume "j < length (bits (b\<lparr>bs_buffer := buf\<rparr>))"
    then have j: "j < bs_len b" by simp
    then show "bits (b\<lparr>bs_buffer := buf\<rparr>) ! j = (bits b)[i := True] ! j"
      by (cases "j = i") (simp_all add: bit)
  qed simp
  ultimately show ?thesis using q assms(2) by (simp add: BitSet_set_def Let_def buf_def)
qed

section \<open>The positions that are set\<close>

lemma filter_find:
  "distinct xs \<Longrightarrow> find P xs = Some j \<Longrightarrow> filter P xs = j # filter (\<lambda>i. P i \<and> i \<noteq> j) xs"
  by (induction xs) (auto split: if_splits intro: filter_cong)

lemma byte_positions_filter: "byte_positions k x = map (\<lambda>j. 8 * k + j) (filter (bit x) [0..<8])"
proof (induction k x rule: byte_positions.induct)
  case (1 k x)
  show ?case
  proof (cases "x = 0")
    case False
    let ?j = "trailing_zeros x"
    have j: "bit x ?j" "?j < 8" using trailing_zeros_bit [OF False] by auto
    obtain j where "find (bit x) [0..<8] = Some j"
      using j by (cases "find (bit x) [0..<8]") (auto simp: find_None_iff)
    then have "find (bit x) [0..<8] = Some ?j" by (simp add: trailing_zeros_def)
    then have "filter (bit x) [0..<8] = ?j # filter (\<lambda>i. bit x i \<and> i \<noteq> ?j) [0..<8]"
      by (rule filter_find [rotated]) simp
    moreover have "(\<lambda>i. bit x i \<and> i \<noteq> ?j) = bit (x XOR push_bit ?j 1)" using j by (auto simp: fun_eq_iff)
    ultimately show ?thesis using 1 [OF False refl] False
      by (simp add: byte_positions.simps [of k x] Let_def del: push_bit_of_1 bit_clear)
  qed (simp add: byte_positions.simps)
qed

lemma upt_add_map: "[m..<m + n] = map (\<lambda>i. m + i) [0..<n]"
  by (induction n) auto

lemma positions_from_filter:
  "positions_from k x xs = map (\<lambda>i. 8 * k + i) (filter (bit_at (x # xs)) [0..<8 * length (x # xs)])"
proof (induction xs arbitrary: k x)
  case Nil
  then show ?case by (simp add: byte_positions_filter comp_def)
next
  case (Cons y xs)
  have "[0..<8 * length (x # y # xs)] = [0..<8 + 8 * length (y # xs)]" by simp
  then have "[0..<8 * length (x # y # xs)] = [0..<8] @ map (\<lambda>i. 8 + i) [0..<8 * length (y # xs)]"
    by (simp only: upt_add_map [symmetric] upt_add_eq_append [of 0 8, simplified])
  moreover have "filter (bit_at (x # y # xs)) [0..<8] = filter (bit x) [0..<8]"
    by (rule filter_cong) (simp_all add: bit_at_Cons)
  moreover have "filter (bit_at (x # y # xs)) (map (\<lambda>i. 8 + i) zs) = map (\<lambda>i. 8 + i) (filter (bit_at (y # xs)) zs)" for zs
    by (simp add: filter_map comp_def bit_at_Cons [of x])
  ultimately show ?case by (simp only: positions_from.simps Cons.IH byte_positions_filter filter_append map_append map_map)
    (simp add: comp_def algebra_simps)
qed

lemma iter_set_positions_with_offset_filter:
  "iter_set_positions_with_offset bytes off = filter (bit_at bytes) [off..<8 * length bytes]"
proof (cases "off div 8 < length bytes")
  case True
  define q r where "q = off div 8" and "r = off mod 8"
  have off: "off = 8 * q + r" "r < 8" by (simp_all add: q_def r_def)
  have q: "q < length bytes" using True by (simp add: q_def)
  let ?y = "bytes ! q AND push_bit r 0xFF" and ?ys = "drop (q + 1) bytes"
  have eq: "drop q bytes = bytes ! q # ?ys" using q by (simp add: Cons_nth_drop_Suc)
  have "bit_at (?y # ?ys) i \<longleftrightarrow> bit_at bytes (8 * q + i) \<and> r \<le> i" for i
    using off(2) unfolding bit_at_drop [symmetric] eq bit_at_Cons
    by (auto simp: bit_and_iff bit_push_bit_iff)
  then have "filter (bit_at (?y # ?ys)) [0..<8 * length (?y # ?ys)]
      = filter (\<lambda>i. bit_at bytes (8 * q + i) \<and> r \<le> i) [0..<8 * (length bytes - q)]"
    using q Suc_diff_Suc [OF q] by (intro filter_cong) (simp_all flip: mult_Suc_right)
  moreover have "map (\<lambda>i. 8 * q + i) (filter (\<lambda>i. bit_at bytes (8 * q + i) \<and> r \<le> i) [0..<8 * (length bytes - q)])
      = filter (bit_at bytes) [off..<8 * length bytes]"
  proof (rule sorted_distinct_set_unique)
    show "sorted (map (\<lambda>i. 8 * q + i) (filter (\<lambda>i. bit_at bytes (8 * q + i) \<and> r \<le> i) [0..<8 * (length bytes - q)]))"
      by (simp add: sorted_map sorted_wrt_filter strict_sorted_imp_sorted)
    show "set (map (\<lambda>i. 8 * q + i) (filter (\<lambda>i. bit_at bytes (8 * q + i) \<and> r \<le> i) [0..<8 * (length bytes - q)]))
        = set (filter (bit_at bytes) [off..<8 * length bytes])"
    proof (intro set_eqI iffI)
      fix i assume "i \<in> set (filter (bit_at bytes) [off..<8 * length bytes])"
      then show "i \<in> set (map (\<lambda>i. 8 * q + i) (filter (\<lambda>i. bit_at bytes (8 * q + i) \<and> r \<le> i) [0..<8 * (length bytes - q)]))"
        using off q by (auto simp: image_iff intro!: exI [of _ "i - 8 * q"])
    qed (use off in auto)
  qed (simp_all add: distinct_map inj_on_def sorted_wrt_filter)
  ultimately show ?thesis
    using q by (simp add: iter_set_positions_with_offset_def Let_def positions_from_filter q_def [symmetric] r_def [symmetric])
next
  case False
  then have "8 * length bytes \<le> off" "drop (off div 8 + 1) bytes = []" by simp_all
  with False show ?thesis
    by (simp add: iter_set_positions_with_offset_def Let_def byte_positions.simps)
qed

section \<open>All set, none set\<close>

lemma byte_zero_iff: "(x :: byte) = 0 \<longleftrightarrow> (\<forall>i<8. \<not> bit x i)"
  by (metis bit_eqI bit_0_eq bot_apply bot_bool_def byte_bit_ge not_less)

lemma bit_at_nth: "q < length xs \<Longrightarrow> r < 8 \<Longrightarrow> bit_at xs (8 * q + r) \<longleftrightarrow> bit (xs ! q) r"
  by (simp add: bit_at_def)

lemma is_all_unset_iff: "bs_wf b \<Longrightarrow> BitSet_is_all_unset b \<longleftrightarrow> True \<notin> set (bits b)"
proof -
  assume wf: "bs_wf b"
  have "BitSet_is_all_unset b \<longleftrightarrow> (\<forall>i. \<not> bit_at (bs_buffer b) i)"
  proof
    assume "BitSet_is_all_unset b"
    then have "bs_buffer b ! q = 0" if "q < length (bs_buffer b)" for q
      using that nth_mem by (auto simp: BitSet_is_all_unset_def)
    then show "\<forall>i. \<not> bit_at (bs_buffer b) i"
      by (simp add: bit_at_def div_less_iff_less_mult mult.commute)
  next
    assume none: "\<forall>i. \<not> bit_at (bs_buffer b) i"
    show "BitSet_is_all_unset b"
      unfolding BitSet_is_all_unset_def
    proof
      fix v assume "v \<in> set (bs_buffer b)"
      then obtain q where "q < length (bs_buffer b)" "v = bs_buffer b ! q" by (auto simp: in_set_conv_nth)
      with none show "v = 0" by (auto simp: byte_zero_iff simp flip: bit_at_nth)
    qed
  qed
  also have "\<dots> \<longleftrightarrow> True \<notin> set (bits b)"
    by (simp only: bit_at_bits [OF wf] in_set_conv_nth length_bits) blast
  finally show ?thesis .
qed

section \<open>The bit set as a list of booleans\<close>

text \<open>
  The operations that change a bit set, and what each of them does to the list of its bits; the list
  operation is undefined where the code has no meaning (a bit outside the set, a range that is not
  inside the other set, a buffer of the wrong length).
\<close>

datatype bit_op = Append_unset nat | Append_set nat | Truncate nat | Append_bits nat "byte list"
  | Extend_from BitSet | Extend_from_range BitSet nat nat | Set_bit nat

fun BitSet_step :: "bit_op \<Rightarrow> BitSet \<Rightarrow> BitSet option" where
  "BitSet_step (Append_unset n) b = Some (BitSet_append_unset n b)"
| "BitSet_step (Append_set n) b = BitSet_append_set n b"
| "BitSet_step (Truncate n) b = BitSet_truncate n b"
| "BitSet_step (Append_bits n xs) b = BitSet_append_bits n xs b"
| "BitSet_step (Extend_from other) b = BitSet_extend_from other b"
| "BitSet_step (Extend_from_range other s e) b = BitSet_extend_from_range other s e b"
| "BitSet_step (Set_bit i) b = BitSet_set i b"

fun bool_list_step :: "bit_op \<Rightarrow> bool list \<Rightarrow> bool list option" where
  "bool_list_step (Append_unset n) xs = Some (xs @ replicate n False)"
| "bool_list_step (Append_set n) xs = Some (xs @ replicate n True)"
| "bool_list_step (Truncate n) xs = (if n \<le> length xs then Some (take n xs) else None)"
| "bool_list_step (Append_bits n bytes) xs =
     (if length bytes = bytes_for n then Some (xs @ map (bit_at bytes) [0..<n]) else None)"
| "bool_list_step (Extend_from other) xs = (if bs_wf other then Some (xs @ bits other) else None)"
| "bool_list_step (Extend_from_range other s e) xs =
     (if bs_wf other \<and> s \<le> e \<and> e \<le> bs_len other then Some (xs @ take (e - s) (drop s (bits other))) else None)"
| "bool_list_step (Set_bit i) xs = (if i < length xs then Some (xs[i := True]) else None)"

interpretation bs: data_refinement bool_list_step BitSet_step bits bs_wf
proof
  fix c op a assume "bs_wf c" "bool_list_step op (bits c) = Some a"
  then show "\<exists>c'. BitSet_step op c = Some c' \<and> bs_wf c' \<and> bits c' = a"
    by (cases op) (auto split: if_splits simp: append_unset_bits append_set_bits truncate_bits append_bits_bits
      extend_from_bits extend_from_range_bits set_bits)
qed

lemma iter_set_positions_bits:
  assumes "bs_wf b"
  shows "iter_set_positions (bs_buffer b) = filter (\<lambda>i. bits b ! i) [0..<bs_len b]"
proof -
  have "[0..<8 * length (bs_buffer b)] = [0..<bs_len b] @ [bs_len b..<8 * length (bs_buffer b)]"
    using len_bound [OF assms] by (metis le0 le_Suc_ex upt_add_eq_append)
  moreover have "filter (bit_at (bs_buffer b)) [0..<bs_len b] = filter (\<lambda>i. bits b ! i) [0..<bs_len b]"
    by (rule filter_cong) simp_all
  moreover have "filter (bit_at (bs_buffer b)) [bs_len b..<8 * length (bs_buffer b)] = []"
    using assms by (simp add: bs_wf_def filter_empty_conv)
  ultimately show ?thesis by (simp add: iter_set_positions_def iter_set_positions_with_offset_filter)
qed

lemma bs_wf_new [simp]: "bs_wf BitSet_new" "bits BitSet_new = []"
  by (simp_all add: bs_wf_def BitSet_new_def bits_def)

text \<open>
  C26. The packed bit set of \<open>arrow_util::bitset\<close> implements a list of booleans.  Whatever sequence of
  operations is run on a new set, if each operation makes sense on the list of booleans, then no
  operation panics, the bytes stay well-formed (exactly as many as needed, nothing set past the end), the
  bits are those of the list, \<open>get\<close> reads the element of the list, \<open>iter_set_positions\<close> enumerates, in
  increasing order, exactly the indices that are true, and \<open>is_all_unset\<close> tells whether there is none.
\<close>

theorem BitSet_refines_bool_list:
  assumes "run_ops bool_list_step ops [] = Some xs"
  shows "\<exists>b. run_ops BitSet_step ops BitSet_new = Some b \<and> bs_wf b \<and> bits b = xs
    \<and> (\<forall>i<length xs. BitSet_get b i = Some (xs ! i))
    \<and> iter_set_positions (bs_buffer b) = filter (\<lambda>i. xs ! i) [0..<length xs]
    \<and> (BitSet_is_all_unset b \<longleftrightarrow> True \<notin> set xs)"
proof -
  from bs.run_refines [of BitSet_new ops xs] assms
  obtain b where b: "run_ops BitSet_step ops BitSet_new = Some b" "bs_wf b" "bits b = xs" by auto
  moreover have "length xs = bs_len b" using b(3) by auto
  ultimately show ?thesis using b(3) get_bits iter_set_positions_bits is_all_unset_iff by auto
qed

theorem BitSet_refines_bool_list_witness:
  "\<exists>b. run_ops BitSet_step [Append_unset 3, Append_set 9, Set_bit 1, Truncate 11, Append_bits 2 [0xFD]] BitSet_new = Some b
     \<and> bs_wf b \<and> bits b = [False, True, False, True, True, True, True, True, True, True, True, True, False]
     \<and> iter_set_positions (bs_buffer b) = [1, 3, 4, 5, 6, 7, 8, 9, 10, 11]"
proof -
  let ?xs = "[False, True, False, True, True, True, True, True, True, True, True, True, False]"
  have "run_ops bool_list_step [Append_unset 3, Append_set 9, Set_bit 1, Truncate 11, Append_bits 2 [0xFD]] [] = Some ?xs"
    by code_simp
  moreover have "filter (\<lambda>i. ?xs ! i) [0..<length ?xs] = [1, 3, 4, 5, 6, 7, 8, 9, 10, 11]" by code_simp
  ultimately show ?thesis using BitSet_refines_bool_list by metis
qed

lemma all_bytes_full: "(\<forall>v\<in>set xs. v = 0xFF) \<longleftrightarrow> (\<forall>i<8 * length xs. bit_at xs i)"
proof (induction xs)
  case (Cons x xs)
  have "x = 0xFF \<longleftrightarrow> (\<forall>i<8. bit x i)"
  proof
    assume "\<forall>i<8. bit x i"
    then show "x = 0xFF" by (intro bit_word_eqI) (simp add: bit_simps)
  qed (simp add: bit_simps)
  moreover have "(\<forall>i<8 * length (x # xs). bit_at (x # xs) i) \<longleftrightarrow> (\<forall>i<8. bit x i) \<and> (\<forall>i<8 * length xs. bit_at xs i)"
  proof (intro iffI conjI allI impI)
    assume all: "\<forall>i<8 * length (x # xs). bit_at (x # xs) i"
    show "bit x i" if "i < 8" for i using all [rule_format, of i] that by (simp add: bit_at_Cons)
    show "bit_at xs i" if "i < 8 * length xs" for i using all [rule_format, of "i + 8"] that by (simp add: bit_at_Cons)
  next
    fix i assume "(\<forall>i<8. bit x i) \<and> (\<forall>i<8 * length xs. bit_at xs i)" and "i < 8 * length (x # xs)"
    then show "bit_at (x # xs) i" by (cases "i < 8") (auto simp: bit_at_Cons)
  qed
  ultimately show ?case using Cons.IH by simp
qed simp

lemma last_byte_full:
  assumes "bs_wf b" and "bs_len b \<noteq> 0"
  shows "bs_buffer b \<noteq> []"
    and "last (bs_buffer b) = (if bs_len b mod 8 = 0 then 0xFF else NOT (push_bit (bs_len b mod 8) 0xFF))
      \<longleftrightarrow> (\<forall>i. 8 * (length (bs_buffer b) - 1) \<le> i \<and> i < bs_len b \<longrightarrow> bit_at (bs_buffer b) i)"
proof -
  let ?n = "bs_len b" and ?l = "8 * (length (bs_buffer b) - 1)"
  have len: "length (bs_buffer b) = ?n div 8 + of_bool (?n mod 8 \<noteq> 0)" using assms(1) by (simp add: bs_wf_def bytes_for_eq)
  then show ne: "bs_buffer b \<noteq> []" using assms(2) by (auto simp: length_0_conv [symmetric] simp del: length_0_conv)
  have l: "?l + (if ?n mod 8 = 0 then 8 else ?n mod 8) = ?n" using len assms(2) by (cases "?n mod 8 = 0"; cases "bs_buffer b") (auto elim!: dvdE)
  have inside: "i < ?n" if "bit_at (bs_buffer b) i" for i using assms(1) that by (meson bs_wf_def not_less)
  let ?mask = "(if ?n mod 8 = 0 then 0xFF else NOT (push_bit (?n mod 8) 0xFF)) :: byte"
  have mask: "bit ?mask j \<longleftrightarrow> ?l + j < ?n" if "j < 8" for j
    using l that by (cases "?n mod 8 = 0") (auto simp: bit_simps)
  have "last (bs_buffer b) = ?mask \<longleftrightarrow> (\<forall>j<8. bit (last (bs_buffer b)) j = bit ?mask j)"
    by (auto intro: bit_word_eqI)
  also have "\<dots> \<longleftrightarrow> (\<forall>j<8. bit_at (bs_buffer b) (?l + j) \<longleftrightarrow> ?l + j < ?n)" using mask by (simp add: bit_last [OF ne])
  also have "\<dots> \<longleftrightarrow> (\<forall>j<8. ?l + j < ?n \<longrightarrow> bit_at (bs_buffer b) (?l + j))"
    using inside by blast
  also have "\<dots> \<longleftrightarrow> (\<forall>i. ?l \<le> i \<and> i < ?n \<longrightarrow> bit_at (bs_buffer b) i)"
  proof (intro iffI allI impI)
    fix i assume all: "\<forall>j<8. ?l + j < ?n \<longrightarrow> bit_at (bs_buffer b) (?l + j)" and i: "?l \<le> i \<and> i < ?n"
    then have "i - ?l < 8" using l by (auto split: if_splits)
    with all i show "bit_at (bs_buffer b) i" by (metis le_add_diff_inverse)
  qed simp
  finally show "last (bs_buffer b) = ?mask \<longleftrightarrow> (\<forall>i. ?l \<le> i \<and> i < ?n \<longrightarrow> bit_at (bs_buffer b) i)" .
qed

text \<open>
  C35. What \<open>BitSet::is_all_set\<close> computes.  For every bit set with the bytes for its length and no bits above it, it says whether there are bits and all of them are set,
  except that when the length is not a multiple of eight it does not look at the last full byte.
\<close>

theorem is_all_set_exact:
  assumes "bs_wf b"
  shows "BitSet_is_all_set b = Some (bs_len b \<noteq> 0
    \<and> (\<forall>i<bs_len b. bits b ! i \<or> (bs_len b mod 8 \<noteq> 0 \<and> i div 8 + 1 = bs_len b div 8)))"
proof (cases "bs_len b = 0")
  case False
  let ?n = "bs_len b" and ?k = "bs_len b div 8 - 1"
  have len: "length (bs_buffer b) = ?n div 8 + of_bool (?n mod 8 \<noteq> 0)" using assms by (simp add: bs_wf_def bytes_for_eq)
  have "length (take ?k (bs_buffer b)) = ?k" using len by simp
  then have full: "(\<forall>v\<in>set (take ?k (bs_buffer b)). v = 0xFF) \<longleftrightarrow> (\<forall>i<8 * ?k. bit_at (bs_buffer b) i)"
    unfolding all_bytes_full by (simp add: bit_at_take)
  note last = last_byte_full [OF assms False]
  have skipped: "i < 8 * ?k \<or> 8 * (length (bs_buffer b) - 1) \<le> i \<longleftrightarrow> \<not> (?n mod 8 \<noteq> 0 \<and> i div 8 + 1 = ?n div 8)" if "i < ?n" for i
    using that False len by (cases "?n mod 8 = 0") auto
  have "BitSet_is_all_set b = Some ((\<forall>i<8 * ?k. bit_at (bs_buffer b) i)
      \<and> (\<forall>i. 8 * (length (bs_buffer b) - 1) \<le> i \<and> i < ?n \<longrightarrow> bit_at (bs_buffer b) i))"
    unfolding BitSet_is_all_set_def Let_def full using False last by simp
  also have "(\<forall>i<8 * ?k. bit_at (bs_buffer b) i) \<and> (\<forall>i. 8 * (length (bs_buffer b) - 1) \<le> i \<and> i < ?n \<longrightarrow> bit_at (bs_buffer b) i)
      \<longleftrightarrow> (\<forall>i<?n. i < 8 * ?k \<or> 8 * (length (bs_buffer b) - 1) \<le> i \<longrightarrow> bit_at (bs_buffer b) i)"
    by (auto intro: less_le_trans)
  also have "\<dots> \<longleftrightarrow> (\<forall>i<?n. bits b ! i \<or> (?n mod 8 \<noteq> 0 \<and> i div 8 + 1 = ?n div 8))" using skipped by (metis nth_bits)
  finally show ?thesis using False by simp
qed (simp add: BitSet_is_all_set_def)

text \<open>Eight unset bits followed by four set bits are reported to be all set.\<close>

theorem is_all_set_exact_witness:
  "BitSet_is_all_set \<lparr>bs_buffer = [0, 0x0F], bs_len = 12\<rparr> = Some True \<and> bits \<lparr>bs_buffer = [0, 0x0F], bs_len = 12\<rparr> = replicate 8 False @ replicate 4 True"
proof
  let ?b = "\<lparr>bs_buffer = [0, 0x0F], bs_len = 12\<rparr>"
  show bits: "bits ?b = replicate 8 False @ replicate 4 True" by code_simp
  have "bs_wf ?b" by code_simp
  from is_all_set_exact [OF this] show "BitSet_is_all_set ?b = Some True"
    unfolding bits by (simp add: nth_append)
qed

end
