(* ===== verification/Batch_Columns.thy ===== *)
theory Batch_Columns
  imports Mutable_Batch Bit_Set_Correct
begin

text \<open>
  What a column of a mutable batch represents, and what each typed write does to it.  A column stands
  for a list of cells, one per row, \<open>None\<close> for a null.  The representation is canonical: nulls hold the
  default value, the validity mask has exactly the bits of the other cells, and the dictionary of a tag
  column lists its values in the order of their first row.
\<close>

section \<open>Dictionaries of cells\<close>

definition dict_add :: "string list \<Rightarrow> string option \<Rightarrow> string list" where
  "dict_add ds c = (case c of None \<Rightarrow> ds | Some s \<Rightarrow> if s \<in> set ds then ds else ds @ [s])"

definition dict_of :: "string option list \<Rightarrow> string list" where
  "dict_of xs = foldl dict_add [] xs"

lemma dict_add_simps [simp]:
  "dict_add ds None = ds" "dict_add ds (Some s) = (if s \<in> set ds then ds else ds @ [s])"
  by (simp_all add: dict_add_def)

lemma distinct_dict_add: "distinct ds \<Longrightarrow> distinct (dict_add ds c)"
  by (cases c) auto

lemma foldl_dict_add:
  "distinct ds \<Longrightarrow> distinct (foldl dict_add ds xs) \<and> set (foldl dict_add ds xs) = set ds \<union> {s. Some s \<in> set xs}
     \<and> (\<exists>es. foldl dict_add ds xs = ds @ es)"
proof (induction xs arbitrary: ds)
  case (Cons x xs)
  from Cons.IH [OF distinct_dict_add [OF Cons.prems], of x] Cons.prems
  show ?case by (cases x) (auto simp: insert_absorb)
qed simp

lemma dict_of_Nil [simp]: "dict_of [] = []"
  by (simp add: dict_of_def)

lemma dict_of_append: "dict_of (xs @ ys) = foldl dict_add (dict_of xs) ys"
  by (simp add: dict_of_def)

lemma dict_of_snoc [simp]: "dict_of (xs @ [c]) = dict_add (dict_of xs) c"
  by (simp add: dict_of_append)

lemma distinct_dict_of [simp]: "distinct (dict_of xs)"
  using foldl_dict_add [of "[]" xs] by (simp add: dict_of_def)

lemma set_dict_of [simp]: "set (dict_of xs) = {s. Some s \<in> set xs}"
  using foldl_dict_add [of "[]" xs] by (simp add: dict_of_def)

lemma dict_of_prefix: "\<exists>es. dict_of (xs @ ys) = dict_of xs @ es"
  using foldl_dict_add [of "dict_of xs" ys] by (simp add: dict_of_append)

lemma dict_of_Nones: "dict_of (xs @ replicate n None) = dict_of xs"
proof -
  have "foldl dict_add ds (replicate n None) = ds" for ds by (induction n) simp_all
  then show ?thesis by (simp add: dict_of_append)
qed

definition tag_id :: "string list \<Rightarrow> string option \<Rightarrow> DID" where
  "tag_id ds c = (case c of None \<Rightarrow> INVALID_DID | Some s \<Rightarrow> int (index_of ds s))"

lemma tag_id_simps [simp]: "tag_id ds None = INVALID_DID" "tag_id ds (Some s) = int (index_of ds s)"
  by (simp_all add: tag_id_def)

lemma tag_ids_append: "set xs \<subseteq> insert None (Some ` set ds) \<Longrightarrow> map (tag_id (ds @ es)) xs = map (tag_id ds) xs"
  by (auto simp: tag_id_def index_of_append split: option.splits)

lemma tag_ids_prefix: "map (tag_id (dict_of (xs @ ys))) xs = map (tag_id (dict_of xs)) xs"
proof -
  obtain es where es: "dict_of (xs @ ys) = dict_of xs @ es" using dict_of_prefix by blast
  have "set xs \<subseteq> insert None (Some ` set (dict_of xs))" by (auto simp: image_iff) (metis not_None_eq)
  then show ?thesis unfolding es by (rule tag_ids_append)
qed

text \<open>The largest identifier among cells that are not all null is the last of the dictionary.\<close>

lemma Max_tag_ids:
  assumes "\<exists>s. Some s \<in> set xs"
  shows "Max (set (map (tag_id (dict_of xs)) xs)) = int (length (dict_of xs) - 1)"
proof (rule Max_eqI)
  have ne: "dict_of xs \<noteq> []" using assms set_dict_of [of xs] by (metis empty_iff mem_Collect_eq set_empty)
  show "y \<le> int (length (dict_of xs) - 1)" if "y \<in> set (map (tag_id (dict_of xs)) xs)" for y
  proof -
    from that obtain c where c: "c \<in> set xs" "y = tag_id (dict_of xs) c" by auto
    show ?thesis
    proof (cases c)
      case (Some s)
      then have "index_of (dict_of xs) s < length (dict_of xs)" using c index_of_less [of s "dict_of xs"] by simp
      with Some c show ?thesis by simp
    qed (use c in \<open>simp add: INVALID_DID_def\<close>)
  qed
  have "last (dict_of xs) \<in> set (dict_of xs)" using ne by (rule last_in_set)
  then have "Some (last (dict_of xs)) \<in> set xs" by (simp only: set_dict_of mem_Collect_eq)
  moreover have "index_of (dict_of xs) (last (dict_of xs)) = length (dict_of xs) - 1"
    using ne by (simp add: last_conv_nth index_of_nth)
  ultimately show "int (length (dict_of xs) - 1) \<in> set (map (tag_id (dict_of xs)) xs)"
    by (auto simp: image_iff intro!: bexI [of _ "Some (last (dict_of xs))"])
qed simp

section \<open>What a column holds\<close>

definition dflt :: "'a \<Rightarrow> 'a option \<Rightarrow> 'a" where
  "dflt d c = (case c of None \<Rightarrow> d | Some x \<Rightarrow> x)"

lemma dflt_simps [simp]: "dflt d None = d" "dflt d (Some x) = x"
  by (simp_all add: dflt_def)

text \<open>The capacity of the 32-bit offsets and identifiers.\<close>

definition dict_fits :: "string list \<Rightarrow> bool" where
  "dict_fits ds \<longleftrightarrow> total_len ds \<le> i32_max \<and> length ds \<le> i32_max + 1"

definition strings_fit :: "string option list \<Rightarrow> bool" where
  "strings_fit xs \<longleftrightarrow> total_len (map (dflt []) xs) \<le> i32_max"

fun data_holds :: "ColumnData \<Rightarrow> ColumnValues \<Rightarrow> bool" where
  "data_holds (ColumnData_F64 d _) (CV_F64 xs) \<longleftrightarrow> d = map (dflt 0) xs"
| "data_holds (ColumnData_I64 d _) (CV_I64 xs) \<longleftrightarrow> d = map (dflt 0) xs"
| "data_holds (ColumnData_U64 d _) (CV_U64 xs) \<longleftrightarrow> d = map (dflt 0) xs"
| "data_holds (ColumnData_Bool b _) (CV_Bool xs) \<longleftrightarrow> bs_wf b \<and> bits b = map (dflt False) xs"
| "data_holds (ColumnData_String a _) (CV_String xs) \<longleftrightarrow> a = psa_of (map (dflt []) xs) \<and> strings_fit xs"
| "data_holds (ColumnData_Tag d dict _) (CV_String xs) \<longleftrightarrow>
     dict = sd_of (dict_of xs) \<and> d = map (tag_id (dict_of xs)) xs \<and> dict_fits (dict_of xs)"
| "data_holds _ _ \<longleftrightarrow> False"

fun data_stats :: "ColumnData \<Rightarrow> Statistics" where
  "data_stats (ColumnData_F64 _ st) = Statistics_F64 st"
| "data_stats (ColumnData_I64 _ st) = Statistics_I64 st"
| "data_stats (ColumnData_U64 _ st) = Statistics_U64 st"
| "data_stats (ColumnData_Bool _ st) = Statistics_Bool st"
| "data_stats (ColumnData_String _ st) = Statistics_String st"
| "data_stats (ColumnData_Tag _ _ st) = Statistics_String st"

fun type_ok :: "InfluxColumnType \<Rightarrow> ColumnData \<Rightarrow> bool" where
  "type_ok (InfluxColumnType_Field InfluxFieldType_Float) (ColumnData_F64 _ _) = True"
| "type_ok (InfluxColumnType_Field InfluxFieldType_Integer) (ColumnData_I64 _ _) = True"
| "type_ok (InfluxColumnType_Field InfluxFieldType_UInteger) (ColumnData_U64 _ _) = True"
| "type_ok (InfluxColumnType_Field InfluxFieldType_Boolean) (ColumnData_Bool _ _) = True"
| "type_ok (InfluxColumnType_Field InfluxFieldType_String) (ColumnData_String _ _) = True"
| "type_ok InfluxColumnType_Tag (ColumnData_Tag _ _ _) = True"
| "type_ok InfluxColumnType_Timestamp (ColumnData_I64 _ _) = True"
| "type_ok _ _ = False"

fun cv_present :: "ColumnValues \<Rightarrow> bool list" where
  "cv_present (CV_I64 xs) = map (\<lambda>x. x \<noteq> None) xs"
| "cv_present (CV_U64 xs) = map (\<lambda>x. x \<noteq> None) xs"
| "cv_present (CV_F64 xs) = map (\<lambda>x. x \<noteq> None) xs"
| "cv_present (CV_Bool xs) = map (\<lambda>x. x \<noteq> None) xs"
| "cv_present (CV_String xs) = map (\<lambda>x. x \<noteq> None) xs"

lemma length_cv_present [simp]: "length (cv_present v) = cv_length v"
  by (cases v) simp_all

definition col_holds :: "Batch_Column \<Rightarrow> InfluxColumnType \<Rightarrow> ColumnValues \<Rightarrow> bool" where
  "col_holds c ty v \<longleftrightarrow> bc_influx_type c = ty \<and> type_ok ty (bc_data c) \<and> bs_wf (bc_valid c)
     \<and> bits (bc_valid c) = cv_present v \<and> data_holds (bc_data c) v"

text \<open>A bit set is determined by its bits.\<close>

lemma bits_inj:
  assumes "bs_wf a" and "bs_wf b" and "bits a = bits b"
  shows "a = b"
proof -
  have len: "bs_len a = bs_len b" using arg_cong [OF assms(3), of length] by simp
  have bit: "bit_at (bs_buffer a) i \<longleftrightarrow> bit_at (bs_buffer b) i" for i
    using assms len by (simp add: bit_at_bits)
  have "length (bs_buffer a) = length (bs_buffer b)" using assms len by (simp add: bs_wf_def)
  moreover have "bs_buffer a ! q = bs_buffer b ! q" if "q < length (bs_buffer a)" for q
  proof (rule bit_eqI)
    fix n assume "possible_bit TYPE(byte) n"
    then have "n < 8" by simp
    then show "bit (bs_buffer a ! q) n \<longleftrightarrow> bit (bs_buffer b ! q) n"
      using bit [of "8 * q + n"] that calculation by (simp add: bit_at_nth)
  qed
  ultimately have "bs_buffer a = bs_buffer b" by (metis nth_equalityI)
  with len show ?thesis by simp
qed

text \<open>A column is determined by its type, its cells and its statistics.\<close>

lemma data_holds_inj:
  "data_holds d v \<Longrightarrow> data_holds d' v \<Longrightarrow> type_ok ty d \<Longrightarrow> type_ok ty d' \<Longrightarrow> data_stats d = data_stats d' \<Longrightarrow> d = d'"
  by (cases "(d, v)" rule: data_holds.cases; cases "(d', v)" rule: data_holds.cases)
    (auto intro: bits_inj elim: type_ok.elims)

lemma col_holds_inj:
  "col_holds c ty v \<Longrightarrow> col_holds c' ty v \<Longrightarrow> data_stats (bc_data c) = data_stats (bc_data c') \<Longrightarrow> c = c'"
  by (cases c; cases c') (auto simp: col_holds_def intro: data_holds_inj bits_inj)

section \<open>Rolling a column back\<close>

text \<open>
  The rollback of a tag column truncates its dictionary to the largest identifier that is left, so it
  needs a cell that is not null, unless no row is left.
\<close>

definition undoable :: "InfluxColumnType \<Rightarrow> ColumnValues \<Rightarrow> bool" where
  "undoable ty v \<longleftrightarrow> ty = InfluxColumnType_Tag \<longrightarrow> cv_length v = 0 \<or> True \<in> set (cv_present v)"

lemma total_len_append_le: "total_len xs \<le> total_len (xs @ ys)"
  by simp

lemma strings_fit_prefix: "strings_fit (xs @ ys) \<Longrightarrow> strings_fit xs"
  by (simp add: strings_fit_def)

lemma dict_fits_prefix: "dict_fits (dict_of (xs @ ys)) \<Longrightarrow> dict_fits (dict_of xs)"
  using dict_of_prefix [of xs ys] by (auto simp: dict_fits_def)

lemma rollback_tag:
  assumes fits: "dict_fits (dict_of (xs @ ys))" and undo: "xs = [] \<or> (\<exists>s. Some s \<in> set xs)"
  shows "rollback_data (length xs) (ColumnData_Tag (map (tag_id (dict_of (xs @ ys))) (xs @ ys)) (sd_of (dict_of (xs @ ys))) st)
    = Some (ColumnData_Tag (map (tag_id (dict_of xs)) xs) (sd_of (dict_of xs)) st)"
proof (cases "xs = []")
  case True
  then show ?thesis by (simp add: clear_of)
next
  case False
  then have some: "\<exists>s. Some s \<in> set xs" using undo by simp
  obtain es where es: "dict_of (xs @ ys) = dict_of xs @ es" using dict_of_prefix by blast
  have take: "take (length xs) (map (tag_id (dict_of (xs @ ys))) (xs @ ys)) = map (tag_id (dict_of xs)) xs"
    using tag_ids_prefix [of xs ys] by (simp add: take_map)
  have "dict_of xs \<noteq> []" using some set_dict_of [of xs] by (metis empty_iff mem_Collect_eq set_empty)
  then have len: "length (dict_of xs) - 1 + 1 = length (dict_of xs)" by (simp add: Suc_leI)
  have "length (dict_of xs) \<le> i32_max + 1" using fits by (simp add: es dict_fits_def)
  then have "length (dict_of xs) - 1 + 1 < 2 ^ 64" unfolding len by (simp add: i32_max_def)
  then have "StringDictionary_truncate (int (length (dict_of xs) - 1)) (sd_of (dict_of xs @ es)) = Some (sd_of (dict_of xs))"
    by (subst truncate_of) (simp_all only: len, simp)
  then show ?thesis using False Max_tag_ids [OF some] by (simp only: rollback_data.simps take Let_def) (simp add: es)
qed

lemma rollback_data_holds:
  assumes "data_holds d' v'" and "cv_append v x = Some v'" and "type_ok ty d'" and "undoable ty v"
  shows "\<exists>d. rollback_data (cv_length v) d' = Some d \<and> data_holds d v \<and> type_ok ty d \<and> data_stats d = data_stats d'"
proof (cases "(d', v')" rule: data_holds.cases)
  case (4 b st zs)
  then obtain xs ys where v: "v = CV_Bool xs" "zs = xs @ ys" using assms(2) by (cases "(v, x)" rule: cv_append.cases) auto
  have b: "bs_wf b" "bits b = map (dflt False) (xs @ ys)" using 4 assms(1) v by simp_all
  have "bs_len b = length (xs @ ys)" using b(2) by (metis length_bits length_map)
  then have "length xs \<le> bs_len b" by simp
  from truncate_bits [OF b(1) this] b(2) 4 v assms(3) show ?thesis
    by (auto simp: take_map elim: type_ok.elims)
next
  case (6 d dict st zs)
  then obtain xs ys where v: "v = CV_String xs" "zs = xs @ ys" using assms(2) by (cases "(v, x)" rule: cv_append.cases) auto
  have ty: "ty = InfluxColumnType_Tag" using assms(3) 6 by (auto elim: type_ok.elims)
  then have "xs = [] \<or> (\<exists>s. Some s \<in> set xs)" using assms(4) v by (auto simp: undoable_def)
  moreover have "dict_fits (dict_of (xs @ ys))" using 6 assms(1) v by simp
  ultimately show ?thesis
    using rollback_tag [of xs ys st] dict_fits_prefix [of xs ys] 6 assms(1) v ty by simp
qed (use assms in \<open>auto simp: truncate_psa take_map strings_fit_prefix elim!: type_ok.elims split: ColumnValues.splits
      elim: cv_append.elims\<close>)

lemma rollback_column_holds:
  assumes holds: "col_holds c ty v" and undo: "undoable ty v"
    and valid: "bs_wf (bc_valid c')" "take (cv_length v) (bits (bc_valid c')) = cv_present v"
    and data: "data_holds (bc_data c') v'" "cv_append v x = Some v'" "type_ok ty (bc_data c')"
      "data_stats (bc_data c') = data_stats (bc_data c)" "bc_influx_type c' = ty"
  shows "rollback_column (cv_length v) c' = Some c"
proof -
  obtain d where d: "rollback_data (cv_length v) (bc_data c') = Some d" "data_holds d v" "type_ok ty d"
      "data_stats d = data_stats (bc_data c')"
    using rollback_data_holds [OF data(1-3) undo] by blast
  have "cv_length v \<le> bs_len (bc_valid c')"
    using arg_cong [OF valid(2), of length] by simp
  from truncate_bits [OF valid(1) this] valid(2)
  obtain b where b: "BitSet_truncate (cv_length v) (bc_valid c') = Some b" "bs_wf b" "bits b = cv_present v" by auto
  have "col_holds (c'\<lparr>bc_valid := b, bc_data := d\<rparr>) ty v" using b d data(5) by (simp add: col_holds_def)
  then have "c'\<lparr>bc_valid := b, bc_data := d\<rparr> = c"
    by (rule col_holds_inj) (use holds d data in simp_all)
  with b d show ?thesis by (simp add: rollback_column_def)
qed

section \<open>The loop of the typed writes\<close>

text \<open>The cells after the values have been stored at the positions.\<close>

fun fill :: "nat list \<Rightarrow> 'a list \<Rightarrow> 'a option list \<Rightarrow> 'a option list" where
  "fill (i # is) (v # vs) cells = fill is vs (cells[i := Some v])"
| "fill is vs cells = cells"

lemma length_fill [simp]: "length (fill is vs cells) = length cells"
  by (induction "is" vs cells rule: fill.induct) auto

lemma fill_Nil [simp]: "fill [] vs cells = cells" "fill is [] cells = cells"
  by (cases vs; simp) (cases "is"; simp)

text \<open>
  \<open>R j d cells\<close> relates the column data to the cells when all positions below \<open>j\<close> are done;
  \<open>full cells\<close> says that the cells do not fit.
\<close>

definition none_from :: "nat \<Rightarrow> 'a option list \<Rightarrow> bool" where
  "none_from j cells \<longleftrightarrow> (\<forall>k. j \<le> k \<longrightarrow> k < length cells \<longrightarrow> cells ! k = None)"

lemma none_from_update: "none_from j cells \<Longrightarrow> j \<le> i \<Longrightarrow> none_from (i + 1) (cells[i := Some x])"
  by (simp add: none_from_def)

lemma none_fromD: "none_from j cells \<Longrightarrow> j \<le> k \<Longrightarrow> k < length cells \<Longrightarrow> cells ! k = None"
  by (simp add: none_from_def)

lemma none_from_replicate [simp]: "none_from j (replicate m None)"
  by (simp add: none_from_def)

lemma sorted_tail_range:
  assumes "sorted_wrt (<) (i # is)" and "set (i # is) \<subseteq> {j..<m}"
  shows "sorted_wrt (<) is" and "set is \<subseteq> {i + 1..<(m :: nat)}"
proof -
  show "sorted_wrt (<) is" using assms(1) by simp
  show "set is \<subseteq> {i + 1..<m}"
  proof
    fix x assume "x \<in> set is"
    with assms have "i < x" "x < m" by auto
    then show "x \<in> {i + 1..<m}" by simp
  qed
qed

locale cell_loop =
  fixes put :: "nat \<Rightarrow> 'v \<Rightarrow> 'd \<Rightarrow> 'd option" and m :: nat
    and R :: "nat \<Rightarrow> 'd \<Rightarrow> 'v option list \<Rightarrow> bool" and full :: "'v option list \<Rightarrow> bool"
  assumes put_step: "R j d cells \<Longrightarrow> length cells = m \<Longrightarrow> none_from j cells \<Longrightarrow> j \<le> i \<Longrightarrow> i < m
      \<Longrightarrow> (case put i x d of Some d' \<Rightarrow> R (i + 1) d' (cells[i := Some x]) | None \<Rightarrow> full (cells[i := Some x]))"
    and full_mono: "full cells \<Longrightarrow> length cells = m \<Longrightarrow> none_from j cells \<Longrightarrow> j \<le> i \<Longrightarrow> i < m
      \<Longrightarrow> full (cells[i := Some x])"
begin

lemma full_fill:
  assumes "full cells" and "length cells = m" and "none_from j cells"
    and "sorted_wrt (<) is" and "set is \<subseteq> {j..<m}"
  shows "full (fill is vs cells)"
  using assms
proof (induction "is" vs cells arbitrary: j rule: fill.induct)
  case (1 i "is" v vs cells)
  have "full (cells[i := Some v])" using full_mono [OF "1.prems"(1,2,3)] "1.prems"(5) by simp
  moreover have "none_from (i + 1) (cells[i := Some v])"
    using none_from_update [OF "1.prems"(3)] "1.prems"(5) by simp
  ultimately show ?case
    using "1.IH" [of "i + 1"] "1.prems"(2) sorted_tail_range [OF "1.prems"(4,5)] by simp
qed auto

lemma write_loop_cells:
  assumes "R j d cells" and "length cells = m" and "none_from j cells"
    and "sorted_wrt (<) is" and "set is \<subseteq> {j..<m}"
  shows "\<exists>r d' s'. write_loop put upd is vs (d, s) = (r, (d', s'))
    \<and> (r = Panic \<and> full (fill is vs cells)
       \<or> r = (if length is \<le> length vs then Ok () else Err InsufficientValues)
         \<and> s' = fold upd (take (length is) vs) s
         \<and> (\<exists>j'. R j' d' (fill is vs cells) \<and> none_from j' (fill is vs cells)))"
  using assms
proof (induction "is" arbitrary: j d cells s vs)
  case (Cons i "is")
  note IH = Cons.IH and prems = Cons.prems
  show ?case
  proof (cases vs)
    case Nil
    with prems show ?thesis by auto
  next
    case (Cons v vs')
    have i: "j \<le> i" "i < m" using prems by auto
    note rest = sorted_tail_range [OF prems(4,5)]
    note none = none_from_update [OF prems(3) i(1), of v]
    note step = put_step [OF prems(1-3) i, of v]
    show ?thesis
    proof (cases "put i v d")
      case None
      then have "full (cells[i := Some v])" using step by simp
      then have "full (fill is vs' (cells[i := Some v]))"
        by (rule full_fill) (use prems(2) none rest in simp_all)
      with None Cons show ?thesis by simp
    next
      case (Some d')
      then have "R (i + 1) d' (cells[i := Some v])" using step by simp
      from IH [OF this _ none rest, of vs' "upd v s"] prems(2) Some Cons show ?thesis by simp
    qed
  qed
qed auto

end

lemma cells_split:
  assumes "length cells = m" and "none_from j cells" and "j \<le> i" and "i < m"
  shows "cells = take i cells @ replicate (m - i) None"
    and "cells[i := Some x] = take i cells @ [Some x] @ replicate (m - i - 1) None"
proof -
  have drop: "drop i cells = replicate (m - i) None"
    by (rule nth_equalityI) (use assms none_fromD [OF assms(2)] in simp_all)
  then show eq: "cells = take i cells @ replicate (m - i) None" by (metis append_take_drop_id)
  have "drop (Suc i) cells = replicate (m - i - 1) None"
    by (rule nth_equalityI) (use assms none_fromD [OF assms(2)] in simp_all)
  then show "cells[i := Some x] = take i cells @ [Some x] @ replicate (m - i - 1) None"
    using assms by (simp add: upd_conv_take_nth_drop)
qed

lemma map_dflt_update:
  "i < length cells \<Longrightarrow> (map (dflt z) (v @ cells))[length v + i := x] = map (dflt z) (v @ cells[i := Some x])"
  by (simp add: list_update_append map_update)

interpretation vec: cell_loop "vec_put n" m "\<lambda>j d cells. n = length v \<and> d = map (dflt z) (v @ cells)" "\<lambda>_. False"
  for n m z v
  by unfold_locales (simp_all add: vec_put_def map_dflt_update del: map_append)

definition bool_put :: "nat \<Rightarrow> nat \<Rightarrow> bool \<Rightarrow> BitSet \<Rightarrow> BitSet option" where
  "bool_put n = (\<lambda>idx value d. if value then BitSet_set (n + idx) d else Some d)"

interpretation bool: cell_loop "bool_put n" m
    "\<lambda>j b cells. n = length v \<and> bs_wf b \<and> bits b = map (dflt False) (v @ cells)" "\<lambda>_. False"
  for n m v
proof (unfold_locales, goal_cases)
  case (1 j b cells i x)
  have len: "bs_len b = n + m" using 1 by (metis length_append length_bits length_map)
  have upd: "(bits b)[n + i := x] = map (dflt False) (v @ cells[i := Some x])"
    using 1 map_dflt_update [of i cells False v x] by simp
  show ?case
  proof (cases x)
    case True
    from set_bits [of b "n + i"] 1 len upd True show ?thesis by (auto simp: bool_put_def)
  next
    case False
    have "bits b ! (n + i) = False" using 1 none_fromD [OF 1(3), of i] by (simp add: nth_append)
    then have "(bits b)[n + i := x] = bits b" using False list_update_id [of "bits b" "n + i"] by simp
    with upd False 1 show ?thesis by (simp add: bool_put_def)
  qed
qed simp

lemma map_dflt_Nones [simp]: "map (dflt z) (replicate k None) = replicate k z"
  by (simp add: map_replicate_const)

interpretation str: cell_loop "string_put n" m
    "\<lambda>j d cells. n = length v \<and> j \<le> m \<and> d = psa_of (map (dflt []) (v @ take j cells)) \<and> strings_fit (v @ take j cells)"
    "\<lambda>cells. \<not> strings_fit (v @ cells)"
  for n m v
proof (unfold_locales, goal_cases)
  case (1 j d cells i x)
  note split = cells_split [OF 1(2,3,4,5)]
  have j: "j \<le> length (take i cells)" using 1 by simp
  have "drop j (take i cells) = replicate (i - j) None"
    by (rule nth_equalityI) (use 1 none_fromD [OF 1(3)] in simp_all)
  then have pre: "take i cells = take j cells @ replicate (i - j) None"
    by (metis 1(4) append_take_drop_id min_absorb1 take_take)
  have "string_pad_to (n + i) d = Some (psa_of (map (dflt []) (v @ take i cells)))"
    using 1 unfolding pre by (simp add: string_pad_to_def extend_psa strings_fit_def)
  moreover have take: "take (i + 1) (cells[i := Some x]) = take i cells @ [Some x]"
    using 1 by (simp add: split(2) min_def)
  ultimately have put: "string_put n i x d =
      (if strings_fit (v @ take i cells @ [Some x]) then Some (psa_of (map (dflt []) (v @ take i cells @ [Some x]))) else None)"
    by (simp add: string_put_def append_psa strings_fit_def)
  have "strings_fit (v @ cells[i := Some x]) \<longleftrightarrow> strings_fit (v @ take i cells @ [Some x])"
    unfolding split(2) by (simp add: strings_fit_def)
  with put take 1 show ?case by simp
next
  case (2 cells j i x)
  note split = cells_split [OF 2(2,3,4,5)]
  have "map (dflt []) cells = map (dflt []) (take i cells) @ replicate (m - i) []" by (subst (1) split(1)) simp
  then have "total_len (map (dflt []) (v @ cells)) \<le> total_len (map (dflt []) (v @ cells[i := Some x]))"
    unfolding split(2) by simp
  with 2 show ?case by (simp add: strings_fit_def)
qed

lemma dict_of_cells:
  assumes "length cells = m" and "none_from j cells" and "j \<le> i" and "i < m"
  shows "dict_of (v @ cells[i := Some x]) = dict_add (dict_of (v @ cells)) (Some x)"
proof -
  note split = cells_split [OF assms]
  have "dict_of (v @ cells) = dict_of (v @ take i cells)"
    using dict_of_Nones [of "v @ take i cells" "m - i"] by (subst split(1)) simp
  moreover have "dict_of (v @ cells[i := Some x]) = dict_of ((v @ take i cells) @ [Some x])"
    unfolding split(2) using dict_of_Nones [of "(v @ take i cells) @ [Some x]" "m - i - 1"] by simp
  ultimately show ?thesis by (simp only: dict_of_snoc)
qed

interpretation tag: cell_loop "tag_put n" m
    "\<lambda>j d cells. n = length v \<and> d = (map (tag_id (dict_of (v @ cells))) (v @ cells), sd_of (dict_of (v @ cells)))
       \<and> dict_fits (dict_of (v @ cells))"
    "\<lambda>cells. \<not> dict_fits (dict_of (v @ cells))"
  for n m v
proof (unfold_locales, goal_cases)
  case (1 j d cells i x)
  note eq = dict_of_cells [OF 1(2,3,4,5), of v x]
  let ?ds = "dict_of (v @ cells)" and ?ds' = "dict_of (v @ cells[i := Some x])"
  let ?ids = "map (tag_id ?ds) (v @ cells)"
  obtain es where es: "?ds' = ?ds @ es" using eq by (cases "x \<in> set ?ds") auto
  have "set (v @ cells) \<subseteq> insert None (Some ` set ?ds)" by (auto simp: image_iff) (metis not_None_eq)+
  then have ids: "map (tag_id ?ds') (v @ cells) = ?ids" unfolding es by (rule tag_ids_append)
  have "map (tag_id ?ds') (v @ cells[i := Some x]) = (map (tag_id ?ds') (v @ cells))[n + i := tag_id ?ds' (Some x)]"
    using 1 by (simp add: list_update_append map_update)
  then have upd: "map (tag_id ?ds') (v @ cells[i := Some x]) = ?ids[n + i := int (index_of ?ds' x)]"
    by (simp only: ids tag_id_simps)
  have idx: "index_of ?ds' x = (if x \<in> set ?ds then index_of ?ds x else length ?ds)"
    by (simp add: eq index_of_append del: set_dict_of split: if_splits)
  have lk: "StringDictionary_lookup_value_or_insert x (sd_of ?ds) =
      (if x \<in> set ?ds \<or> dict_fits ?ds' then Some (index_of ?ds' x, sd_of ?ds') else None)"
    unfolding lookup_value_or_insert_of [OF distinct_dict_of]
    unfolding idx by (auto simp: eq dict_fits_def simp del: set_dict_of)
  have fits: "x \<in> set ?ds \<Longrightarrow> dict_fits ?ds'" using 1 by (simp add: eq del: set_dict_of)
  have "n + i < length ?ids" using 1 by simp
  then have "tag_put n i x d = (if dict_fits ?ds' then Some (?ids[n + i := int (index_of ?ds' x)], sd_of ?ds') else None)"
    using 1 lk fits by (simp add: tag_put_def vec_put_def del: map_append set_dict_of)
  with 1 upd show ?case by (simp del: map_append)
next
  case (2 cells j i x)
  have "dict_fits (dict_add ds c) \<Longrightarrow> dict_fits ds" for ds c
    by (cases c) (auto simp: dict_fits_def split: if_splits)
  with 2 dict_of_cells [OF 2(2,3,4,5), of v x] show ?case by metis
qed

section \<open>Positions, masks and statistics of the new rows\<close>

definition mask_ok :: "byte list option \<Rightarrow> nat \<Rightarrow> bool" where
  "mask_ok valid_mask m \<longleftrightarrow> (case valid_mask of None \<Rightarrow> True | Some bytes \<Rightarrow> length bytes = bytes_for m)"

lemma takeWhile_none: "(\<And>x. x \<in> set xs \<Longrightarrow> \<not> P x) \<Longrightarrow> takeWhile P xs = []"
  by (cases xs) auto

lemma takeWhile_filter_upt:
  assumes "m \<le> n"
  shows "takeWhile (\<lambda>i. i < m) (filter P [j..<n]) = filter P [j..<m]"
proof (cases "j \<le> m")
  case True
  then have "[j..<n] = [j..<m] @ [m..<n]" using assms by (metis le_Suc_ex upt_add_eq_append)
  moreover have "takeWhile (\<lambda>i. i < m) (filter P [m..<n]) = []"
    by (rule takeWhile_none) simp
  ultimately show ?thesis by (simp only: filter_append) (subst takeWhile_append2, simp_all)
next
  case False
  then have "takeWhile (\<lambda>i. i < m) (filter P [j..<n]) = []"
    by (intro takeWhile_none) simp
  with False show ?thesis by simp
qed

text \<open>The rows that get a value, as a list of booleans.\<close>

definition mask_bits :: "byte list option \<Rightarrow> nat \<Rightarrow> bool list" where
  "mask_bits valid_mask m = (case valid_mask of None \<Rightarrow> replicate m True | Some bytes \<Rightarrow> map (bit_at bytes) [0..<m])"

lemma length_mask_bits [simp]: "length (mask_bits valid_mask m) = m"
  by (simp add: mask_bits_def split: option.splits)

lemma set_position_iterator_eq:
  assumes "mask_ok valid_mask m"
  shows "set_position_iterator valid_mask m = filter (\<lambda>i. mask_bits valid_mask m ! i) [0..<m]"
proof (cases valid_mask)
  case None
  then show ?thesis by (simp add: set_position_iterator_def mask_bits_def cong: filter_cong)
next
  case (Some bytes)
  then have "m \<le> 8 * length bytes" using assms by (simp add: mask_ok_def)
  then have "set_position_iterator valid_mask m = filter (bit_at bytes) [0..<m]"
    using Some by (simp add: set_position_iterator_def iter_set_positions_def iter_set_positions_with_offset_filter takeWhile_filter_upt)
  moreover have "filter (bit_at bytes) [0..<m] = filter (\<lambda>i. mask_bits valid_mask m ! i) [0..<m]"
    by (rule filter_cong) (simp_all add: Some mask_bits_def)
  ultimately show ?thesis by simp
qed

lemma positions_sorted:
  "sorted_wrt (<) (filter P [0..<m])" "set (filter P [0..<m]) \<subseteq> {0..<m}"
  by (auto simp: sorted_wrt_filter)

text \<open>The cells of the new rows.\<close>

definition new_cells :: "byte list option \<Rightarrow> nat \<Rightarrow> 'a list \<Rightarrow> 'a option list" where
  "new_cells valid_mask m vs = fill (set_position_iterator valid_mask m) vs (replicate m None)"

lemma length_new_cells [simp]: "length (new_cells valid_mask m vs) = m"
  by (simp add: new_cells_def)

lemma fill_nth:
  assumes "sorted_wrt (<) is" and "length is \<le> length vs" and "k < length cells"
  shows "(fill is vs cells ! k \<noteq> None) \<longleftrightarrow> k \<in> set is \<or> cells ! k \<noteq> None"
  using assms
proof (induction "is" vs cells rule: fill.induct)
  case (1 i "is" v vs cells)
  then show ?case by (cases "k = i") auto
qed auto

lemma fill_mset:
  assumes "sorted_wrt (<) is" and "length is \<le> length vs" and "\<forall>i\<in>set is. i < length cells \<and> cells ! i = None"
  shows "mset (fill is vs cells) + replicate_mset (length is) None = mset cells + mset (map Some (take (length is) vs))"
  using assms
proof (induction "is" vs cells rule: fill.induct)
  case (1 i "is" v vs cells)
  from 1(2) have "\<forall>j\<in>set is. i < j" by simp
  then have "\<forall>j\<in>set is. j < length (cells[i := Some v]) \<and> cells[i := Some v] ! j = None" using 1(4) by auto
  with 1 have IH: "mset (fill is vs (cells[i := Some v])) + replicate_mset (length is) None
      = mset (cells[i := Some v]) + mset (map Some (take (length is) vs))" by simp
  have "mset (cells[i := Some v]) + {#None#} = mset cells + {#Some v#}"
    using 1(4) by (simp add: mset_update) (metis add_mset_add_single insert_DiffM nth_mem_mset)
  with IH show ?case by simp
qed auto

lemma new_cells_present:
  assumes "mask_ok valid_mask m" and "length (set_position_iterator valid_mask m) \<le> length vs"
  shows "map (\<lambda>x. x \<noteq> None) (new_cells valid_mask m vs) = mask_bits valid_mask m"
proof (rule nth_equalityI)
  fix k assume "k < length (map (\<lambda>x. x \<noteq> None) (new_cells valid_mask m vs))"
  then have k: "k < m" by simp
  have "(new_cells valid_mask m vs ! k \<noteq> None) \<longleftrightarrow> k \<in> set (set_position_iterator valid_mask m)"
    unfolding new_cells_def
    by (subst fill_nth) (use assms k positions_sorted set_position_iterator_eq [OF assms(1)] in simp_all)
  then show "map (\<lambda>x. x \<noteq> None) (new_cells valid_mask m vs) ! k = mask_bits valid_mask m ! k"
    using k by (simp add: set_position_iterator_eq [OF assms(1)])
qed simp

lemma positions_range:
  "sorted_wrt (<) (set_position_iterator valid_mask m)" "set (set_position_iterator valid_mask m) \<subseteq> {0..<m}"
proof -
  have "sorted_wrt (<) (takeWhile P xs)" if "sorted_wrt (<) xs" for P :: "nat \<Rightarrow> bool" and xs
    using that by (metis sorted_wrt_append takeWhile_dropWhile_id)
  then show "sorted_wrt (<) (set_position_iterator valid_mask m)"
    by (simp add: set_position_iterator_def iter_set_positions_def iter_set_positions_with_offset_filter sorted_wrt_filter
        split: option.split)
  show "set (set_position_iterator valid_mask m) \<subseteq> {0..<m}"
    by (auto simp: set_position_iterator_def dest: set_takeWhileD split: option.splits)
qed

lemma length_positions: "length (set_position_iterator valid_mask m) \<le> m"
proof -
  have "distinct (set_position_iterator valid_mask m)"
    using positions_range(1) strict_sorted_iff by blast
  then have "length (set_position_iterator valid_mask m) = card (set (set_position_iterator valid_mask m))"
    by (simp add: distinct_card)
  also have "\<dots> \<le> card {0..<m}" by (rule card_mono) (use positions_range in auto)
  finally show ?thesis by simp
qed

context stat_order
begin

lemma fold_update_summarises:
  "summarises ord key s xs \<Longrightarrow> summarises ord key (fold (StatValues_update ord) vs s) (xs @ map Some vs)"
proof (induction vs arbitrary: s xs)
  case (Cons v vs)
  from Cons.IH [OF update_summarises [OF Cons.prems, of v]] show ?case by simp
qed simp

lemma new_rows_summarises:
  assumes "length (set_position_iterator valid_mask m) \<le> length vs"
  defines "k \<equiv> length (set_position_iterator valid_mask m)"
  shows "summarises ord key
      (StatValues_update_for_nulls (m - k) (fold (StatValues_update ord) (take k vs) StatValues_new_empty))
      (new_cells valid_mask m vs)"
proof -
  let ?is = "set_position_iterator valid_mask m"
  have "summarises ord key (StatValues_update_for_nulls (m - k) (fold (StatValues_update ord) (take k vs) StatValues_new_empty))
      (map Some (take k vs) @ replicate (m - k) None)"
    using fold_update_summarises [OF new_empty_summarises, of "take k vs"] by (intro update_for_nulls_summarises) simp
  moreover have "mset (new_cells valid_mask m vs) = mset (map Some (take k vs) @ replicate (m - k) None)"
  proof -
    have "mset (new_cells valid_mask m vs) + replicate_mset k None = mset (replicate m None) + mset (map Some (take k vs))"
      unfolding new_cells_def k_def
      by (rule fill_mset) (use assms(1) positions_range [of valid_mask m] in auto)
    moreover have "replicate m (None :: 'a option) = replicate (m - k) None @ replicate k None"
      using length_positions [of valid_mask m] by (simp add: k_def flip: replicate_add)
    then have "mset (replicate m (None :: 'a option)) = mset (replicate (m - k) None) + replicate_mset k None" by simp
    ultimately show ?thesis by (simp add: ac_simps)
  qed
  ultimately show ?thesis using summarises_perm by blast
qed

end

lemma fold_update_total_count:
  "sv_total_count (fold (StatValues_update ord) vs s) = sv_total_count s + length vs"
  by (induction vs arbitrary: s) (simp_all add: StatValues_update_def Let_def)

section \<open>The contract of a column write\<close>

text \<open>What does not fit into the 32-bit offsets and identifiers makes a write panic.\<close>

fun capacity :: "InfluxColumnType \<Rightarrow> ColumnValues \<Rightarrow> bool" where
  "capacity InfluxColumnType_Tag (CV_String xs) = dict_fits (dict_of xs)"
| "capacity (InfluxColumnType_Field InfluxFieldType_String) (CV_String xs) = strings_fit xs"
| "capacity _ _ = True"

text \<open>
  The cells \<open>x\<close> were appended to a column that held \<open>v\<close>: the old statistics are untouched, those of
  the new rows are returned.
\<close>

definition written :: "Batch_Column \<Rightarrow> InfluxColumnType \<Rightarrow> ColumnValues \<Rightarrow> ColumnValues \<Rightarrow> nat \<Rightarrow> Statistics \<Rightarrow> Batch_Column \<Rightarrow> bool" where
  "written c ty v x m st c' \<longleftrightarrow>
     (\<exists>v'. cv_append v x = Some v' \<and> col_holds c' ty v') \<and> data_stats (bc_data c') = data_stats (bc_data c)
     \<and> stats_of st x \<and> cv_length x = m"

locale column_writer =
  fixes f :: column_write and ty :: InfluxColumnType and m :: nat and new :: "(Writer_Error, ColumnValues) res"
  assumes write_ok: "col_holds c ty v \<Longrightarrow> cv_length v = n \<Longrightarrow> f n m c = (Ok st, c') \<Longrightarrow>
      \<exists>x. new = Ok x \<and> written c ty v x m st c'"
    and write_total: "col_holds c ty v \<Longrightarrow> cv_length v = n \<Longrightarrow> new = Ok x \<Longrightarrow> cv_append v x = Some v' \<Longrightarrow> capacity ty v' \<Longrightarrow>
      is_ok (fst (f n m c))"
    and write_undo: "col_holds c ty v \<Longrightarrow> cv_length v = n \<Longrightarrow> undoable ty v \<Longrightarrow> f n m c = (r, c') \<Longrightarrow> r \<noteq> Panic \<Longrightarrow>
      rollback_column n c' = Some c"
    and write_err: "col_holds c ty v \<Longrightarrow> cv_length v = n \<Longrightarrow> f n m c = (Err e, c') \<Longrightarrow> new = Err e"

lemma cv_present_append: "cv_append v x = Some v' \<Longrightarrow> cv_present v' = cv_present v @ cv_present x"
  by (cases "(v, x)" rule: cv_append.cases) auto

lemma append_valid_mask_bits:
  assumes "bs_wf (bc_valid c)" and "mask_ok valid_mask m"
  shows "\<exists>b. append_valid_mask valid_mask m c = Some (c\<lparr>bc_valid := b\<rparr>) \<and> bs_wf b
    \<and> bits b = bits (bc_valid c) @ mask_bits valid_mask m"
proof (cases valid_mask)
  case None
  with append_set_bits [OF assms(1), of m] show ?thesis by (auto simp: append_valid_mask_def mask_bits_def)
next
  case (Some bytes)
  then have "length bytes = bytes_for m" using assms(2) by (simp add: mask_ok_def)
  with append_bits_bits [OF assms(1), of bytes m] Some show ?thesis by (auto simp: append_valid_mask_def mask_bits_def)
qed

lemma append_valid_mask_panic: "\<not> mask_ok valid_mask m \<Longrightarrow> append_valid_mask valid_mask m c = None"
  by (auto simp: mask_ok_def append_valid_mask_def BitSet_append_bits_def split: option.splits)

lemma finish_write_ok:
  assumes c: "col_holds c ty v"
    and d: "data_holds d v'" "cv_append v x = Some v'" "type_ok ty d" "data_stats d = data_stats (bc_data c)"
    and x: "cv_present x = mask_bits valid_mask m" "mask_ok valid_mask m" and s: "sv_total_count s \<le> m"
  shows "\<exists>c'. finish_write valid_mask m mk (Ok ()) s (c\<lparr>bc_data := d\<rparr>)
      = (Ok (mk (StatValues_update_for_nulls (m - sv_total_count s) s)), c')
    \<and> col_holds c' ty v' \<and> data_stats (bc_data c') = data_stats (bc_data c)"
proof -
  have "bs_wf (bc_valid (c\<lparr>bc_data := d\<rparr>))" using c by (simp add: col_holds_def)
  from append_valid_mask_bits [OF this x(2)] obtain b where
    b: "append_valid_mask valid_mask m (c\<lparr>bc_data := d\<rparr>) = Some (c\<lparr>bc_data := d, bc_valid := b\<rparr>)" "bs_wf b"
      "bits b = bits (bc_valid c) @ mask_bits valid_mask m" by auto
  then have "col_holds (c\<lparr>bc_data := d, bc_valid := b\<rparr>) ty v'"
    using c d x(1) by (simp add: col_holds_def cv_present_append)
  with b(1) s d(4) show ?thesis by (simp add: finish_write_def)
qed

text \<open>
  The outcome of a typed write, given the outcome \<open>pre\<close> of its loop and the cells \<open>x\<close> of the new rows.
\<close>

fun new_res :: "(Writer_Error, unit) res \<Rightarrow> byte list option \<Rightarrow> nat \<Rightarrow> ColumnValues \<Rightarrow> (Writer_Error, ColumnValues) res" where
  "new_res (Err e) valid_mask m x = Err e"
| "new_res Panic valid_mask m x = Panic"
| "new_res (Ok u) valid_mask m x = (if mask_ok valid_mask m then Ok x else Panic)"

text \<open>How far a typed write gets before it looks at the mask.\<close>

definition typed_run ::
    "byte list option \<Rightarrow> nat \<Rightarrow> (Writer_Error, unit) res \<Rightarrow> ColumnValues \<Rightarrow> ('a StatValues \<Rightarrow> Statistics)
       \<Rightarrow> InfluxColumnType \<Rightarrow> Batch_Column \<Rightarrow> ColumnValues \<Rightarrow> (Writer_Error, Statistics) res \<times> Batch_Column \<Rightarrow> bool" where
  "typed_run valid_mask m pre x mks ty c v result \<longleftrightarrow>
     (\<exists>r d s. result = finish_write valid_mask m mks r s (c\<lparr>bc_data := d\<rparr>) \<and> type_ok ty d \<and> data_stats d = data_stats (bc_data c)
        \<and> (r = Panic \<and> (\<forall>v'. pre = Ok () \<longrightarrow> cv_append v x = Some v' \<longrightarrow> \<not> capacity ty v')
           \<or> (\<exists>e. r = Err e \<and> pre = Err e) \<and> (\<exists>y v'. cv_append v y = Some v' \<and> data_holds d v')
           \<or> r = Ok () \<and> pre = Ok () \<and> (\<exists>v'. cv_append v x = Some v' \<and> data_holds d v') \<and> sv_total_count s \<le> m
             \<and> stats_of (mks (StatValues_update_for_nulls (m - sv_total_count s) s)) x))"

lemma typed_run_panic:
  assumes "result = finish_write valid_mask m mks Panic s (c\<lparr>bc_data := d\<rparr>)" "type_ok ty d" "data_stats d = data_stats (bc_data c)"
    and "\<And>v'. pre = Ok () \<Longrightarrow> cv_append v x = Some v' \<Longrightarrow> \<not> capacity ty v'"
  shows "typed_run valid_mask m pre x mks ty c v result"
  using assms unfolding typed_run_def by blast

lemma typed_run_err:
  assumes "result = finish_write valid_mask m mks (Err e) s (c\<lparr>bc_data := d\<rparr>)" "type_ok ty d" "data_stats d = data_stats (bc_data c)"
    and "pre = Err e" "cv_append v y = Some v'" "data_holds d v'"
  shows "typed_run valid_mask m pre x mks ty c v result"
  using assms unfolding typed_run_def by blast

lemma typed_run_ok:
  assumes "result = finish_write valid_mask m mks (Ok ()) s (c\<lparr>bc_data := d\<rparr>)" "type_ok ty d" "data_stats d = data_stats (bc_data c)"
    and "pre = Ok ()" "cv_append v x = Some v'" "data_holds d v'" "sv_total_count s \<le> m"
    and "stats_of (mks (StatValues_update_for_nulls (m - sv_total_count s) s)) x"
  shows "typed_run valid_mask m pre x mks ty c v result"
  using assms unfolding typed_run_def by blast

lemma column_writerI:
  fixes mks :: "'a StatValues \<Rightarrow> Statistics"
  assumes run: "\<And>c v n. col_holds c ty v \<Longrightarrow> cv_length v = n \<Longrightarrow> typed_run valid_mask m pre x mks ty c v (f n m c)"
    and len: "cv_length x = m"
    and present: "pre = Ok () \<Longrightarrow> mask_ok valid_mask m \<Longrightarrow> cv_present x = mask_bits valid_mask m"
  shows "column_writer f ty m (new_res pre valid_mask m x)"
proof
  fix c v n assume c: "col_holds c ty v" "cv_length v = n"
  from run [OF c] obtain r d s where
    fin: "f n m c = finish_write valid_mask m mks r s (c\<lparr>bc_data := d\<rparr>)" "type_ok ty d" "data_stats d = data_stats (bc_data c)"
    and cs: "r = Panic \<and> (\<forall>v'. pre = Ok () \<longrightarrow> cv_append v x = Some v' \<longrightarrow> \<not> capacity ty v')
           \<or> (\<exists>e. r = Err e \<and> pre = Err e) \<and> (\<exists>y v'. cv_append v y = Some v' \<and> data_holds d v')
           \<or> r = Ok () \<and> pre = Ok () \<and> (\<exists>v'. cv_append v x = Some v' \<and> data_holds d v') \<and> sv_total_count s \<le> m
             \<and> stats_of (mks (StatValues_update_for_nulls (m - sv_total_count s) s)) x"
    unfolding typed_run_def by blast
  have good: "\<exists>c'. f n m c = (Ok (mks (StatValues_update_for_nulls (m - sv_total_count s) s)), c')
      \<and> col_holds c' ty v' \<and> data_stats (bc_data c') = data_stats (bc_data c)"
    if "r = Ok ()" "mask_ok valid_mask m" "cv_append v x = Some v'" "data_holds d v'" for v'
    unfolding fin(1) that(1)
    by (rule finish_write_ok [OF c(1) that(4,3) fin(2,3)]) (use that present cs in auto)
  have bad: "f n m c = (Panic, c\<lparr>bc_data := d\<rparr>)" if "r = Ok ()" "\<not> mask_ok valid_mask m"
    using that by (simp add: fin(1) finish_write_def append_valid_mask_panic)
  { fix st c' assume ok: "f n m c = (Ok st, c')"
    then have r: "r = Ok ()" using fin(1) by (cases r) (simp_all add: finish_write_def)
    then have mask: "mask_ok valid_mask m" using bad ok by fastforce
    from r cs obtain v' where v': "cv_append v x = Some v'" "data_holds d v'" "pre = Ok ()"
      "stats_of (mks (StatValues_update_for_nulls (m - sv_total_count s) s)) x" by auto
    with good [OF r mask v'(1,2)] ok mask len show "\<exists>y. new_res pre valid_mask m x = Ok y \<and> written c ty v y m st c'"
      by (auto simp: written_def) }
  { fix y v' assume "new_res pre valid_mask m x = Ok y" "cv_append v y = Some v'" "capacity ty v'"
    then have y: "y = x" "mask_ok valid_mask m" "pre = Ok ()" by (cases pre; simp split: if_splits)+
    then have "r = Ok ()" using cs \<open>cv_append v y = Some v'\<close> \<open>capacity ty v'\<close> by auto
    then show "is_ok (fst (f n m c))" using cs y good by fastforce }
  { fix r' c' assume undo: "undoable ty v" and r': "f n m c = (r', c')" "r' \<noteq> Panic"
    have "rollback_column (cv_length v) c' = Some c"
    proof (cases r)
      case (Ok u)
      then obtain v' where v': "cv_append v x = Some v'" "data_holds d v'" using cs by auto
      have "mask_ok valid_mask m" using bad Ok r' by fastforce
      from good [OF _ this v'] Ok r' have c': "col_holds c' ty v'" "data_stats (bc_data c') = data_stats (bc_data c)" by auto
      have "take (cv_length v) (bits (bc_valid c')) = cv_present v" using c'(1) v'(1) by (simp add: col_holds_def cv_present_append)
      from rollback_column_holds [OF c(1) undo _ this _ v'(1)] c' show ?thesis by (simp add: col_holds_def)
    next
      case (Err e)
      then obtain y v' where v': "cv_append v y = Some v'" "data_holds d v'" using cs by auto
      have "c' = c\<lparr>bc_data := d\<rparr>" using Err fin(1) r' by (simp add: finish_write_def)
      moreover have "take (cv_length v) (bits (bc_valid c)) = cv_present v" using c(1) by (simp add: col_holds_def)
      ultimately show ?thesis
        using rollback_column_holds [OF c(1) undo, of c' v' y] v' fin c(1) by (simp add: col_holds_def)
    qed (use fin(1) r' in \<open>simp add: finish_write_def\<close>)
    then show "rollback_column n c' = Some c" using c(2) by simp }
  { fix e c' assume "f n m c = (Err e, c')"
    then have "r = Err e" using fin(1) by (cases r) (auto simp: finish_write_def split: option.splits if_splits)
    then show "new_res pre valid_mask m x = Err e" using cs by auto }
qed

text \<open>The outcome of the loop over the values, and of the whole write.\<close>

definition loop_res :: "nat \<Rightarrow> nat \<Rightarrow> (Writer_Error, unit) res" where
  "loop_res k l = (if k \<le> l then Ok () else Err InsufficientValues)"

definition typed_new :: "byte list option \<Rightarrow> nat \<Rightarrow> 'a list \<Rightarrow> ('a option list \<Rightarrow> ColumnValues) \<Rightarrow> (Writer_Error, ColumnValues) res" where
  "typed_new valid_mask m vs mkv =
     new_res (loop_res (length (set_position_iterator valid_mask m)) (length vs)) valid_mask m (mkv (new_cells valid_mask m vs))"

lemma typed_writerI:
  fixes mks :: "'a StatValues \<Rightarrow> Statistics" and vs :: "'a list"
  assumes "\<And>c v n. col_holds c ty v \<Longrightarrow> cv_length v = n \<Longrightarrow>
      typed_run valid_mask m (loop_res (length (set_position_iterator valid_mask m)) (length vs)) (mkv (new_cells valid_mask m vs)) mks ty c v (f n m c)"
    and mkv: "\<And>xs :: 'a option list. cv_present (mkv xs) = map (\<lambda>x. x \<noteq> None) xs"
  shows "column_writer f ty m (typed_new valid_mask m vs mkv)"
  unfolding typed_new_def
proof (rule column_writerI [where mks = mks])
  show "typed_run valid_mask m (loop_res (length (set_position_iterator valid_mask m)) (length vs)) (mkv (new_cells valid_mask m vs)) mks ty c v (f n m c)"
    if "col_holds c ty v" "cv_length v = n" for c v n using that by (rule assms(1))
  show "cv_length (mkv (new_cells valid_mask m vs)) = m" using arg_cong [OF mkv, of length "new_cells valid_mask m vs"] by simp
  show "cv_present (mkv (new_cells valid_mask m vs)) = mask_bits valid_mask m"
    if "loop_res (length (set_position_iterator valid_mask m)) (length vs) = Ok ()" "mask_ok valid_mask m"
    using that by (simp only: mkv) (rule new_cells_present, auto simp: loop_res_def split: if_splits)
qed

end
