(* ===== verification/Batch_Writes.thy ===== *)
theory Batch_Writes
  imports Batch_Columns
begin

text \<open>
  Every write of \<open>src/mutable_batch/src/writer.rs\<close> meets the contract of a column write: the typed
  writes, and the copies of the rows of another batch.
\<close>

section \<open>Typed writes\<close>

lemma vec_loop:
  assumes "length xs = n"
  shows "write_loop (vec_put n) upd (set_position_iterator valid_mask m) vs (vec_resize (n + m) z (map (dflt z) xs), s) =
    (if length (set_position_iterator valid_mask m) \<le> length vs then Ok () else Err InsufficientValues,
     map (dflt z) (xs @ new_cells valid_mask m vs), fold upd (take (length (set_position_iterator valid_mask m)) vs) s)"
proof -
  have "vec_resize (n + m) z (map (dflt z) xs) = map (dflt z) (xs @ replicate m None)"
    using assms by (simp add: vec_resize_def)
  with vec.write_loop_cells [of n xs _ z "replicate m None" m 0 "set_position_iterator valid_mask m" upd vs s]
    positions_range [of valid_mask m] assms
  show ?thesis by (auto simp: new_cells_def simp del: map_append)
qed

lemma col_holds_F64:
  assumes "col_holds c (InfluxColumnType_Field InfluxFieldType_Float) v"
  obtains xs st where "v = CV_F64 xs" "bc_data c = ColumnData_F64 (map (dflt 0) xs) st"
  using assms by (cases "bc_data c"; cases v) (auto simp: col_holds_def)

lemma col_holds_I64:
  assumes "col_holds c ty v" and "ty \<in> {InfluxColumnType_Field InfluxFieldType_Integer, InfluxColumnType_Timestamp}"
  obtains xs st where "v = CV_I64 xs" "bc_data c = ColumnData_I64 (map (dflt 0) xs) st"
  using assms by (cases "bc_data c"; cases v) (auto simp: col_holds_def)

lemma col_holds_U64:
  assumes "col_holds c (InfluxColumnType_Field InfluxFieldType_UInteger) v"
  obtains xs st where "v = CV_U64 xs" "bc_data c = ColumnData_U64 (map (dflt 0) xs) st"
  using assms by (cases "bc_data c"; cases v) (auto simp: col_holds_def)

lemma col_holds_Bool:
  assumes "col_holds c (InfluxColumnType_Field InfluxFieldType_Boolean) v"
  obtains xs b st where "v = CV_Bool xs" "bc_data c = ColumnData_Bool b st" "bs_wf b" "bits b = map (dflt False) xs"
  using assms by (cases "bc_data c"; cases v) (auto simp: col_holds_def)

lemma col_holds_String:
  assumes "col_holds c (InfluxColumnType_Field InfluxFieldType_String) v"
  obtains xs st where "v = CV_String xs" "bc_data c = ColumnData_String (psa_of (map (dflt []) xs)) st" "strings_fit xs"
  using assms by (cases "bc_data c"; cases v) (auto simp: col_holds_def)

lemma col_holds_Tag:
  assumes "col_holds c InfluxColumnType_Tag v"
  obtains xs st where "v = CV_String xs" "dict_fits (dict_of xs)"
    "bc_data c = ColumnData_Tag (map (tag_id (dict_of xs)) xs) (sd_of (dict_of xs)) st"
  using assms by (cases "bc_data c"; cases v) (auto simp: col_holds_def)

lemmas write_count = fold_update_total_count StatValues_new_empty_def

lemma f64_new_rows: "length (set_position_iterator valid_mask m) \<le> length vs \<Longrightarrow>
    stats_of (Statistics_F64 (StatValues_update_for_nulls (m - length (set_position_iterator valid_mask m))
        (fold (StatValues_update ord_f64) (take (length (set_position_iterator valid_mask m)) vs) StatValues_new_empty)))
      (CV_F64 (new_cells valid_mask m vs))"
  using f64.new_rows_summarises [of valid_mask m vs] by simp

lemma total_new_rows: "length (set_position_iterator valid_mask m) \<le> length vs \<Longrightarrow>
    summarises ord_total (\<lambda>x. x) (StatValues_update_for_nulls (m - length (set_position_iterator valid_mask m))
        (fold (StatValues_update ord_total) (take (length (set_position_iterator valid_mask m)) vs) StatValues_new_empty))
      (new_cells valid_mask m vs)"
  using total.new_rows_summarises [of valid_mask m vs] by simp

lemma column_writer_vecI:
  assumes run: "\<And>c v n. col_holds c ty v \<Longrightarrow> cv_length v = n \<Longrightarrow>
      \<exists>d s. f n m c = finish_write valid_mask m mks
            (if length (set_position_iterator valid_mask m) \<le> length vs then Ok () else Err InsufficientValues) s (c\<lparr>bc_data := d\<rparr>)
        \<and> type_ok ty d \<and> data_stats d = data_stats (bc_data c)
        \<and> (\<exists>v'. cv_append v (mkv (new_cells valid_mask m vs)) = Some v' \<and> data_holds d v')
        \<and> s = fold (StatValues_update ord) (take (length (set_position_iterator valid_mask m)) vs) StatValues_new_empty"
    and stats: "length (set_position_iterator valid_mask m) \<le> length vs \<Longrightarrow>
      stats_of (mks (StatValues_update_for_nulls (m - length (set_position_iterator valid_mask m))
          (fold (StatValues_update ord) (take (length (set_position_iterator valid_mask m)) vs) StatValues_new_empty)))
        (mkv (new_cells valid_mask m vs))"
    and mkv: "\<And>xs. cv_present (mkv xs) = map (\<lambda>x. x \<noteq> None) xs"
  shows "column_writer f ty m (typed_new valid_mask m vs mkv)"
proof (rule typed_writerI [where mks = mks])
  let ?k = "length (set_position_iterator valid_mask m)"
  fix c v n assume "col_holds c ty v" "cv_length v = n"
  from run [OF this] obtain d s where d: "f n m c = finish_write valid_mask m mks
        (if ?k \<le> length vs then Ok () else Err InsufficientValues) s (c\<lparr>bc_data := d\<rparr>)"
      "type_ok ty d" "data_stats d = data_stats (bc_data c)"
      "\<exists>v'. cv_append v (mkv (new_cells valid_mask m vs)) = Some v' \<and> data_holds d v'"
      "s = fold (StatValues_update ord) (take ?k vs) StatValues_new_empty" by blast
  obtain v' where v': "cv_append v (mkv (new_cells valid_mask m vs)) = Some v'" "data_holds d v'" using d(4) by blast
  show "typed_run valid_mask m (loop_res ?k (length vs)) (mkv (new_cells valid_mask m vs)) mks ty c v (f n m c)"
  proof (cases "?k \<le> length vs")
    case True
    then have "sv_total_count s = ?k" by (simp add: d(5) write_count)
    then show ?thesis using True stats d v' length_positions [of valid_mask m]
      by (intro typed_run_ok [where s = s and d = d and v' = v']) (simp_all add: loop_res_def)
  next
    case False
    then show ?thesis using d v'
      by (intro typed_run_err [where s = s and d = d and v' = v' and e = InsufficientValues]) (simp_all add: loop_res_def)
  qed
qed (rule mkv)

interpretation f64_writer: column_writer "write_f64_column valid_mask vs" "InfluxColumnType_Field InfluxFieldType_Float" m
    "typed_new valid_mask m vs CV_F64" for valid_mask vs m
proof (rule column_writer_vecI [where mks = Statistics_F64 and ord = ord_f64], goal_cases)
  case (1 c v n)
  then obtain xs st where v: "v = CV_F64 xs" "bc_data c = ColumnData_F64 (map (dflt 0) xs) st" using col_holds_F64 by blast
  then have n: "length xs = n" using 1 by simp
  show ?case
    by (intro exI conjI, simp only: write_f64_column_def v ColumnData.case vec_loop [OF n] prod.case) (simp_all add: v, simp)
qed (rule f64_new_rows, simp_all)

interpretation i64_writer: column_writer "write_i64_column valid_mask vs" "InfluxColumnType_Field InfluxFieldType_Integer" m
    "typed_new valid_mask m vs CV_I64" for valid_mask vs m
proof (rule column_writer_vecI [where mks = Statistics_I64 and ord = ord_total], goal_cases)
  case (1 c v n)
  then obtain xs st where v: "v = CV_I64 xs" "bc_data c = ColumnData_I64 (map (dflt 0) xs) st" using col_holds_I64 by blast
  then have n: "length xs = n" using 1 by simp
  show ?case
    by (intro exI conjI, simp only: write_i64_column_def v ColumnData.case vec_loop [OF n] prod.case) (simp_all add: v, simp)
qed (simp_all add: total_new_rows)

interpretation time_writer: column_writer "write_i64_column None vs" InfluxColumnType_Timestamp m
    "typed_new None m vs CV_I64" for vs m
proof (rule column_writer_vecI [where mks = Statistics_I64 and ord = ord_total], goal_cases)
  case (1 c v n)
  then obtain xs st where v: "v = CV_I64 xs" "bc_data c = ColumnData_I64 (map (dflt 0) xs) st" using col_holds_I64 by blast
  then have n: "length xs = n" using 1 by simp
  show ?case
    by (intro exI conjI, simp only: write_i64_column_def v ColumnData.case vec_loop [OF n] prod.case) (simp_all add: v, simp)
qed (simp_all add: total_new_rows)

interpretation u64_writer: column_writer "write_u64_column valid_mask vs" "InfluxColumnType_Field InfluxFieldType_UInteger" m
    "typed_new valid_mask m vs CV_U64" for valid_mask vs m
proof (rule column_writer_vecI [where mks = Statistics_U64 and ord = ord_total], goal_cases)
  case (1 c v n)
  then obtain xs st where v: "v = CV_U64 xs" "bc_data c = ColumnData_U64 (map (dflt 0) xs) st" using col_holds_U64 by blast
  then have n: "length xs = n" using 1 by simp
  show ?case
    by (intro exI conjI, simp only: write_u64_column_def v ColumnData.case vec_loop [OF n] prod.case) (simp_all add: v, simp)
qed (simp_all add: total_new_rows)

interpretation bool_writer: column_writer "write_bool_column valid_mask vs" "InfluxColumnType_Field InfluxFieldType_Boolean" m
    "typed_new valid_mask m vs CV_Bool" for valid_mask vs m
proof (rule column_writer_vecI [where mks = Statistics_Bool and ord = ord_total], goal_cases)
  case (1 c v n)
  then obtain xs b st where v: "v = CV_Bool xs" "bc_data c = ColumnData_Bool b st" and b: "bs_wf b" "bits b = map (dflt False) xs"
    using col_holds_Bool by blast
  have n: "length xs = n" using 1 v by simp
  let ?is = "set_position_iterator valid_mask m"
  have "bs_wf (BitSet_append_unset m b)" "bits (BitSet_append_unset m b) = map (dflt False) (xs @ replicate m None)"
    using append_unset_bits [OF b(1), of m] b(2) by simp_all
  with bool.write_loop_cells [where n = n and v = xs and m = m and j = 0 and cells = "replicate m None"
      and d = "BitSet_append_unset m b" and vs = vs and upd = "StatValues_update ord_total" and s = StatValues_new_empty,
      OF _ _ _ positions_range [of valid_mask m]] n
  obtain b' where b': "write_loop (bool_put n) (StatValues_update ord_total) ?is vs (BitSet_append_unset m b, StatValues_new_empty) =
      (if length ?is \<le> length vs then Ok () else Err InsufficientValues, b',
       fold (StatValues_update ord_total) (take (length ?is) vs) StatValues_new_empty)"
    "bs_wf b'" "bits b' = map (dflt False) (xs @ new_cells valid_mask m vs)"
    by (auto simp: new_cells_def simp del: map_append)
  show ?case
    by (intro exI conjI, simp only: write_bool_column_def v ColumnData.case bool_put_def [symmetric] b' prod.case)
      (use b' in \<open>simp_all add: v\<close>, use b' in simp)
qed (simp_all add: total_new_rows)

lemma string_pad:
  assumes "none_from j cells" and "length cells = m" and "j \<le> m" and "length xs = n" and "strings_fit (xs @ take j cells)"
  shows "string_pad_to (n + m) (psa_of (map (dflt []) (xs @ take j cells))) = Some (psa_of (map (dflt []) (xs @ cells)))"
    and "strings_fit (xs @ cells)"
proof -
  have "drop j cells = replicate (m - j) None"
    by (rule nth_equalityI) (use assms none_fromD [OF assms(1)] in simp_all)
  then have eq: "cells = take j cells @ replicate (m - j) None" by (metis append_take_drop_id)
  have "map (dflt []) cells = map (dflt []) (take j cells) @ replicate (m - j) []" by (subst (1) eq) simp
  with assms show "string_pad_to (n + m) (psa_of (map (dflt []) (xs @ take j cells))) = Some (psa_of (map (dflt []) (xs @ cells)))"
    by (simp add: string_pad_to_def extend_psa strings_fit_def)
  show "strings_fit (xs @ cells)" using assms(5) \<open>map (dflt []) cells = _\<close> by (simp add: strings_fit_def)
qed

interpretation string_writer: column_writer "write_string_column valid_mask vs" "InfluxColumnType_Field InfluxFieldType_String" m
    "typed_new valid_mask m vs CV_String" for valid_mask vs m
proof (rule typed_writerI [where mks = Statistics_String], goal_cases)
  case (1 c v n)
  then obtain xs st where v: "v = CV_String xs" "bc_data c = ColumnData_String (psa_of (map (dflt []) xs)) st" "strings_fit xs"
    using col_holds_String by blast
  have n: "length xs = n" using 1 v by simp
  let ?is = "set_position_iterator valid_mask m" and ?cells = "new_cells valid_mask m vs"
  from str.write_loop_cells [where n = n and v = xs and m = m and j = 0 and cells = "replicate m None"
      and d = "psa_of (map (dflt []) xs)" and vs = vs and upd = "StatValues_update ord_total" and s = StatValues_new_empty,
      OF _ _ _ positions_range [of valid_mask m]] n v(3)
  obtain r d s where loop: "write_loop (string_put n) (StatValues_update ord_total) ?is vs (psa_of (map (dflt []) xs), StatValues_new_empty) = (r, d, s)"
    and cs: "r = Panic \<and> \<not> strings_fit (xs @ ?cells)
       \<or> r = (if length ?is \<le> length vs then Ok () else Err InsufficientValues)
         \<and> s = fold (StatValues_update ord_total) (take (length ?is) vs) StatValues_new_empty
         \<and> (\<exists>j. j \<le> m \<and> d = psa_of (map (dflt []) (xs @ take j ?cells)) \<and> strings_fit (xs @ take j ?cells) \<and> none_from j ?cells)"
    unfolding new_cells_def by auto
  consider (full) "r = Panic" "\<not> strings_fit (xs @ ?cells)"
    | (short) j where "r = Err InsufficientValues" "length vs < length ?is" "d = psa_of (map (dflt []) (xs @ take j ?cells))" "strings_fit (xs @ take j ?cells)"
    | (ok) j where "r = Ok ()" "length ?is \<le> length vs" "s = fold (StatValues_update ord_total) (take (length ?is) vs) StatValues_new_empty"
        "j \<le> m" "d = psa_of (map (dflt []) (xs @ take j ?cells))" "strings_fit (xs @ take j ?cells)" "none_from j ?cells"
    using cs by (auto split: if_splits)
  then show ?case
  proof cases
    case full
    have "write_string_column valid_mask vs n m c = finish_write valid_mask m Statistics_String r s (c\<lparr>bc_data := ColumnData_String d st\<rparr>)"
      using full(1) by (simp add: write_string_column_def v loop)
    with full v show ?thesis
      by (intro typed_run_panic [where s = s and d = "ColumnData_String d st"]) auto
  next
    case short
    have "write_string_column valid_mask vs n m c = finish_write valid_mask m Statistics_String r s (c\<lparr>bc_data := ColumnData_String d st\<rparr>)"
      using short(1) by (simp add: write_string_column_def v loop)
    with short v show ?thesis
      by (intro typed_run_err [where s = s and d = "ColumnData_String d st" and v' = "CV_String (xs @ take j ?cells)"
            and y = "CV_String (take j ?cells)" and e = InsufficientValues]) (simp_all add: loop_res_def)
  next
    case ok
    note pad = string_pad [OF ok(7) length_new_cells ok(4) n ok(6)]
    let ?d = "ColumnData_String (psa_of (map (dflt []) (xs @ ?cells))) st"
    have "write_string_column valid_mask vs n m c = finish_write valid_mask m Statistics_String (Ok ()) s (c\<lparr>bc_data := ?d\<rparr>)"
      using ok pad(1) by (simp add: write_string_column_def v loop del: map_append)
    moreover have "sv_total_count s = length ?is" using ok(2) by (simp add: ok(3) write_count)
    moreover from this have "stats_of (Statistics_String (StatValues_update_for_nulls (m - sv_total_count s) s)) (CV_String ?cells)"
      using total_new_rows [OF ok(2)] ok(3) by simp
    ultimately show ?thesis using ok(2) pad(2) v length_positions [of valid_mask m]
      by (intro typed_run_ok [where s = s and d = ?d and v' = "CV_String (xs @ ?cells)"]) (simp_all add: loop_res_def)
  qed
qed simp

lemma vec_resize_tags:
  "length xs = n \<Longrightarrow> vec_resize (n + m) INVALID_DID (map (tag_id ds) xs) = map (tag_id ds) (xs @ replicate m None)"
  by (simp add: vec_resize_def map_replicate_const)

interpretation tag_writer: column_writer "write_tag_column valid_mask vs" InfluxColumnType_Tag m
    "typed_new valid_mask m vs CV_String" for valid_mask vs m
proof (rule typed_writerI [where mks = Statistics_String], goal_cases)
  case (1 c v n)
  then obtain xs st where v: "v = CV_String xs" "dict_fits (dict_of xs)"
      "bc_data c = ColumnData_Tag (map (tag_id (dict_of xs)) xs) (sd_of (dict_of xs)) st"
    using col_holds_Tag by blast
  have n: "length xs = n" using 1 v by simp
  let ?is = "set_position_iterator valid_mask m" and ?cells = "new_cells valid_mask m vs"
  let ?start = "(vec_resize (n + m) INVALID_DID (map (tag_id (dict_of xs)) xs), sd_of (dict_of xs))"
  from tag.write_loop_cells [where n = n and v = xs and m = m and j = 0 and cells = "replicate m None"
      and d = ?start and vs = vs and upd = "StatValues_update ord_total" and s = StatValues_new_empty,
      OF _ _ _ positions_range [of valid_mask m]] n v(2)
  obtain r d s where loop: "write_loop (tag_put n) (StatValues_update ord_total) ?is vs (?start, StatValues_new_empty) = (r, d, s)"
    and cs: "r = Panic \<and> \<not> dict_fits (dict_of (xs @ ?cells))
       \<or> r = (if length ?is \<le> length vs then Ok () else Err InsufficientValues)
         \<and> s = fold (StatValues_update ord_total) (take (length ?is) vs) StatValues_new_empty
         \<and> d = (map (tag_id (dict_of (xs @ ?cells))) (xs @ ?cells), sd_of (dict_of (xs @ ?cells))) \<and> dict_fits (dict_of (xs @ ?cells))"
    unfolding new_cells_def by (auto simp: vec_resize_tags dict_of_Nones simp del: map_append)
  obtain ids dict where d: "d = (ids, dict)" by (cases d)
  let ?d = "ColumnData_Tag ids dict st"
  have fin: "write_tag_column valid_mask vs n m c = finish_write valid_mask m Statistics_String r s (c\<lparr>bc_data := ?d\<rparr>)"
    using loop by (simp add: write_tag_column_def v d)
  have holds: "cv_append v (CV_String ?cells) = Some (CV_String (xs @ ?cells)) \<and> data_holds ?d (CV_String (xs @ ?cells))"
    if "r \<noteq> Panic" using cs that d v(1) by simp
  have stats: "sv_total_count s = length ?is \<and> stats_of (Statistics_String (StatValues_update_for_nulls (m - sv_total_count s) s)) (CV_String ?cells)"
    if "r = Ok ()"
  proof -
    have "length ?is \<le> length vs" "s = fold (StatValues_update ord_total) (take (length ?is) vs) StatValues_new_empty"
      using that cs by (auto split: if_splits)
    then show ?thesis using total_new_rows [of valid_mask m vs] by (simp add: write_count)
  qed
  consider "r = Panic" "\<not> dict_fits (dict_of (xs @ ?cells))" | "r = Err InsufficientValues" "length vs < length ?is"
    | "r = Ok ()" "length ?is \<le> length vs" using cs by (auto split: if_splits)
  then show ?case
  proof cases
    case 1
    with fin v show ?thesis by (intro typed_run_panic [where s = s and d = ?d]) auto
  next
    case 2
    with fin v holds show ?thesis
      by (intro typed_run_err [where s = s and d = ?d and v' = "CV_String (xs @ ?cells)" and y = "CV_String ?cells"
            and e = InsufficientValues]) (auto simp: loop_res_def)
  next
    case 3
    with fin v holds stats length_positions [of valid_mask m] show ?thesis
      by (intro typed_run_ok [where s = s and d = ?d and v' = "CV_String (xs @ ?cells)"]) (auto simp: loop_res_def)
  qed
qed simp

section \<open>Tags through a dictionary\<close>

text \<open>The identifiers that are already computed are those of the column's dictionary.\<close>

definition consistent :: "(string \<times> DID option) list \<Rightarrow> string list \<Rightarrow> string list \<Rightarrow> bool" where
  "consistent mapping values ds \<longleftrightarrow> length mapping = length values
     \<and> (\<forall>k<length values. fst (mapping ! k) = values ! k
          \<and> (\<forall>did. snd (mapping ! k) = Some did \<longrightarrow> values ! k \<in> set ds \<and> did = int (index_of ds (values ! k))))"

lemma consistent_start: "consistent (map (\<lambda>value. (value, None)) values) values ds"
  by (simp add: consistent_def)

lemma consistent_extend: "consistent mapping values ds \<Longrightarrow> consistent mapping values (ds @ es)"
  by (auto simp: consistent_def index_of_append)

lemma consistent_update:
  assumes "consistent mapping values ds" and "key < length values" and "values ! key \<in> set ds"
  shows "consistent (mapping[key := (values ! key, Some (int (index_of ds (values ! key))))]) values ds"
  using assms by (auto simp: consistent_def nth_list_update)

lemma tag_put_of:
  assumes "distinct ds"
  shows "tag_put n idx x (d, sd_of ds) =
    (let ds' = dict_add ds (Some x) in
     if (x \<in> set ds \<or> total_len ds' \<le> i32_max \<and> length ds \<le> i32_max)
     then map_option (\<lambda>d. (d, sd_of ds')) (vec_put n idx (int (index_of ds' x)) d) else None)"
  by (simp add: tag_put_def lookup_value_or_insert_of [OF assms] index_of_append Let_def)

lemma tag_dict_step:
  assumes "consistent mapping values ds" and "distinct ds" and "key < length values"
  shows "case tag_put n idx (values ! key) (d, sd_of ds) of
      None \<Rightarrow> fst (tag_dict_loop n (idx # ixs) (key # keys) ((d, sd_of ds), mapping, s)) = Panic
    | Some (d', dict') \<Rightarrow> \<exists>mapping'. dict' = sd_of (dict_add ds (Some (values ! key)))
        \<and> consistent mapping' values (dict_add ds (Some (values ! key)))
        \<and> tag_dict_loop n (idx # ixs) (key # keys) ((d, sd_of ds), mapping, s)
          = tag_dict_loop n ixs keys ((d', dict'), mapping', StatValues_update ord_total (values ! key) s)"
proof -
  let ?x = "values ! key" and ?ds' = "dict_add ds (Some (values ! key))"
  obtain md where md: "mapping ! key = (?x, md)" and len: "length mapping = length values"
    using assms by (metis consistent_def prod.collapse)
  have ext: "consistent mapping values ?ds'" using assms(1) consistent_extend by auto
  show ?thesis
  proof (cases md)
    case (Some did)
    then have did: "?x \<in> set ds" "did = int (index_of ds ?x)" using assms md by (auto simp: consistent_def)
    show ?thesis
    proof (cases "vec_put n idx did d")
      case None
      then show ?thesis using did md Some assms len by (simp add: tag_put_of [OF assms(2)])
    next
      case (Some d')
      then show ?thesis using did md \<open>md = Some did\<close> assms len ext
        by (auto simp: tag_put_of [OF assms(2)])
    qed
  next
    case None
    let ?ok = "?x \<in> set ds \<or> total_len ?ds' \<le> i32_max \<and> length ds \<le> i32_max"
    have lk: "StringDictionary_lookup_value_or_insert ?x (sd_of ds) = (if ?ok then Some (index_of ?ds' ?x, sd_of ?ds') else None)"
      by (simp add: lookup_value_or_insert_of [OF assms(2)] index_of_append)
    have upd: "consistent (mapping[key := (?x, Some (int (index_of ?ds' ?x)))]) values ?ds'"
      by (rule consistent_update [OF ext assms(3)]) simp
    show ?thesis
    proof (cases "?ok")
      case True
      then show ?thesis
        by (cases "vec_put n idx (int (index_of ?ds' ?x)) d")
          (use upd lk md None assms(3) len in \<open>auto simp: tag_put_of [OF assms(2)] Let_def simp del: dict_add_simps\<close>)
    next
      case False
      then have "tag_put n idx ?x (d, sd_of ds) = None" by (simp only: tag_put_of [OF assms(2)] Let_def if_False)
      moreover have "StringDictionary_lookup_value_or_insert ?x (sd_of ds) = None" using False by (simp only: lk if_False)
      ultimately show ?thesis using md None assms(3) len by simp
    qed
  qed
qed

definition tag_data :: "string option list \<Rightarrow> DID list \<times> StringDictionary" where
  "tag_data xs = (map (tag_id (dict_of xs)) xs, sd_of (dict_of xs))"

text \<open>The outcome of the loop over the keys.\<close>

definition keys_res :: "nat \<Rightarrow> nat list \<Rightarrow> string list \<Rightarrow> (Writer_Error, unit) res" where
  "keys_res k keys values =
     (case find (\<lambda>key. \<not> key < length values) (take k keys) of
        Some key \<Rightarrow> Err (KeyNotFound key)
      | None \<Rightarrow> loop_res k (length keys))"

lemma keys_res_Cons:
  "keys_res (Suc k) (key # keys) values = (if key < length values then keys_res k keys values else Err (KeyNotFound key))"
  by (simp add: keys_res_def loop_res_def split: option.split)

lemma tag_dict_cells:
  assumes "length v = n" and "dict_fits (dict_of (v @ cells))" and "consistent mapping values (dict_of (v @ cells))"
    and "length cells = m" and "none_from j cells" and "sorted_wrt (<) is" and "set is \<subseteq> {j..<m}"
  shows "\<exists>r d mp s'. tag_dict_loop n is keys (tag_data (v @ cells), mapping, s) = (r, d, mp, s')
    \<and> (r = Panic \<and> (keys_res (length is) keys values = Ok () \<longrightarrow> \<not> dict_fits (dict_of (v @ fill is (map ((!) values) keys) cells)))
       \<or> r = keys_res (length is) keys values
         \<and> (\<exists>cells'. d = tag_data (v @ cells') \<and> length cells' = m \<and> dict_fits (dict_of (v @ cells'))
              \<and> (r = Ok () \<longrightarrow> cells' = fill is (map ((!) values) keys) cells
                   \<and> s' = fold (StatValues_update ord_total) (take (length is) (map ((!) values) keys)) s)))"
  using assms
proof (induction "is" arbitrary: j cells mapping s keys)
  case Nil
  then show ?case by (auto simp: keys_res_def loop_res_def tag_data_def)
next
  case (Cons i "is")
  note IH = Cons.IH and prems = Cons.prems
  show ?case
  proof (cases keys)
    case Nil
    with prems show ?thesis by (auto simp: keys_res_def loop_res_def tag_data_def)
  next
    case (Cons key keys')
    show ?thesis
    proof (cases "key < length values")
      case False
      moreover have "length mapping = length values" using prems(3) by (simp add: consistent_def)
      ultimately show ?thesis using prems Cons by (auto simp: tag_data_def keys_res_Cons)
    next
      case True
      let ?x = "values ! key" and ?cells = "cells[i := Some (values ! key)]"
      have i: "j \<le> i" "i < m" using prems by auto
      have dict: "dict_of (v @ ?cells) = dict_add (dict_of (v @ cells)) (Some ?x)"
        by (rule dict_of_cells [OF prems(4,5) i])
      note step = tag_dict_step [OF prems(3) distinct_dict_of True, where n = n and idx = i
          and d = "map (tag_id (dict_of (v @ cells))) (v @ cells)" and ixs = "is" and keys = keys' and s = s]
      have cs: "case tag_put n i ?x (tag_data (v @ cells)) of
          Some d' \<Rightarrow> d' = tag_data (v @ ?cells) \<and> dict_fits (dict_of (v @ ?cells)) | None \<Rightarrow> \<not> dict_fits (dict_of (v @ ?cells))"
        using tag.put_step [of n v "tag_data (v @ cells)" cells m j i ?x] prems i by (auto simp: tag_data_def split: option.splits)
      show ?thesis
      proof (cases "tag_put n i ?x (tag_data (v @ cells))")
        case None
        then have full: "\<not> dict_fits (dict_of (v @ fill is (map ((!) values) keys') ?cells))"
          using tag.full_fill [of v ?cells m "i + 1" "is" "map ((!) values) keys'"] cs prems(4) none_from_update [OF prems(5) i(1)]
            sorted_tail_range [OF prems(6,7)] by simp
        have "fst (tag_dict_loop n (i # is) keys (tag_data (v @ cells), mapping, s)) = Panic"
          using step None Cons by (simp add: tag_data_def)
        then show ?thesis using full Cons by (cases "tag_dict_loop n (i # is) keys (tag_data (v @ cells), mapping, s)") auto
      next
        case (Some d')
        then have d': "d' = tag_data (v @ ?cells)" "dict_fits (dict_of (v @ ?cells))" using cs by simp_all
        from step Some d' obtain mapping' where mp: "consistent mapping' values (dict_of (v @ ?cells))"
          "tag_dict_loop n (i # is) keys (tag_data (v @ cells), mapping, s)
             = tag_dict_loop n is keys' (tag_data (v @ ?cells), mapping', StatValues_update ord_total ?x s)"
          unfolding tag_data_def dict Cons by (auto simp del: dict_add_simps)
        from IH [OF prems(1) d'(2) mp(1) _ none_from_update [OF prems(5) i(1)] sorted_tail_range [OF prems(6,7)],
            of keys' "StatValues_update ord_total ?x s"] prems(4) True Cons
        show ?thesis unfolding mp(2) by (simp add: keys_res_Cons)
      qed
    qed
  qed
qed

interpretation tag_dict_writer: column_writer "write_tag_dict_column valid_mask keys values" InfluxColumnType_Tag m
    "new_res (keys_res (length (set_position_iterator valid_mask m)) keys values) valid_mask m
       (CV_String (new_cells valid_mask m (map ((!) values) keys)))" for valid_mask keys "values" m
proof (rule column_writerI [where mks = Statistics_String], goal_cases)
  case (1 c v n)
  then obtain xs st where v: "v = CV_String xs" "dict_fits (dict_of xs)"
      "bc_data c = ColumnData_Tag (map (tag_id (dict_of xs)) xs) (sd_of (dict_of xs)) st"
    using col_holds_Tag by blast
  have n: "length xs = n" using 1 v by simp
  let ?is = "set_position_iterator valid_mask m" and ?vs = "map ((!) values) keys"
  let ?cells = "new_cells valid_mask m ?vs" and ?pre = "keys_res (length ?is) keys values"
  have start: "(vec_resize (n + m) INVALID_DID (map (tag_id (dict_of xs)) xs), sd_of (dict_of xs)) = tag_data (xs @ replicate m None)"
    using n by (simp add: tag_data_def vec_resize_tags dict_of_Nones del: map_append)
  have fits: "dict_fits (dict_of (xs @ replicate m None))" using v(2) by (simp add: dict_of_Nones)
  obtain r d mp s where loop: "tag_dict_loop n ?is keys (tag_data (xs @ replicate m None), map (\<lambda>value. (value, None)) values, StatValues_new_empty) = (r, d, mp, s)"
    by (metis prod.exhaust)
  have cs: "r = Panic \<and> (?pre = Ok () \<longrightarrow> \<not> dict_fits (dict_of (xs @ ?cells)))
       \<or> r = ?pre \<and> (\<exists>cells'. d = tag_data (xs @ cells') \<and> length cells' = m \<and> dict_fits (dict_of (xs @ cells'))
              \<and> (r = Ok () \<longrightarrow> cells' = ?cells \<and> s = fold (StatValues_update ord_total) (take (length ?is) ?vs) StatValues_new_empty))"
    using tag_dict_cells [OF n fits consistent_start [of "values"] length_replicate none_from_replicate positions_range [of valid_mask m],
      where keys = keys and s = StatValues_new_empty] loop unfolding new_cells_def by simp
  let ?d = "ColumnData_Tag (fst d) (snd d) st"
  have fin: "write_tag_dict_column valid_mask keys values n m c = finish_write valid_mask m Statistics_String r s (c\<lparr>bc_data := ?d\<rparr>)"
    using loop by (cases d) (simp add: write_tag_dict_column_def v start)
  have pre: "?pre = Ok () \<Longrightarrow> length ?is \<le> length ?vs" "?pre \<noteq> Panic"
    by (auto simp: keys_res_def loop_res_def split: option.splits if_splits)
  consider "r = Panic" "?pre = Ok () \<Longrightarrow> \<not> dict_fits (dict_of (xs @ ?cells))"
    | e cells' where "r = Err e" "?pre = Err e" "d = tag_data (xs @ cells')" "dict_fits (dict_of (xs @ cells'))"
    | "r = Ok ()" "?pre = Ok ()" "d = tag_data (xs @ ?cells)" "dict_fits (dict_of (xs @ ?cells))"
      "s = fold (StatValues_update ord_total) (take (length ?is) ?vs) StatValues_new_empty"
    using cs pre(2) by (cases r) auto
  then show ?case
  proof cases
    case 1
    with fin v show ?thesis by (intro typed_run_panic [where s = s and d = ?d]) auto
  next
    case 2
    with fin v show ?thesis
      by (intro typed_run_err [where s = s and d = ?d and v' = "CV_String (xs @ cells')" and y = "CV_String cells'" and e = e])
        (auto simp: tag_data_def)
  next
    case 3
    then have "sv_total_count s = length ?is" using pre(1) by (simp add: write_count)
    moreover from this have "stats_of (Statistics_String (StatValues_update_for_nulls (m - sv_total_count s) s)) (CV_String ?cells)"
      using total_new_rows [OF pre(1)] 3 by simp
    ultimately show ?thesis using fin v 3 length_positions [of valid_mask m]
      by (intro typed_run_ok [where s = s and d = ?d and v' = "CV_String (xs @ ?cells)"]) (auto simp: tag_data_def)
  qed
next
  case 3
  then show ?case
    by (simp only: cv_present.simps) (rule new_cells_present, auto simp: keys_res_def loop_res_def split: option.splits if_splits)
qed simp

end
