(* ===== verification/Batch_Copies.thy ===== *)
theory Batch_Copies
  imports Batch_Writes
begin

text \<open>
  Copying rows between batches: \<open>write_batch\<close> and \<open>write_batch_ranges\<close> of
  \<open>src/mutable_batch/src/writer.rs\<close> meet the contract of a column write.
\<close>

section \<open>Copies succeed or run out of capacity\<close>

lemma copy_writerI:
  assumes "\<And>c v. col_holds c ty v \<Longrightarrow> \<exists>v'. cv_append v x = Some v'
      \<and> (\<not> capacity ty v' \<and> fst (f (cv_length v) m c) = Panic
         \<or> (\<exists>st c'. f (cv_length v) m c = (Ok st, c') \<and> col_holds c' ty v'
              \<and> data_stats (bc_data c') = data_stats (bc_data c) \<and> stats_of st x))"
    and "cv_length x = m"
  shows "column_writer f ty m (Ok x)"
proof
  fix c v n assume c: "col_holds c ty v" "cv_length v = n"
  from assms(1) [OF c(1)] obtain v' where v': "cv_append v x = Some v'"
    and cs: "\<not> capacity ty v' \<and> fst (f n m c) = Panic
         \<or> (\<exists>st c'. f n m c = (Ok st, c') \<and> col_holds c' ty v'
              \<and> data_stats (bc_data c') = data_stats (bc_data c) \<and> stats_of st x)"
    unfolding c(2) by blast
  { fix st c' assume "f n m c = (Ok st, c')"
    with cs v' assms(2) show "\<exists>y. Ok x = Ok y \<and> written c ty v y m st c'" by (auto simp: written_def) }
  { fix y w assume "(Ok x :: (Writer_Error, ColumnValues) res) = Ok y" "cv_append v y = Some w" "capacity ty w"
    with cs v' show "is_ok (fst (f n m c))" by auto }
  { fix r c' assume undo: "undoable ty v" and r: "f n m c = (r, c')" "r \<noteq> Panic"
    then have c': "col_holds c' ty v'" "data_stats (bc_data c') = data_stats (bc_data c)" using cs by auto
    have "take (cv_length v) (bits (bc_valid c')) = cv_present v" using c'(1) v' by (simp add: col_holds_def cv_present_append)
    from rollback_column_holds [OF c(1) undo _ this _ v'] c' show "rollback_column n c' = Some c"
      using c(2) by (simp add: col_holds_def) }
  { fix e c' assume "f n m c = (Err e, c')"
    with cs show "(Ok x :: (Writer_Error, ColumnValues) res) = Err e" by auto }
qed

section \<open>Whole columns\<close>

lemma those_None: "None \<in> set xs \<Longrightarrow> those xs = None"
  by (induction xs) (auto split: option.splits)

lemma extend_from_psa_full:
  assumes "total_len xs \<le> i32_max" and "\<not> total_len (xs @ ys) \<le> i32_max"
  shows "PackedStringArray_extend_from (psa_of ys) (psa_of xs) = None"
proof -
  have "ys \<noteq> []" using assms by auto
  then have "drop 1 (psa_offsets (psa_of ys)) ! (length ys - 1) = total_len ys" by simp
  then have "total_len ys \<in> set (drop 1 (psa_offsets (psa_of ys)))"
    using \<open>ys \<noteq> []\<close> by (metis One_nat_def add_diff_cancel_right' diff_Suc_less length_drop length_greater_0_conv length_offsets nth_mem)
  then have "None \<in> set (map (\<lambda>x. K_from_usize (x + total_len xs)) (drop 1 (psa_offsets (psa_of ys))))"
    using assms(2) by (auto simp: K_from_usize_def image_iff intro!: bexI [of _ "total_len ys"])
  then show ?thesis by (simp add: PackedStringArray_extend_from_def those_None del: drop0)
qed

lemma foldl_dict_add_dict_of: "foldl dict_add ds (map Some (dict_of ys)) = foldl dict_add ds ys" if "distinct ds"
proof (induction ys rule: rev_induct)
  case (snoc y ys)
  have sets: "set (foldl dict_add ds ys) = set ds \<union> {s. Some s \<in> set ys}" using foldl_dict_add [OF that] by simp
  show ?case
  proof (cases y)
    case (Some s)
    show ?thesis
    proof (cases "s \<in> set (dict_of ys)")
      case True
      then have "s \<in> set (foldl dict_add ds ys)" using sets by simp
      with True Some snoc show ?thesis by (simp del: set_dict_of)
    next
      case False
      with Some snoc show ?thesis by (simp del: set_dict_of)
    qed
  qed (use snoc in simp)
qed simp

lemma dict_fits_dict_add: "dict_fits (dict_add ds c) \<Longrightarrow> dict_fits ds"
  by (cases c) (auto simp: dict_fits_def split: if_splits)

lemma dict_fits_foldl: "dict_fits (foldl dict_add ds xs) \<Longrightarrow> dict_fits ds"
  by (induction xs arbitrary: ds) (auto dest: dict_fits_dict_add)

lemma lookup_dict_add:
  assumes "distinct ds" and "dict_fits ds"
  shows "StringDictionary_lookup_value_or_insert s (sd_of ds) =
    (if dict_fits (dict_add ds (Some s)) then Some (index_of (dict_add ds (Some s)) s, sd_of (dict_add ds (Some s))) else None)"
  using assms(2) by (auto simp: lookup_value_or_insert_of [OF assms(1)] index_of_append dict_fits_def)

lemma index_of_foldl:
  assumes "distinct ds" and "s \<in> set ds"
  shows "index_of (foldl dict_add ds xs) s = index_of ds s"
  using foldl_dict_add [OF assms(1), of xs] assms(2) by (auto simp: index_of_append)

lemma intern_all_of:
  assumes "distinct ds" and "dict_fits ds"
  shows "intern_all vs (sd_of ds) = (let fs = foldl dict_add ds (map Some vs) in
    if dict_fits fs then Some (map (index_of fs) vs, sd_of fs) else None)"
  using assms
proof (induction vs arbitrary: ds)
  case (Cons v vs)
  let ?ds = "dict_add ds (Some v)" and ?fs = "foldl dict_add ds (map Some (v # vs))"
  have d: "distinct ?ds" using Cons.prems(1) by (rule distinct_dict_add)
  have lk: "StringDictionary_lookup_value_or_insert v (sd_of ds) = (if dict_fits ?ds then Some (index_of ?ds v, sd_of ?ds) else None)"
    by (rule lookup_dict_add [OF Cons.prems])
  show ?case
  proof (cases "dict_fits ?ds")
    case False
    then have "\<not> dict_fits ?fs" using dict_fits_foldl [of ?ds "map Some vs"] by auto
    with False lk show ?thesis by (simp del: dict_add_simps)
  next
    case True
    have "index_of ?fs v = index_of ?ds v" using index_of_foldl [OF d, of v "map Some vs"] by simp
    with True lk Cons.IH [OF d True] show ?thesis by (simp add: Let_def del: dict_add_simps)
  qed
qed simp

lemma K_as_usize_int: "i < 2 ^ 64 \<Longrightarrow> K_as_usize (int i) = i"
  by (simp add: K_as_usize_def nat_mod_distrib nat_power_eq)

lemma dict_fits_index:
  assumes "dict_fits ds" and "s \<in> set ds"
  shows "index_of ds s < 2 ^ 64"
proof -
  have "index_of ds s < i32_max + 1" using assms index_of_less [OF assms(2)] by (simp add: dict_fits_def)
  then show ?thesis by (simp add: i32_max_def)
qed

lemma map_dids:
  assumes "dict_fits (dict_of ys)"
  shows "those (map (map_did (map (index_of fs) (dict_of ys))) (map (tag_id (dict_of ys)) ys)) = Some (map (tag_id fs) ys)"
proof -
  have "map_did (map (index_of fs) (dict_of ys)) (tag_id (dict_of ys) c) = Some (tag_id fs c)" if "c \<in> set ys" for c
  proof (cases c)
    case (Some s)
    then have s: "s \<in> set (dict_of ys)" using that by simp
    from index_of_less [OF this] K_as_usize_int [OF dict_fits_index [OF assms s]] Some show ?thesis
      by (simp add: map_did_def INVALID_DID_def)
  qed (simp add: map_did_def)
  then show ?thesis by (simp add: those_map_Some [of ys _ "tag_id fs"] comp_def)
qed

lemma batch_column_data_holds:
  assumes c: "col_holds c ty v" and s: "col_holds src ty x"
  shows "\<exists>v'. cv_append v x = Some v' \<and> (\<not> capacity ty v' \<and> batch_column_data (bc_data src) (bc_data c) = None
    \<or> (\<exists>d. batch_column_data (bc_data src) (bc_data c) = Some (d, data_stats (bc_data src)) \<and> data_holds d v' \<and> type_ok ty d
         \<and> data_stats d = data_stats (bc_data c)))"
proof (cases ty)
  case InfluxColumnType_Tag
  obtain xs st where v: "v = CV_String xs" "dict_fits (dict_of xs)"
      "bc_data c = ColumnData_Tag (map (tag_id (dict_of xs)) xs) (sd_of (dict_of xs)) st"
    using c InfluxColumnType_Tag col_holds_Tag by blast
  obtain ys st' where x: "x = CV_String ys" "dict_fits (dict_of ys)"
      "bc_data src = ColumnData_Tag (map (tag_id (dict_of ys)) ys) (sd_of (dict_of ys)) st'"
    using s InfluxColumnType_Tag col_holds_Tag by blast
  let ?fs = "dict_of (xs @ ys)"
  have fs: "foldl dict_add (dict_of xs) (map Some (dict_of ys)) = ?fs"
    by (simp add: foldl_dict_add_dict_of dict_of_append)
  have "PackedStringArray_iter (sd_storage (sd_of (dict_of ys))) = Some (dict_of ys)" by (simp add: sd_of_def iter_psa)
  moreover have "intern_all (dict_of ys) (sd_of (dict_of xs)) =
      (if dict_fits ?fs then Some (map (index_of ?fs) (dict_of ys), sd_of ?fs) else None)"
    using intern_all_of [OF distinct_dict_of v(2), of "dict_of ys"] unfolding fs Let_def .
  moreover have "map (tag_id (dict_of xs)) xs @ map (tag_id ?fs) ys = map (tag_id ?fs) (xs @ ys)"
    by (simp add: tag_ids_prefix)
  ultimately show ?thesis
    using InfluxColumnType_Tag v x map_dids [OF x(2), of ?fs] by (simp add: batch_column_data_def del: map_map map_append)
next
  case (InfluxColumnType_Field ft)
  show ?thesis
  proof (cases ft)
    case InfluxFieldType_Boolean
    with c s InfluxColumnType_Field obtain xs b st ys b' st' where v: "v = CV_Bool xs" "bc_data c = ColumnData_Bool b st" "bs_wf b" "bits b = map (dflt False) xs"
      and x: "x = CV_Bool ys" "bc_data src = ColumnData_Bool b' st'" "bs_wf b'" "bits b' = map (dflt False) ys"
      using col_holds_Bool by metis
    from extend_from_bits [OF v(3) x(3)] v x InfluxColumnType_Field InfluxFieldType_Boolean show ?thesis
      by (auto simp: batch_column_data_def)
  next
    case InfluxFieldType_String
    with c s InfluxColumnType_Field obtain xs st ys st' where v: "v = CV_String xs" "bc_data c = ColumnData_String (psa_of (map (dflt []) xs)) st" "strings_fit xs"
      and x: "x = CV_String ys" "bc_data src = ColumnData_String (psa_of (map (dflt []) ys)) st'" "strings_fit ys"
      using col_holds_String by metis
    show ?thesis
      using v x InfluxColumnType_Field InfluxFieldType_String extend_from_psa [of "map (dflt []) xs" "map (dflt []) ys"]
        extend_from_psa_full [of "map (dflt []) xs" "map (dflt []) ys"]
      by (cases "strings_fit (xs @ ys)") (simp_all add: batch_column_data_def strings_fit_def)
  next
    case InfluxFieldType_Float
    with c s InfluxColumnType_Field obtain xs st ys st' where "v = CV_F64 xs" "bc_data c = ColumnData_F64 (map (dflt 0) xs) st"
      "x = CV_F64 ys" "bc_data src = ColumnData_F64 (map (dflt 0) ys) st'" using col_holds_F64 by metis
    with InfluxColumnType_Field InfluxFieldType_Float show ?thesis by (simp add: batch_column_data_def)
  next
    case InfluxFieldType_UInteger
    with c s InfluxColumnType_Field obtain xs st ys st' where "v = CV_U64 xs" "bc_data c = ColumnData_U64 (map (dflt 0) xs) st"
      "x = CV_U64 ys" "bc_data src = ColumnData_U64 (map (dflt 0) ys) st'" using col_holds_U64 by metis
    with InfluxColumnType_Field InfluxFieldType_UInteger show ?thesis by (simp add: batch_column_data_def)
  next
    case InfluxFieldType_Integer
    with c s InfluxColumnType_Field obtain xs st ys st' where "v = CV_I64 xs" "bc_data c = ColumnData_I64 (map (dflt 0) xs) st"
      "x = CV_I64 ys" "bc_data src = ColumnData_I64 (map (dflt 0) ys) st'" using col_holds_I64 by (metis insertCI)
    with InfluxColumnType_Field InfluxFieldType_Integer show ?thesis by (simp add: batch_column_data_def)
  qed
next
  case InfluxColumnType_Timestamp
  with c s obtain xs st ys st' where "v = CV_I64 xs" "bc_data c = ColumnData_I64 (map (dflt 0) xs) st"
    "x = CV_I64 ys" "bc_data src = ColumnData_I64 (map (dflt 0) ys) st'" using col_holds_I64 by (metis insertCI)
  with InfluxColumnType_Timestamp show ?thesis by (simp add: batch_column_data_def)
qed

lemma batch_column_writer:
  assumes src: "col_holds src ty x" and stats: "stats_of (data_stats (bc_data src)) x"
  shows "column_writer (write_batch_column src) ty (cv_length x) (Ok x)"
proof (rule copy_writerI)
  fix c v assume c: "col_holds c ty v"
  have valid: "bs_wf (bc_valid c)" "bits (bc_valid c) = cv_present v" "bs_wf (bc_valid src)" "bits (bc_valid src) = cv_present x"
    using c src by (simp_all add: col_holds_def)
  from batch_column_data_holds [OF c src] obtain v' where v': "cv_append v x = Some v'"
    and cs: "\<not> capacity ty v' \<and> batch_column_data (bc_data src) (bc_data c) = None
      \<or> (\<exists>d. batch_column_data (bc_data src) (bc_data c) = Some (d, data_stats (bc_data src)) \<and> data_holds d v' \<and> type_ok ty d
         \<and> data_stats d = data_stats (bc_data c))" by blast
  from extend_from_bits [OF valid(1,3)] obtain b where b: "BitSet_extend_from (bc_valid src) (bc_valid c) = Some b" "bs_wf b"
    "bits b = cv_present v'" using valid v' by (auto simp: cv_present_append)
  from cs show "\<exists>v'. cv_append v x = Some v' \<and> (\<not> capacity ty v' \<and> fst (write_batch_column src (cv_length v) (cv_length x) c) = Panic
      \<or> (\<exists>st c'. write_batch_column src (cv_length v) (cv_length x) c = (Ok st, c') \<and> col_holds c' ty v'
           \<and> data_stats (bc_data c') = data_stats (bc_data c) \<and> stats_of st x))"
  proof (elim disjE conjE exE)
    assume "\<not> capacity ty v'" "batch_column_data (bc_data src) (bc_data c) = None"
    then show ?thesis using v' by (intro exI [of _ v']) (simp add: write_batch_column_def)
  next
    fix d assume "batch_column_data (bc_data src) (bc_data c) = Some (d, data_stats (bc_data src))" "data_holds d v'"
      "type_ok ty d" "data_stats d = data_stats (bc_data c)"
    with b v' c stats show ?thesis by (intro exI [of _ v']) (simp add: write_batch_column_def col_holds_def)
  qed
qed simp

section \<open>Ranges of rows\<close>

definition sub :: "range \<Rightarrow> 'a list \<Rightarrow> 'a list" where
  "sub r xs = take (snd r - fst r) (drop (fst r) xs)"

definition pick :: "range list \<Rightarrow> 'a list \<Rightarrow> 'a list" where
  "pick rs xs = concat (map (\<lambda>r. sub r xs) rs)"

definition range_ok :: "nat \<Rightarrow> range \<Rightarrow> bool" where
  "range_ok n r \<longleftrightarrow> fst r \<le> snd r \<and> snd r \<le> n"

lemma pick_simps [simp]: "pick [] xs = []" "pick (r # rs) xs = sub r xs @ pick rs xs"
  by (simp_all add: pick_def)

lemma sub_map: "sub r (map f xs) = map f (sub r xs)"
  by (simp add: sub_def take_map drop_map)

lemma pick_map: "pick rs (map f xs) = map f (pick rs xs)"
  by (induction rs) (simp_all add: sub_map)

lemma length_sub: "range_ok (length xs) r \<Longrightarrow> length (sub r xs) = snd r - fst r"
  by (auto simp: sub_def range_ok_def)

lemma length_pick: "\<forall>r\<in>set rs. range_ok (length xs) r \<Longrightarrow> length (pick rs xs) = sum_list (map (\<lambda>r. snd r - fst r) rs)"
  by (induction rs) (simp_all add: length_sub)

lemma sub_nths:
  assumes "range_ok (length xs) r"
  shows "sub r xs = map ((!) xs) [fst r..<snd r]"
  using assms by (intro nth_equalityI) (auto simp: sub_def range_ok_def)

lemma slice_sub: "range_ok (length xs) r \<Longrightarrow> slice (fst r) (snd r) xs = Some (sub r xs)"
  by (simp add: slice_def sub_def range_ok_def)

text \<open>
  The loop over the ranges, for a relation between the data and the cells that were appended.  A range
  is refused only when the cells do not fit, and then more cells do not fit either.
\<close>

lemma write_ranges_cells:
  assumes step: "\<And>r acc d. R d acc \<Longrightarrow> range_ok (length xs) r \<Longrightarrow>
      case f r d of Some d' \<Rightarrow> R d' (acc @ sub r xs) | None \<Rightarrow> full (acc @ sub r xs)"
    and mono: "\<And>acc ys. full acc \<Longrightarrow> full (acc @ ys)"
    and "R d acc" and "\<forall>r\<in>set rs. range_ok (length xs) r"
  shows "case write_ranges f rs d of Some d' \<Rightarrow> R d' (acc @ pick rs xs) | None \<Rightarrow> full (acc @ pick rs xs)"
  using assms(3,4)
proof (induction rs arbitrary: d acc)
  case (Cons r rs)
  from step [OF Cons.prems(1), of r] Cons.prems(2)
  have r: "case f r d of Some d' \<Rightarrow> R d' (acc @ sub r xs) | None \<Rightarrow> full (acc @ sub r xs)" by simp
  show ?case
  proof (cases "f r d")
    case None
    with r mono [of "acc @ sub r xs" "pick rs xs"] show ?thesis by simp
  next
    case (Some d')
    with r Cons.IH [of d' "acc @ sub r xs"] Cons.prems(2) show ?thesis by (auto split: option.splits)
  qed
qed simp

lemma filter_bits_sub:
  assumes "bs_wf b" and "bits b = map (\<lambda>x. x \<noteq> None) xs" and "range_ok (length xs) r"
  shows "takeWhile (\<lambda>i. i < snd r) (iter_set_positions_with_offset (bs_buffer b) (fst r))
    = filter (\<lambda>i. xs ! i \<noteq> None) [fst r..<snd r]"
proof -
  have len: "bs_len b = length xs" using assms(2) by (metis length_bits length_map)
  then have le: "snd r \<le> 8 * length (bs_buffer b)" using len_bound [OF assms(1)] assms(3) by (simp add: range_ok_def)
  have "filter (bit_at (bs_buffer b)) [fst r..<snd r] = filter (\<lambda>i. xs ! i \<noteq> None) [fst r..<snd r]"
  proof (rule filter_cong [OF refl])
    fix i assume "i \<in> set [fst r..<snd r]"
    then have i: "i < length xs" using assms(3) by (simp add: range_ok_def)
    then have "bit_at (bs_buffer b) i \<longleftrightarrow> bits b ! i" using len by simp
    then show "bit_at (bs_buffer b) i \<longleftrightarrow> xs ! i \<noteq> None" using i by (simp add: assms(2))
  qed
  then show ?thesis by (simp add: iter_set_positions_with_offset_filter takeWhile_filter_upt [OF le])
qed

lemma mset_options: "mset (map Some (map the (filter (\<lambda>x. x \<noteq> None) xs)) @ replicate (length xs - length (filter (\<lambda>x. x \<noteq> None) xs)) None) = mset xs"
proof (induction xs)
  case (Cons x xs)
  have "length (filter (\<lambda>x. x \<noteq> None) xs) \<le> length xs" by simp
  with Cons show ?case by (cases x) (simp_all add: Suc_diff_le)
qed simp

context stat_order
begin

lemma compute_stats_sub:
  assumes "summarises ord key stats acc" and "bs_wf b" and "bits b = map (\<lambda>x. x \<noteq> None) xs" and "range_ok (length xs) r"
    and acc: "\<forall>i<length xs. \<forall>v. xs ! i = Some v \<longrightarrow> accessor i = Some v"
  shows "\<exists>stats'. compute_stats ord (bs_buffer b) r accessor stats = Some stats' \<and> summarises ord key stats' (acc @ sub r xs)"
proof -
  let ?is = "filter (\<lambda>i. xs ! i \<noteq> None) [fst r..<snd r]"
  let ?vs = "map the (filter (\<lambda>x. x \<noteq> None) (sub r xs))"
  have vs: "map (\<lambda>i. the (xs ! i)) ?is = ?vs"
    unfolding sub_nths [OF assms(4)] filter_map by (simp add: comp_def)
  have "those (map accessor ?is) = Some (map (\<lambda>i. the (xs ! i)) ?is)"
    by (rule those_map_Some) (use assms(4) acc in \<open>auto simp: range_ok_def\<close>)
  then have those: "those (map accessor ?is) = Some ?vs" by (simp only: vs)
  have le: "length ?vs \<le> snd r - fst r" using length_sub [OF assms(4)] by (metis length_filter_le length_map)
  let ?s = "StatValues_update_for_nulls (snd r - fst r - length ?vs) (fold (StatValues_update ord) ?vs stats)"
  have "compute_stats ord (bs_buffer b) r accessor stats = Some ?s"
    using those le assms(4) filter_bits_sub [OF assms(2-4)]
    by (simp add: compute_stats_def range_ok_def case_prod_beta)
  moreover have "summarises ord key ?s ((acc @ map Some ?vs) @ replicate (snd r - fst r - length ?vs) None)"
    by (intro update_for_nulls_summarises fold_update_summarises assms(1))
  moreover have "mset ((acc @ map Some ?vs) @ replicate (snd r - fst r - length ?vs) None) = mset (acc @ sub r xs)"
    using mset_options [of "sub r xs"] length_sub [OF assms(4)] by simp
  ultimately show ?thesis using summarises_perm by blast
qed

lemma write_slice_cells:
  assumes "bs_wf b" and "bits b = map (\<lambda>x. x \<noteq> None) xs" and "\<forall>r\<in>set rs. range_ok (length xs) r"
  shows "\<exists>stats. write_slice ord rs (bs_buffer b) (map (dflt z) xs) dst = Some (dst @ map (dflt z) (pick rs xs), stats)
    \<and> summarises ord key stats (pick rs xs)"
proof -
  let ?R = "\<lambda>d acc. fst d = dst @ map (dflt z) acc \<and> summarises ord key (snd d) acc"
  have "case write_ranges (\<lambda>r (dst_data, stats). Option.bind (slice (fst r) (snd r) (map (dflt z) xs)) (\<lambda>vs.
         map_option (Pair (dst_data @ vs)) (compute_stats ord (bs_buffer b) r (vec_get (map (dflt z) xs)) stats))) rs (dst, StatValues_new_empty) of
      Some d' \<Rightarrow> ?R d' ([] @ pick rs xs) | None \<Rightarrow> False"
  proof (rule write_ranges_cells [where R = ?R and full = "\<lambda>_. False"])
    fix r acc d assume R: "?R d acc" and r: "range_ok (length xs) r"
    have "slice (fst r) (snd r) (map (dflt z) xs) = Some (map (dflt z) (sub r xs))"
      using slice_sub [of "map (dflt z) xs" r] r by (simp add: sub_map)
    with R compute_stats_sub [OF conjunct2 [OF R] assms(1,2) r, of "vec_get (map (dflt z) xs)"]
    show "case (case d of (dst_data, stats) \<Rightarrow> Option.bind (slice (fst r) (snd r) (map (dflt z) xs)) (\<lambda>vs.
         map_option (Pair (dst_data @ vs)) (compute_stats ord (bs_buffer b) r (vec_get (map (dflt z) xs)) stats))) of
       Some d' \<Rightarrow> ?R d' (acc @ sub r xs) | None \<Rightarrow> False"
      by (auto simp: vec_get_def case_prod_beta)
  qed (use assms(3) new_empty_summarises in auto)
  then show ?thesis by (auto simp: write_slice_def split: option.splits)
qed

end

lemma valid_ranges:
  assumes "bs_wf b" and "bs_wf b'" and "\<forall>r\<in>set rs. range_ok (bs_len b') r"
  shows "\<exists>b1. write_ranges (\<lambda>r. BitSet_extend_from_range b' (fst r) (snd r)) rs b = Some b1 \<and> bs_wf b1
    \<and> bits b1 = bits b @ pick rs (bits b')"
proof -
  let ?R = "\<lambda>d acc. bs_wf d \<and> bits d = bits b @ acc"
  have "case write_ranges (\<lambda>r. BitSet_extend_from_range b' (fst r) (snd r)) rs b of
      Some d' \<Rightarrow> ?R d' ([] @ pick rs (bits b')) | None \<Rightarrow> False"
  proof (rule write_ranges_cells [where R = ?R and full = "\<lambda>_. False"])
    fix r acc d assume R: "?R d acc" and r: "range_ok (length (bits b')) r"
    from extend_from_range_bits [OF conjunct1 [OF R] assms(2), of "fst r" "snd r"] r R
    show "case BitSet_extend_from_range b' (fst r) (snd r) d of Some d' \<Rightarrow> ?R d' (acc @ sub r (bits b')) | None \<Rightarrow> False"
      by (auto simp: range_ok_def sub_def)
  qed (use assms in auto)
  then show ?thesis by (auto split: option.splits)
qed

lemma bool_ranges:
  assumes b: "bs_wf b" "bs_wf src" "bits src = map (dflt False) xs" and v: "bs_wf valid" "bits valid = map (\<lambda>x. x \<noteq> None) xs"
    and rs: "\<forall>r\<in>set rs. range_ok (length xs) r"
  shows "\<exists>b1 stats. write_ranges (\<lambda>r (d, stats). Option.bind (BitSet_extend_from_range src (fst r) (snd r) d) (\<lambda>d.
           map_option (Pair d) (compute_stats ord_total (bs_buffer valid) r (BitSet_get src) stats))) rs (b, StatValues_new_empty) = Some (b1, stats)
    \<and> bs_wf b1 \<and> bits b1 = bits b @ map (dflt False) (pick rs xs) \<and> summarises ord_total (\<lambda>x. x) stats (pick rs xs)"
proof -
  let ?f = "\<lambda>r (d, stats). Option.bind (BitSet_extend_from_range src (fst r) (snd r) d) (\<lambda>d.
           map_option (Pair d) (compute_stats ord_total (bs_buffer valid) r (BitSet_get src) stats))"
  let ?R = "\<lambda>d acc. bs_wf (fst d) \<and> bits (fst d) = bits b @ map (dflt False) acc \<and> summarises ord_total (\<lambda>x. x) (snd d) acc"
  have len: "bs_len src = length xs" using b(3) by (metis length_bits length_map)
  have "case write_ranges ?f rs (b, StatValues_new_empty) of Some d' \<Rightarrow> ?R d' ([] @ pick rs xs) | None \<Rightarrow> False"
  proof (rule write_ranges_cells [where R = ?R and full = "\<lambda>_. False"])
    fix r acc d assume R: "?R d acc" and r: "range_ok (length xs) r"
    obtain d1 where d1: "BitSet_extend_from_range src (fst r) (snd r) (fst d) = Some d1" "bs_wf d1"
      "bits d1 = bits (fst d) @ map (dflt False) (sub r xs)"
      using extend_from_range_bits [of "fst d" src "fst r" "snd r"] R r b len by (auto simp: range_ok_def sub_def take_map drop_map)
    have get: "\<forall>i<length xs. \<forall>v. xs ! i = Some v \<longrightarrow> BitSet_get src i = Some v"
      using get_bits [OF b(2)] len b(3) by simp
    from total.compute_stats_sub [OF _ v r get, of "snd d" acc] R
    obtain st where st: "compute_stats ord_total (bs_buffer valid) r (BitSet_get src) (snd d) = Some st"
      "summarises ord_total (\<lambda>x. x) st (acc @ sub r xs)" by auto
    show "case ?f r d of Some d' \<Rightarrow> ?R d' (acc @ sub r xs) | None \<Rightarrow> False"
      using R d1 st by (simp add: case_prod_beta)
  qed (use rs b new_empty_summarises in auto)
  then show ?thesis by (auto split: option.splits)
qed

lemma extend_from_range_psa_full:
  assumes "s \<le> e" and "e \<le> length ys" and "total_len xs \<le> i32_max" and "\<not> total_len (xs @ take (e - s) (drop s ys)) \<le> i32_max"
  shows "PackedStringArray_extend_from_range (psa_of ys) s e (psa_of xs) = None"
proof -
  have "s \<noteq> e" using assms by auto
  then have se: "s < e" using assms(1) by simp
  let ?offs = "take (e - s) (drop (s + 1) (psa_offsets (psa_of ys)))"
  have nth: "?offs ! (e - s - 1) = total_len (take e ys)" using se assms(2) by (simp add: add.commute)
  have "e - s - 1 < length ?offs" using se assms(2) by simp
  then have mem: "total_len (take e ys) \<in> set ?offs" using nth by (metis nth_mem)
  have "take e ys = take s ys @ take (e - s) (drop s ys)" using assms(1) by (metis le_add_diff_inverse take_add)
  then have "total_len (take e ys) = total_len (take s ys) + total_len (take (e - s) (drop s ys))" by simp
  then have "None \<in> set (map (\<lambda>x. if x < total_len (take s ys) then None else K_from_usize (x - total_len (take s ys) + total_len xs)) ?offs)"
    using mem assms(4) by (auto simp: K_from_usize_def image_iff intro!: bexI [of _ "total_len (take e ys)"])
  moreover have "slice (s + 1) (e + 1) (psa_offsets (psa_of ys)) = Some ?offs" using assms by (simp add: slice_def)
  ultimately show ?thesis using assms slice_concat [OF assms(1), of ys]
    by (simp add: PackedStringArray_extend_from_range_def Let_def those_None)
qed

lemma string_ranges:
  assumes fit: "strings_fit xs0" and v: "bs_wf valid" "bits valid = map (\<lambda>x. x \<noteq> None) xs"
    and rs: "\<forall>r\<in>set rs. range_ok (length xs) r"
  shows "case write_ranges (\<lambda>r (d, stats). Option.bind (PackedStringArray_extend_from_range (psa_of (map (dflt []) xs)) (fst r) (snd r) d) (\<lambda>d.
           map_option (Pair d) (compute_stats ord_total (bs_buffer valid) r
             (\<lambda>x. Option.bind (PackedStringArray_get (psa_of (map (dflt []) xs)) x) (\<lambda>v. v)) stats))) rs (psa_of (map (dflt []) xs0), StatValues_new_empty) of
      Some (d, stats) \<Rightarrow> d = psa_of (map (dflt []) (xs0 @ pick rs xs)) \<and> strings_fit (xs0 @ pick rs xs) \<and> summarises ord_total (\<lambda>x. x) stats (pick rs xs)
    | None \<Rightarrow> \<not> strings_fit (xs0 @ pick rs xs)"
proof -
  let ?src = "psa_of (map (dflt []) xs)"
  let ?f = "\<lambda>r (d, stats). Option.bind (PackedStringArray_extend_from_range ?src (fst r) (snd r) d) (\<lambda>d.
           map_option (Pair d) (compute_stats ord_total (bs_buffer valid) r (\<lambda>x. Option.bind (PackedStringArray_get ?src x) (\<lambda>v. v)) stats))"
  let ?R = "\<lambda>d acc. fst d = psa_of (map (dflt []) (xs0 @ acc)) \<and> strings_fit (xs0 @ acc) \<and> summarises ord_total (\<lambda>x. x) (snd d) acc"
  have "case write_ranges ?f rs (psa_of (map (dflt []) xs0), StatValues_new_empty) of
      Some d' \<Rightarrow> ?R d' ([] @ pick rs xs) | None \<Rightarrow> \<not> strings_fit (xs0 @ [] @ pick rs xs)"
  proof (rule write_ranges_cells [where R = ?R and full = "\<lambda>acc. \<not> strings_fit (xs0 @ acc)"])
    fix r acc d assume R: "?R d acc" and r: "range_ok (length xs) r"
    let ?acc = "map (dflt []) (xs0 @ acc)" and ?sub = "take (snd r - fst r) (drop (fst r) (map (dflt []) xs))"
    have sub: "?sub = map (dflt []) (sub r xs)" by (simp add: sub_def take_map drop_map)
    have fits: "total_len ?acc \<le> i32_max" using R by (simp add: strings_fit_def)
    have get: "\<forall>i<length xs. \<forall>v. xs ! i = Some v \<longrightarrow> Option.bind (PackedStringArray_get ?src i) (\<lambda>v. v) = Some v"
      by (simp add: get_psa)
    from total.compute_stats_sub [OF _ v r get, of "snd d" acc] R
    obtain st where st: "compute_stats ord_total (bs_buffer valid) r (\<lambda>x. Option.bind (PackedStringArray_get ?src x) (\<lambda>v. v)) (snd d) = Some st"
      "summarises ord_total (\<lambda>x. x) st (acc @ sub r xs)" by auto
    have "PackedStringArray_extend_from_range ?src (fst r) (snd r) (fst d) =
        (if strings_fit (xs0 @ acc @ sub r xs) then Some (psa_of (map (dflt []) (xs0 @ acc @ sub r xs))) else None)"
      using extend_from_range_psa [of "fst r" "snd r" "map (dflt []) xs" ?acc] extend_from_range_psa_full [of "fst r" "snd r" "map (dflt []) xs" ?acc]
        R r fits unfolding sub by (simp add: range_ok_def strings_fit_def)
    with R st show "case ?f r d of Some d' \<Rightarrow> ?R d' (acc @ sub r xs) | None \<Rightarrow> \<not> strings_fit (xs0 @ acc @ sub r xs)"
      by (simp add: case_prod_beta)
  next
    show "\<not> strings_fit (xs0 @ acc @ ys)" if "\<not> strings_fit (xs0 @ acc)" for acc ys
      using that strings_fit_prefix [of "xs0 @ acc" ys] by auto
  qed (use rs fit new_empty_summarises in auto)
  then show ?thesis by (auto split: option.splits)
qed

text \<open>Rows of a tag column whose value was seen before only count.\<close>

lemma summarises_seen:
  assumes "summarises ord_total (\<lambda>x. x) s xs" and "Some v \<in> set xs"
  shows "summarises ord_total (\<lambda>x. x) (s\<lparr>sv_total_count := sv_total_count s + 1\<rparr>) (xs @ [Some v])"
proof -
  have "v \<in> set (known ord_total xs)" using assms(2) by (force simp: known_def ord_total_def)
  then show ?thesis using assms(1)
    by (auto simp: summarises_def is_min_def is_max_def split: option.splits)
qed

definition dids_consistent :: "DID option list \<Rightarrow> string list \<Rightarrow> string list \<Rightarrow> string option list \<Rightarrow> bool" where
  "dids_consistent mapping src ds acc \<longleftrightarrow> length mapping = length src
     \<and> (\<forall>k<length src. \<forall>did. mapping ! k = Some did \<longrightarrow> Some (src ! k) \<in> set acc \<and> did = int (index_of ds (src ! k)))"

definition tag_copy :: "string list \<Rightarrow> string option list \<Rightarrow> DID list \<times> StringDictionary \<times> DID option list \<times> string StatValues
    \<Rightarrow> string option list \<Rightarrow> bool" where
  "tag_copy src xs0 st acc \<longleftrightarrow> (case st of (d, dict, mapping, stats) \<Rightarrow>
     d = map (tag_id (dict_of (xs0 @ acc))) (xs0 @ acc) \<and> dict = sd_of (dict_of (xs0 @ acc)) \<and> dict_fits (dict_of (xs0 @ acc))
     \<and> dids_consistent mapping src (dict_of (xs0 @ acc)) acc \<and> summarises ord_total (\<lambda>x. x) stats acc)"

lemma tag_ids_snoc:
  "map (tag_id (dict_of xs)) xs @ [tag_id (dict_of (xs @ [c])) c] = map (tag_id (dict_of (xs @ [c]))) (xs @ [c])"
  using tag_ids_prefix [of xs "[c]"] by simp

lemma dids_consistent_extend:
  assumes "dids_consistent mapping src (dict_of (xs0 @ acc)) acc"
  shows "dids_consistent mapping src (dict_of (xs0 @ acc @ [c])) (acc @ [c])"
proof -
  obtain es where es: "dict_of ((xs0 @ acc) @ [c]) = dict_of (xs0 @ acc) @ es" using dict_of_prefix by blast
  have "index_of (dict_of (xs0 @ acc) @ es) s = index_of (dict_of (xs0 @ acc)) s" if "Some s \<in> set acc" for s
    using that by (simp add: index_of_append)
  with assms es show ?thesis by (auto simp: dids_consistent_def)
qed

lemma copy_dids_cells:
  assumes "dict_fits src" and "distinct src" and "\<forall>c\<in>set cs. \<forall>s. c = Some s \<longrightarrow> s \<in> set src" and "tag_copy src xs0 st acc"
  shows "case copy_dids (sd_of src) (map (tag_id src) cs) st of
      Some st' \<Rightarrow> tag_copy src xs0 st' (acc @ cs) | None \<Rightarrow> \<not> dict_fits (dict_of (xs0 @ acc @ cs))"
  using assms(3,4)
proof (induction cs arbitrary: st acc)
  case (Cons c cs)
  obtain d dict mapping stats where st: "st = (d, dict, mapping, stats)" by (cases st)
  let ?ds = "dict_of (xs0 @ acc)" and ?ds' = "dict_of (xs0 @ acc @ [c])"
  have inv: "d = map (tag_id ?ds) (xs0 @ acc)" "dict = sd_of ?ds" "dict_fits ?ds" "dids_consistent mapping src ?ds acc"
    "summarises ord_total (\<lambda>x. x) stats acc" using Cons.prems(2) by (simp_all add: tag_copy_def st)
  have ext: "dids_consistent mapping src ?ds' (acc @ [c])" by (rule dids_consistent_extend [OF inv(4)])
  have ids: "d @ [tag_id ?ds' c] = map (tag_id ?ds') (xs0 @ acc @ [c])" using tag_ids_snoc [of "xs0 @ acc" c] inv(1) by simp
  have dict': "?ds' = dict_add ?ds c" using dict_of_snoc [of "xs0 @ acc" c] by simp
  have step: ?case if "copy_dids (sd_of src) (map (tag_id src) (c # cs)) st = copy_dids (sd_of src) (map (tag_id src) cs) st'"
    "tag_copy src xs0 st' (acc @ [c])" for st'
    using Cons.IH [OF _ that(2)] Cons.prems(1) that(1) by (auto split: option.splits)
  show ?case
  proof (cases c)
    case None
    have "summarises ord_total (\<lambda>x. x) (StatValues_update_for_nulls 1 stats) (acc @ [None])"
      using update_for_nulls_summarises [OF inv(5), of 1] by simp
    then have "tag_copy src xs0 (d @ [INVALID_DID], dict, mapping, StatValues_update_for_nulls 1 stats) (acc @ [c])"
      using inv ids ext None dict' by (simp add: tag_copy_def)
    then show ?thesis by (rule step [rotated]) (simp add: st None)
  next
    case (Some s)
    have s: "s \<in> set src" using Cons.prems(1) Some by simp
    let ?i = "index_of src s"
    have i: "?i < length src" "src ! ?i = s" using index_of_less [OF s] by simp_all
    have usize: "K_as_usize (int ?i) = ?i" by (rule K_as_usize_int [OF dict_fits_index [OF assms(1) s]])
    have len: "length mapping = length src" using inv(4) by (simp add: dids_consistent_def)
    show ?thesis
    proof (cases "mapping ! ?i")
      case (Some did)
      then have seen: "Some s \<in> set acc" "did = int (index_of ?ds s)" using inv(4) i by (auto simp: dids_consistent_def)
      then have same: "?ds' = ?ds" using dict' \<open>c = Some s\<close> by simp
      then have "tag_copy src xs0 (d @ [did], dict, mapping, stats\<lparr>sv_total_count := sv_total_count stats + 1\<rparr>) (acc @ [c])"
        using inv ids ext seen summarises_seen [OF inv(5) seen(1)] \<open>c = Some s\<close> by (simp add: tag_copy_def)
      then show ?thesis
        by (rule step [rotated]) (use Some len i usize in \<open>simp add: st \<open>c = Some s\<close> INVALID_DID_def\<close>)
    next
      case None
      have id: "StringDictionary_lookup_id (sd_of src) (int ?i) = Some (Some s)"
        using i usize by (simp add: StringDictionary_lookup_id_def sd_of_def get_psa)
      have lk: "StringDictionary_lookup_value_or_insert s (sd_of ?ds) =
          (if dict_fits ?ds' then Some (index_of ?ds' s, sd_of ?ds') else None)"
        using lookup_dict_add [OF distinct_dict_of inv(3), of s] dict' \<open>c = Some s\<close> by (simp del: dict_add_simps)
      show ?thesis
      proof (cases "dict_fits ?ds'")
        case True
        let ?mapping = "mapping[?i := Some (int (index_of ?ds' s))]"
        have "dids_consistent ?mapping src ?ds' (acc @ [c])"
          using ext i \<open>c = Some s\<close> len by (auto simp: dids_consistent_def nth_list_update)
        then have "tag_copy src xs0 (d @ [int (index_of ?ds' s)], sd_of ?ds', ?mapping, StatValues_update ord_total s stats) (acc @ [c])"
          using True ids \<open>c = Some s\<close> total.update_summarises [OF inv(5), of s] by (simp add: tag_copy_def)
        then show ?thesis
          by (rule step [rotated]) (use None len i usize id lk True inv(2) in \<open>simp add: st \<open>c = Some s\<close> INVALID_DID_def\<close>)
      next
        case False
        then have "\<not> dict_fits (dict_of ((xs0 @ acc @ [c]) @ cs))" using dict_fits_prefix by blast
        with False None len i usize id lk inv(2) show ?thesis by (simp add: st \<open>c = Some s\<close> INVALID_DID_def)
      qed
    qed
  qed
qed simp

lemma tag_ranges:
  assumes fits: "dict_fits (dict_of xs0)" "dict_fits (dict_of xs)" and rs: "\<forall>r\<in>set rs. range_ok (length xs) r"
  shows "case write_ranges (\<lambda>r acc. Option.bind (slice (fst r) (snd r) (map (tag_id (dict_of xs)) xs)) (\<lambda>ids. copy_dids (sd_of (dict_of xs)) ids acc))
        rs (map (tag_id (dict_of xs0)) xs0, sd_of (dict_of xs0), replicate (length (dict_of xs)) None, StatValues_new_empty) of
      Some st \<Rightarrow> tag_copy (dict_of xs) xs0 st (pick rs xs) | None \<Rightarrow> \<not> dict_fits (dict_of (xs0 @ pick rs xs))"
proof -
  let ?f = "\<lambda>r acc. Option.bind (slice (fst r) (snd r) (map (tag_id (dict_of xs)) xs)) (\<lambda>ids. copy_dids (sd_of (dict_of xs)) ids acc)"
  have "case write_ranges ?f rs (map (tag_id (dict_of xs0)) xs0, sd_of (dict_of xs0), replicate (length (dict_of xs)) None, StatValues_new_empty) of
      Some st \<Rightarrow> tag_copy (dict_of xs) xs0 st ([] @ pick rs xs) | None \<Rightarrow> \<not> dict_fits (dict_of (xs0 @ [] @ pick rs xs))"
  proof (rule write_ranges_cells [where R = "tag_copy (dict_of xs) xs0" and full = "\<lambda>acc. \<not> dict_fits (dict_of (xs0 @ acc))"])
    fix r acc st assume R: "tag_copy (dict_of xs) xs0 st acc" and r: "range_ok (length xs) r"
    have "slice (fst r) (snd r) (map (tag_id (dict_of xs)) xs) = Some (map (tag_id (dict_of xs)) (sub r xs))"
      using slice_sub [of "map (tag_id (dict_of xs)) xs" r] r by (simp add: sub_map)
    moreover have "\<forall>c\<in>set (sub r xs). \<forall>s. c = Some s \<longrightarrow> s \<in> set (dict_of xs)"
      by (auto simp: sub_def dest: in_set_takeD in_set_dropD)
    ultimately show "case ?f r st of Some st' \<Rightarrow> tag_copy (dict_of xs) xs0 st' (acc @ sub r xs) | None \<Rightarrow> \<not> dict_fits (dict_of (xs0 @ acc @ sub r xs))"
      using copy_dids_cells [OF fits(2) distinct_dict_of _ R] by simp
  next
    show "\<not> dict_fits (dict_of (xs0 @ acc @ ys))" if "\<not> dict_fits (dict_of (xs0 @ acc))" for acc ys
      using that dict_fits_prefix [of "xs0 @ acc" ys] by auto
  qed (use rs fits new_empty_summarises in \<open>auto simp: tag_copy_def dids_consistent_def\<close>)
  then show ?thesis by (simp only: append_Nil)
qed

fun cv_pick :: "range list \<Rightarrow> ColumnValues \<Rightarrow> ColumnValues" where
  "cv_pick rs (CV_I64 xs) = CV_I64 (pick rs xs)"
| "cv_pick rs (CV_U64 xs) = CV_U64 (pick rs xs)"
| "cv_pick rs (CV_F64 xs) = CV_F64 (pick rs xs)"
| "cv_pick rs (CV_Bool xs) = CV_Bool (pick rs xs)"
| "cv_pick rs (CV_String xs) = CV_String (pick rs xs)"

lemma cv_present_pick: "cv_present (cv_pick rs v) = pick rs (cv_present v)"
  by (cases v) (simp_all add: pick_map)

lemma cv_length_pick: "\<forall>r\<in>set rs. range_ok (cv_length v) r \<Longrightarrow> cv_length (cv_pick rs v) = sum_list (map (\<lambda>r. snd r - fst r) rs)"
  by (cases v) (simp_all add: length_pick)

lemma ranges_column_data_holds:
  assumes c: "col_holds c ty v" and s: "col_holds src ty x" and rs: "\<forall>r\<in>set rs. range_ok (cv_length x) r"
  shows "\<exists>v'. cv_append v (cv_pick rs x) = Some v'
    \<and> (\<not> capacity ty v' \<and> ranges_column_data rs (bs_buffer (bc_valid src)) (bc_data src) (bc_data c) = None
    \<or> (\<exists>d st. ranges_column_data rs (bs_buffer (bc_valid src)) (bc_data src) (bc_data c) = Some (d, st) \<and> data_holds d v' \<and> type_ok ty d
         \<and> data_stats d = data_stats (bc_data c) \<and> stats_of st (cv_pick rs x)))"
proof -
  have valid: "bs_wf (bc_valid src)" "bits (bc_valid src) = cv_present x" using s by (simp_all add: col_holds_def)
  show ?thesis
  proof (cases ty)
    case InfluxColumnType_Tag
    obtain xs st where v: "v = CV_String xs" "dict_fits (dict_of xs)"
        "bc_data c = ColumnData_Tag (map (tag_id (dict_of xs)) xs) (sd_of (dict_of xs)) st"
      using c InfluxColumnType_Tag col_holds_Tag by blast
    obtain ys st' where x: "x = CV_String ys" "dict_fits (dict_of ys)"
        "bc_data src = ColumnData_Tag (map (tag_id (dict_of ys)) ys) (sd_of (dict_of ys)) st'"
      using s InfluxColumnType_Tag col_holds_Tag by blast
    have len: "PackedStringArray_len (sd_storage (sd_of (dict_of ys))) = Some (length (dict_of ys))" by (simp add: sd_of_def)
    have rs': "\<forall>r\<in>set rs. range_ok (length ys) r" using rs x(1) by simp
    note tag = tag_ranges [OF v(2) x(2) rs']
    show ?thesis
      using tag len InfluxColumnType_Tag v x
      by (auto simp: ranges_column_data_def tag_copy_def split: option.splits)
  next
    case (InfluxColumnType_Field ft)
    show ?thesis
    proof (cases ft)
      case InfluxFieldType_Boolean
      with c s InfluxColumnType_Field obtain xs b st ys b' st' where v: "v = CV_Bool xs" "bc_data c = ColumnData_Bool b st" "bs_wf b" "bits b = map (dflt False) xs"
        and x: "x = CV_Bool ys" "bc_data src = ColumnData_Bool b' st'" "bs_wf b'" "bits b' = map (dflt False) ys"
        using col_holds_Bool by metis
      from bool_ranges [OF v(3) x(3,4) valid(1), of rs] valid(2) v x rs InfluxColumnType_Field InfluxFieldType_Boolean show ?thesis
        by (auto simp: ranges_column_data_def)
    next
      case InfluxFieldType_String
      with c s InfluxColumnType_Field obtain xs st ys st' where v: "v = CV_String xs" "bc_data c = ColumnData_String (psa_of (map (dflt []) xs)) st" "strings_fit xs"
        and x: "x = CV_String ys" "bc_data src = ColumnData_String (psa_of (map (dflt []) ys)) st'" "strings_fit ys"
        using col_holds_String by metis
      from string_ranges [OF v(3) valid(1), of ys rs] valid(2) v x rs InfluxColumnType_Field InfluxFieldType_String show ?thesis
        by (auto simp: ranges_column_data_def split: option.splits)
    next
      case InfluxFieldType_Float
      with c s InfluxColumnType_Field obtain xs st ys st' where "v = CV_F64 xs" "bc_data c = ColumnData_F64 (map (dflt 0) xs) st"
        "x = CV_F64 ys" "bc_data src = ColumnData_F64 (map (dflt 0) ys) st'" using col_holds_F64 by metis
      with f64.write_slice_cells [OF valid(1), of ys rs 0 "map (dflt 0) xs"] valid(2) rs InfluxColumnType_Field InfluxFieldType_Float show ?thesis
        by (auto simp: ranges_column_data_def)
    next
      case InfluxFieldType_UInteger
      with c s InfluxColumnType_Field obtain xs st ys st' where "v = CV_U64 xs" "bc_data c = ColumnData_U64 (map (dflt 0) xs) st"
        "x = CV_U64 ys" "bc_data src = ColumnData_U64 (map (dflt 0) ys) st'" using col_holds_U64 by metis
      with total.write_slice_cells [OF valid(1), of ys rs 0 "map (dflt 0) xs"] valid(2) rs InfluxColumnType_Field InfluxFieldType_UInteger show ?thesis
        by (auto simp: ranges_column_data_def)
    next
      case InfluxFieldType_Integer
      with c s InfluxColumnType_Field obtain xs st ys st' where "v = CV_I64 xs" "bc_data c = ColumnData_I64 (map (dflt 0) xs) st"
        "x = CV_I64 ys" "bc_data src = ColumnData_I64 (map (dflt 0) ys) st'" using col_holds_I64 by (metis insertCI)
      with total.write_slice_cells [OF valid(1), of ys rs 0 "map (dflt 0) xs"] valid(2) rs InfluxColumnType_Field InfluxFieldType_Integer show ?thesis
        by (auto simp: ranges_column_data_def)
    qed
  next
    case InfluxColumnType_Timestamp
    with c s obtain xs st ys st' where "v = CV_I64 xs" "bc_data c = ColumnData_I64 (map (dflt 0) xs) st"
      "x = CV_I64 ys" "bc_data src = ColumnData_I64 (map (dflt 0) ys) st'" using col_holds_I64 by (metis insertCI)
    with total.write_slice_cells [OF valid(1), of ys rs 0 "map (dflt 0) xs"] valid(2) rs InfluxColumnType_Timestamp show ?thesis
      by (auto simp: ranges_column_data_def)
  qed
qed

lemma ranges_column_writer:
  assumes src: "col_holds src ty x" and rs: "\<forall>r\<in>set rs. range_ok (cv_length x) r"
  shows "column_writer (write_ranges_column rs src) ty (cv_length (cv_pick rs x)) (Ok (cv_pick rs x))"
proof (rule copy_writerI)
  fix c v assume c: "col_holds c ty v"
  let ?x = "cv_pick rs x" and ?f = "write_ranges_column rs src (cv_length v) (cv_length (cv_pick rs x)) c"
  have valid: "bs_wf (bc_valid c)" "bits (bc_valid c) = cv_present v" "bs_wf (bc_valid src)" "bits (bc_valid src) = cv_present x"
    using c src by (simp_all add: col_holds_def)
  then have "bs_len (bc_valid src) = cv_length x" by (metis length_bits length_cv_present)
  with valid_ranges [OF valid(1,3), of rs] rs obtain b where
    b: "write_ranges (\<lambda>r. BitSet_extend_from_range (bc_valid src) (fst r) (snd r)) rs (bc_valid c) = Some b" "bs_wf b"
      "bits b = cv_present v @ cv_present ?x" using valid by (auto simp: cv_present_pick)
  from ranges_column_data_holds [OF c src rs] obtain v' where v': "cv_append v ?x = Some v'"
    and cs: "\<not> capacity ty v' \<and> ranges_column_data rs (bs_buffer (bc_valid src)) (bc_data src) (bc_data c) = None
      \<or> (\<exists>d st. ranges_column_data rs (bs_buffer (bc_valid src)) (bc_data src) (bc_data c) = Some (d, st) \<and> data_holds d v' \<and> type_ok ty d
         \<and> data_stats d = data_stats (bc_data c) \<and> stats_of st ?x)" by blast
  from cs show "\<exists>v'. cv_append v ?x = Some v' \<and> (\<not> capacity ty v' \<and> fst ?f = Panic
      \<or> (\<exists>st c'. ?f = (Ok st, c') \<and> col_holds c' ty v' \<and> data_stats (bc_data c') = data_stats (bc_data c) \<and> stats_of st ?x))"
  proof (elim disjE conjE exE)
    assume "\<not> capacity ty v'" "ranges_column_data rs (bs_buffer (bc_valid src)) (bc_data src) (bc_data c) = None"
    then show ?thesis using v' by (intro exI [of _ v']) (simp add: write_ranges_column_def)
  next
    fix d st assume "ranges_column_data rs (bs_buffer (bc_valid src)) (bc_data src) (bc_data c) = Some (d, st)" "data_holds d v'"
      "type_ok ty d" "data_stats d = data_stats (bc_data c)" "stats_of st ?x"
    with b v' c show ?thesis
      by (intro exI [of _ v']) (simp add: write_ranges_column_def col_holds_def cv_present_append)
  qed
qed simp

end
