(* ===== verification/Batch_Writer.thy ===== *)
theory Batch_Writer
  imports Batch_Copies
begin

text \<open>
  The writer of a mutable batch as a transaction: what a batch represents, what a sequence of column
  writes does to it, that \<open>commit\<close> succeeds and appends the rows, and that dropping a writer restores
  the batch.
\<close>

section \<open>What a batch represents\<close>

type_synonym cells = "string \<rightharpoonup> InfluxColumnType \<times> ColumnValues"

fun cv_nulls :: "nat \<Rightarrow> InfluxColumnType \<Rightarrow> ColumnValues" where
  "cv_nulls n (InfluxColumnType_Field InfluxFieldType_Float) = CV_F64 (replicate n None)"
| "cv_nulls n (InfluxColumnType_Field InfluxFieldType_Integer) = CV_I64 (replicate n None)"
| "cv_nulls n (InfluxColumnType_Field InfluxFieldType_UInteger) = CV_U64 (replicate n None)"
| "cv_nulls n (InfluxColumnType_Field InfluxFieldType_Boolean) = CV_Bool (replicate n None)"
| "cv_nulls n (InfluxColumnType_Field InfluxFieldType_String) = CV_String (replicate n None)"
| "cv_nulls n InfluxColumnType_Tag = CV_String (replicate n None)"
| "cv_nulls n InfluxColumnType_Timestamp = CV_I64 (replicate n None)"

lemma cv_length_nulls [simp]: "cv_length (cv_nulls n ty) = n"
  by (cases "(n, ty)" rule: cv_nulls.cases) simp_all

definition names_ok :: "(string \<times> nat) list \<Rightarrow> nat \<Rightarrow> bool" where
  "names_ok names k \<longleftrightarrow> distinct (map fst names) \<and> distinct (map snd names) \<and> set (map snd names) = {..<k}"

definition batch_holds :: "MutableBatch \<Rightarrow> cells \<Rightarrow> bool" where
  "batch_holds b T \<longleftrightarrow> names_ok (mb_column_names b) (length (mb_columns b)) \<and> dom T = fst ` set (mb_column_names b)
     \<and> (\<forall>(name, i)\<in>set (mb_column_names b). \<exists>ty v. T name = Some (ty, v) \<and> col_holds (mb_columns b ! i) ty v
          \<and> stats_of (data_stats (bc_data (mb_columns b ! i))) v \<and> cv_length v = mb_row_count b)"

text \<open>New rows below the old ones; a column that only one side has is filled with nulls.\<close>

definition batch_union :: "nat \<Rightarrow> cells \<Rightarrow> nat \<Rightarrow> cells \<Rightarrow> cells" where
  "batch_union n A m B = (\<lambda>k. case (A k, B k) of
       (Some (ty, v), Some (_, w)) \<Rightarrow> map_option (Pair ty) (cv_append v w)
     | (Some (ty, v), None) \<Rightarrow> Some (ty, cv_pad m v)
     | (None, Some (ty, w)) \<Rightarrow> map_option (Pair ty) (cv_append (cv_nulls n ty) w)
     | (None, None) \<Rightarrow> None)"

lemma strings_fit_Nones [simp]: "strings_fit (replicate n None)"
  by (simp add: strings_fit_def)

lemma dict_of_only_Nones [simp]: "dict_of (replicate n None) = []"
  using dict_of_Nones [of "[]" n] by simp

lemma dict_fits_Nil [simp]: "dict_fits []"
  by (simp add: dict_fits_def)

lemma summarises_all_null:
  "summarises ord key \<lparr>sv_min = None, sv_max = None, sv_total_count = n, sv_null_count = Some n, sv_distinct_count = d\<rparr> (replicate n None)"
  by (simp add: summarises_def is_min_def is_max_def)

lemma new_unset_bits: "bs_wf (BitSet_append_unset n BitSet_new)" "bits (BitSet_append_unset n BitSet_new) = replicate n False"
  using append_unset_bits [OF bs_wf_new(1), of n] by simp_all

lemma Column_new_holds:
  "\<exists>c. Column_new n ty = Ok c \<and> col_holds c ty (cv_nulls n ty) \<and> stats_of (data_stats (bc_data c)) (cv_nulls n ty)"
  by (cases "(n, ty)" rule: cv_nulls.cases)
    (simp_all add: Column_new_def StatValues_new_all_null_def StatValues_new_with_distinct_def col_holds_def new_unset_bits
      summarises_all_null new_empty_psa new_sd map_replicate_const)

section \<open>Padding and committing a column\<close>

lemma vec_resize_pad: "vec_resize (length xs + m) z (map f xs) = map f xs @ replicate m z"
  by (simp add: vec_resize_def)

lemma strings_fit_pad: "strings_fit (xs @ replicate m None) \<longleftrightarrow> strings_fit xs"
  by (simp add: strings_fit_def)

lemma push_nulls_data:
  assumes "data_holds d v" and "type_ok ty d" and "stats_of (data_stats d) v"
  shows "\<exists>d'. ColumnData_push_nulls (cv_length v + m) m d = Some d' \<and> data_holds d' (cv_pad m v) \<and> type_ok ty d'
    \<and> stats_of (data_stats d') (cv_pad m v)"
  using assms
proof (cases "(d, v)" rule: data_holds.cases)
  case (4 b st xs)
  with assms append_unset_bits [of b m] show ?thesis
    by (auto simp: update_for_nulls_summarises elim!: type_ok.elims)
qed (auto simp: vec_resize_pad extend_psa strings_fit_pad update_for_nulls_summarises dict_of_Nones map_replicate_const
    strings_fit_def elim!: type_ok.elims)

lemma cv_present_pad: "cv_present (cv_pad m v) = cv_present v @ replicate m False"
  by (cases v) (simp_all add: map_replicate_const)

lemma cv_pad_0 [simp]: "cv_pad 0 v = v"
  by (cases v) simp_all

lemma push_nulls_holds:
  assumes "col_holds c ty v" and "stats_of (data_stats (bc_data c)) v" and "cv_length v = n"
  shows "\<exists>c'. Column_push_nulls_to_len (n + m) c = Some c' \<and> col_holds c' ty (cv_pad m v) \<and> stats_of (data_stats (bc_data c')) (cv_pad m v)"
proof -
  have wf: "bs_wf (bc_valid c)" and bits: "bits (bc_valid c) = cv_present v" using assms(1) by (simp_all add: col_holds_def)
  then have len: "bs_len (bc_valid c) = n" using assms(3) by (metis length_bits length_cv_present)
  show ?thesis
  proof (cases "m = 0")
    case True
    then show ?thesis using assms len by (simp add: Column_push_nulls_to_len_def)
  next
    case False
    obtain d where "ColumnData_push_nulls (n + m) m (bc_data c) = Some d" "data_holds d (cv_pad m v)" "type_ok ty d"
      "stats_of (data_stats d) (cv_pad m v)"
      using push_nulls_data [of "bc_data c" v ty m] assms by (auto simp: col_holds_def)
    with False len append_unset_bits [OF wf, of m] assms(1) bits show ?thesis
      by (simp add: Column_push_nulls_to_len_def col_holds_def cv_present_pad)
  qed
qed

lemma summarises_distinct [simp]: "summarises ord key (s\<lparr>sv_distinct_count := d\<rparr>) xs = summarises ord key s xs"
  by (simp add: summarises_def)

lemma commit_column_data_holds:
  assumes "data_holds d v'" and "cv_append v x = Some v'" and "type_ok ty d" and "stats_of (data_stats d) v" and "stats_of st x"
    and "k = cv_length v'"
  shows "\<exists>d'. commit_column_data k st d = Some d' \<and> data_holds d' v' \<and> type_ok ty d' \<and> stats_of (data_stats d') v'"
proof (cases "(d, v')" rule: data_holds.cases)
  case (1 ds s zs)
  with assms obtain xs ys new where "v = CV_F64 xs" "x = CV_F64 ys" "zs = xs @ ys" "st = Statistics_F64 new"
    by (cases "(v, x)" rule: cv_append.cases; cases st) auto
  with 1 assms show ?thesis by (auto simp: f64.update_from_summarises elim!: type_ok.elims)
next
  case (2 ds s zs)
  with assms obtain xs ys new where "v = CV_I64 xs" "x = CV_I64 ys" "zs = xs @ ys" "st = Statistics_I64 new"
    by (cases "(v, x)" rule: cv_append.cases; cases st) auto
  with 2 assms show ?thesis by (auto simp: total.update_from_summarises elim!: type_ok.elims)
next
  case (3 ds s zs)
  with assms obtain xs ys new where "v = CV_U64 xs" "x = CV_U64 ys" "zs = xs @ ys" "st = Statistics_U64 new"
    by (cases "(v, x)" rule: cv_append.cases; cases st) auto
  with 3 assms show ?thesis by (auto simp: total.update_from_summarises elim!: type_ok.elims)
next
  case (4 b s zs)
  with assms obtain xs ys new where v: "v = CV_Bool xs" "x = CV_Bool ys" "zs = xs @ ys" "st = Statistics_Bool new"
    by (cases "(v, x)" rule: cv_append.cases; cases st) auto
  have "bits b = map (dflt False) zs" using 4 assms(1) by simp
  then have "bs_len b = length zs" by (metis length_bits length_map)
  with 4 v assms show ?thesis by (auto simp: total.update_from_summarises elim!: type_ok.elims)
next
  case (5 a s zs)
  with assms obtain xs ys new where "v = CV_String xs" "x = CV_String ys" "zs = xs @ ys" "st = Statistics_String new"
    by (cases "(v, x)" rule: cv_append.cases; cases st) auto
  with 5 assms show ?thesis by (auto simp: total.update_from_summarises elim!: type_ok.elims)
next
  case (6 ds dict s zs)
  with assms obtain xs ys new where v: "v = CV_String xs" "x = CV_String ys" "zs = xs @ ys" "st = Statistics_String new"
    by (cases "(v, x)" rule: cv_append.cases; cases st) auto
  let ?s = "StatValues_update_from ord_total new s"
  have sum: "summarises ord_total (\<lambda>x. x) ?s zs" using v 6 assms total.update_from_summarises by auto
  then obtain k' where "sv_null_count ?s = Some k'" by (simp add: summarises_def)
  with 6 v assms sum show ?thesis by (auto simp: sd_of_def elim!: type_ok.elims)
qed (use assms in auto)

section \<open>The state of a writer\<close>

text \<open>
  What a column of the batch under a writer holds: \<open>v\<close> are its old cells, \<open>x\<close> the new ones if it was
  written.  With no rows to insert a column may be written more than once, and its statistics are
  never read.
\<close>

definition slot :: "nat \<Rightarrow> nat \<Rightarrow> (nat \<times> Statistics) list \<Rightarrow> nat \<Rightarrow> Batch_Column \<Rightarrow> InfluxColumnType \<Rightarrow> ColumnValues
    \<Rightarrow> ColumnValues option \<Rightarrow> bool" where
  "slot n m stats i c ty v x \<longleftrightarrow> cv_length v = n \<and> stats_of (data_stats (bc_data c)) v \<and>
     (case x of
        None \<Rightarrow> col_holds c ty v \<and> (0 < m \<longrightarrow> i \<notin> fst ` set stats)
      | Some x \<Rightarrow> cv_length x = m \<and> (\<exists>v'. cv_append v x = Some v' \<and> col_holds c ty v')
          \<and> (0 < m \<longrightarrow> (\<exists>st. (i, st) \<in> set stats \<and> stats_of st x)))"

text \<open>The type and the old cells of a column; a column that is new starts with nulls.\<close>

definition base :: "nat \<Rightarrow> cells \<Rightarrow> cells \<Rightarrow> cells" where
  "base n T W k = (case T k of Some tv \<Rightarrow> Some tv | None \<Rightarrow> map_option (\<lambda>(ty, _). (ty, cv_nulls n ty)) (W k))"

definition writer_frame :: "MutableBatch \<Rightarrow> nat \<Rightarrow> Writer \<Rightarrow> bool" where
  "writer_frame b0 m w \<longleftrightarrow> wr_initial_rows w = mb_row_count b0 \<and> wr_initial_cols w = length (mb_columns b0) \<and> wr_to_insert w = m
     \<and> \<not> wr_success w \<and> mb_row_count (wr_batch w) = mb_row_count b0
     \<and> names_ok (mb_column_names (wr_batch w)) (length (mb_columns (wr_batch w)))
     \<and> length (mb_columns b0) \<le> length (mb_columns (wr_batch w))
     \<and> filter (\<lambda>(_, v). v < length (mb_columns b0)) (mb_column_names (wr_batch w)) = mb_column_names b0"

definition writer_stats :: "MutableBatch \<Rightarrow> nat \<Rightarrow> Writer \<Rightarrow> bool" where
  "writer_stats b0 m w \<longleftrightarrow>
     (\<forall>i<length (mb_columns b0). data_stats (bc_data (mb_columns (wr_batch w) ! i)) = data_stats (bc_data (mb_columns b0 ! i)))
     \<and> (0 < m \<longrightarrow> distinct (map fst (wr_statistics w)) \<and> fst ` set (wr_statistics w) \<subseteq> {..<length (mb_columns (wr_batch w))})"

text \<open>\<open>nm\<close> is the column that is being written, about which nothing is said.\<close>

definition writer_inv :: "MutableBatch \<Rightarrow> cells \<Rightarrow> nat \<Rightarrow> cells \<Rightarrow> string option \<Rightarrow> Writer \<Rightarrow> bool" where
  "writer_inv b0 T m W nm w \<longleftrightarrow> writer_frame b0 m w \<and> writer_stats b0 m w
     \<and> fst ` set (mb_column_names (wr_batch w)) = dom T \<union> dom W \<union> set_option nm
     \<and> (\<forall>k i. (k, i) \<in> set (mb_column_names (wr_batch w)) \<longrightarrow> nm \<noteq> Some k \<longrightarrow>
          (\<exists>ty v. base (mb_row_count b0) T W k = Some (ty, v) \<and> (\<forall>ty' x. W k = Some (ty', x) \<longrightarrow> ty' = ty)
             \<and> slot (mb_row_count b0) m (wr_statistics w) i (mb_columns (wr_batch w) ! i) ty v (map_option snd (W k))))"

text \<open>The column \<open>name\<close> at index \<open>i\<close> is about to be written.\<close>

definition opened :: "MutableBatch \<Rightarrow> cells \<Rightarrow> nat \<Rightarrow> Writer \<Rightarrow> string \<Rightarrow> nat \<Rightarrow> InfluxColumnType \<Rightarrow> ColumnValues \<Rightarrow> bool" where
  "opened b0 T m w name i ty v \<longleftrightarrow> (name, i) \<in> set (mb_column_names (wr_batch w))
     \<and> (T name = Some (ty, v) \<or> T name = None \<and> v = cv_nulls (mb_row_count b0) ty)
     \<and> slot (mb_row_count b0) m (wr_statistics w) i (mb_columns (wr_batch w) ! i) ty v None"

lemma names_ok_index: "names_ok names k \<Longrightarrow> (name, i) \<in> set names \<Longrightarrow> i < k"
  by (force simp: names_ok_def)

lemma names_ok_inj: "names_ok names k \<Longrightarrow> (a, i) \<in> set names \<Longrightarrow> (b, j) \<in> set names \<Longrightarrow> i = j \<longleftrightarrow> a = b"
  unfolding names_ok_def distinct_map inj_on_def by force

lemma names_ok_snoc: "names_ok names k \<Longrightarrow> name \<notin> fst ` set names \<Longrightarrow> names_ok (names @ [(name, k)]) (k + 1)"
  by (auto simp: names_ok_def lessThan_Suc)

lemma names_ok_map_of: "names_ok names k \<Longrightarrow> map_of names name = Some i \<longleftrightarrow> (name, i) \<in> set names"
  by (simp add: names_ok_def)

lemma names_ok_name: "names_ok names k \<Longrightarrow> i < k \<Longrightarrow> \<exists>name. (name, i) \<in> set names"
  unfolding names_ok_def by (metis (no_types, lifting) imageE lessThan_iff list.set_map prod.collapse)

lemma filter_names_mem:
  "filter (\<lambda>(_, v). v < k) names = names0 \<Longrightarrow> (name, i) \<in> set names \<Longrightarrow> i < k \<Longrightarrow> (name, i) \<in> set names0"
  by auto

lemma batch_holdsD:
  "batch_holds b T \<Longrightarrow> (name, i) \<in> set (mb_column_names b) \<Longrightarrow>
    \<exists>ty v. T name = Some (ty, v) \<and> col_holds (mb_columns b ! i) ty v
      \<and> stats_of (data_stats (bc_data (mb_columns b ! i))) v \<and> cv_length v = mb_row_count b"
  by (fastforce simp: batch_holds_def)

lemma batch_holds_names: "batch_holds b T \<Longrightarrow> names_ok (mb_column_names b) (length (mb_columns b))"
  by (simp add: batch_holds_def)

lemma col_holds_len: "col_holds c ty v \<Longrightarrow> bs_len (bc_valid c) = cv_length v"
  unfolding col_holds_def by (metis length_bits length_cv_present)

lemma cv_append_length: "cv_append v x = Some v' \<Longrightarrow> cv_length v' = cv_length v + cv_length x"
  by (cases "(v, x)" rule: cv_append.cases) auto

lemma cv_append_empty: "cv_append v x = Some v' \<Longrightarrow> cv_length x = 0 \<Longrightarrow> v' = v"
  by (cases "(v, x)" rule: cv_append.cases) auto

lemma writer_inv_new:
  assumes "batch_holds b T"
  shows "writer_inv b T m Map.empty None (Writer_new b m)"
proof -
  have ok: "names_ok (mb_column_names b) (length (mb_columns b))" using assms by (rule batch_holds_names)
  then have "filter (\<lambda>(_, v). v < length (mb_columns b)) (mb_column_names b) = mb_column_names b"
    by (auto simp: filter_id_conv dest: names_ok_index)
  then show ?thesis using ok batch_holdsD [OF assms] assms
    by (fastforce simp: writer_inv_def writer_frame_def writer_stats_def Writer_new_def base_def slot_def batch_holds_def)
qed

section \<open>Opening a column\<close>

lemma column_mut_existing:
  assumes "map_of (mb_column_names (wr_batch w)) name = Some i" and "i < length (mb_columns (wr_batch w))"
  shows "Writer_column_mut name ty w =
    (let c = mb_columns (wr_batch w) ! i
     in if bc_influx_type c \<noteq> ty then (Err (TypeMismatch name (bc_influx_type c) ty), w)
        else if bs_len (bc_valid c) \<noteq> wr_initial_rows w then (Panic, w) else (Ok i, w))"
  using assms by (simp add: Writer_column_mut_def Let_def)

lemma column_mut_new:
  assumes "map_of (mb_column_names (wr_batch w)) name = None" and "Column_new (wr_initial_rows w) ty = (Ok c :: (Writer_Error, Batch_Column) res)"
    and "bc_influx_type c = ty" and "bs_len (bc_valid c) = wr_initial_rows w"
  shows "Writer_column_mut name ty w = (Ok (length (mb_columns (wr_batch w))),
     w\<lparr>wr_batch := (wr_batch w)\<lparr>mb_column_names := mb_column_names (wr_batch w) @ [(name, length (mb_columns (wr_batch w)))],
                               mb_columns := mb_columns (wr_batch w) @ [c]\<rparr>\<rparr>)"
  using assms by (simp add: Writer_column_mut_def Let_def wr_set_columns_def)

lemma writer_invD:
  assumes "writer_inv b0 T m W nm w" and "(k, i) \<in> set (mb_column_names (wr_batch w))" and "nm \<noteq> Some k"
  shows "\<exists>ty v. base (mb_row_count b0) T W k = Some (ty, v) \<and> (\<forall>ty' x. W k = Some (ty', x) \<longrightarrow> ty' = ty)
    \<and> slot (mb_row_count b0) m (wr_statistics w) i (mb_columns (wr_batch w) ! i) ty v (map_option snd (W k))"
  using assms unfolding writer_inv_def by blast

lemma writer_inv_frame: "writer_inv b0 T m W nm w \<Longrightarrow> writer_frame b0 m w"
  by (simp add: writer_inv_def)

lemma frame_names: "writer_frame b0 m w \<Longrightarrow> names_ok (mb_column_names (wr_batch w)) (length (mb_columns (wr_batch w)))"
  by (simp add: writer_frame_def)

lemma slot_type: "slot n m stats i c ty v x \<Longrightarrow> bc_influx_type c = ty"
  by (auto simp: slot_def col_holds_def split: option.splits)

lemma slot_len:
  "slot n m stats i c ty v x \<Longrightarrow> bs_len (bc_valid c) = (case x of None \<Rightarrow> n | Some _ \<Rightarrow> n + m)"
  by (auto simp: slot_def col_holds_len cv_append_length split: option.splits)

lemma slot_no_rows: "slot n 0 stats i c ty v x \<Longrightarrow> slot n 0 stats i c ty v None"
  by (auto simp: slot_def dest: cv_append_empty split: option.splits)

text \<open>The type a column of this name has, if there is one.\<close>

definition type_of_column :: "cells \<Rightarrow> cells \<Rightarrow> string \<Rightarrow> InfluxColumnType option" where
  "type_of_column T W k = (case T k of Some (ty, _) \<Rightarrow> Some ty | None \<Rightarrow> map_option fst (W k))"

lemma type_of_base: "base n T W k = Some (ty, v) \<Longrightarrow> type_of_column T W k = Some ty"
  by (auto simp: base_def type_of_column_def split: option.splits)

lemma column_mut_opens:
  assumes inv: "writer_inv b0 T m W None w" and "type_of_column T W name \<in> {None, Some ty}" and "m = 0 \<or> W name = None"
  shows "\<exists>i w1 v. Writer_column_mut name ty w = (Ok i, w1) \<and> writer_inv b0 T m W (Some name) w1 \<and> opened b0 T m w1 name i ty v"
proof (cases "map_of (mb_column_names (wr_batch w)) name")
  case None
  have frame: "writer_frame b0 m w" using inv by (rule writer_inv_frame)
  have ok: "names_ok (mb_column_names (wr_batch w)) (length (mb_columns (wr_batch w)))" using frame by (rule frame_names)
  have new: "name \<notin> fst ` set (mb_column_names (wr_batch w))" using None by (simp add: map_of_eq_None_iff)
  then have T: "T name = None" "W name = None" using inv by (auto simp: writer_inv_def)
  obtain c where c: "Column_new (wr_initial_rows w) ty = (Ok c :: (Writer_Error, Batch_Column) res)"
    "col_holds c ty (cv_nulls (mb_row_count b0) ty)" "stats_of (data_stats (bc_data c)) (cv_nulls (mb_row_count b0) ty)"
    using Column_new_holds [of "mb_row_count b0" ty] frame by (metis writer_frame_def)
  let ?cols = "mb_columns (wr_batch w)"
  let ?w = "w\<lparr>wr_batch := (wr_batch w)\<lparr>mb_column_names := mb_column_names (wr_batch w) @ [(name, length ?cols)], mb_columns := ?cols @ [c]\<rparr>\<rparr>"
  have "Writer_column_mut name ty w = (Ok (length ?cols), ?w)"
    using column_mut_new [OF None c(1)] col_holds_len [OF c(2)] c(2) frame by (simp add: col_holds_def writer_frame_def)
  moreover have "writer_frame b0 m ?w" using frame names_ok_snoc [OF ok new] by (simp add: writer_frame_def)
  moreover have "writer_stats b0 m ?w"
    using inv frame by (auto simp: writer_inv_def writer_stats_def writer_frame_def nth_append)
  moreover have "(\<exists>ty v. base (mb_row_count b0) T W k = Some (ty, v) \<and> (\<forall>ty' x. W k = Some (ty', x) \<longrightarrow> ty' = ty)
      \<and> slot (mb_row_count b0) m (wr_statistics ?w) i (mb_columns (wr_batch ?w) ! i) ty v (map_option snd (W k)))"
    if "(k, i) \<in> set (mb_column_names (wr_batch ?w))" "Some name \<noteq> Some k" for k i
  proof -
    have k: "(k, i) \<in> set (mb_column_names (wr_batch w))" using that by simp
    have "i < length ?cols" using names_ok_index [OF ok k] .
    then show ?thesis using inv k by (auto simp: writer_inv_def nth_append)
  qed
  moreover have "fst ` set (mb_column_names (wr_batch ?w)) = dom T \<union> dom W \<union> set_option (Some name)"
    using inv by (auto simp: writer_inv_def)
  moreover have "opened b0 T m ?w name (length ?cols) ty (cv_nulls (mb_row_count b0) ty)"
    using T c inv by (auto simp: opened_def slot_def nth_append writer_inv_def writer_stats_def)
  ultimately show ?thesis unfolding writer_inv_def by blast
next
  case (Some i)
  have frame: "writer_frame b0 m w" using inv by (rule writer_inv_frame)
  have ok: "names_ok (mb_column_names (wr_batch w)) (length (mb_columns (wr_batch w)))" using frame by (rule frame_names)
  have mem: "(name, i) \<in> set (mb_column_names (wr_batch w))" using Some ok by (simp add: names_ok_map_of)
  obtain ty0 v where base: "base (mb_row_count b0) T W name = Some (ty0, v)"
    and slot: "slot (mb_row_count b0) m (wr_statistics w) i (mb_columns (wr_batch w) ! i) ty0 v (map_option snd (W name))"
    using writer_invD [OF inv mem option.distinct(1)] by blast
  have ty: "ty0 = ty" using type_of_base [OF base] assms(2) by simp
  have slot0: "slot (mb_row_count b0) m (wr_statistics w) i (mb_columns (wr_batch w) ! i) ty v None"
    using slot ty assms(3) by (cases "m = 0") (auto intro: slot_no_rows)
  have "Writer_column_mut name ty w = (Ok i, w)"
    using column_mut_existing [OF Some names_ok_index [OF ok mem]] slot_type [OF slot0] slot_len [OF slot0] frame
    by (simp add: Let_def writer_frame_def)
  moreover have "T name = Some (ty, v) \<or> T name = None \<and> v = cv_nulls (mb_row_count b0) ty"
    using base ty by (auto simp: base_def split: option.splits)
  then have "opened b0 T m w name i ty v" using mem slot0 by (simp add: opened_def)
  moreover have "name \<in> fst ` set (mb_column_names (wr_batch w))" using mem by force
  then have "name \<in> dom T \<union> dom W" using inv by (simp add: writer_inv_def)
  then have "writer_inv b0 T m W (Some name) w"
    using inv by (auto simp: writer_inv_def insert_absorb)
  ultimately show ?thesis by blast
qed

lemma column_mut_fails:
  assumes inv: "writer_inv b0 T m W None w" and no: "\<not> (type_of_column T W name \<in> {None, Some ty} \<and> (m = 0 \<or> W name = None))"
  shows "Writer_column_mut name ty w = ((case type_of_column T W name of
      Some ty0 \<Rightarrow> if ty0 \<noteq> ty then Err (TypeMismatch name ty0 ty) else Panic | None \<Rightarrow> Panic), w)"
proof -
  have frame: "writer_frame b0 m w" using inv by (rule writer_inv_frame)
  have ok: "names_ok (mb_column_names (wr_batch w)) (length (mb_columns (wr_batch w)))" using frame by (rule frame_names)
  have "name \<in> dom T \<union> dom W" using no by (auto simp: type_of_column_def split: option.splits)
  then have "name \<in> fst ` set (mb_column_names (wr_batch w))" using inv by (auto simp: writer_inv_def)
  then obtain i where mem: "(name, i) \<in> set (mb_column_names (wr_batch w))" by (metis imageE prod.collapse)
  then have i: "map_of (mb_column_names (wr_batch w)) name = Some i" using ok by (simp add: names_ok_map_of)
  obtain ty0 v where base: "base (mb_row_count b0) T W name = Some (ty0, v)"
    and slot: "slot (mb_row_count b0) m (wr_statistics w) i (mb_columns (wr_batch w) ! i) ty0 v (map_option snd (W name))"
    using writer_invD [OF inv mem option.distinct(1)] by blast
  have eq: "Writer_column_mut name ty w = (if ty0 \<noteq> ty then (Err (TypeMismatch name ty0 ty), w)
      else if bs_len (bc_valid (mb_columns (wr_batch w) ! i)) \<noteq> mb_row_count b0 then (Panic, w) else (Ok i, w))"
    using column_mut_existing [OF i names_ok_index [OF ok mem]] slot_type [OF slot] frame by (simp add: Let_def writer_frame_def)
  have ty: "type_of_column T W name = Some ty0" using base by (rule type_of_base)
  show ?thesis
  proof (cases "ty0 = ty")
    case True
    then have "m \<noteq> 0" "W name \<noteq> None" using no ty by auto
    then show ?thesis using eq ty True slot_len [OF slot] by auto
  qed (use eq ty in simp)
qed

section \<open>Writing a column\<close>

text \<open>What is left of \<open>Writer_write_column\<close> once the column is open.\<close>

definition stored :: "nat \<Rightarrow> (Writer_Error, Statistics) res \<times> Batch_Column \<Rightarrow> unit writer_call" where
  "stored i rc w =
     (let w = wr_set_columns ((mb_columns (wr_batch w))[i := snd rc]) w
      in case fst rc of
           Ok stats \<Rightarrow> (Ok (), w\<lparr>wr_statistics := wr_statistics w @ [(i, stats)]\<rparr>)
         | Err e \<Rightarrow> (Err e, w)
         | Panic \<Rightarrow> (Panic, w))"

lemma write_column_opened:
  assumes "Writer_column_mut name ty w = (Ok i, w1)" and "writer_frame b0 m w1"
  shows "Writer_write_column name ty f w = stored i (f (mb_row_count b0) m (mb_columns (wr_batch w1) ! i)) w1"
  using assms by (simp add: Writer_write_column_def stored_def writer_frame_def split: prod.split)

lemma opened_written:
  assumes inv: "writer_inv b0 T m W (Some name) w" and opened: "opened b0 T m w name i ty v"
    and written: "written (mb_columns (wr_batch w) ! i) ty v x m st c"
  shows "writer_inv b0 T m (W(name \<mapsto> (ty, x))) None (snd (stored i (Ok st, c) w))"
proof -
  have frame: "writer_frame b0 m w" using inv by (rule writer_inv_frame)
  have ok: "names_ok (mb_column_names (wr_batch w)) (length (mb_columns (wr_batch w)))" using frame by (rule frame_names)
  have mem: "(name, i) \<in> set (mb_column_names (wr_batch w))" using opened by (simp add: opened_def)
  have i: "i < length (mb_columns (wr_batch w))" using names_ok_index [OF ok mem] .
  let ?w = "snd (stored i (Ok st, c) w)"
  have "writer_frame b0 m ?w" using frame by (simp add: writer_frame_def stored_def wr_set_columns_def)
  moreover have "writer_stats b0 m ?w"
    using inv i opened written
    by (auto simp: writer_inv_def writer_stats_def stored_def wr_set_columns_def written_def nth_list_update opened_def slot_def)
  moreover have "fst ` set (mb_column_names (wr_batch ?w)) = dom T \<union> dom (W(name \<mapsto> (ty, x))) \<union> set_option None"
    using inv by (auto simp: writer_inv_def stored_def wr_set_columns_def)
  moreover have "\<exists>ty' v. base (mb_row_count b0) T (W(name \<mapsto> (ty, x))) k = Some (ty', v)
      \<and> (\<forall>ty'' x'. (W(name \<mapsto> (ty, x))) k = Some (ty'', x') \<longrightarrow> ty'' = ty')
      \<and> slot (mb_row_count b0) m (wr_statistics ?w) j (mb_columns (wr_batch ?w) ! j) ty' v (map_option snd ((W(name \<mapsto> (ty, x))) k))"
    if k: "(k, j) \<in> set (mb_column_names (wr_batch ?w))" for k j
  proof (cases "k = name")
    case True
    have "j = i" using names_ok_inj [OF ok _ mem, of k j] k True by (simp add: stored_def wr_set_columns_def)
    moreover have "base (mb_row_count b0) T (W(name \<mapsto> (ty, x))) name = Some (ty, v)" using opened by (auto simp: base_def opened_def)
    moreover have "slot (mb_row_count b0) m (wr_statistics ?w) i c ty v (Some x)"
      using opened written by (auto simp: opened_def slot_def written_def stored_def wr_set_columns_def)
    ultimately show ?thesis using True i by (simp add: stored_def wr_set_columns_def)
  next
    case False
    have k': "(k, j) \<in> set (mb_column_names (wr_batch w))" using k by (simp add: stored_def wr_set_columns_def)
    have "j \<noteq> i" using names_ok_inj [OF ok k' mem] False by simp
    moreover have "base (mb_row_count b0) T (W(name \<mapsto> (ty, x))) k = base (mb_row_count b0) T W k"
      using False by (simp add: base_def split: option.split)
    moreover obtain ty' v' where "base (mb_row_count b0) T W k = Some (ty', v')" "\<forall>ty'' x. W k = Some (ty'', x) \<longrightarrow> ty'' = ty'"
      and slot: "slot (mb_row_count b0) m (wr_statistics w) j (mb_columns (wr_batch w) ! j) ty' v' (map_option snd (W k))"
      using writer_invD [OF inv k'] False by blast
    moreover have "slot (mb_row_count b0) m (wr_statistics ?w) j (mb_columns (wr_batch ?w) ! j) ty' v' (map_option snd (W k))"
      using slot \<open>j \<noteq> i\<close> by (auto simp: stored_def wr_set_columns_def slot_def split: option.splits)
    ultimately show ?thesis using False by simp
  qed
  ultimately show ?thesis unfolding writer_inv_def by blast
qed

section \<open>Rolling back\<close>

definition all_undoable :: "cells \<Rightarrow> bool" where
  "all_undoable T \<longleftrightarrow> (\<forall>k ty v. T k = Some (ty, v) \<longrightarrow> undoable ty v)"

definition undo_ok :: "MutableBatch \<Rightarrow> nat \<Rightarrow> Writer \<Rightarrow> bool" where
  "undo_ok b0 m w \<longleftrightarrow> writer_frame b0 m w
     \<and> (\<forall>i<length (mb_columns b0). rollback_column (mb_row_count b0) (mb_columns (wr_batch w) ! i) = Some (mb_columns b0 ! i))"

lemma those_map_nth: "length xs = length ys \<Longrightarrow> \<forall>i<length ys. f (xs ! i) = Some (ys ! i) \<Longrightarrow> those (map f xs) = Some ys"
proof (induction xs ys rule: list_induct2)
  case (Cons x xs y ys)
  have "f x = Some y" using Cons.prems by force
  moreover have "those (map f xs) = Some ys" by (rule Cons.IH) (use Cons.prems in force)
  ultimately show ?case by simp
qed simp

lemma drop_undoes:
  assumes "undo_ok b0 m w"
  shows "Writer_drop w = Some b0"
proof -
  let ?n = "length (mb_columns b0)" and ?cols = "mb_columns (wr_batch w)" and ?names = "mb_column_names (wr_batch w)"
  have frame: "writer_frame b0 m w" using assms by (simp add: undo_ok_def)
  have len: "length (take ?n ?cols) = ?n" using frame by (simp add: writer_frame_def)
  have "those (map (rollback_column (mb_row_count b0)) (take ?n ?cols)) = Some (mb_columns b0)"
    by (rule those_map_nth [OF len]) (use assms in \<open>simp add: undo_ok_def\<close>)
  moreover have "filter (\<lambda>(_, v). v < ?n) ?names = mb_column_names b0" using frame by (simp add: writer_frame_def)
  moreover have "filter (\<lambda>(_, v). v < ?n) ?names = ?names" if "length ?cols = ?n"
    using names_ok_index [OF frame_names [OF frame]] that by (auto simp: filter_id_conv)
  ultimately show ?thesis using frame by (auto simp: Writer_drop_def Let_def writer_frame_def)
qed

lemma rollback_self:
  assumes "col_holds c ty v" and "undoable ty v"
  shows "rollback_column (cv_length v) c = Some c"
proof -
  have "\<exists>x. cv_append v x = Some v"
    by (cases v) (auto intro: exI [of _ "CV_I64 []"] exI [of _ "CV_U64 []"] exI [of _ "CV_F64 []"] exI [of _ "CV_Bool []"] exI [of _ "CV_String []"])
  then obtain x where "cv_append v x = Some v" by blast
  then show ?thesis
    using rollback_column_holds [OF assms, of c v x] assms(1) by (simp add: col_holds_def)
qed

lemma slot_rollback:
  assumes "slot n m stats i c ty v x" and "col_holds c0 ty v" and "data_stats (bc_data c) = data_stats (bc_data c0)" and "undoable ty v"
  shows "rollback_column n c = Some c0"
proof (cases x)
  case None
  then have "col_holds c ty v" using assms(1) by (simp add: slot_def)
  moreover from this have "c = c0" using assms(2,3) by (auto intro: col_holds_inj)
  ultimately show ?thesis using rollback_self assms by (auto simp: slot_def)
next
  case (Some y)
  then obtain v' where v': "cv_append v y = Some v'" "col_holds c ty v'" "cv_length v = n" using assms(1) by (auto simp: slot_def)
  have "take (cv_length v) (bits (bc_valid c)) = cv_present v" using v' by (simp add: col_holds_def cv_present_append)
  with v' assms show ?thesis using rollback_column_holds [OF assms(2,4), of c v' y] by (simp add: col_holds_def)
qed

lemma old_column:
  assumes "batch_holds b0 T" and "writer_frame b0 m w" and "i < length (mb_columns b0)"
  obtains k ty v where "(k, i) \<in> set (mb_column_names (wr_batch w))" and "T k = Some (ty, v)" and "col_holds (mb_columns b0 ! i) ty v"
    and "cv_length v = mb_row_count b0"
proof -
  obtain k where k: "(k, i) \<in> set (mb_column_names b0)"
    using names_ok_name [OF batch_holds_names [OF assms(1)] assms(3)] by blast
  moreover have "(k, i) \<in> set (mb_column_names (wr_batch w))"
    using k assms(2) unfolding writer_frame_def by (metis filter_is_subset subsetD)
  ultimately show thesis using batch_holdsD [OF assms(1) k] that by blast
qed

lemma inv_rollback:
  assumes inv: "writer_inv b0 T m W nm w" and b0: "batch_holds b0 T" and undo: "all_undoable T" and i: "i < length (mb_columns b0)"
    and nm: "\<forall>k. (k, i) \<in> set (mb_column_names (wr_batch w)) \<longrightarrow> nm \<noteq> Some k"
  shows "rollback_column (mb_row_count b0) (mb_columns (wr_batch w) ! i) = Some (mb_columns b0 ! i)"
proof -
  obtain k ty v where k: "(k, i) \<in> set (mb_column_names (wr_batch w))" "T k = Some (ty, v)" "col_holds (mb_columns b0 ! i) ty v"
    using old_column [OF b0 writer_inv_frame [OF inv] i] by metis
  have "base (mb_row_count b0) T W k = Some (ty, v)" using k(2) by (simp add: base_def)
  then have "slot (mb_row_count b0) m (wr_statistics w) i (mb_columns (wr_batch w) ! i) ty v (map_option snd (W k))"
    using writer_invD [OF inv k(1)] nm k(1) by auto
  moreover have "undoable ty v" using undo k(2) by (auto simp: all_undoable_def)
  ultimately show ?thesis using k(3) inv i by (auto intro: slot_rollback simp: writer_inv_def writer_stats_def)
qed

lemma writer_inv_undo:
  assumes "writer_inv b0 T m W None w" and "batch_holds b0 T" and "all_undoable T"
  shows "undo_ok b0 m w"
  using writer_inv_frame [OF assms(1)] inv_rollback [OF assms] by (simp add: undo_ok_def)

section \<open>One write\<close>

text \<open>The old cells of a column, those a write appends to it, and that the result fits.\<close>

definition old_cells :: "nat \<Rightarrow> cells \<Rightarrow> string \<Rightarrow> InfluxColumnType \<Rightarrow> ColumnValues" where
  "old_cells n T name ty = (case T name of Some (_, v) \<Rightarrow> v | None \<Rightarrow> cv_nulls n ty)"

definition fits :: "nat \<Rightarrow> cells \<Rightarrow> string \<Rightarrow> InfluxColumnType \<Rightarrow> ColumnValues \<Rightarrow> bool" where
  "fits n T name ty x \<longleftrightarrow> (case cv_append (old_cells n T name ty) x of Some v \<Rightarrow> capacity ty v | None \<Rightarrow> False)"

lemma opened_old: "opened b0 T m w name i ty v \<Longrightarrow> old_cells (mb_row_count b0) T name ty = v"
  by (auto simp: opened_def old_cells_def)

lemma opened_holds:
  assumes "opened b0 T m w name i ty v"
  shows "col_holds (mb_columns (wr_batch w) ! i) ty v" and "cv_length v = mb_row_count b0"
  using assms by (simp_all add: opened_def slot_def)

lemma stored_Ok [simp]: "fst (stored i (Ok st, c) w) = Ok ()"
  by (simp add: stored_def Let_def)

lemma stored_cases: "fst (stored i (r, c) w) = (case r of Ok _ \<Rightarrow> Ok () | Err e \<Rightarrow> Err e | Panic \<Rightarrow> Panic)"
  by (simp add: stored_def Let_def split: res.splits)

lemma stored_OkD: "stored i rc w = (Ok u, w') \<Longrightarrow> \<exists>st c. rc = (Ok st, c)"
  by (cases rc) (auto simp: stored_def Let_def split: res.splits)

lemma stored_ErrD: "stored i rc w = (Err e, w') \<Longrightarrow> \<exists>c. rc = (Err e, c)"
  by (cases rc) (auto simp: stored_def Let_def split: res.splits)

lemma opened_undo:
  assumes inv: "writer_inv b0 T m W (Some name) w" and opened: "opened b0 T m w name i ty v"
    and b0: "batch_holds b0 T" and undo: "all_undoable T"
    and roll: "undoable ty v \<Longrightarrow> rollback_column (mb_row_count b0) c = Some (mb_columns (wr_batch w) ! i)"
  shows "undo_ok b0 m (snd (stored i (Err e, c) w))"
proof -
  let ?w = "snd (stored i (Err e, c) w)"
  have frame: "writer_frame b0 m w" using inv by (rule writer_inv_frame)
  have ok: "names_ok (mb_column_names (wr_batch w)) (length (mb_columns (wr_batch w)))" using frame by (rule frame_names)
  have mem: "(name, i) \<in> set (mb_column_names (wr_batch w))" using opened by (simp add: opened_def)
  have i: "i < length (mb_columns (wr_batch w))" using names_ok_index [OF ok mem] .
  have old: "rollback_column (mb_row_count b0) c = Some (mb_columns b0 ! i)" if less: "i < length (mb_columns b0)"
  proof -
    obtain k ty' v' where k: "(k, i) \<in> set (mb_column_names (wr_batch w))" "T k = Some (ty', v')" "col_holds (mb_columns b0 ! i) ty' v'"
      using old_column [OF b0 frame less] by metis
    have "k = name" using names_ok_inj [OF ok k(1) mem] by simp
    with k opened have "ty' = ty" "v' = v" by (auto simp: opened_def)
    moreover have "undoable ty v" using undo k(2) calculation by (auto simp: all_undoable_def)
    moreover have "mb_columns (wr_batch w) ! i = mb_columns b0 ! i"
      by (rule col_holds_inj [OF opened_holds(1) [OF opened]])
        (use k(3) calculation inv less in \<open>auto simp: writer_inv_def writer_stats_def\<close>)
    ultimately show ?thesis using roll by simp
  qed
  have others: "rollback_column (mb_row_count b0) (mb_columns (wr_batch w) ! j) = Some (mb_columns b0 ! j)"
    if "j < length (mb_columns b0)" "j \<noteq> i" for j
    by (rule inv_rollback [OF inv b0 undo that(1)]) (use names_ok_inj [OF ok _ mem] that(2) in blast)
  have "writer_frame b0 m ?w" using frame by (simp add: writer_frame_def stored_def wr_set_columns_def)
  then show ?thesis using old others i by (auto simp: undo_ok_def stored_def wr_set_columns_def nth_list_update)
qed

definition may_write :: "nat \<Rightarrow> cells \<Rightarrow> cells \<Rightarrow> string \<Rightarrow> InfluxColumnType \<Rightarrow> bool" where
  "may_write m T W name ty \<longleftrightarrow> type_of_column T W name \<in> {None, Some ty} \<and> (m = 0 \<or> W name = None)"

definition refused :: "cells \<Rightarrow> cells \<Rightarrow> string \<Rightarrow> InfluxColumnType \<Rightarrow> (Writer_Error, 'a) res" where
  "refused T W name ty = (case type_of_column T W name of
      Some ty0 \<Rightarrow> if ty0 \<noteq> ty then Err (TypeMismatch name ty0 ty) else Panic | None \<Rightarrow> Panic)"

lemma write_column_refused:
  assumes "writer_inv b0 T m W None w" and "\<not> may_write m T W name ty"
  shows "Writer_write_column name ty f w = (refused T W name ty, w)"
  using column_mut_fails [OF assms(1), of name ty] assms(2)
  by (auto simp: Writer_write_column_def may_write_def refused_def split: option.splits)

lemma write_column_opens:
  assumes "writer_inv b0 T m W None w" and "may_write m T W name ty"
  obtains i w1 v where "Writer_write_column name ty f w = stored i (f (mb_row_count b0) m (mb_columns (wr_batch w1) ! i)) w1"
    and "writer_inv b0 T m W (Some name) w1" and "opened b0 T m w1 name i ty v"
proof -
  obtain i w1 v where o: "Writer_column_mut name ty w = (Ok i, w1)" "writer_inv b0 T m W (Some name) w1" "opened b0 T m w1 name i ty v"
    using column_mut_opens [OF assms(1) conjunct1 conjunct2] assms(2) unfolding may_write_def by blast
  show thesis by (rule that [OF write_column_opened [OF o(1) writer_inv_frame [OF o(2)]] o(2,3)])
qed

context column_writer
begin

lemma write_column_ok:
  assumes inv: "writer_inv b0 T m W None w" and run: "Writer_write_column name ty f w = (Ok u, w')"
  shows "\<exists>x. new = Ok x \<and> may_write m T W name ty \<and> writer_inv b0 T m (W(name \<mapsto> (ty, x))) None w'"
proof -
  have may: "may_write m T W name ty"
  proof (rule ccontr)
    assume "\<not> may_write m T W name ty"
    from write_column_refused [OF inv this, of f] run show False by (auto simp: refused_def split: option.splits if_splits)
  qed
  then obtain i w1 v where o: "Writer_write_column name ty f w = stored i (f (mb_row_count b0) m (mb_columns (wr_batch w1) ! i)) w1"
    and inv1: "writer_inv b0 T m W (Some name) w1" and opn: "opened b0 T m w1 name i ty v"
    by (rule write_column_opens [OF inv])
  obtain st c where f: "f (mb_row_count b0) m (mb_columns (wr_batch w1) ! i) = (Ok st, c)"
    using stored_OkD [OF trans [OF o [symmetric] run]] by blast
  obtain x where "new = Ok x" "written (mb_columns (wr_batch w1) ! i) ty v x m st c"
    using write_ok [OF opened_holds [OF opn] f] by blast
  with opened_written [OF inv1 opn] o run f may show ?thesis by (metis snd_conv)
qed

lemma write_column_undo:
  assumes inv: "writer_inv b0 T m W None w" and b0: "batch_holds b0 T" "all_undoable T"
    and run: "Writer_write_column name ty f w = (Err e, w')"
  shows "undo_ok b0 m w'"
proof (cases "may_write m T W name ty")
  case False
  then show ?thesis using write_column_refused [OF inv False, of f] run writer_inv_undo [OF inv b0] by simp
next
  case True
  then obtain i w1 v where o: "Writer_write_column name ty f w = stored i (f (mb_row_count b0) m (mb_columns (wr_batch w1) ! i)) w1"
    and inv1: "writer_inv b0 T m W (Some name) w1" and opn: "opened b0 T m w1 name i ty v"
    by (rule write_column_opens [OF inv])
  obtain c where f: "f (mb_row_count b0) m (mb_columns (wr_batch w1) ! i) = (Err e, c)"
    using stored_ErrD [OF trans [OF o [symmetric] run]] by blast
  have "undo_ok b0 m (snd (stored i (Err e, c) w1))"
    by (rule opened_undo [OF inv1 opn b0]) (use write_undo [OF opened_holds [OF opn] _ f] in simp)
  with o run f show ?thesis by (metis snd_conv)
qed

lemma write_column_total:
  assumes inv: "writer_inv b0 T m W None w" and "may_write m T W name ty" and "new = Ok x" and "fits (mb_row_count b0) T name ty x"
  shows "is_ok (fst (Writer_write_column name ty f w))"
proof -
  obtain i w1 v where o: "Writer_write_column name ty f w = stored i (f (mb_row_count b0) m (mb_columns (wr_batch w1) ! i)) w1"
    and inv1: "writer_inv b0 T m W (Some name) w1" and opn: "opened b0 T m w1 name i ty v"
    using assms(2) by (rule write_column_opens [OF inv])
  obtain v' where "cv_append v x = Some v'" "capacity ty v'"
    using assms(4) opened_old [OF opn] by (auto simp: fits_def split: option.splits)
  then have "is_ok (fst (f (mb_row_count b0) m (mb_columns (wr_batch w1) ! i)))"
    using write_total [OF opened_holds [OF opn] assms(3)] by blast
  then show ?thesis
    using o by (cases "f (mb_row_count b0) m (mb_columns (wr_batch w1) ! i)") (auto simp: stored_cases split: res.splits)
qed

lemma write_column_err:
  assumes inv: "writer_inv b0 T m W None w" and run: "Writer_write_column name ty f w = (Err e, w')"
  shows "if may_write m T W name ty then new = Err e else refused T W name ty = (Err e :: (Writer_Error, unit) res)"
proof (cases "may_write m T W name ty")
  case False
  then show ?thesis using write_column_refused [OF inv False, of f] run by simp
next
  case True
  then obtain i w1 v where o: "Writer_write_column name ty f w = stored i (f (mb_row_count b0) m (mb_columns (wr_batch w1) ! i)) w1"
    and opn: "opened b0 T m w1 name i ty v"
    by (rule write_column_opens [OF inv])
  obtain c where f: "f (mb_row_count b0) m (mb_columns (wr_batch w1) ! i) = (Err e, c)"
    using stored_ErrD [OF trans [OF o [symmetric] run]] by blast
  then show ?thesis using write_err [OF opened_holds [OF opn] f] True by simp
qed

end

end
