(* ===== verification/Batch_Commit.thy ===== *)
theory Batch_Commit
  imports Batch_Writer
begin

text \<open>
  \<open>commit\<close> always succeeds on a writer whose writes succeeded, and turns the batch into the union of the
  old rows and the new ones; sequences of writes through \<open>with_writer\<close>.
\<close>

section \<open>Commit\<close>

definition step_ok :: "nat \<Rightarrow> nat \<Rightarrow> (nat \<times> Statistics) list \<Rightarrow> nat \<Rightarrow> Batch_Column \<Rightarrow> Batch_Column \<Rightarrow> bool" where
  "step_ok n m stats i c c' \<longleftrightarrow>
     bs_len (bc_valid c) = n \<and> i \<notin> fst ` set stats \<and> Column_push_nulls_to_len (n + m) c = Some c'
   \<or> bs_len (bc_valid c) = n + m
       \<and> (\<exists>st d. (i, st) \<in> set stats \<and> Statistics_total_count st = m
             \<and> commit_column_data (n + m) st (bc_data c) = Some d \<and> c' = c\<lparr>bc_data := d\<rparr>)"

lemma sorted_head:
  assumes "sorted_wrt (<) (map fst stats)" and "\<forall>p\<in>set stats. (k :: nat) \<le> fst p" and "(k, st) \<in> set stats"
  obtains rest where "stats = (k, st) # rest" and "\<forall>p\<in>set rest. k < fst p"
proof (cases stats)
  case (Cons p rest)
  have less: "fst p < fst q" if "q \<in> set rest" for q using assms(1) Cons that by simp
  have "k \<le> fst p" using assms(2) Cons by simp
  then have "(k, st) \<notin> set rest" using less by fastforce
  then have "p = (k, st)" using assms(3) Cons by simp
  with Cons less show thesis using that by fastforce
qed (use assms in simp)

lemma commit_columns_ok:
  assumes "0 < m" and "sorted_wrt (<) (map fst stats)" and "\<forall>p\<in>set stats. k \<le> fst p"
    and "length cols' = length cols" and "\<forall>j<length cols. step_ok n m stats (k + j) (cols ! j) (cols' ! j)"
  shows "commit_columns n m k cols stats = Some cols'"
  using assms
proof (induction cols arbitrary: k stats cols')
  case (Cons c cols)
  obtain c' cs where cs: "cols' = c' # cs" using Cons.prems(4) by (cases cols') auto
  have first: "step_ok n m stats k c c'" using Cons.prems(5) [rule_format, of 0] cs by simp
  have later: "step_ok n m stats (k + 1 + j) (cols ! j) (cs ! j)" if "j < length cols" for j
    using Cons.prems(5) [rule_format, of "Suc j"] cs that by simp
  from first consider (push) "bs_len (bc_valid c) = n" "k \<notin> fst ` set stats" "Column_push_nulls_to_len (n + m) c = Some c'"
    | (stats) st d where "bs_len (bc_valid c) = n + m" "(k, st) \<in> set stats" "Statistics_total_count st = m"
        "commit_column_data (n + m) st (bc_data c) = Some d" "c' = c\<lparr>bc_data := d\<rparr>"
    unfolding step_ok_def by blast
  then show ?case
  proof cases
    case push
    have "k + 1 \<le> fst p" if p: "p \<in> set stats" for p
    proof -
      have "fst p \<noteq> k" using push(2) p by force
      then show ?thesis using Cons.prems(3) p by (metis Suc_eq_plus1 Suc_leI order_le_less)
    qed
    then have "commit_columns n m (k + 1) cols stats = Some cs"
      using Cons.IH [of stats "k + 1" cs] Cons.prems later cs by simp
    with push cs show ?thesis by simp
  next
    case stats
    obtain rest where rest: "stats = (k, st) # rest" "\<forall>p\<in>set rest. k < fst p"
      using sorted_head [OF Cons.prems(2,3) stats(2)] by blast
    have "step_ok n m rest (k + 1 + j) (cols ! j) (cs ! j)" if "j < length cols" for j
      using later [OF that] rest(1) by (auto simp: step_ok_def)
    then have "commit_columns n m (k + 1) cols rest = Some cs"
      using Cons.IH [of rest "k + 1" cs] Cons.prems(1,2,4) rest cs by (auto simp: Suc_le_eq)
    with stats rest cs Cons.prems(1) show ?thesis by simp
  qed
qed simp

lemma commit_columns_no_rows:
  "\<forall>c\<in>set cols. bs_len (bc_valid c) = n \<Longrightarrow> commit_columns n 0 k cols stats = Some cols"
  by (induction cols arbitrary: k) (simp_all add: Column_push_nulls_to_len_def)

text \<open>The cells of a column after commit.\<close>

definition final_cells :: "nat \<Rightarrow> ColumnValues \<Rightarrow> ColumnValues option \<Rightarrow> ColumnValues option" where
  "final_cells m v x = (case x of None \<Rightarrow> Some (cv_pad m v) | Some x \<Rightarrow> cv_append v x)"

lemma slot_commit:
  assumes "slot n m stats i c ty v x" and "0 < m"
  shows "\<exists>c' v'. step_ok n m stats i c c' \<and> final_cells m v x = Some v' \<and> col_holds c' ty v' \<and> stats_of (data_stats (bc_data c')) v' \<and> cv_length v' = n + m"
proof (cases x)
  case None
  then have c: "col_holds c ty v" "stats_of (data_stats (bc_data c)) v" "cv_length v = n" "i \<notin> fst ` set stats"
    using assms by (simp_all add: slot_def)
  with push_nulls_holds [OF c(1-3), of m] None col_holds_len [OF c(1)] show ?thesis
    by (auto simp: step_ok_def final_cells_def cv_length_pad)
next
  case (Some y)
  then obtain v' st where c: "cv_append v y = Some v'" "col_holds c ty v'" "(i, st) \<in> set stats" "stats_of st y" "cv_length y = m"
    "cv_length v = n" "stats_of (data_stats (bc_data c)) v"
    using assms by (auto simp: slot_def)
  have len: "cv_length v' = n + m" using cv_append_length [OF c(1)] c by simp
  obtain d where d: "commit_column_data (n + m) st (bc_data c) = Some d" "data_holds d v'" "type_ok ty d" "stats_of (data_stats d) v'"
    using commit_column_data_holds [of "bc_data c" v' v y ty st "n + m"] c len by (auto simp: col_holds_def)
  then have "step_ok n m stats i c (c\<lparr>bc_data := d\<rparr>)"
    using c len col_holds_len [OF c(2)] stats_of_length [OF c(4)] by (auto simp: step_ok_def)
  moreover have "col_holds (c\<lparr>bc_data := d\<rparr>) ty v'" using c(2) d by (simp add: col_holds_def)
  ultimately show ?thesis using c d len Some by (auto simp: final_cells_def)
qed

lemma slot_commit_no_rows:
  assumes "slot n 0 stats i c ty v x"
  shows "final_cells 0 v x = Some v \<and> col_holds c ty v \<and> stats_of (data_stats (bc_data c)) v \<and> cv_length v = n"
  using assms by (auto simp: slot_def final_cells_def dest: cv_append_empty split: option.splits)

lemma union_base:
  assumes "base n T W k = Some (ty, v)" and "\<forall>ty' x. W k = Some (ty', x) \<longrightarrow> ty' = ty" and "final_cells m v (map_option snd (W k)) = Some v'"
  shows "batch_union n T m W k = Some (ty, v')"
  using assms by (auto simp: base_def batch_union_def final_cells_def split: option.splits)

definition column_result :: "nat \<Rightarrow> nat \<Rightarrow> cells \<Rightarrow> string \<Rightarrow> Batch_Column \<Rightarrow> bool" where
  "column_result n m U k c \<longleftrightarrow> (\<exists>ty v. U k = Some (ty, v) \<and> col_holds c ty v \<and> stats_of (data_stats (bc_data c)) v \<and> cv_length v = n + m)"

lemma batch_holdsI:
  assumes "names_ok (mb_column_names b) (length (mb_columns b))" and "mb_row_count b = n + m"
    and "\<And>k i. (k, i) \<in> set (mb_column_names b) \<Longrightarrow> column_result n m U k (mb_columns b ! i)" and "dom U \<subseteq> fst ` set (mb_column_names b)"
  shows "batch_holds b U"
  using assms unfolding batch_holds_def column_result_def by fastforce

lemma dom_batch_union: "dom (batch_union n T m W) \<subseteq> dom T \<union> dom W"
  by (auto simp: batch_union_def split: option.splits)

lemma commit_ok:
  assumes inv: "writer_inv b0 T m W None w"
  shows "\<exists>w'. Writer_commit w = Some w' \<and> batch_holds (wr_batch w') (batch_union (mb_row_count b0) T m W)
    \<and> mb_row_count (wr_batch w') = mb_row_count b0 + m"
proof -
  let ?n = "mb_row_count b0" and ?names = "mb_column_names (wr_batch w)" and ?cols = "mb_columns (wr_batch w)"
  let ?stats = "sort_key fst (wr_statistics w)" and ?U = "batch_union (mb_row_count b0) T m W"
  have frame: "writer_frame b0 m w" using inv by (rule writer_inv_frame)
  have ok: "names_ok ?names (length ?cols)" using frame by (rule frame_names)
  have rows: "wr_initial_rows w = ?n" "wr_to_insert w = m" using frame by (simp_all add: writer_frame_def)
  define P where "P i c' \<longleftrightarrow> (\<forall>k. (k, i) \<in> set ?names \<longrightarrow> column_result ?n m ?U k c')
      \<and> (if m = 0 then c' = ?cols ! i \<and> bs_len (bc_valid c') = ?n else step_ok ?n m ?stats i (?cols ! i) c')" for i c'
  have "\<exists>c'. P i c'"
    if i: "i < length ?cols" for i
  proof -
    obtain k where k: "(k, i) \<in> set ?names" using names_ok_name [OF ok i] by blast
    obtain ty v where b: "base ?n T W k = Some (ty, v)" "\<forall>ty' x. W k = Some (ty', x) \<longrightarrow> ty' = ty"
      and slot: "slot ?n m (wr_statistics w) i (?cols ! i) ty v (map_option snd (W k))"
      using writer_invD [OF inv k option.distinct(1)] by blast
    have slot': "slot ?n m ?stats i (?cols ! i) ty v (map_option snd (W k))" using slot by (auto simp: slot_def split: option.splits)
    have only: "k' = k" if "(k', i) \<in> set ?names" for k' using names_ok_inj [OF ok that k] by simp
    show ?thesis
    proof (cases "m = 0")
      case True
      have z: "slot ?n 0 ?stats i (?cols ! i) ty v (map_option snd (W k))" using slot' True by simp
      have "column_result ?n m ?U k (?cols ! i)"
        using slot_commit_no_rows [OF z] union_base [OF b, of 0 v] True by (auto simp: column_result_def)
      moreover have "bs_len (bc_valid (?cols ! i)) = ?n" using slot_commit_no_rows [OF z] col_holds_len by metis
      ultimately show ?thesis using True only by (auto simp: P_def)
    next
      case False
      then obtain c' v' where c': "step_ok ?n m ?stats i (?cols ! i) c'" "final_cells m v (map_option snd (W k)) = Some v'"
        "col_holds c' ty v'" "stats_of (data_stats (bc_data c')) v'" "cv_length v' = ?n + m"
        using slot_commit [OF slot'] by auto
      then have "column_result ?n m ?U k c'" using union_base [OF b c'(2)] by (auto simp: column_result_def)
      with c'(1) only False show ?thesis by (auto simp: P_def)
    qed
  qed
  then obtain cols' where cols': "length cols' = length ?cols" and res: "\<forall>i<length ?cols. P i (cols' ! i)"
    using Skolem_list_nth [of "length ?cols" P] by blast
  have "commit_columns ?n m 0 ?cols ?stats = Some cols'"
  proof (cases "m = 0")
    case True
    then have "cols' = ?cols" using cols' res by (auto simp: P_def intro: nth_equalityI)
    with True res show ?thesis by (auto intro!: commit_columns_no_rows simp: P_def in_set_conv_nth)
  next
    case False
    have "distinct (map fst ?stats)" using inv False by (simp add: writer_inv_def writer_stats_def distinct_map)
    then have "sorted_wrt (<) (map fst ?stats)" by (simp add: strict_sorted_iff)
    with False cols' res show ?thesis by (intro commit_columns_ok) (simp_all add: P_def)
  qed
  then have commit: "Writer_commit w = Some (w\<lparr>wr_batch := (wr_batch w)\<lparr>mb_columns := cols', mb_row_count := ?n + m\<rparr>, wr_statistics := ?stats, wr_success := True\<rparr>)"
    using rows by (simp add: Writer_commit_def Let_def)
  have "batch_holds ((wr_batch w)\<lparr>mb_columns := cols', mb_row_count := ?n + m\<rparr>) ?U"
  proof (rule batch_holdsI [where n = ?n and m = m])
    show "dom ?U \<subseteq> fst ` set (mb_column_names ((wr_batch w)\<lparr>mb_columns := cols', mb_row_count := ?n + m\<rparr>))"
      using dom_batch_union [of ?n T m W] inv by (simp add: writer_inv_def)
  qed (use ok cols' res names_ok_index [OF ok] in \<open>auto simp: P_def\<close>)
  with commit show ?thesis by simp
qed

section \<open>Sequences of writes\<close>

type_synonym job = "string \<times> InfluxColumnType \<times> column_write"

fun write_jobs :: "job list \<Rightarrow> unit writer_call" where
  "write_jobs [] w = (Ok (), w)"
| "write_jobs ((name, ty, f) # js) w = m_bind (Writer_write_column name ty f) (\<lambda>_. write_jobs js) w"

definition jobs_write :: "nat \<Rightarrow> job list \<Rightarrow> (Writer_Error, ColumnValues) res list \<Rightarrow> bool" where
  "jobs_write m js news \<longleftrightarrow> list_all2 (\<lambda>(name, ty, f) new. column_writer f ty m new) js news"

fun cells_of :: "job list \<Rightarrow> ColumnValues list \<Rightarrow> cells" where
  "cells_of ((name, ty, f) # js) (x # xs) = [name \<mapsto> (ty, x)] ++ cells_of js xs"
| "cells_of _ _ = Map.empty"

definition job_fits :: "nat \<Rightarrow> cells \<Rightarrow> job \<Rightarrow> ColumnValues \<Rightarrow> bool" where
  "job_fits n T j x = (case j of (name, ty, _) \<Rightarrow> fits n T name ty x \<and> type_of_column T Map.empty name \<in> {None, Some ty})"

lemma write_jobs_ok:
  assumes "jobs_write m js news" and "writer_inv b0 T m W None w" and "write_jobs js w = (Ok u, w')"
  shows "\<exists>xs. news = map Ok xs \<and> writer_inv b0 T m (W ++ cells_of js xs) None w'"
  using assms
proof (induction js arbitrary: news W w)
  case Nil
  then show ?case by (auto simp: jobs_write_def)
next
  case (Cons j js)
  obtain name ty f where j: "j = (name, ty, f)" by (cases j) auto
  with Cons.prems(1) obtain new news' where news: "news = new # news'" and cw: "column_writer f ty m new" and js: "jobs_write m js news'"
    by (auto simp: jobs_write_def list_all2_Cons1)
  obtain v w1 where first: "Writer_write_column name ty f w = (Ok v, w1)" and rest: "write_jobs js w1 = (Ok u, w')"
    using Cons.prems(3) by (auto simp: j elim: m_bind_OkE)
  obtain x where x: "new = Ok x" "writer_inv b0 T m (W(name \<mapsto> (ty, x))) None w1"
    using column_writer.write_column_ok [OF cw Cons.prems(2) first] by blast
  from Cons.IH [OF js x(2) rest] obtain xs where "news' = map Ok xs" "writer_inv b0 T m (W(name \<mapsto> (ty, x)) ++ cells_of js xs) None w'"
    by blast
  moreover have "W(name \<mapsto> (ty, x)) ++ cells_of js xs = W ++ cells_of (j # js) (x # xs)"
    by (simp add: j map_add_assoc [symmetric])
  ultimately show ?case using news x(1) by (intro exI [of _ "x # xs"]) simp
qed

lemma write_jobs_undo:
  assumes "jobs_write m js news" and "writer_inv b0 T m W None w" and b0: "batch_holds b0 T" "all_undoable T"
    and "write_jobs js w = (Err e, w')"
  shows "undo_ok b0 m w'"
  using assms(1,2,5)
proof (induction js arbitrary: news W w)
  case (Cons j js)
  obtain name ty f where j: "j = (name, ty, f)" by (cases j) auto
  with Cons.prems(1) obtain new news' where cw: "column_writer f ty m new" and js: "jobs_write m js news'"
    by (auto simp: jobs_write_def list_all2_Cons1)
  show ?case
  proof (cases "Writer_write_column name ty f w")
    case (Pair r w1)
    show ?thesis
    proof (cases r)
      case (Ok v)
      then obtain x where "writer_inv b0 T m (W(name \<mapsto> (ty, x))) None w1"
        using column_writer.write_column_ok [OF cw Cons.prems(2), of name v w1] Pair by auto
      then show ?thesis using Cons.IH [OF js] Cons.prems(3) Pair Ok j by simp
    next
      case (Err e')
      then show ?thesis using column_writer.write_column_undo [OF cw Cons.prems(2) b0, of name e' w1] Cons.prems(3) Pair j by simp
    qed (use Cons.prems(3) Pair j in simp)
  qed
qed simp

lemma write_jobs_total:
  assumes "jobs_write m js (map Ok xs)" and "writer_inv b0 T m W None w" and "list_all2 (job_fits (mb_row_count b0) T) js xs"
    and "distinct (map fst js)" and "\<forall>j\<in>set js. W (fst j) = None"
  shows "is_ok (fst (write_jobs js w))"
  using assms
proof (induction js arbitrary: xs W w)
  case (Cons j js)
  obtain name ty f where j: "j = (name, ty, f)" by (cases j) auto
  obtain x xs' where xs: "xs = x # xs'" using Cons.prems(3) by (auto simp: list_all2_Cons1)
  have cw: "column_writer f ty m (Ok x)" and js: "jobs_write m js (map Ok xs')"
    using Cons.prems(1) by (simp_all add: jobs_write_def j xs)
  have fits: "fits (mb_row_count b0) T name ty x" "type_of_column T Map.empty name \<in> {None, Some ty}"
    using Cons.prems(3) by (simp_all add: job_fits_def j xs)
  have W: "W name = None" using Cons.prems(5) j by simp
  then have "may_write m T W name ty" using fits(2) by (auto simp: may_write_def type_of_column_def split: option.splits)
  then have "is_ok (fst (Writer_write_column name ty f w))"
    using column_writer.write_column_total [OF cw Cons.prems(2) _ refl fits(1)] by blast
  then obtain v w1 where first: "Writer_write_column name ty f w = (Ok v, w1)"
    by (cases "Writer_write_column name ty f w"; cases "fst (Writer_write_column name ty f w)") auto
  obtain y where y: "writer_inv b0 T m (W(name \<mapsto> (ty, y))) None w1"
    using column_writer.write_column_ok [OF cw Cons.prems(2) first] by blast
  have "is_ok (fst (write_jobs js w1))"
    by (rule Cons.IH [OF js y]) (use Cons.prems(3-5) xs j in auto)
  then show ?case using first j by simp
qed simp

section \<open>A writer for one call\<close>

lemma with_writer_jobs_ok:
  assumes "batch_holds b T" and "jobs_write m js news" and "with_writer m (write_jobs js) b = (Ok u, b')"
  shows "\<exists>xs. news = map Ok xs \<and> batch_holds b' (batch_union (mb_row_count b) T m (cells_of js xs)) \<and> mb_row_count b' = mb_row_count b + m"
proof -
  have inv: "writer_inv b T m Map.empty None (Writer_new b m)" using assms(1) by (rule writer_inv_new)
  obtain v w w2 where w: "write_jobs js (Writer_new b m) = (Ok v, w)" "Writer_commit w = Some w2" "b' = wr_batch w2"
    using assms(3) by (auto simp: with_writer_def split: prod.splits res.splits option.splits)
  obtain xs where xs: "news = map Ok xs" "writer_inv b T m (cells_of js xs) None w"
    using write_jobs_ok [OF assms(2) inv w(1)] by auto
  show ?thesis using commit_ok [OF xs(2)] w(2,3) xs(1) by auto
qed

lemma with_writer_jobs_err:
  assumes "batch_holds b T" and "all_undoable T" and "jobs_write m js news" and "with_writer m (write_jobs js) b = (Err e, b')"
  shows "b' = b"
proof -
  have inv: "writer_inv b T m Map.empty None (Writer_new b m)" using assms(1) by (rule writer_inv_new)
  obtain w where w: "write_jobs js (Writer_new b m) = (Err e, w)" "Writer_drop w = Some b'"
    using assms(4) by (auto simp: with_writer_def split: prod.splits res.splits option.splits)
  show ?thesis using drop_undoes [OF write_jobs_undo [OF assms(3) inv assms(1,2) w(1)]] w(2) by simp
qed

lemma with_writer_jobs_total:
  assumes "batch_holds b T" and "jobs_write m js (map Ok xs)" and "list_all2 (job_fits (mb_row_count b) T) js xs" and "distinct (map fst js)"
  shows "\<exists>b'. with_writer m (write_jobs js) b = (Ok (), b') \<and> batch_holds b' (batch_union (mb_row_count b) T m (cells_of js xs))
    \<and> mb_row_count b' = mb_row_count b + m"
proof -
  have inv: "writer_inv b T m Map.empty None (Writer_new b m)" using assms(1) by (rule writer_inv_new)
  have "is_ok (fst (write_jobs js (Writer_new b m)))"
    using write_jobs_total [OF assms(2) inv assms(3,4)] by simp
  then obtain v w where w: "write_jobs js (Writer_new b m) = (Ok v, w)"
    by (cases "write_jobs js (Writer_new b m)"; cases "fst (write_jobs js (Writer_new b m))") auto
  obtain xs' where xs: "map Ok xs = (map Ok xs' :: (Writer_Error, ColumnValues) res list)" "writer_inv b T m (cells_of js xs') None w"
    using write_jobs_ok [OF assms(2) inv w] by auto
  have "xs' = xs" using xs(1) by (simp add: inj_map_eq_map inj_def)
  with commit_ok [OF xs(2)] w show ?thesis by (auto simp: with_writer_def)
qed

end
