(* ===== verification/Batch_Spec.thy ===== *)
theory Batch_Spec
  imports Batch_Commit
begin

text \<open>
  What the public operations of a mutable batch promise: a sequence of typed writes either appends its
  rows or leaves the batch as it was; \<open>extend_from\<close> and \<open>extend_from_ranges\<close> append the rows of another
  batch; and the inputs on which the code does not keep these promises.
\<close>

section \<open>Sequences of typed writes\<close>

datatype write_op =
    Write_F64 string "byte list option" "f64 list"
  | Write_I64 string "byte list option" "int list"
  | Write_U64 string "byte list option" "nat list"
  | Write_Bool string "byte list option" "bool list"
  | Write_String string "byte list option" "string list"
  | Write_Tag string "byte list option" "string list"
  | Write_Tag_Dict string "byte list option" "nat list" "string list"
  | Write_Time string "int list"

fun Writer_write :: "write_op \<Rightarrow> unit writer_call" where
  "Writer_write (Write_F64 name valid_mask vs) = Writer_write_f64 name valid_mask vs"
| "Writer_write (Write_I64 name valid_mask vs) = Writer_write_i64 name valid_mask vs"
| "Writer_write (Write_U64 name valid_mask vs) = Writer_write_u64 name valid_mask vs"
| "Writer_write (Write_Bool name valid_mask vs) = Writer_write_bool name valid_mask vs"
| "Writer_write (Write_String name valid_mask vs) = Writer_write_string name valid_mask vs"
| "Writer_write (Write_Tag name valid_mask vs) = Writer_write_tag name valid_mask vs"
| "Writer_write (Write_Tag_Dict name valid_mask keys vs) = Writer_write_tag_dict name valid_mask keys vs"
| "Writer_write (Write_Time name vs) = Writer_write_time name vs"

fun Writer_writes :: "write_op list \<Rightarrow> unit writer_call" where
  "Writer_writes [] w = (Ok (), w)"
| "Writer_writes (op # ops) w = m_bind (Writer_write op) (\<lambda>_. Writer_writes ops) w"

fun op_name :: "write_op \<Rightarrow> string" where
  "op_name (Write_F64 name _ _) = name" | "op_name (Write_I64 name _ _) = name" | "op_name (Write_U64 name _ _) = name"
| "op_name (Write_Bool name _ _) = name" | "op_name (Write_String name _ _) = name" | "op_name (Write_Tag name _ _) = name"
| "op_name (Write_Tag_Dict name _ _ _) = name" | "op_name (Write_Time name _) = name"

fun op_type :: "write_op \<Rightarrow> InfluxColumnType" where
  "op_type (Write_F64 _ _ _) = InfluxColumnType_Field InfluxFieldType_Float"
| "op_type (Write_I64 _ _ _) = InfluxColumnType_Field InfluxFieldType_Integer"
| "op_type (Write_U64 _ _ _) = InfluxColumnType_Field InfluxFieldType_UInteger"
| "op_type (Write_Bool _ _ _) = InfluxColumnType_Field InfluxFieldType_Boolean"
| "op_type (Write_String _ _ _) = InfluxColumnType_Field InfluxFieldType_String"
| "op_type (Write_Tag _ _ _) = InfluxColumnType_Tag"
| "op_type (Write_Tag_Dict _ _ _ _) = InfluxColumnType_Tag"
| "op_type (Write_Time _ _) = InfluxColumnType_Timestamp"

text \<open>The cells of the new rows: the values go to the rows whose bit of the mask is set.\<close>

fun spread :: "bool list \<Rightarrow> 'a list \<Rightarrow> 'a option list" where
  "spread (True # bs) (v # vs) = Some v # spread bs vs"
| "spread (False # bs) vs = None # spread bs vs"
| "spread _ _ = []"

fun op_cells :: "nat \<Rightarrow> write_op \<Rightarrow> ColumnValues" where
  "op_cells m (Write_F64 _ valid_mask vs) = CV_F64 (spread (mask_bits valid_mask m) vs)"
| "op_cells m (Write_I64 _ valid_mask vs) = CV_I64 (spread (mask_bits valid_mask m) vs)"
| "op_cells m (Write_U64 _ valid_mask vs) = CV_U64 (spread (mask_bits valid_mask m) vs)"
| "op_cells m (Write_Bool _ valid_mask vs) = CV_Bool (spread (mask_bits valid_mask m) vs)"
| "op_cells m (Write_String _ valid_mask vs) = CV_String (spread (mask_bits valid_mask m) vs)"
| "op_cells m (Write_Tag _ valid_mask vs) = CV_String (spread (mask_bits valid_mask m) vs)"
| "op_cells m (Write_Tag_Dict _ valid_mask keys vs) = CV_String (spread (mask_bits valid_mask m) (map ((!) vs) keys))"
| "op_cells m (Write_Time _ vs) = CV_I64 (map Some (take m vs))"

text \<open>The mask has one bit for every row, and there is a value for every bit that is set.\<close>

definition enough :: "byte list option \<Rightarrow> nat \<Rightarrow> nat \<Rightarrow> bool" where
  "enough valid_mask m k \<longleftrightarrow> mask_ok valid_mask m \<and> length (filter (\<lambda>b. b) (mask_bits valid_mask m)) \<le> k"

fun op_valid :: "nat \<Rightarrow> write_op \<Rightarrow> bool" where
  "op_valid m (Write_F64 _ valid_mask vs) = enough valid_mask m (length vs)"
| "op_valid m (Write_I64 _ valid_mask vs) = enough valid_mask m (length vs)"
| "op_valid m (Write_U64 _ valid_mask vs) = enough valid_mask m (length vs)"
| "op_valid m (Write_Bool _ valid_mask vs) = enough valid_mask m (length vs)"
| "op_valid m (Write_String _ valid_mask vs) = enough valid_mask m (length vs)"
| "op_valid m (Write_Tag _ valid_mask vs) = enough valid_mask m (length vs)"
| "op_valid m (Write_Tag_Dict _ valid_mask keys vs) = (enough valid_mask m (length keys) \<and> (\<forall>k\<in>set keys. k < length vs))"
| "op_valid m (Write_Time _ vs) = (m \<le> length vs)"

fun op_column :: "write_op \<Rightarrow> column_write" where
  "op_column (Write_F64 _ valid_mask vs) = write_f64_column valid_mask vs"
| "op_column (Write_I64 _ valid_mask vs) = write_i64_column valid_mask vs"
| "op_column (Write_U64 _ valid_mask vs) = write_u64_column valid_mask vs"
| "op_column (Write_Bool _ valid_mask vs) = write_bool_column valid_mask vs"
| "op_column (Write_String _ valid_mask vs) = write_string_column valid_mask vs"
| "op_column (Write_Tag _ valid_mask vs) = write_tag_column valid_mask vs"
| "op_column (Write_Tag_Dict _ valid_mask keys vs) = write_tag_dict_column valid_mask keys vs"
| "op_column (Write_Time _ vs) = write_i64_column None vs"

fun op_new :: "nat \<Rightarrow> write_op \<Rightarrow> (Writer_Error, ColumnValues) res" where
  "op_new m (Write_F64 _ valid_mask vs) = typed_new valid_mask m vs CV_F64"
| "op_new m (Write_I64 _ valid_mask vs) = typed_new valid_mask m vs CV_I64"
| "op_new m (Write_U64 _ valid_mask vs) = typed_new valid_mask m vs CV_U64"
| "op_new m (Write_Bool _ valid_mask vs) = typed_new valid_mask m vs CV_Bool"
| "op_new m (Write_String _ valid_mask vs) = typed_new valid_mask m vs CV_String"
| "op_new m (Write_Tag _ valid_mask vs) = typed_new valid_mask m vs CV_String"
| "op_new m (Write_Tag_Dict _ valid_mask keys vs) =
     new_res (keys_res (length (set_position_iterator valid_mask m)) keys vs) valid_mask m
       (CV_String (new_cells valid_mask m (map ((!) vs) keys)))"
| "op_new m (Write_Time _ vs) = typed_new None m vs CV_I64"

definition op_job :: "write_op \<Rightarrow> job" where
  "op_job op = (op_name op, op_type op, op_column op)"

lemma Writer_write_job: "Writer_write op = Writer_write_column (op_name op) (op_type op) (op_column op)"
  by (cases op) (simp_all add: fun_eq_iff Writer_write_f64_def Writer_write_i64_def Writer_write_u64_def Writer_write_bool_def
      Writer_write_string_def Writer_write_tag_def Writer_write_tag_dict_def Writer_write_time_def)

lemma Writer_writes_jobs: "Writer_writes ops = write_jobs (map op_job ops)"
proof
  show "Writer_writes ops w = write_jobs (map op_job ops) w" for w
  proof (induction ops arbitrary: w)
    case (Cons op ops)
    then have "Writer_writes ops = write_jobs (map op_job ops)" by blast
    then show ?case by (simp add: op_job_def [of op] Writer_write_job)
  qed simp
qed

lemma op_writer: "column_writer (op_column op) (op_type op) m (op_new m op)"
  by (cases op) (simp_all add: f64_writer.column_writer_axioms i64_writer.column_writer_axioms u64_writer.column_writer_axioms
      bool_writer.column_writer_axioms string_writer.column_writer_axioms tag_writer.column_writer_axioms
      tag_dict_writer.column_writer_axioms time_writer.column_writer_axioms)

lemma jobs_write_ops: "jobs_write m (map op_job ops) (map (op_new m) ops)"
  by (simp add: jobs_write_def op_job_def list_all2_conv_all_nth op_writer)

lemma fill_spread:
  assumes "length (filter (\<lambda>b. b) bs) \<le> length vs" and "length pre = k"
  shows "fill (filter (\<lambda>i. bs ! (i - k)) [k..<k + length bs]) vs (pre @ replicate (length bs) None) = pre @ spread bs vs"
  using assms
proof (induction bs arbitrary: k pre vs)
  case (Cons b bs)
  define ps where "ps = filter (\<lambda>i. bs ! (i - Suc k)) [Suc k..<Suc k + length bs]"
  have upt: "[k..<k + length (b # bs)] = k # [Suc k..<Suc k + length bs]" using upt_conv_Cons [of k "Suc (k + length bs)"] by simp
  have "filter (\<lambda>i. (b # bs) ! (i - k)) [Suc k..<Suc k + length bs] = ps"
    unfolding ps_def by (rule filter_cong) (auto simp: nth_Cons' Suc_diff_Suc)
  then have positions: "filter (\<lambda>i. (b # bs) ! (i - k)) [k..<k + length (b # bs)] = (if b then k # ps else ps)"
    by (simp only: upt filter.simps) simp
  have IH: "fill ps us (pre @ x # replicate (length bs) None) = pre @ x # spread bs us" if "length (filter (\<lambda>b. b) bs) \<le> length us" for x us
  proof -
    have "fill ps us ((pre @ [x]) @ replicate (length bs) None) = (pre @ [x]) @ spread bs us"
      unfolding ps_def by (rule Cons.IH [OF that]) (simp add: Cons.prems(2))
    then show ?thesis by simp
  qed
  show ?case
  proof (cases b)
    case False
    then show ?thesis unfolding positions using IH [of vs None] Cons.prems by simp
  next
    case True
    then obtain v vs' where vs: "vs = v # vs'" using Cons.prems by (cases vs) auto
    have "(pre @ None # replicate (length bs) None)[k := Some v] = pre @ Some v # replicate (length bs) None"
      using Cons.prems(2) by (simp add: list_update_append)
    then show ?thesis unfolding positions using IH [of vs' "Some v"] Cons.prems True vs by simp
  qed
qed simp

lemma new_cells_spread:
  assumes "enough valid_mask m (length vs)"
  shows "new_cells valid_mask m vs = spread (mask_bits valid_mask m) vs"
  using fill_spread [of "mask_bits valid_mask m" vs "[]" 0] assms set_position_iterator_eq [of valid_mask m]
  by (simp add: enough_def new_cells_def)

lemma length_set_positions:
  assumes "mask_ok valid_mask m"
  shows "length (set_position_iterator valid_mask m) = length (filter (\<lambda>b. b) (mask_bits valid_mask m))"
proof -
  have "filter (\<lambda>b. b) (mask_bits valid_mask m) = filter (\<lambda>b. b) (map ((!) (mask_bits valid_mask m)) [0..<length (mask_bits valid_mask m)])"
    by (simp only: map_nth)
  then have "length (filter (\<lambda>b. b) (mask_bits valid_mask m)) = length (filter (\<lambda>i. mask_bits valid_mask m ! i) [0..<m])"
    by (simp add: filter_map o_def)
  then show ?thesis using set_position_iterator_eq [OF assms] by simp
qed

lemma spread_all: "m \<le> length vs \<Longrightarrow> spread (replicate m True) vs = map Some (take m vs)"
proof (induction m arbitrary: vs)
  case (Suc m)
  then show ?case by (cases vs) auto
qed simp

lemma op_new_valid: "op_valid m op \<Longrightarrow> op_new m op = Ok (op_cells m op)"
  by (cases op) (auto simp: typed_new_def loop_res_def keys_res_def length_set_positions enough_def
      new_cells_spread mask_ok_def mask_bits_def spread_all find_None_iff dest!: in_set_takeD split: option.splits)

text \<open>The table of the new rows that a sequence of writes to different columns describes.\<close>

definition rows_of :: "nat \<Rightarrow> write_op list \<Rightarrow> cells" where
  "rows_of m ops = map_of (map (\<lambda>op. (op_name op, (op_type op, op_cells m op))) ops)"

definition op_fits :: "nat \<Rightarrow> cells \<Rightarrow> nat \<Rightarrow> write_op \<Rightarrow> bool" where
  "op_fits n T m op \<longleftrightarrow> fits n T (op_name op) (op_type op) (op_cells m op) \<and> type_of_column T Map.empty (op_name op) \<in> {None, Some (op_type op)}"

lemma cells_of_map:
  "distinct (map nm L) \<Longrightarrow> cells_of (map (\<lambda>a. (nm a, ty a, f a)) L) (map x L) = map_of (map (\<lambda>a. (nm a, (ty a, x a))) L)"
proof (induction L)
  case (Cons a L)
  have "map_of (map (\<lambda>a. (nm a, (ty a, x a))) L) (nm a) = None" using Cons.prems by (auto simp: map_of_eq_None_iff)
  then have "[nm a \<mapsto> (ty a, x a)] ++ map_of (map (\<lambda>a. (nm a, (ty a, x a))) L) = map_of (map (\<lambda>a. (nm a, (ty a, x a))) (a # L))"
    by (auto simp: map_add_def fun_eq_iff split: option.splits)
  then show ?case using Cons by simp
qed simp

lemma cells_of_ops:
  "distinct (map op_name ops) \<Longrightarrow> cells_of (map op_job ops) (map (op_cells m) ops) = rows_of m ops"
  using cells_of_map [of op_name ops op_type op_column "op_cells m"] by (simp add: op_job_def [abs_def] rows_of_def)

text \<open>A batch of one row, and what it holds.\<close>

definition sample_batch :: MutableBatch where
  "sample_batch = \<lparr>mb_column_names = [(''v'', 0)],
     mb_columns = [\<lparr>bc_influx_type = InfluxColumnType_Field InfluxFieldType_Integer, bc_valid = \<lparr>bs_buffer = [1], bs_len = 1\<rparr>,
       bc_data = ColumnData_I64 [7] (StatValues_update ord_total 7 StatValues_new_empty)\<rparr>], mb_row_count = 1\<rparr>"

definition sample_cells :: cells where
  "sample_cells = [''v'' \<mapsto> (InfluxColumnType_Field InfluxFieldType_Integer, CV_I64 [Some 7])]"

lemma sample_bits:
  "bs_wf \<lparr>bs_buffer = [1], bs_len = Suc 0\<rparr>" "bits \<lparr>bs_buffer = [1], bs_len = Suc 0\<rparr> = [True]"
  "bs_wf \<lparr>bs_buffer = [3], bs_len = 2\<rparr>" "bits \<lparr>bs_buffer = [3], bs_len = 2\<rparr> = [True, True]"
  by code_simp+

lemma sample_holds: "batch_holds sample_batch sample_cells"
proof -
  have "summarises ord_total (\<lambda>x. x) (StatValues_update ord_total 7 StatValues_new_empty) [Some (7 :: int)]"
    using total.new_rows_summarises [of None 1 "[7 :: int]"] by (simp add: option.map_ident set_position_iterator_def new_cells_def StatValues_update_for_nulls_def)
  then show ?thesis
    by (auto simp: batch_holds_def sample_batch_def sample_cells_def names_ok_def col_holds_def sample_bits split: if_splits)
qed

lemma sample_undoable: "all_undoable sample_cells"
  by (auto simp: all_undoable_def sample_cells_def undoable_def split: if_splits)

lemma new_batch_holds: "batch_holds MutableBatch_new Map.empty"
  by (simp add: batch_holds_def MutableBatch_new_def names_ok_def)

text \<open>
  C2. Writing typed columns through a writer appends the rows: when the writes name different columns,
  agree with the types of the existing ones and bring a value for every bit of their masks, and the
  strings still fit, the call succeeds, the batch holds the old rows followed by the new ones with
  nulls where a column has no value, and the statistics of every column describe all its rows.
\<close>

theorem writer_appends_rows:
  assumes "batch_holds b T" and "distinct (map op_name ops)" and "\<forall>op\<in>set ops. op_valid m op \<and> op_fits (mb_row_count b) T m op"
  shows "\<exists>b'. with_writer m (Writer_writes ops) b = (Ok (), b')
    \<and> batch_holds b' (batch_union (mb_row_count b) T m (rows_of m ops)) \<and> mb_row_count b' = mb_row_count b + m"
proof -
  have "jobs_write m (map op_job ops) (map Ok (map (op_cells m) ops))"
    using jobs_write_ops [of m ops] assms(3) by (simp add: op_new_valid cong: map_cong)
  moreover have "list_all2 (job_fits (mb_row_count b) T) (map op_job ops) (map (op_cells m) ops)"
    using assms(3) by (auto simp: list_all2_conv_all_nth job_fits_def op_job_def op_fits_def)
  moreover have "distinct (map fst (map op_job ops))" using assms(2) by (simp add: o_def op_job_def)
  ultimately show ?thesis
    using with_writer_jobs_total [OF assms(1)] cells_of_ops [OF assms(2), of m] unfolding Writer_writes_jobs by metis
qed

theorem writer_appends_rows_witness:
  "\<exists>b'. with_writer 2 (Writer_writes [Write_Tag ''host'' (Some [2]) [''a''], Write_I64 ''v'' None [1, 2], Write_Time ''time'' [5, 6]]) sample_batch = (Ok (), b')
    \<and> mb_row_count b' = 3"
proof -
  let ?ops = "[Write_Tag ''host'' (Some [2]) [''a''], Write_I64 ''v'' None [1, 2], Write_Time ''time'' [5, 6]]"
  have mask: "mask_bits (Some [2]) 2 = [False, True]" by code_simp
  have valid: "\<forall>op\<in>set ?ops. op_valid 2 op" by code_simp
  have fits: "\<forall>op\<in>set ?ops. op_fits (mb_row_count sample_batch) sample_cells 2 op"
    by (simp add: op_fits_def fits_def old_cells_def sample_cells_def sample_batch_def type_of_column_def mask dict_of_def dict_fits_def i32_max_def)
  have "mb_row_count sample_batch = 1" by (simp add: sample_batch_def)
  with writer_appends_rows [OF sample_holds, of ?ops 2] valid fits show ?thesis by auto
qed

text \<open>
  C4. A writer that is dropped without commit undoes its writes: when one of a sequence of writes
  returns an error, the batch is exactly what it was before the first one.  The tag columns must have
  a row with a value, or no rows.
\<close>

theorem writer_error_undone:
  assumes "batch_holds b T" and "all_undoable T" and "with_writer m (Writer_writes ops) b = (Err e, b')"
  shows "b' = b"
  using with_writer_jobs_err [OF assms(1,2) jobs_write_ops] assms(3) unfolding Writer_writes_jobs by blast

theorem writer_error_undone_witness:
  "\<exists>b'. with_writer 2 (Writer_writes [Write_I64 ''w'' None [1, 2], Write_I64 ''v'' None [1]]) sample_batch = (Err InsufficientValues, b')
    \<and> b' = sample_batch"
proof -
  have run: "with_writer 2 (Writer_writes [Write_I64 ''w'' None [1, 2], Write_I64 ''v'' None [1]]) sample_batch = (Err InsufficientValues, sample_batch)"
    by code_simp
  from writer_error_undone [OF sample_holds sample_undoable run] run show ?thesis by blast
qed

text \<open>
  The rollback of a tag column with rows, all of them null, panics: the largest id is \<open>-1\<close>, and truncating
  the dictionary to it computes \<open>usize::MAX + 1\<close>.
\<close>

lemma rollback_null_tags:
  assumes "col_holds c ty v" and "\<not> undoable ty v"
  shows "rollback_column (cv_length v) c = None"
proof -
  have ty: "ty = InfluxColumnType_Tag" "cv_length v \<noteq> 0" "True \<notin> set (cv_present v)" using assms(2) by (auto simp: undoable_def)
  obtain d dict st where d: "bc_data c = ColumnData_Tag d dict st" using assms(1) ty(1) by (auto simp: col_holds_def elim: type_ok.elims)
  obtain xs where xs: "v = CV_String xs" "d = map (tag_id (dict_of xs)) xs"
    using assms(1) unfolding col_holds_def d by (cases v) auto
  have none: "\<forall>x\<in>set xs. x = None" and ne: "xs \<noteq> []" using ty xs(1) by auto
  have "tag_id (dict_of xs) x = - 1" if "x \<in> set xs" for x using bspec [OF none that] by (simp add: INVALID_DID_def)
  then have "d = map (\<lambda>_. - 1) xs" unfolding xs(2) by simp
  then have "set d = {- 1}" using ne by (simp add: image_constant_conv)
  moreover have "length d = cv_length v" by (simp add: xs)
  ultimately have "rollback_data (cv_length v) (bc_data c) = None" using ty(2) by (auto simp: d truncate_null)
  then show ?thesis by (simp add: rollback_column_def bind_eq_None_conv)
qed

lemma those_map_None: "x \<in> set xs \<Longrightarrow> f x = None \<Longrightarrow> those (map f xs) = None"
  by (rule those_None) (force intro: rev_image_eqI)

lemma drop_new_writer:
  assumes "batch_holds b T"
  shows "Writer_drop (Writer_new b m) = (if all_undoable T then Some b else None)"
proof (cases "all_undoable T")
  case True
  have "writer_inv b T m Map.empty None (Writer_new b m)" using assms(1) by (rule writer_inv_new)
  with True show ?thesis using drop_undoes [OF writer_inv_undo [OF _ assms True]] by simp
next
  case False
  then obtain k ty v where k: "T k = Some (ty, v)" "\<not> undoable ty v" by (auto simp: all_undoable_def)
  then have "k \<in> fst ` set (mb_column_names b)" using assms by (auto simp: batch_holds_def)
  then obtain i where i: "(k, i) \<in> set (mb_column_names b)" by auto
  then have c: "col_holds (mb_columns b ! i) ty v" "cv_length v = mb_row_count b" using assms k(1) by (auto simp: batch_holds_def)
  have "i < length (mb_columns b)" using i names_ok_index [OF batch_holds_names [OF assms]] by blast
  then have "those (map (rollback_column (mb_row_count b)) (mb_columns b)) = None"
    using rollback_null_tags [OF c(1) k(2)] c(2) by (intro those_map_None [of "mb_columns b ! i"]) simp_all
  then show ?thesis using False by (simp add: Writer_drop_def Writer_new_def Let_def)
qed

text \<open>
  C31. A write to a column of another type, whatever the values are.  When every tag column of the batch has no rows or
  a row with a value, it fails with \<open>TypeMismatch\<close>, which names the column, its type and the type of the write, and
  leaves the batch as it was.  When some tag column has rows and all of them are null, the rollback panics, and with it
  the write: the error is not returned.
\<close>

theorem write_type_mismatch:
  assumes "batch_holds b T" and "T (op_name op) = Some (ty, v)" and "ty \<noteq> op_type op"
  shows "if \<forall>k w. T k = Some (InfluxColumnType_Tag, w) \<longrightarrow> cv_length w = 0 \<or> True \<in> set (cv_present w)
    then with_writer m (Writer_writes [op]) b = (Err (TypeMismatch (op_name op) ty (op_type op)), b)
    else fst (with_writer m (Writer_writes [op]) b) = Panic"
proof -
  have inv: "writer_inv b T m Map.empty None (Writer_new b m)" using assms(1) by (rule writer_inv_new)
  have "\<not> may_write m T Map.empty (op_name op) (op_type op)" using assms(2,3) by (simp add: may_write_def type_of_column_def)
  then have "Writer_writes [op] (Writer_new b m) = (Err (TypeMismatch (op_name op) ty (op_type op)), Writer_new b m)"
    using write_column_refused [OF inv] assms(2,3) by (simp add: Writer_write_job refused_def type_of_column_def)
  moreover have "all_undoable T \<longleftrightarrow> (\<forall>k w. T k = Some (InfluxColumnType_Tag, w) \<longrightarrow> cv_length w = 0 \<or> True \<in> set (cv_present w))"
    by (auto simp: all_undoable_def undoable_def)
  ultimately show ?thesis using drop_new_writer [OF assms(1), of m] by (simp add: with_writer_def)
qed

theorem write_type_mismatch_witness:
  "with_writer 1 (Writer_writes [Write_Tag ''v'' None [''x'']]) sample_batch
    = (Err (TypeMismatch ''v'' (InfluxColumnType_Field InfluxFieldType_Integer) InfluxColumnType_Tag), sample_batch)"
  using write_type_mismatch [OF sample_holds, of "Write_Tag ''v'' None [''x'']"] sample_undoable
  by (auto simp: sample_cells_def all_undoable_def undoable_def)

section \<open>Appending the rows of another batch\<close>

definition src_jobs :: "(Batch_Column \<Rightarrow> column_write) \<Rightarrow> MutableBatch \<Rightarrow> job list" where
  "src_jobs f src = map (\<lambda>p. (fst p, bc_influx_type (mb_columns src ! snd p), f (mb_columns src ! snd p))) (mb_column_names src)"

lemma write_columns_jobs:
  assumes "\<forall>p\<in>set names. snd p < length (mb_columns src)"
  shows "Writer_write_columns f src names = write_jobs (map (\<lambda>p. (fst p, bc_influx_type (mb_columns src ! snd p), f (mb_columns src ! snd p))) names)"
    (is "_ = write_jobs (map ?j names)")
proof
  show "Writer_write_columns f src names w = write_jobs (map ?j names) w" for w
    using assms
  proof (induction names arbitrary: w)
    case (Cons p names)
    then have "Writer_write_columns f src names = write_jobs (map ?j names)" by auto
    then show ?case using Cons.prems by (cases p) (simp add: Let_def)
  qed simp
qed

lemma write_columns_src:
  assumes "batch_holds src S"
  shows "Writer_write_columns f src (mb_column_names src) = write_jobs (src_jobs f src)"
  unfolding src_jobs_def
  by (rule write_columns_jobs) (use names_ok_index [OF batch_holds_names [OF assms]] in auto)

text \<open>The rows of \<open>S\<close> agree with the types of \<open>T\<close>, and the strings of both fit into one batch.\<close>

definition mergeable :: "nat \<Rightarrow> cells \<Rightarrow> cells \<Rightarrow> bool" where
  "mergeable n T S \<longleftrightarrow> (\<forall>k ty x. S k = Some (ty, x) \<longrightarrow> fits n T k ty x \<and> type_of_column T Map.empty k \<in> {None, Some ty})"

definition src_cells :: "cells \<Rightarrow> string \<Rightarrow> ColumnValues" where
  "src_cells S k = snd (the (S k))"

lemma src_column:
  assumes "batch_holds src S" and "p \<in> set (mb_column_names src)"
  shows "S (fst p) = Some (bc_influx_type (mb_columns src ! snd p), src_cells S (fst p))"
    and "col_holds (mb_columns src ! snd p) (bc_influx_type (mb_columns src ! snd p)) (src_cells S (fst p))"
    and "stats_of (data_stats (bc_data (mb_columns src ! snd p))) (src_cells S (fst p))"
    and "cv_length (src_cells S (fst p)) = mb_row_count src"
  using batch_holdsD [OF assms(1), of "fst p" "snd p"] assms(2) by (auto simp: src_cells_def col_holds_def)

lemma src_map_of:
  assumes "batch_holds src S"
  shows "map_of (map (\<lambda>p. (fst p, (bc_influx_type (mb_columns src ! snd p), g (src_cells S (fst p))))) (mb_column_names src))
    = (\<lambda>k. map_option (\<lambda>(ty, x). (ty, g x)) (S k))"
proof
  fix k
  let ?L = "mb_column_names src" and ?f = "\<lambda>p. (fst p, (bc_influx_type (mb_columns src ! snd p), g (src_cells S (fst p))))"
  have dist: "distinct (map fst (map ?f ?L))" using batch_holds_names [OF assms] by (simp add: names_ok_def o_def)
  show "map_of (map ?f ?L) k = map_option (\<lambda>(ty, x). (ty, g x)) (S k)"
  proof (cases "k \<in> fst ` set ?L")
    case True
    then obtain p where p: "p \<in> set ?L" "k = fst p" by auto
    then have "map_of (map ?f ?L) k = Some (snd (?f p))" using dist by (intro map_of_is_SomeI) (auto simp: image_iff intro!: bexI [of _ p])
    then show ?thesis using src_column(1) [OF assms p(1)] p(2) by simp
  next
    case False
    then have "S k = None" using assms by (auto simp: batch_holds_def)
    moreover have "map_of (map ?f ?L) k = None" using False by (force simp: map_of_eq_None_iff)
    ultimately show ?thesis by simp
  qed
qed

text \<open>A copy of the columns of a batch, with \<open>g\<close> what it takes of the cells.\<close>

lemma copy_total:
  assumes b: "batch_holds b T" and src: "batch_holds src S"
    and cw: "\<And>p. p \<in> set (mb_column_names src) \<Longrightarrow>
      column_writer (f (mb_columns src ! snd p)) (bc_influx_type (mb_columns src ! snd p)) m (Ok (g (src_cells S (fst p))))"
    and merge: "mergeable (mb_row_count b) T (\<lambda>k. map_option (\<lambda>(ty, x). (ty, g x)) (S k))"
  shows "\<exists>b'. with_writer m (Writer_write_columns f src (mb_column_names src)) b = (Ok (), b')
    \<and> batch_holds b' (batch_union (mb_row_count b) T m (\<lambda>k. map_option (\<lambda>(ty, x). (ty, g x)) (S k)))
    \<and> mb_row_count b' = mb_row_count b + m"
proof -
  let ?L = "mb_column_names src" and ?x = "\<lambda>p. g (src_cells S (fst p))"
  have dist: "distinct (map fst ?L)" using batch_holds_names [OF src] by (simp add: names_ok_def)
  have "jobs_write m (src_jobs f src) (map Ok (map ?x ?L))"
    using cw by (auto simp: jobs_write_def src_jobs_def list_all2_conv_all_nth)
  moreover have "list_all2 (job_fits (mb_row_count b) T) (src_jobs f src) (map ?x ?L)"
    using merge src_column(1) [OF src] by (auto simp: src_jobs_def list_all2_conv_all_nth job_fits_def mergeable_def)
  moreover have "distinct (map fst (src_jobs f src))" using dist by (simp add: src_jobs_def o_def)
  moreover have "cells_of (src_jobs f src) (map ?x ?L) = (\<lambda>k. map_option (\<lambda>(ty, x). (ty, g x)) (S k))"
    using cells_of_map [OF dist, of "\<lambda>p. bc_influx_type (mb_columns src ! snd p)" "\<lambda>p. f (mb_columns src ! snd p)" ?x] src_map_of [OF src, of g]
    by (simp add: src_jobs_def)
  ultimately show ?thesis
    using with_writer_jobs_total [OF b, of m "src_jobs f src" "map ?x ?L"] unfolding write_columns_src [OF src] by simp
qed

lemma copy_err:
  assumes b: "batch_holds b T" "all_undoable T" and src: "batch_holds src S"
    and cw: "\<And>p. p \<in> set (mb_column_names src) \<Longrightarrow>
      column_writer (f (mb_columns src ! snd p)) (bc_influx_type (mb_columns src ! snd p)) m (Ok (g (src_cells S (fst p))))"
    and run: "with_writer m (Writer_write_columns f src (mb_column_names src)) b = (Err e, b')"
  shows "b' = b"
proof -
  have "jobs_write m (src_jobs f src) (map Ok (map (\<lambda>p. g (src_cells S (fst p))) (mb_column_names src)))"
    using cw by (auto simp: jobs_write_def src_jobs_def list_all2_conv_all_nth)
  then show ?thesis using with_writer_jobs_err [OF b] run unfolding write_columns_src [OF src] by blast
qed

lemma with_writer_cong: "f (Writer_new b m) = g (Writer_new b m) \<Longrightarrow> with_writer m f b = with_writer m g b"
  by (simp add: with_writer_def)

lemma extend_from_eq:
  "MutableBatch_extend_from src b = with_writer (mb_row_count src) (Writer_write_columns write_batch_column src (mb_column_names src)) b"
  unfolding MutableBatch_extend_from_def by (rule with_writer_cong) (simp add: Writer_write_batch_def Writer_new_def)

lemma batch_copy_writer:
  assumes "batch_holds src S" and "p \<in> set (mb_column_names src)"
  shows "column_writer (write_batch_column (mb_columns src ! snd p)) (bc_influx_type (mb_columns src ! snd p)) (mb_row_count src) (Ok (src_cells S (fst p)))"
  using batch_column_writer [OF src_column(2,3) [OF assms]] src_column(4) [OF assms] by simp

lemma map_option_triv: "(\<lambda>k. map_option (\<lambda>(ty, x). (ty, x)) (S k)) = S"
  by (simp add: option.map_id flip: id_def)

text \<open>
  C6. \<open>extend_from\<close> appends the rows of the other batch: when the column types agree and the strings fit,
  it succeeds, and the batch holds its old rows followed by those of the other batch, with nulls in the
  columns that one of them does not have, and statistics that describe all rows.
\<close>

theorem extend_from_appends:
  assumes "batch_holds b T" and "batch_holds src S" and "mergeable (mb_row_count b) T S"
  shows "\<exists>b'. MutableBatch_extend_from src b = (Ok (), b')
    \<and> batch_holds b' (batch_union (mb_row_count b) T (mb_row_count src) S) \<and> mb_row_count b' = mb_row_count b + mb_row_count src"
  using copy_total [OF assms(1,2), of write_batch_column "mb_row_count src" "\<lambda>x. x"] batch_copy_writer [OF assms(2)] assms(3)
  unfolding extend_from_eq map_option_triv by blast

lemma sample_mergeable: "mergeable (mb_row_count sample_batch) sample_cells sample_cells"
  by (auto simp: mergeable_def sample_cells_def sample_batch_def fits_def old_cells_def type_of_column_def split: if_splits)

theorem extend_from_appends_witness:
  "\<exists>b'. MutableBatch_extend_from sample_batch sample_batch = (Ok (), b') \<and> mb_row_count b' = 2"
  using extend_from_appends [OF sample_holds sample_holds sample_mergeable] by (auto simp: sample_batch_def)

text \<open>Ranges in ascending order that do not overlap, inside the first \<open>n\<close> rows.\<close>

fun ascending :: "nat \<Rightarrow> nat \<Rightarrow> range list \<Rightarrow> bool" where
  "ascending k n [] = (k \<le> n)"
| "ascending k n ((s, e) # rs) = (k \<le> s \<and> s \<le> e \<and> ascending e n rs)"

abbreviation range_rows :: "range list \<Rightarrow> nat" where
  "range_rows rs \<equiv> sum_list (map (\<lambda>r. snd r - fst r) rs)"

definition pick_cells :: "range list \<Rightarrow> cells \<Rightarrow> cells" where
  "pick_cells rs S = (\<lambda>k. map_option (\<lambda>(ty, x). (ty, cv_pick rs x)) (S k))"

lemma ascending_le: "ascending k n rs \<Longrightarrow> k \<le> n \<and> range_rows rs \<le> n - k"
  by (induction k n rs rule: ascending.induct) auto

lemma ascending_range_ok: "ascending k n rs \<Longrightarrow> r \<in> set rs \<Longrightarrow> range_ok n r"
proof (induction k n rs rule: ascending.induct)
  case (2 k n s e rs)
  then show ?case using ascending_le [of e n rs] by (auto simp: range_ok_def)
qed simp

lemma ascending_all:
  assumes "ascending k (length xs) rs" and "range_rows rs = length xs - k"
  shows "pick rs xs = drop k xs"
  using assms
proof (induction rs arbitrary: k)
  case (Cons r rs)
  obtain s e where r: "r = (s, e)" by (cases r)
  have asc: "k \<le> s" "s \<le> e" "ascending e (length xs) rs" using Cons.prems(1) r by simp_all
  have le: "e \<le> length xs" "range_rows rs \<le> length xs - e" using ascending_le [OF asc(3)] by simp_all
  have "s = k" "range_rows rs = length xs - e" using Cons.prems(2) asc le r by auto
  moreover have "take (e - k) (drop k xs) @ drop e xs = drop k xs"
    using asc by (metis \<open>s = k\<close> append_take_drop_id drop_drop le_add_diff_inverse2)
  ultimately show ?case using Cons.IH [OF asc(3)] by (simp add: r sub_def)
qed simp

lemma cv_pick_all: "ascending 0 (cv_length v) rs \<Longrightarrow> range_rows rs = cv_length v \<Longrightarrow> cv_pick rs v = v"
  by (cases v) (simp_all add: ascending_all)

lemma pick_cells_all:
  assumes "batch_holds src S" and "ascending 0 (mb_row_count src) rs" and "range_rows rs = mb_row_count src"
  shows "pick_cells rs S = S"
proof
  fix k
  show "pick_cells rs S k = S k"
  proof (cases "S k")
    case (Some tv)
    then have "k \<in> fst ` set (mb_column_names src)" using assms(1) by (auto simp: batch_holds_def)
    then obtain p where p: "p \<in> set (mb_column_names src)" "k = fst p" by auto
    then show ?thesis using src_column(1,4) [OF assms(1) p(1)] assms(2,3) by (simp add: pick_cells_def cv_pick_all)
  qed (simp add: pick_cells_def)
qed

lemma ranges_copy_writer:
  assumes "batch_holds src S" and "p \<in> set (mb_column_names src)" and "\<forall>r\<in>set rs. range_ok (mb_row_count src) r"
  shows "column_writer (write_ranges_column rs (mb_columns src ! snd p)) (bc_influx_type (mb_columns src ! snd p)) (range_rows rs)
    (Ok (cv_pick rs (src_cells S (fst p))))"
  using ranges_column_writer [OF src_column(2) [OF assms(1,2)], of rs] src_column(4) [OF assms(1,2)] assms(3)
    cv_length_pick [of rs "src_cells S (fst p)"] by simp

lemma extend_from_ranges_eq:
  assumes "\<forall>r\<in>set rs. range_ok n r"
  shows "MutableBatch_extend_from_ranges src rs b =
    (if range_rows rs = mb_row_count src then MutableBatch_extend_from src b
     else with_writer (range_rows rs) (Writer_write_columns (write_ranges_column rs) src (mb_column_names src)) b)"
proof -
  have "\<not> (\<exists>r\<in>set rs. snd r < fst r)" using assms by (auto simp: range_ok_def)
  then show ?thesis
    by (auto simp: MutableBatch_extend_from_ranges_def MutableBatch_extend_from_def Writer_write_batch_ranges_def Writer_new_def intro!: with_writer_cong)
qed

text \<open>
  C10. \<open>extend_from_ranges\<close> appends the selected rows: for ascending ranges that do not overlap it succeeds
  under the same conditions as \<open>extend_from\<close>, and the batch holds its old rows followed by the rows of
  the other batch in the ranges, also when the ranges cover the whole batch and the code copies it.
\<close>

theorem extend_from_ranges_appends:
  assumes "batch_holds b T" and "batch_holds src S" and "ascending 0 (mb_row_count src) rs"
    and "mergeable (mb_row_count b) T (pick_cells rs S)"
  shows "\<exists>b'. MutableBatch_extend_from_ranges src rs b = (Ok (), b')
    \<and> batch_holds b' (batch_union (mb_row_count b) T (range_rows rs) (pick_cells rs S)) \<and> mb_row_count b' = mb_row_count b + range_rows rs"
proof -
  have rs: "\<forall>r\<in>set rs. range_ok (mb_row_count src) r" using ascending_range_ok [OF assms(3)] by blast
  show ?thesis
  proof (cases "range_rows rs = mb_row_count src")
    case True
    note all = pick_cells_all [OF assms(2,3) True]
    have "mergeable (mb_row_count b) T S" using assms(4) all by simp
    with copy_total [OF assms(1,2), of write_batch_column "mb_row_count src" "\<lambda>x. x"] batch_copy_writer [OF assms(2)]
    show ?thesis unfolding extend_from_ranges_eq [OF rs] extend_from_eq map_option_triv all True if_P [OF refl] by blast
  next
    case False
    from copy_total [OF assms(1,2) ranges_copy_writer [OF assms(2) _ rs]] assms(4)
    show ?thesis unfolding extend_from_ranges_eq [OF rs] if_not_P [OF False] pick_cells_def by blast
  qed
qed

theorem extend_from_ranges_appends_witness:
  "\<exists>b'. MutableBatch_extend_from_ranges sample_batch [(0, 1)] sample_batch = (Ok (), b') \<and> mb_row_count b' = 2"
proof -
  have all: "pick_cells [(0, 1)] sample_cells = sample_cells"
    by (rule pick_cells_all [OF sample_holds]) (simp_all add: sample_batch_def)
  have "ascending 0 (mb_row_count sample_batch) [(0, 1)]" by (simp add: sample_batch_def)
  from extend_from_ranges_appends [OF sample_holds sample_holds this] sample_mergeable all show ?thesis by (auto simp: sample_batch_def)
qed

text \<open>
  C24. A copy between batches that fails leaves the target as it was: when \<open>extend_from_ranges\<close> returns an
  error, for ranges inside the other batch, nothing has changed.
\<close>

theorem extend_error_undone:
  assumes "batch_holds b T" and "all_undoable T" and "batch_holds src S" and "\<forall>r\<in>set rs. range_ok (mb_row_count src) r"
    and "MutableBatch_extend_from_ranges src rs b = (Err e, b')"
  shows "b' = b"
proof (cases "range_rows rs = mb_row_count src")
  case True
  then have "with_writer (mb_row_count src) (Writer_write_columns write_batch_column src (mb_column_names src)) b = (Err e, b')"
    using assms(5) extend_from_ranges_eq [OF assms(4), of src b] extend_from_eq by simp
  then show ?thesis using copy_err [OF assms(1-3) batch_copy_writer [OF assms(3)]] by blast
next
  case False
  then have "with_writer (range_rows rs) (Writer_write_columns (write_ranges_column rs) src (mb_column_names src)) b = (Err e, b')"
    using assms(5) extend_from_ranges_eq [OF assms(4), of src b] by simp
  then show ?thesis using copy_err [OF assms(1-3) ranges_copy_writer [OF assms(3) _ assms(4)]] by blast
qed

text \<open>The same column with another type.\<close>

definition uint_batch :: MutableBatch where
  "uint_batch = \<lparr>mb_column_names = [(''v'', 0)],
     mb_columns = [\<lparr>bc_influx_type = InfluxColumnType_Field InfluxFieldType_UInteger, bc_valid = \<lparr>bs_buffer = [3], bs_len = 2\<rparr>,
       bc_data = ColumnData_U64 [3, 4] (StatValues_update ord_total 4 (StatValues_update ord_total 3 StatValues_new_empty))\<rparr>], mb_row_count = 2\<rparr>"

lemma uint_batch_holds: "batch_holds uint_batch [''v'' \<mapsto> (InfluxColumnType_Field InfluxFieldType_UInteger, CV_U64 [Some 3, Some 4])]"
proof -
  have "summarises ord_total (\<lambda>x. x) (StatValues_update ord_total 4 (StatValues_update ord_total 3 StatValues_new_empty)) [Some (3 :: nat), Some 4]"
    using total.new_rows_summarises [of None 2 "[3 :: nat, 4]"]
    by (simp add: option.map_ident set_position_iterator_def new_cells_def StatValues_update_for_nulls_def numeral_2_eq_2)
  then show ?thesis
    by (auto simp: batch_holds_def uint_batch_def names_ok_def col_holds_def sample_bits lessThan_Suc split: if_splits)
qed

theorem extend_error_undone_witness:
  "\<exists>e b'. MutableBatch_extend_from_ranges uint_batch [(0, 1)] sample_batch = (Err e, b') \<and> b' = sample_batch"
proof -
  have ok: "\<forall>r\<in>set [(0, 1)]. range_ok (mb_row_count uint_batch) r" by (simp add: uint_batch_def range_ok_def)
  have run: "MutableBatch_extend_from_ranges uint_batch [(0, 1)] sample_batch
      = (Err (TypeMismatch ''v'' (InfluxColumnType_Field InfluxFieldType_Integer) (InfluxColumnType_Field InfluxFieldType_UInteger)), sample_batch)"
    by code_simp
  from extend_error_undone [OF sample_holds sample_undoable uint_batch_holds ok run] run show ?thesis by blast
qed

section \<open>Ranges in any order\<close>

text \<open>
  C39. What \<open>extend_from_ranges\<close> appends for any ranges inside the other batch, which may repeat, overlap or come in any
  order.  When the types of common columns agree and the appended strings fit, it succeeds and appends the rows of the
  ranges, in the order of the ranges, unless the ranges have as many rows as the batch: then it appends the
  whole batch in its own order, whichever rows the ranges name.
\<close>

theorem extend_from_ranges_exact:
  assumes "batch_holds b T" and "batch_holds src S" and "\<forall>r\<in>set rs. range_ok (mb_row_count src) r"
    and "mergeable (mb_row_count b) T (if range_rows rs = mb_row_count src then S else pick_cells rs S)"
  shows "\<exists>b'. MutableBatch_extend_from_ranges src rs b = (Ok (), b')
    \<and> batch_holds b' (batch_union (mb_row_count b) T (range_rows rs) (if range_rows rs = mb_row_count src then S else pick_cells rs S))
    \<and> mb_row_count b' = mb_row_count b + range_rows rs"
proof (cases "range_rows rs = mb_row_count src")
  case True
  then have "mergeable (mb_row_count b) T S" using assms(4) by simp
  with copy_total [OF assms(1,2), of write_batch_column "mb_row_count src" "\<lambda>x. x"] batch_copy_writer [OF assms(2)]
  show ?thesis unfolding extend_from_ranges_eq [OF assms(3)] extend_from_eq map_option_triv True if_P [OF refl] by blast
next
  case False
  from copy_total [OF assms(1,2) ranges_copy_writer [OF assms(2) _ assms(3)]] assms(4)
  show ?thesis unfolding extend_from_ranges_eq [OF assms(3)] if_not_P [OF False] pick_cells_def by blast
qed

text \<open>The first of two rows, named twice: both rows are appended.\<close>

theorem extend_from_ranges_exact_witness:
  "\<exists>b'. MutableBatch_extend_from_ranges uint_batch [(0, 1), (0, 1)] uint_batch = (Ok (), b')
    \<and> batch_holds b' [''v'' \<mapsto> (InfluxColumnType_Field InfluxFieldType_UInteger, CV_U64 [Some 3, Some 4, Some 3, Some 4])]"
proof -
  let ?S = "[''v'' \<mapsto> (InfluxColumnType_Field InfluxFieldType_UInteger, CV_U64 [Some 3, Some 4])]"
  have ok: "\<forall>r\<in>set [(0, 1), (0, 1)]. range_ok (mb_row_count uint_batch) r" by (simp add: uint_batch_def range_ok_def)
  have all: "range_rows [(0, 1), (0, 1)] = mb_row_count uint_batch" by (simp add: uint_batch_def)
  have "mergeable (mb_row_count uint_batch) ?S ?S"
    by (auto simp: mergeable_def fits_def old_cells_def type_of_column_def split: if_splits)
  with extend_from_ranges_exact [OF uint_batch_holds uint_batch_holds ok] all obtain b' where
    b': "MutableBatch_extend_from_ranges uint_batch [(0, 1), (0, 1)] uint_batch = (Ok (), b')"
      "batch_holds b' (batch_union (mb_row_count uint_batch) ?S (range_rows [(0, 1), (0, 1)]) ?S)" by auto
  have "batch_union n ?S m ?S = [''v'' \<mapsto> (InfluxColumnType_Field InfluxFieldType_UInteger, CV_U64 [Some 3, Some 4, Some 3, Some 4])]" for n m
    by (auto simp: batch_union_def fun_eq_iff)
  with b' show ?thesis by auto
qed

section \<open>Dictionaries\<close>

lemma lookup_value_of:
  "distinct xs \<Longrightarrow> StringDictionary_lookup_value (sd_of xs) v = Some (if v \<in> set xs then Some (index_of xs v) else None)"
proof -
  assume "distinct xs"
  then have "dedup_find (psa_of xs) v [0..<length xs] = Some (if v \<in> set xs then Some (index_of xs v) else None)"
    using find_upt [of xs v] by (subst dedup_find_of) simp_all
  then show ?thesis by (simp add: StringDictionary_lookup_value_def sd_of_def)
qed

text \<open>
  Dictionary encoding can be undone: interning any strings into an empty dictionary succeeds as long
  as the distinct ones fit, every id looks up the string it was given for, and every string looks up
  its id, however often it occurs.
\<close>

lemma intern_all_roundtrip:
  assumes "dict_fits (dict_of (map Some vs))"
  shows "\<exists>ids d. intern_all vs StringDictionary_new = Some (ids, d) \<and> length ids = length vs
    \<and> (\<forall>(v, i)\<in>set (zip vs ids). StringDictionary_lookup_id d (int i) = Some (Some v) \<and> StringDictionary_lookup_value d v = Some (Some i))"
proof -
  let ?ds = "dict_of (map Some vs)"
  have "intern_all vs (sd_of []) = Some (map (index_of ?ds) vs, sd_of ?ds)"
    using intern_all_of [of "[]" vs] assms by (simp add: dict_of_def Let_def)
  moreover have "StringDictionary_lookup_id (sd_of ?ds) (int i) = Some (Some v) \<and> StringDictionary_lookup_value (sd_of ?ds) v = Some (Some i)"
    if "(v, i) \<in> set (zip vs (map (index_of ?ds) vs))" for v i
  proof -
    have v: "v \<in> set ?ds" "i = index_of ?ds v" using that by (auto simp: zip_map2 zip_same_conv_map)
    then have less: "i < length ?ds" "?ds ! i = v" using index_of_less by blast+
    moreover have "i mod 2 ^ 64 = i" using less(1) assms by (simp add: dict_fits_def i32_max_def)
    ultimately show ?thesis using v by (simp add: lookup_id_of lookup_value_of)
  qed
  ultimately show ?thesis by (intro exI [of _ "map (index_of ?ds) vs"] exI [of _ "sd_of ?ds"]) (auto simp: new_sd)
qed

end
