(* ===== verification/Write_Payload.thy ===== *)
theory Write_Payload
  imports Batch_Spec
begin

text \<open>
  The write payloads of \<open>mutable_batch/src/payload.rs\<close>: splitting the rows of a batch by partition key and
  filtering them by timestamp.  Both work on ranges of rows, which \<open>extend_from_ranges\<close> then copies.
  A value of type \<open>option\<close> is \<open>None\<close> where the code panics.
\<close>

section \<open>Filtering\<close>

text \<open>
  The iterator of \<open>filter_slice\<close>, run to its end.  The predicate is an \<open>FnMut\<close>: it is called once for
  every value, in order, and threads a state.
\<close>

fun filter_slice_from :: "('t \<Rightarrow> 's \<Rightarrow> bool \<times> 's) \<Rightarrow> nat \<Rightarrow> nat \<Rightarrow> 't list \<Rightarrow> 's \<Rightarrow> range list \<times> 's" where
  "filter_slice_from predicate s e [] st = ((if s \<noteq> e then [(s, e)] else []), st)"
| "filter_slice_from predicate s e (v # vs) st =
     (case predicate v st of
        (True, st) \<Rightarrow> filter_slice_from predicate s (e + 1) vs st
      | (False, st) \<Rightarrow>
          if s \<noteq> e
          then (let (rs, st) = filter_slice_from predicate (e + 1) (e + 1) vs st in ((s, e) # rs, st))
          else filter_slice_from predicate (s + 1) (e + 1) vs st)"

definition filter_slice :: "('t \<Rightarrow> 's \<Rightarrow> bool \<times> 's) \<Rightarrow> 't list \<Rightarrow> 's \<Rightarrow> range list \<times> 's" where
  "filter_slice predicate col_data = filter_slice_from predicate 0 0 col_data"

fun filter_ranges :: "('t \<Rightarrow> 's \<Rightarrow> bool \<times> 's) \<Rightarrow> 't list \<Rightarrow> range list \<Rightarrow> 's \<Rightarrow> (range list \<times> 's) option" where
  "filter_ranges predicate col_data [] st = Some ([], st)"
| "filter_ranges predicate col_data ((s, e) # rs) st =
     (case slice s e col_data of
        None \<Rightarrow> None
      | Some xs \<Rightarrow>
          (let (found, st) = filter_slice predicate xs st
           in map_option (\<lambda>(more, st). (map (\<lambda>(a, b). (a + s, b + s)) found @ more, st))
                (filter_ranges predicate col_data rs st)))"

definition filter_time ::
    "MutableBatch \<Rightarrow> range list \<Rightarrow> (int \<Rightarrow> 's \<Rightarrow> bool \<times> 's) \<Rightarrow> 's \<Rightarrow> (range list \<times> 's) option" where
  "filter_time batch ranges predicate st =
     (case map_of (mb_column_names batch) TIME_COLUMN_NAME of
        None \<Rightarrow> None
      | Some col_idx \<Rightarrow>
          if \<not> col_idx < length (mb_columns batch) then None
          else
            (case bc_data (mb_columns batch ! col_idx) of
               ColumnData_I64 col_data _ \<Rightarrow> filter_ranges predicate col_data ranges st
             | _ \<Rightarrow> None))"

section \<open>Partition keys\<close>

datatype TemplatePart =
    TemplatePart_Table
  | TemplatePart_Column string
  | TemplatePart_TimeFormat string
  | TemplatePart_RegexCapture string string
  | TemplatePart_StrftimeColumn string string

record PartitionTemplate =
  template_parts :: "TemplatePart list"

datatype Template =
    Template_Table string
  | Template_Column Batch_Column string
  | Template_MissingColumn string
  | Template_TimeFormat "int list" string

text \<open>\<open>Display\<close> of the integer types.\<close>

fun show_nat :: "nat \<Rightarrow> string" where
  "show_nat n = (if n < 10 then [char_of (48 + n)] else show_nat (n div 10) @ [char_of (48 + n mod 10)])"

declare show_nat.simps [simp del]

definition show_int :: "int \<Rightarrow> string" where
  "show_int i = (if i < 0 then CHR ''-'' # show_nat (nat (- i)) else show_nat (nat i))"

text \<open>
  \<open>Display\<close> of a float and the formatting of a timestamp by \<open>chrono\<close> are parameters.  Formatting fails on
  a format that \<open>chrono\<close> does not accept, which the code takes to be impossible: it panics.
\<close>

definition fmt_value :: "(f64 \<Rightarrow> string) \<Rightarrow> ColumnData \<Rightarrow> nat \<Rightarrow> string option" where
  "fmt_value show_f64 data idx =
     (case data of
        ColumnData_F64 col_data _ \<Rightarrow> map_option show_f64 (vec_get col_data idx)
      | ColumnData_I64 col_data _ \<Rightarrow> map_option show_int (vec_get col_data idx)
      | ColumnData_U64 col_data _ \<Rightarrow> map_option show_nat (vec_get col_data idx)
      | ColumnData_String col_data _ \<Rightarrow> Option.bind (PackedStringArray_get col_data idx) (\<lambda>v. v)
      | ColumnData_Bool col_data _ \<Rightarrow> map_option (\<lambda>b. if b then ''true'' else ''false'') (BitSet_get col_data idx)
      | ColumnData_Tag col_data dictionary _ \<Rightarrow>
          Option.bind (vec_get col_data idx) (\<lambda>did. Option.bind (StringDictionary_lookup_id dictionary did) (\<lambda>v. v)))"

definition fmt_row :: "(f64 \<Rightarrow> string) \<Rightarrow> (string \<Rightarrow> int \<Rightarrow> string option) \<Rightarrow> Template \<Rightarrow> nat \<Rightarrow> string option" where
  "fmt_row show_f64 strftime template idx =
     (case template of
        Template_Table table_name \<Rightarrow> Some table_name
      | Template_Column col name \<Rightarrow>
          Option.bind (BitSet_get (bc_valid col) idx) (\<lambda>valid.
            if valid then map_option (\<lambda>v. name @ ''_'' @ v) (fmt_value show_f64 (bc_data col) idx)
            else Some name)
      | Template_MissingColumn name \<Rightarrow> Some name
      | Template_TimeFormat t format \<Rightarrow> Option.bind (vec_get t idx) (strftime format))"

definition get_time_column :: "MutableBatch \<Rightarrow> int list option" where
  "get_time_column batch =
     (case MutableBatch_column batch TIME_COLUMN_NAME of
        Ok time_column \<Rightarrow>
          (case bc_data time_column of ColumnData_I64 col_data _ \<Rightarrow> Some col_data | _ \<Rightarrow> None)
      | _ \<Rightarrow> None)"

definition resolve_part :: "MutableBatch \<Rightarrow> string \<Rightarrow> int list \<Rightarrow> TemplatePart \<Rightarrow> Template option" where
  "resolve_part batch table_name time part =
     (case part of
        TemplatePart_Table \<Rightarrow> Some (Template_Table table_name)
      | TemplatePart_Column name \<Rightarrow>
          (case MutableBatch_column batch name of
             Ok col \<Rightarrow> Some (Template_Column col name)
           | Err _ \<Rightarrow> Some (Template_MissingColumn name)
           | Panic \<Rightarrow> None)
      | TemplatePart_TimeFormat fmt \<Rightarrow> Some (Template_TimeFormat time fmt)
      | TemplatePart_RegexCapture _ _ \<Rightarrow> None
      | TemplatePart_StrftimeColumn _ _ \<Rightarrow> None)"

text \<open>The parts of a row, joined by hyphens.\<close>

fun join_parts :: "string list \<Rightarrow> string" where
  "join_parts [] = []"
| "join_parts [p] = p"
| "join_parts (p # ps) = p @ ''-'' @ join_parts ps"

definition row_key :: "(f64 \<Rightarrow> string) \<Rightarrow> (string \<Rightarrow> int \<Rightarrow> string option) \<Rightarrow> Template list \<Rightarrow> nat \<Rightarrow> string option" where
  "row_key show_f64 strftime cols idx = map_option join_parts (those (map (\<lambda>col. fmt_row show_f64 strftime col idx) cols))"

definition partition_keys ::
    "(f64 \<Rightarrow> string) \<Rightarrow> (string \<Rightarrow> int \<Rightarrow> string option) \<Rightarrow> MutableBatch \<Rightarrow> string \<Rightarrow> PartitionTemplate \<Rightarrow> string list option" where
  "partition_keys show_f64 strftime batch table_name template =
     Option.bind (get_time_column batch) (\<lambda>time.
     Option.bind (those (map (resolve_part batch table_name time) (template_parts template))) (\<lambda>cols.
       those (map (row_key show_f64 strftime cols) [0..<mb_row_count batch])))"

text \<open>The iterator of \<open>range_encode\<close>, run to its end.\<close>

fun range_encode_from :: "'k option \<Rightarrow> nat \<Rightarrow> nat \<Rightarrow> 'k list \<Rightarrow> ('k \<times> range) list" where
  "range_encode_from (Some prev) s e [] = [(prev, (s, e))]"
| "range_encode_from None s e [] = []"
| "range_encode_from (Some prev) s e (cur # ks) =
     (if cur = prev then range_encode_from (Some prev) s (e + 1) ks
      else (prev, (s, e)) # range_encode_from (Some cur) e (e + 1) ks)"
| "range_encode_from None s e (cur # ks) = range_encode_from (Some cur) s (e + 1) ks"

definition range_encode :: "'k list \<Rightarrow> ('k \<times> range) list" where
  "range_encode ks = range_encode_from None 0 0 ks"

definition partition_batch ::
    "(f64 \<Rightarrow> string) \<Rightarrow> (string \<Rightarrow> int \<Rightarrow> string option) \<Rightarrow> MutableBatch \<Rightarrow> string \<Rightarrow> PartitionTemplate \<Rightarrow> (string \<times> range) list option" where
  "partition_batch show_f64 strftime batch table_name template =
     map_option range_encode (partition_keys show_f64 strftime batch table_name template)"

section \<open>Partition writes\<close>

record PartitionWrite =
  pw_batch :: MutableBatch
  pw_ranges :: "range list"
  pw_min_timestamp :: int
  pw_max_timestamp :: int
  pw_row_count :: nat

definition min_max_time :: "int list \<Rightarrow> int \<times> int" where
  "min_max_time col = foldl (\<lambda>(min_timestamp, max_timestamp) t. (min min_timestamp t, max max_timestamp t)) (i64_max, i64_min) col"

definition NonZeroUsize_new :: "nat \<Rightarrow> nat option" where
  "NonZeroUsize_new n = (if n = 0 then None else Some n)"

definition PartitionWrite_new :: "MutableBatch \<Rightarrow> PartitionWrite option" where
  "PartitionWrite_new batch =
     Option.bind (NonZeroUsize_new (mb_row_count batch)) (\<lambda>row_count.
     Option.bind (get_time_column batch) (\<lambda>time.
       let (min_timestamp, max_timestamp) = min_max_time time
       in Some \<lparr>pw_batch = batch, pw_ranges = [(0, mb_row_count batch)], pw_min_timestamp = min_timestamp,
                pw_max_timestamp = max_timestamp, pw_row_count = row_count\<rparr>))"

definition inspect :: "(int \<Rightarrow> bool) \<Rightarrow> int \<Rightarrow> int \<times> int \<times> nat \<Rightarrow> bool \<times> (int \<times> int \<times> nat)" where
  "inspect predicate t = (\<lambda>(min_timestamp, max_timestamp, row_count).
     if predicate t then (True, (min min_timestamp t, max max_timestamp t, row_count + 1))
     else (False, (min_timestamp, max_timestamp, row_count)))"

definition PartitionWrite_filter :: "(int \<Rightarrow> bool) \<Rightarrow> PartitionWrite \<Rightarrow> PartitionWrite option option" where
  "PartitionWrite_filter predicate pw =
     map_option (\<lambda>(ranges, min_timestamp, max_timestamp, row_count).
         map_option (\<lambda>row_count.
             \<lparr>pw_batch = pw_batch pw, pw_ranges = ranges, pw_min_timestamp = min_timestamp,
              pw_max_timestamp = max_timestamp, pw_row_count = row_count\<rparr>)
           (NonZeroUsize_new row_count))
       (filter_time (pw_batch pw) (pw_ranges pw) (inspect predicate) (i64_max, i64_min, 0))"

definition add_range ::
    "MutableBatch \<Rightarrow> int list \<Rightarrow> string \<times> range \<Rightarrow> (PartitionKey \<rightharpoonup> PartitionWrite) \<Rightarrow> (PartitionKey \<rightharpoonup> PartitionWrite) option" where
  "add_range batch time = (\<lambda>(partition, s, e) partition_ranges.
     Option.bind (NonZeroUsize_new (e - s)) (\<lambda>row_count.
     Option.bind (slice s e time) (\<lambda>times.
       let (min_timestamp, max_timestamp) = min_max_time times
       in case PartitionKey_from partition :: (string, PartitionKey) res of
            Ok key \<Rightarrow>
              Some (partition_ranges(key \<mapsto>
                (case partition_ranges key of
                   None \<Rightarrow>
                     \<lparr>pw_batch = batch, pw_ranges = [(s, e)], pw_min_timestamp = min_timestamp,
                      pw_max_timestamp = max_timestamp, pw_row_count = row_count\<rparr>
                 | Some pw \<Rightarrow>
                     pw\<lparr>pw_min_timestamp := min (pw_min_timestamp pw) min_timestamp,
                        pw_max_timestamp := max (pw_max_timestamp pw) max_timestamp,
                        pw_row_count := pw_row_count pw + row_count,
                        pw_ranges := pw_ranges pw @ [(s, e)]\<rparr>)))
          | _ \<Rightarrow> None)))"

fun add_ranges ::
    "MutableBatch \<Rightarrow> int list \<Rightarrow> (string \<times> range) list \<Rightarrow> (PartitionKey \<rightharpoonup> PartitionWrite) \<Rightarrow> (PartitionKey \<rightharpoonup> PartitionWrite) option" where
  "add_ranges batch time [] m = Some m"
| "add_ranges batch time (p # ps) m = Option.bind (add_range batch time p m) (add_ranges batch time ps)"

definition PartitionWrite_partition ::
    "(f64 \<Rightarrow> string) \<Rightarrow> (string \<Rightarrow> int \<Rightarrow> string option) \<Rightarrow> string \<Rightarrow> MutableBatch \<Rightarrow> PartitionTemplate \<Rightarrow> (PartitionKey \<rightharpoonup> PartitionWrite) option" where
  "PartitionWrite_partition show_f64 strftime table_name batch partition_template =
     Option.bind (get_time_column batch) (\<lambda>time.
     Option.bind (partition_batch show_f64 strftime batch table_name partition_template) (\<lambda>ps.
       add_ranges batch time ps Map.empty))"

definition PartitionWrite_write_to_batch :: "PartitionWrite \<Rightarrow> (Writer_Error, MutableBatch, unit) call" where
  "PartitionWrite_write_to_batch pw = MutableBatch_extend_from_ranges (pw_batch pw) (pw_ranges pw)"

section \<open>Ranges as lists of rows\<close>

definition range_list :: "range list \<Rightarrow> nat list" where
  "range_list rs = concat (map (\<lambda>(a, b). [a..<b]) rs)"

lemma range_list_simps [simp]: "range_list [] = []" "range_list ((a, b) # rs) = [a..<b] @ range_list rs"
  "range_list (rs @ qs) = range_list rs @ range_list qs"
  by (simp_all add: range_list_def)

lemma length_range_list: "length (range_list rs) = range_rows rs"
  by (induction rs) auto

lemma ascending_range_list: "ascending k n rs \<Longrightarrow> i \<in> set (range_list rs) \<Longrightarrow> k \<le> i \<and> i < n"
proof (induction k n rs rule: ascending.induct)
  case (2 k n s e rs)
  then show ?case using ascending_le [of e n rs] by auto
qed simp

text \<open>Non-empty ranges with a gap between them.\<close>

fun separated :: "nat \<Rightarrow> range list \<Rightarrow> bool" where
  "separated k [] = True"
| "separated k ((s, e) # rs) = (k \<le> s \<and> s < e \<and> separated (e + 1) rs)"

lemma separated_le: "separated k rs \<Longrightarrow> j \<le> k \<Longrightarrow> separated j rs"
  by (cases rs) auto

lemma ascending_mono: "ascending k n rs \<Longrightarrow> j \<le> k \<Longrightarrow> ascending j n rs"
  by (cases rs) auto

lemma ascending_append: "ascending k m rs \<Longrightarrow> ascending m n qs \<Longrightarrow> ascending k n (rs @ qs)"
proof (induction rs arbitrary: k)
  case (Cons r rs)
  then show ?case by (cases r) auto
qed (auto intro: ascending_mono)

lemma ascending_shift: "ascending k n rs \<Longrightarrow> ascending (k + d) (n + d) (map (\<lambda>(a, b). (a + d, b + d)) rs)"
  by (induction k n rs rule: ascending.induct) auto

lemma upt_shift: "map (\<lambda>i. i + d) [a..<b] = [a + d..<b + d]"
  by (rule nth_equalityI) auto

lemma range_list_shift: "range_list (map (\<lambda>(a, b). (a + d, b + d)) rs) = map (\<lambda>i. i + d) (range_list rs)"
  by (induction rs) (auto simp: upt_shift)

section \<open>Filtering is correct\<close>

definition observes :: "('t \<Rightarrow> 's \<Rightarrow> bool \<times> 's) \<Rightarrow> ('t \<Rightarrow> bool) \<Rightarrow> ('t \<Rightarrow> 's \<Rightarrow> 's) \<Rightarrow> bool" where
  "observes predicate P g \<longleftrightarrow> (\<forall>v st. predicate v st = (P v, g v st))"

lemma filter_slice_from_rows:
  assumes obs: "observes predicate P g" and "s \<le> e"
  shows "range_list (fst (filter_slice_from predicate s e vs st)) = [s..<e] @ map fst (filter (\<lambda>p. P (snd p)) (enumerate e vs))
    \<and> snd (filter_slice_from predicate s e vs st) = fold g vs st
    \<and> separated s (fst (filter_slice_from predicate s e vs st))
    \<and> ascending s (e + length vs) (fst (filter_slice_from predicate s e vs st))"
  using assms(2)
proof (induction vs arbitrary: s e st)
  case (Cons v vs)
  have v: "predicate v st = (P v, g v st)" using obs by (simp add: observes_def)
  show ?case
  proof (cases "P v")
    case True
    then show ?thesis using Cons.IH [of s "e + 1" "g v st"] Cons.prems v by auto
  next
    case False
    from Cons.IH [of "e + 1" "e + 1" "g v st"] False v Cons.prems
    show ?thesis by (cases "s = e") (auto simp: split_beta Let_def intro: separated_le ascending_mono)
  qed
qed auto

lemma enumerate_slice:
  assumes "e \<le> length data" and "s \<le> e"
  shows "map (\<lambda>i. i + s) (map fst (filter (\<lambda>p. P (snd p)) (enumerate 0 (take (e - s) (drop s data))))) = filter (\<lambda>i. P (data ! i)) [s..<e]"
proof -
  have "filter (\<lambda>i. P (data ! i)) [s..<e] = filter (\<lambda>i. P (data ! i)) (map (\<lambda>i. i + s) [0..<e - s])"
    using assms(2) by (simp add: map_add_upt)
  also have "\<dots> = map (\<lambda>i. i + s) (filter (\<lambda>i. P (data ! (i + s))) [0..<e - s])" by (simp add: filter_map o_def)
  also have "filter (\<lambda>i. P (data ! (i + s))) [0..<e - s] = map fst (filter (\<lambda>p. P (snd p)) (enumerate 0 (take (e - s) (drop s data))))"
  proof -
    have "enumerate 0 (take (e - s) (drop s data)) = map (\<lambda>i. (i, data ! (i + s))) [0..<e - s]"
      using assms by (auto simp: enumerate_eq_zip list_eq_iff_nth_eq add.commute)
    then show ?thesis by (simp add: filter_map o_def)
  qed
  finally show ?thesis by simp
qed

lemma slice_some: "s \<le> e \<Longrightarrow> e \<le> length xs \<Longrightarrow> slice s e xs = Some (take (e - s) (drop s xs))"
  by (simp add: slice_def)

lemma take_drop_nth: "s \<le> e \<Longrightarrow> e \<le> length xs \<Longrightarrow> take (e - s) (drop s xs) = map ((!) xs) [s..<e]"
  by (auto simp: list_eq_iff_nth_eq)

lemma filter_ranges_rows:
  assumes obs: "observes predicate P g" and "ascending k (length data) rs"
  shows "\<exists>qs. filter_ranges predicate data rs st = Some (qs, fold g (map ((!) data) (range_list rs)) st)
    \<and> range_list qs = filter (\<lambda>i. P (data ! i)) (range_list rs) \<and> ascending k (length data) qs"
  using assms(2)
proof (induction rs arbitrary: k st)
  case (Cons r rs)
  obtain s e where r: "r = (s, e)" by (cases r)
  have asc: "k \<le> s" "s \<le> e" "ascending e (length data) rs" using Cons.prems r by simp_all
  have e: "e \<le> length data" using ascending_le [OF asc(3)] by simp
  let ?xs = "take (e - s) (drop s data)"
  obtain found st1 where f: "filter_slice predicate ?xs st = (found, st1)" by (cases "filter_slice predicate ?xs st")
  have found: "range_list found = map fst (filter (\<lambda>p. P (snd p)) (enumerate 0 ?xs))" "st1 = fold g ?xs st" "ascending 0 (e - s) found"
    using filter_slice_from_rows [OF obs, of 0 0 ?xs st] f e asc(2) by (simp_all add: filter_slice_def min_absorb2)
  obtain qs where qs: "filter_ranges predicate data rs st1 = Some (qs, fold g (map ((!) data) (range_list rs)) st1)"
    "range_list qs = filter (\<lambda>i. P (data ! i)) (range_list rs)" "ascending e (length data) qs"
    using Cons.IH [OF asc(3)] by blast
  have "ascending s e (map (\<lambda>(a, b). (a + s, b + s)) found)" using ascending_shift [OF found(3), of s] asc(2) by simp
  then have "ascending k (length data) (map (\<lambda>(a, b). (a + s, b + s)) found @ qs)"
    using qs(3) asc(1) by (auto intro: ascending_append ascending_mono)
  moreover have "range_list (map (\<lambda>(a, b). (a + s, b + s)) found @ qs) = filter (\<lambda>i. P (data ! i)) (range_list (r # rs))"
    using enumerate_slice [OF e asc(2), of P] found(1) qs(2) by (simp add: r range_list_shift)
  ultimately show ?case
    using f qs(1) found(2) take_drop_nth [OF asc(2) e] by (simp add: r slice_some [OF asc(2) e])
qed simp

section \<open>Timestamps\<close>

lemma min_max_time_snoc: "min_max_time (xs @ [t]) = (min (fst (min_max_time xs)) t, max (snd (min_max_time xs)) t)"
  by (simp add: min_max_time_def split_beta)

lemma min_max_time_bounds: "fst (min_max_time xs) \<le> i64_max \<and> i64_min \<le> snd (min_max_time xs)"
  by (induction xs rule: rev_induct) (auto simp: min_max_time_snoc min_le_iff_disj le_max_iff_disj, simp_all add: min_max_time_def)

lemma min_max_time_append:
  "min_max_time (xs @ ys) = (min (fst (min_max_time xs)) (fst (min_max_time ys)), max (snd (min_max_time xs)) (snd (min_max_time ys)))"
proof (induction ys rule: rev_induct)
  case Nil
  then show ?case using min_max_time_bounds [of xs] by (simp add: min_max_time_def min_def max_def prod_eq_iff)
next
  case (snoc y ys)
  then show ?case by (simp add: min_max_time_snoc min.assoc max.assoc flip: append_assoc)
qed

lemma min_max_time_Min_Max:
  "xs \<noteq> [] \<Longrightarrow> \<forall>t\<in>set xs. is_i64 t \<Longrightarrow> min_max_time xs = (Min (set xs), Max (set xs))"
proof (induction xs rule: rev_induct)
  case (snoc t xs)
  then show ?case
    by (cases "xs = []") (auto simp: min_max_time_snoc min_max_time_def is_i64_def min.commute max.commute)
qed simp

lemma inspect_observes:
  "observes (inspect P) P (\<lambda>t (a, b, n). if P t then (min a t, max b t, n + 1) else (a, b, n))"
  by (auto simp: observes_def inspect_def)

lemma inspect_fold:
  "fold (\<lambda>t (a, b, n). if P t then (min a t, max b t, n + 1) else (a, b, n)) ts (i64_max, i64_min, 0 :: nat)
    = (fst (min_max_time (filter P ts)), snd (min_max_time (filter P ts)), length (filter P ts))"
proof (induction ts rule: rev_induct)
  case (snoc t ts)
  then show ?case by (simp add: min_max_time_snoc)
qed (simp add: min_max_time_def)

section \<open>What a partition write means\<close>

abbreviation pw_rows :: "PartitionWrite \<Rightarrow> nat list" where
  "pw_rows pw \<equiv> range_list (pw_ranges pw)"

text \<open>
  The ranges select rows of the batch in ascending order and at least one of them; the number of rows
  and the extremes of the timestamps are right.
\<close>

definition pw_valid :: "PartitionWrite \<Rightarrow> int list \<Rightarrow> bool" where
  "pw_valid pw time \<longleftrightarrow> get_time_column (pw_batch pw) = Some time \<and> ascending 0 (length time) (pw_ranges pw)
     \<and> pw_rows pw \<noteq> [] \<and> pw_row_count pw = length (pw_rows pw)
     \<and> pw_min_timestamp pw = Min ((!) time ` set (pw_rows pw)) \<and> pw_max_timestamp pw = Max ((!) time ` set (pw_rows pw))"

lemma pw_validI:
  assumes "get_time_column (pw_batch pw) = Some time" and asc: "ascending 0 (length time) (pw_ranges pw)" and "pw_rows pw \<noteq> []"
    and "\<forall>t\<in>set time. is_i64 t"
    and "pw_row_count pw = length (pw_rows pw)" and "(pw_min_timestamp pw, pw_max_timestamp pw) = min_max_time (map ((!) time) (pw_rows pw))"
  shows "pw_valid pw time"
proof -
  have "\<forall>t\<in>set (map ((!) time) (pw_rows pw)). is_i64 t"
    using assms(4) ascending_range_list [OF asc] by auto
  then have "min_max_time (map ((!) time) (pw_rows pw)) = (Min ((!) time ` set (pw_rows pw)), Max ((!) time ` set (pw_rows pw)))"
    using min_max_time_Min_Max [of "map ((!) time) (pw_rows pw)"] assms(3) by simp
  then show ?thesis using assms by (simp add: pw_valid_def)
qed

lemma get_time_column_filter:
  assumes "get_time_column batch = Some time"
  shows "filter_time batch ranges predicate st = filter_ranges predicate time ranges st"
  using assms by (auto simp: get_time_column_def MutableBatch_column_def filter_time_def split: option.splits if_splits ColumnData.splits)

lemma PartitionWrite_new_valid:
  assumes "get_time_column batch = Some time" and "length time = mb_row_count batch" and "\<forall>t\<in>set time. is_i64 t" and "0 < mb_row_count batch"
  shows "\<exists>pw. PartitionWrite_new batch = Some pw \<and> pw_valid pw time \<and> pw_rows pw = [0..<mb_row_count batch]"
proof -
  have time: "map ((!) time) [0..<mb_row_count batch] = time" using assms(2) by (metis map_nth)
  let ?pw = "\<lparr>pw_batch = batch, pw_ranges = [(0, mb_row_count batch)], pw_min_timestamp = fst (min_max_time time),
     pw_max_timestamp = snd (min_max_time time), pw_row_count = mb_row_count batch\<rparr>"
  have "PartitionWrite_new batch = Some ?pw"
    using assms by (simp add: PartitionWrite_new_def NonZeroUsize_new_def split_beta)
  moreover have "pw_valid ?pw time" by (rule pw_validI) (use assms time in simp_all)
  ultimately show ?thesis by auto
qed

text \<open>
  C27. Filtering a write by time keeps exactly the rows that pass: for a write whose timestamps are 64-bit
  integers, \<open>filter\<close> does not panic; it returns nothing when no row passes, and otherwise the same batch
  with the rows that do, in order, with their number and their smallest and largest timestamp.
\<close>

theorem PartitionWrite_filter_correct:
  assumes "pw_valid pw time" and "\<forall>t\<in>set time. is_i64 t"
  shows "\<exists>r. PartitionWrite_filter P pw = Some r \<and>
    (case r of
       None \<Rightarrow> \<not> (\<exists>i\<in>set (pw_rows pw). P (time ! i))
     | Some pw' \<Rightarrow> pw_valid pw' time \<and> pw_batch pw' = pw_batch pw \<and> pw_rows pw' = filter (\<lambda>i. P (time ! i)) (pw_rows pw))"
proof -
  have time: "get_time_column (pw_batch pw) = Some time" and asc: "ascending 0 (length time) (pw_ranges pw)"
    using assms(1) by (simp_all add: pw_valid_def)
  let ?rows = "filter (\<lambda>i. P (time ! i)) (pw_rows pw)"
  have ts: "filter P (map ((!) time) (pw_rows pw)) = map ((!) time) ?rows" by (simp add: filter_map o_def)
  obtain qs where qs: "filter_ranges (inspect P) time (pw_ranges pw) (i64_max, i64_min, 0) =
      Some (qs, fst (min_max_time (map ((!) time) ?rows)), snd (min_max_time (map ((!) time) ?rows)), length ?rows)"
    "range_list qs = ?rows" "ascending 0 (length time) qs"
    using filter_ranges_rows [OF inspect_observes [of P] asc, of "(i64_max, i64_min, 0)"] unfolding inspect_fold ts by auto
  note found = trans [OF get_time_column_filter [OF time] qs(1)]
  show ?thesis
  proof (cases "?rows = []")
    case True
    then have "PartitionWrite_filter P pw = Some None" by (simp only: PartitionWrite_filter_def found) (simp add: NonZeroUsize_new_def)
    moreover have "\<not> (\<exists>i\<in>set (pw_rows pw). P (time ! i))" using True by (simp add: filter_empty_conv)
    ultimately show ?thesis by simp
  next
    case False
    let ?pw = "\<lparr>pw_batch = pw_batch pw, pw_ranges = qs, pw_min_timestamp = fst (min_max_time (map ((!) time) ?rows)),
      pw_max_timestamp = snd (min_max_time (map ((!) time) ?rows)), pw_row_count = length ?rows\<rparr>"
    have "PartitionWrite_filter P pw = Some (Some ?pw)"
      using False by (simp only: PartitionWrite_filter_def found) (simp add: NonZeroUsize_new_def)
    moreover have "pw_valid ?pw time" by (rule pw_validI) (use assms(2) time qs False in simp_all)
    ultimately show ?thesis using qs(2) by simp
  qed
qed

definition small_write :: PartitionWrite where
  "small_write = \<lparr>pw_batch = \<lparr>mb_column_names = [(''time'', 0)],
       mb_columns = [\<lparr>bc_influx_type = InfluxColumnType_Timestamp, bc_valid = \<lparr>bs_buffer = [3], bs_len = 2\<rparr>, bc_data = ColumnData_I64 [5, 6] StatValues_new_empty\<rparr>],
       mb_row_count = 2\<rparr>, pw_ranges = [(0, 2)], pw_min_timestamp = 5, pw_max_timestamp = 6, pw_row_count = 2\<rparr>"

theorem PartitionWrite_filter_correct_witness:
  "\<exists>pw. PartitionWrite_filter (\<lambda>t. 6 \<le> t) small_write = Some (Some pw) \<and> pw_rows pw = [1]"
proof -
  have rows: "pw_rows small_write = [0, 1]" by (simp add: small_write_def upt_rec)
  have valid: "pw_valid small_write [5, 6]"
    by (simp add: pw_valid_def small_write_def get_time_column_def MutableBatch_column_def TIME_COLUMN_NAME_def upt_rec numeral_2_eq_2)
  have i64: "\<forall>t\<in>set [5, 6]. is_i64 t" by (simp add: is_i64_def i64_min_def i64_max_def)
  from PartitionWrite_filter_correct [OF valid i64, of "\<lambda>t. 6 \<le> t"] show ?thesis by (auto simp: rows split: option.splits)
qed

section \<open>Run lengths of partition keys\<close>

definition tagged :: "('k \<times> range) list \<Rightarrow> (nat \<times> 'k) list" where
  "tagged ps = concat (map (\<lambda>(k, s, e). map (\<lambda>i. (i, k)) [s..<e]) ps)"

lemma tagged_simps [simp]: "tagged [] = []" "tagged ((k, s, e) # ps) = map (\<lambda>i. (i, k)) [s..<e] @ tagged ps"
  by (simp_all add: tagged_def)

fun chained :: "'k option \<Rightarrow> nat \<Rightarrow> nat \<Rightarrow> ('k \<times> range) list \<Rightarrow> bool" where
  "chained prev s n [] = (s = n)"
| "chained prev s n ((k, a, b) # ps) = (a = s \<and> s < b \<and> prev \<noteq> Some k \<and> chained (Some k) b n ps)"

lemma range_encode_from_correct:
  "(case prev of None \<Rightarrow> s = e | Some k \<Rightarrow> s < e) \<Longrightarrow>
    tagged (range_encode_from prev s e ks) = (case prev of None \<Rightarrow> [] | Some k \<Rightarrow> map (\<lambda>i. (i, k)) [s..<e]) @ enumerate e ks
    \<and> (\<forall>q. (\<forall>k. prev = Some k \<longrightarrow> q \<noteq> Some k) \<longrightarrow> (prev = None \<longrightarrow> q = None) \<longrightarrow> chained q s (e + length ks) (range_encode_from prev s e ks))"
  by (induction prev s e ks rule: range_encode_from.induct) auto

lemma range_encode_spec:
  "chained None 0 (length ks) (range_encode ks)" "tagged (range_encode ks) = enumerate 0 ks"
  using range_encode_from_correct [where prev = None and s = 0 and e = 0 and ks = ks] by (simp_all add: range_encode_def)

text \<open>
  \<open>range_encode\<close> is run-length encoding: its ranges are not empty, follow one another from the first
  row to the last, adjacent ones have different keys, and every row gets back its key.
\<close>

lemma range_encode_correct:
  "chained None 0 (length ks) (range_encode ks) \<and> tagged (range_encode ks) = enumerate 0 ks"
  by (simp add: range_encode_spec)

section \<open>Partitioning\<close>

definition ranges_for :: "'k \<Rightarrow> ('k \<times> range) list \<Rightarrow> range list" where
  "ranges_for key ps = map snd (filter (\<lambda>p. fst p = key) ps)"

lemma ranges_for_append [simp]: "ranges_for key (ps @ qs) = ranges_for key ps @ ranges_for key qs"
  by (simp add: ranges_for_def)

lemma range_list_ranges_for: "range_list (ranges_for key ps) = map fst (filter (\<lambda>p. snd p = key) (tagged ps))"
proof (induction ps)
  case (Cons p ps)
  obtain k s e where p: "p = (k, s, e)" by (cases p)
  have "filter (\<lambda>p. snd p = key) (map (\<lambda>i. (i, k)) [s..<e]) = (if k = key then map (\<lambda>i. (i, k)) [s..<e] else [])"
    by (simp add: filter_map o_def)
  with Cons show ?case by (simp add: p ranges_for_def o_def)
qed (simp add: ranges_for_def)

lemma enumerate_filter: "map fst (filter (\<lambda>p. P (snd p)) (enumerate 0 ks)) = filter (\<lambda>i. P (ks ! i)) [0..<length ks]"
proof -
  have "enumerate 0 ks = map (\<lambda>i. (i, ks ! i)) [0..<length ks]" by (rule nth_equalityI) (simp_all add: nth_enumerate_eq)
  then show ?thesis by (simp add: filter_map o_def)
qed

lemma chained_ascending: "chained prev s n ps \<Longrightarrow> ascending s n (ranges_for key ps)"
proof (induction ps arbitrary: prev s)
  case (Cons p ps)
  obtain k a b where p: "p = (k, a, b)" by (cases p)
  have c: "a = s" "s < b" "chained (Some k) b n ps" using Cons.prems by (simp_all add: p)
  have asc: "ascending b n (ranges_for key ps)" using Cons.IH c(3) by blast
  have "ascending s n (ranges_for key ps)" by (rule ascending_mono [OF asc]) (use c in simp)
  with asc c show ?case by (simp add: ranges_for_def p)
qed (simp add: ranges_for_def)

lemma chained_le: "chained prev s n ps \<Longrightarrow> s \<le> n"
  by (induction prev s n ps rule: chained.induct) auto

lemma chained_ranges: "chained prev s n ps \<Longrightarrow> (k, a, b) \<in> set ps \<Longrightarrow> a < b \<and> b \<le> n"
  by (induction prev s n ps rule: chained.induct) (auto dest: chained_le)

definition pw_for :: "MutableBatch \<Rightarrow> int list \<Rightarrow> range list \<Rightarrow> PartitionWrite" where
  "pw_for batch time rs = (let (lo, hi) = min_max_time (map ((!) time) (range_list rs))
     in \<lparr>pw_batch = batch, pw_ranges = rs, pw_min_timestamp = lo, pw_max_timestamp = hi, pw_row_count = range_rows rs\<rparr>)"

definition part_map :: "MutableBatch \<Rightarrow> int list \<Rightarrow> (string \<times> range) list \<Rightarrow> PartitionKey \<rightharpoonup> PartitionWrite" where
  "part_map batch time ps = (\<lambda>k. let rs = ranges_for (PartitionKey_str k) ps in if rs = [] then None else Some (pw_for batch time rs))"

lemma add_range_part_map:
  assumes "s < e" and "e \<le> length time" and "key \<noteq> []"
  shows "add_range batch time (key, s, e) (part_map batch time ps) = Some (part_map batch time (ps @ [(key, s, e)]))"
proof -
  have slice: "slice s e time = Some (map ((!) time) [s..<e])" using assms(1,2) slice_some [of s e time] take_drop_nth [of s e time] by simp
  have "part_map batch time (ps @ [(key, s, e)]) k = (if k = PartitionKey key then Some (pw_for batch time (ranges_for key ps @ [(s, e)])) else part_map batch time ps k)" for k
    by (cases k) (auto simp: part_map_def ranges_for_def Let_def)
  then show ?thesis using assms(1,3)
    by (auto simp: add_range_def NonZeroUsize_new_def slice PartitionKey_from_def fun_eq_iff part_map_def pw_for_def Let_def split_beta min_max_time_append)
qed

lemma add_ranges_part_map:
  assumes "\<forall>(key, s, e)\<in>set ps. s < e \<and> e \<le> length time \<and> key \<noteq> []"
  shows "add_ranges batch time ps (part_map batch time qs) = Some (part_map batch time (qs @ ps))"
  using assms
proof (induction ps arbitrary: qs)
  case (Cons p ps)
  obtain key s e where p: "p = (key, s, e)" by (cases p)
  have "add_range batch time p (part_map batch time qs) = Some (part_map batch time (qs @ [p]))"
    unfolding p by (rule add_range_part_map) (use Cons.prems p in auto)
  with Cons show ?case by simp
qed simp

lemma part_map_Nil: "part_map batch time [] = Map.empty"
  by (simp add: part_map_def ranges_for_def fun_eq_iff)

lemma tagged_keys: "(k, s, e) \<in> set ps \<Longrightarrow> s < e \<Longrightarrow> k \<in> snd ` set (tagged ps)"
  by (force simp: tagged_def)

lemma enumerate_keys: "snd ` set (enumerate 0 ks) = set ks"
  by (metis list.set_map map_snd_enumerate)

lemma length_those: "those xs = Some ys \<Longrightarrow> length ys = length xs"
  by (induction xs arbitrary: ys) (auto split: option.splits)

lemma partition_spec:
  assumes time: "get_time_column batch = Some time" "length time = mb_row_count batch"
    and keys: "partition_keys show_f64 strftime batch table_name template = Some ks" "[] \<notin> set ks"
  shows "PartitionWrite_partition show_f64 strftime table_name batch template = Some (part_map batch time (range_encode ks))"
proof -
  have len: "length ks = mb_row_count batch"
    using keys(1) by (auto simp: partition_keys_def bind_eq_Some_conv dest: length_those)
  have "s < e \<and> e \<le> length time \<and> key \<noteq> []" if p: "(key, s, e) \<in> set (range_encode ks)" for key s e
  proof -
    have "s < e" "e \<le> length ks" using chained_ranges [OF range_encode_spec(1) p] by simp_all
    moreover from this(1) have "key \<in> set ks" using tagged_keys [OF p] by (simp add: range_encode_spec(2) enumerate_keys)
    ultimately show ?thesis using keys(2) len time(2) by auto
  qed
  then have "add_ranges batch time (range_encode ks) (part_map batch time []) = Some (part_map batch time ([] @ range_encode ks))"
    by (intro add_ranges_part_map) auto
  then show ?thesis using time keys by (simp add: PartitionWrite_partition_def partition_batch_def part_map_Nil)
qed

lemma length_partition_keys: "partition_keys show_f64 strftime batch table_name template = Some ks \<Longrightarrow> length ks = mb_row_count batch"
  by (auto simp: partition_keys_def bind_eq_Some_conv dest: length_those)

lemma ranges_for_rows: "range_list (ranges_for key (range_encode ks)) = filter (\<lambda>i. ks ! i = key) [0..<length ks]"
  using enumerate_filter [of "\<lambda>k. k = key" ks] by (simp add: range_list_ranges_for range_encode_spec(2))

lemma ranges_for_empty: "ranges_for key (range_encode ks) = [] \<longleftrightarrow> key \<notin> set ks"
proof
  assume "ranges_for key (range_encode ks) = []"
  then have "filter (\<lambda>i. ks ! i = key) [0..<length ks] = []" using ranges_for_rows [of key ks] by simp
  then show "key \<notin> set ks" by (auto simp: filter_empty_conv in_set_conv_nth)
next
  assume no: "key \<notin> set ks"
  have False if "(key, s, e) \<in> set (range_encode ks)" for s e
    using tagged_keys [OF that] chained_ranges [OF range_encode_spec(1) that] no by (simp add: range_encode_spec(2) enumerate_keys)
  then show "ranges_for key (range_encode ks) = []" by (auto simp: ranges_for_def filter_empty_conv)
qed

lemma part_map_write:
  assumes "part_map batch time (range_encode ks) (PartitionKey key) = Some pw"
  shows "pw = pw_for batch time (ranges_for key (range_encode ks))" "key \<in> set ks"
    "pw_batch pw = batch" "pw_ranges pw = ranges_for key (range_encode ks)"
    "pw_rows pw = filter (\<lambda>i. ks ! i = key) [0..<length ks]" "ascending 0 (length ks) (pw_ranges pw)"
proof -
  show pw: "pw = pw_for batch time (ranges_for key (range_encode ks))" "key \<in> set ks"
    using assms ranges_for_empty [of key ks] by (auto simp: part_map_def Let_def split: if_splits)
  then show "pw_batch pw = batch" and rs: "pw_ranges pw = ranges_for key (range_encode ks)" by (simp_all add: pw_for_def split_beta)
  show "pw_rows pw = filter (\<lambda>i. ks ! i = key) [0..<length ks]" by (simp add: rs ranges_for_rows)
  show "ascending 0 (length ks) (pw_ranges pw)" unfolding rs using chained_ascending [OF range_encode_spec(1)] .
qed

lemma dom_part_map: "dom (part_map batch time (range_encode ks)) = PartitionKey ` set ks"
proof (rule set_eqI)
  show "k \<in> dom (part_map batch time (range_encode ks)) \<longleftrightarrow> k \<in> PartitionKey ` set ks" for k
    by (cases k) (auto simp: part_map_def Let_def ranges_for_empty domIff)
qed

lemma part_map_valid:
  assumes "get_time_column batch = Some time" and "length time = length ks" and "\<forall>t\<in>set time. is_i64 t"
    and m: "part_map batch time (range_encode ks) (PartitionKey key) = Some pw"
  shows "pw_valid pw time"
proof (rule pw_validI)
  note w = part_map_write [OF m]
  show "pw_rows pw \<noteq> []" using w(2) by (auto simp: w(5) filter_empty_conv in_set_conv_nth)
  show "pw_row_count pw = length (pw_rows pw)" using w(1,4) by (simp add: pw_for_def split_beta length_range_list)
  show "(pw_min_timestamp pw, pw_max_timestamp pw) = min_max_time (map ((!) time) (pw_rows pw))"
    by (simp add: w(1) pw_for_def split_beta)
qed (use part_map_write [OF m] assms in simp_all)

text \<open>
  C11. Partitioning splits the rows by key: when every row has a key that is not empty, the result has one
  write for every key that occurs and no other; the write of a key selects exactly the rows with this
  key, in order, and has their number and their smallest and largest timestamp.
\<close>

theorem PartitionWrite_partition_correct:
  assumes "get_time_column batch = Some time" and "length time = mb_row_count batch" and "\<forall>t\<in>set time. is_i64 t"
    and "partition_keys show_f64 strftime batch table_name template = Some ks" and "[] \<notin> set ks"
  shows "\<exists>m. PartitionWrite_partition show_f64 strftime table_name batch template = Some m
    \<and> dom m = PartitionKey ` set ks
    \<and> (\<forall>key pw. m (PartitionKey key) = Some pw \<longrightarrow>
         pw_valid pw time \<and> pw_batch pw = batch \<and> pw_rows pw = filter (\<lambda>i. ks ! i = key) [0..<mb_row_count batch])"
proof -
  have len: "length ks = mb_row_count batch" using assms(4) by (rule length_partition_keys)
  have "pw_valid pw time \<and> pw_batch pw = batch \<and> pw_rows pw = filter (\<lambda>i. ks ! i = key) [0..<mb_row_count batch]"
    if "part_map batch time (range_encode ks) (PartitionKey key) = Some pw" for key pw
    using part_map_valid [OF assms(1) _ assms(3) that] part_map_write(3,5) [OF that] len assms(2) by simp
  then show ?thesis using partition_spec [OF assms(1,2,4,5)] dom_part_map [of batch time ks] by blast
qed

text \<open>A batch of two rows with timestamps only, and a template that puts them in two partitions.\<close>

definition time_batch :: MutableBatch where
  "time_batch = \<lparr>mb_column_names = [(''time'', 0)],
     mb_columns = [\<lparr>bc_influx_type = InfluxColumnType_Timestamp, bc_valid = \<lparr>bs_buffer = [3], bs_len = 2\<rparr>,
       bc_data = ColumnData_I64 [5, 6] (StatValues_update ord_total 6 (StatValues_update ord_total 5 StatValues_new_empty))\<rparr>], mb_row_count = 2\<rparr>"

definition time_cells :: cells where
  "time_cells = [''time'' \<mapsto> (InfluxColumnType_Timestamp, CV_I64 [Some 5, Some 6])]"

abbreviation time_template :: PartitionTemplate where
  "time_template \<equiv> \<lparr>template_parts = [TemplatePart_Table, TemplatePart_TimeFormat ''%Y'']\<rparr>"

abbreviation parity :: "string \<Rightarrow> int \<Rightarrow> string option" where
  "parity f t \<equiv> Some (if t mod 2 = 0 then ''even'' else ''odd'')"

lemma time_batch_holds: "batch_holds time_batch time_cells"
proof -
  have "summarises ord_total (\<lambda>x. x) (StatValues_update ord_total 6 (StatValues_update ord_total 5 StatValues_new_empty)) [Some (5 :: int), Some 6]"
    using total.new_rows_summarises [of None 2 "[5 :: int, 6]"]
    by (simp add: option.map_ident set_position_iterator_def new_cells_def StatValues_update_for_nulls_def numeral_2_eq_2)
  then show ?thesis
    by (auto simp: batch_holds_def time_batch_def time_cells_def names_ok_def col_holds_def sample_bits lessThan_Suc split: if_splits)
qed

lemma time_batch_time: "get_time_column time_batch = Some [5, 6]" "mb_row_count time_batch = 2"
  by (simp_all add: get_time_column_def MutableBatch_column_def time_batch_def TIME_COLUMN_NAME_def)

lemma time_batch_keys: "partition_keys (\<lambda>_. []) parity time_batch ''m'' time_template = Some [''m-odd'', ''m-even'']"
  by code_simp

theorem PartitionWrite_partition_correct_witness:
  "\<exists>m. PartitionWrite_partition (\<lambda>_. []) parity ''m'' time_batch time_template = Some m \<and> dom m = {PartitionKey ''m-odd'', PartitionKey ''m-even''}"
  using PartitionWrite_partition_correct [OF time_batch_time(1) _ _ time_batch_keys] by (auto simp: time_batch_time is_i64_def i64_min_def i64_max_def)

section \<open>Writing a payload\<close>

fun cv_rows :: "nat list \<Rightarrow> ColumnValues \<Rightarrow> ColumnValues" where
  "cv_rows is (CV_I64 xs) = CV_I64 (map ((!) xs) is)"
| "cv_rows is (CV_U64 xs) = CV_U64 (map ((!) xs) is)"
| "cv_rows is (CV_F64 xs) = CV_F64 (map ((!) xs) is)"
| "cv_rows is (CV_Bool xs) = CV_Bool (map ((!) xs) is)"
| "cv_rows is (CV_String xs) = CV_String (map ((!) xs) is)"

text \<open>The given rows of a table.\<close>

definition select_rows :: "nat list \<Rightarrow> cells \<Rightarrow> cells" where
  "select_rows is S = (\<lambda>k. map_option (\<lambda>(ty, x). (ty, cv_rows is x)) (S k))"

lemma pick_range_list: "ascending k (length xs) rs \<Longrightarrow> pick rs xs = map ((!) xs) (range_list rs)"
proof (induction rs arbitrary: k)
  case (Cons r rs)
  obtain s e where r: "r = (s, e)" by (cases r)
  have asc: "s \<le> e" "ascending e (length xs) rs" using Cons.prems r by simp_all
  then show ?case using Cons.IH [OF asc(2)] ascending_le [OF asc(2)] take_drop_nth [of s e xs] by (simp add: r sub_def)
qed simp

lemma cv_pick_rows: "ascending k (cv_length v) rs \<Longrightarrow> cv_pick rs v = cv_rows (range_list rs) v"
  by (cases v) (simp_all add: pick_range_list)

lemma pick_cells_rows:
  assumes "batch_holds src S" and "ascending 0 (mb_row_count src) rs"
  shows "pick_cells rs S = select_rows (range_list rs) S"
proof
  fix k
  show "pick_cells rs S k = select_rows (range_list rs) S k"
  proof (cases "S k")
    case (Some tv)
    then have "k \<in> fst ` set (mb_column_names src)" using assms(1) by (auto simp: batch_holds_def)
    then obtain p where p: "p \<in> set (mb_column_names src)" "k = fst p" by auto
    then show ?thesis using src_column(1,4) [OF assms(1) p(1)] assms(2) cv_pick_rows by (simp add: pick_cells_def select_rows_def)
  qed (simp add: pick_cells_def select_rows_def)
qed

lemma extend_from_ranges_rows:
  assumes "batch_holds b T" and "batch_holds src S" and "ascending 0 (mb_row_count src) rs"
    and "mergeable (mb_row_count b) T (select_rows (range_list rs) S)"
  shows "\<exists>b'. MutableBatch_extend_from_ranges src rs b = (Ok (), b')
    \<and> batch_holds b' (batch_union (mb_row_count b) T (length (range_list rs)) (select_rows (range_list rs) S))"
proof -
  have rs: "\<forall>r\<in>set rs. range_ok (mb_row_count src) r" using ascending_range_ok [OF assms(3)] by blast
  note rows = pick_cells_rows [OF assms(2,3)]
  show ?thesis
  proof (cases "range_rows rs = mb_row_count src")
    case True
    note all = pick_cells_all [OF assms(2,3) True]
    have sel: "select_rows (range_list rs) S = S" using all rows by simp
    with copy_total [OF assms(1,2), of write_batch_column "mb_row_count src" "\<lambda>x. x"] batch_copy_writer [OF assms(2)] assms(4)
    show ?thesis unfolding extend_from_ranges_eq [OF rs] extend_from_eq map_option_triv sel length_range_list True if_P [OF refl] by blast
  next
    case False
    have "mergeable (mb_row_count b) T (\<lambda>k. map_option (\<lambda>(ty, x). (ty, cv_pick rs x)) (S k))"
      using assms(4) rows by (simp add: pick_cells_def)
    from copy_total [OF assms(1,2) ranges_copy_writer [OF assms(2) _ rs] this] rows
    show ?thesis unfolding extend_from_ranges_eq [OF rs] if_not_P [OF False] length_range_list pick_cells_def by auto
  qed
qed

text \<open>
  C8. A partitioned batch arrives in its partitions: writing the payload of a key to a batch succeeds when
  the types agree and the strings fit, and appends exactly the rows of the source whose key it is.
\<close>

theorem partition_rows_arrive:
  assumes "batch_holds b T" and "batch_holds src S" and "get_time_column src = Some time" and "length time = mb_row_count src"
    and "partition_keys show_f64 strftime src table_name template = Some ks" and "[] \<notin> set ks" and "key \<in> set ks"
    and "mergeable (mb_row_count b) T (select_rows (filter (\<lambda>i. ks ! i = key) [0..<mb_row_count src]) S)"
  shows "\<exists>m pw b'. PartitionWrite_partition show_f64 strftime table_name src template = Some m \<and> m (PartitionKey key) = Some pw
    \<and> PartitionWrite_write_to_batch pw b = (Ok (), b')
    \<and> batch_holds b' (batch_union (mb_row_count b) T (length (filter (\<lambda>i. ks ! i = key) [0..<mb_row_count src]))
         (select_rows (filter (\<lambda>i. ks ! i = key) [0..<mb_row_count src]) S))"
proof -
  let ?m = "part_map src time (range_encode ks)"
  have len: "length ks = mb_row_count src" using assms(5) by (rule length_partition_keys)
  have "PartitionKey key \<in> dom ?m" using assms(7) by (simp add: dom_part_map)
  then obtain pw where pw: "?m (PartitionKey key) = Some pw" by blast
  note w = part_map_write [OF pw]
  have "\<exists>b'. MutableBatch_extend_from_ranges src (pw_ranges pw) b = (Ok (), b')
      \<and> batch_holds b' (batch_union (mb_row_count b) T (length (pw_rows pw)) (select_rows (pw_rows pw) S))"
    using extend_from_ranges_rows [OF assms(1,2), of "pw_ranges pw"] w(5,6) assms(8) len by simp
  then show ?thesis using partition_spec [OF assms(3-6)] pw w(3,5) len by (auto simp: PartitionWrite_write_to_batch_def)
qed

theorem partition_rows_arrive_witness:
  "\<exists>m pw b'. PartitionWrite_partition (\<lambda>_. []) parity ''m'' time_batch time_template = Some m \<and> m (PartitionKey ''m-odd'') = Some pw
    \<and> PartitionWrite_write_to_batch pw sample_batch = (Ok (), b')"
proof -
  have "mergeable (mb_row_count sample_batch) sample_cells
      (select_rows (filter (\<lambda>i. [''m-odd'', ''m-even''] ! i = ''m-odd'') [0..<mb_row_count time_batch]) time_cells)"
    by (auto simp: mergeable_def sample_cells_def sample_batch_def fits_def old_cells_def type_of_column_def select_rows_def time_cells_def
        split: if_splits option.splits)
  with partition_rows_arrive [OF sample_holds time_batch_holds time_batch_time(1) _ time_batch_keys, of "''m-odd''"]
  show ?thesis by (auto simp: time_batch_time)
qed

text \<open>A row whose key is empty.\<close>

lemma add_range_empty_key: "add_range batch time ([], r) m = None"
  by (cases r) (simp add: add_range_def PartitionKey_from_def Let_def split_beta bind_eq_None_conv)

lemma add_ranges_empty_key: "([], r) \<in> set ps \<Longrightarrow> add_ranges batch time ps m = None"
proof (induction ps arbitrary: m)
  case (Cons p ps)
  then show ?case by (cases "add_range batch time p m") (auto simp: add_range_empty_key)
qed simp

lemma empty_template_keys:
  assumes "get_time_column batch = Some time" and "template_parts template = []"
  shows "partition_keys show_f64 strftime batch table_name template = Some (replicate (mb_row_count batch) [])"
proof -
  have "those (map (\<lambda>_. Some []) xs) = Some (replicate (length xs) [])" for xs :: "nat list" by (induction xs) simp_all
  from this [of "[0..<mb_row_count batch]"] show ?thesis using assms by (simp add: partition_keys_def row_key_def [abs_def])
qed

text \<open>
  C40. When partitioning a batch, with a timestamp for every row, panics: exactly when rendering the key of some row does, for a part that is not implemented or
  a format that is not accepted, or when the key of some row is empty.  In particular it panics on every batch with rows when the
  template has no parts, which is what \<open>PartitionTemplate::default()\<close> is.
\<close>

theorem partition_panics_iff:
  assumes "get_time_column batch = Some time" and "length time = mb_row_count batch"
  shows "(PartitionWrite_partition show_f64 strftime table_name batch template = None
      \<longleftrightarrow> (case partition_keys show_f64 strftime batch table_name template of None \<Rightarrow> True | Some ks \<Rightarrow> [] \<in> set ks))
    \<and> (template_parts template = [] \<and> mb_row_count batch \<noteq> 0
      \<longrightarrow> PartitionWrite_partition show_f64 strftime table_name batch template = None)"
proof -
  have panics: "PartitionWrite_partition show_f64 strftime table_name batch template = None
      \<longleftrightarrow> (case partition_keys show_f64 strftime batch table_name template of None \<Rightarrow> True | Some ks \<Rightarrow> [] \<in> set ks)"
  proof (cases "partition_keys show_f64 strftime batch table_name template")
    case None
    then show ?thesis by (simp add: PartitionWrite_partition_def partition_batch_def assms(1))
  next
    case (Some ks)
    have "PartitionWrite_partition show_f64 strftime table_name batch template = None" if "[] \<in> set ks"
    proof -
      have "ranges_for [] (range_encode ks) \<noteq> []" using that ranges_for_empty [of "[]" ks] by simp
      then obtain r where "([], r) \<in> set (range_encode ks)" by (auto simp: ranges_for_def filter_empty_conv)
      from add_ranges_empty_key [OF this] show ?thesis by (simp add: PartitionWrite_partition_def partition_batch_def assms(1) Some)
    qed
    then show ?thesis using Some partition_spec [OF assms Some] by (cases "[] \<in> set ks") simp_all
  qed
  then show ?thesis using empty_template_keys [OF assms(1), of template] by simp
qed

theorem partition_panics_iff_witness:
  "PartitionWrite_partition (\<lambda>_. []) parity ''m'' time_batch \<lparr>template_parts = []\<rparr> = None
   \<and> PartitionWrite_partition (\<lambda>_. []) parity ''m'' time_batch time_template \<noteq> None"
  using partition_panics_iff [OF time_batch_time(1), of "\<lambda>_. []" parity "''m''" "\<lparr>template_parts = []\<rparr>"]
    partition_panics_iff [OF time_batch_time(1), of "\<lambda>_. []" parity "''m''" time_template]
  by (simp add: time_batch_time(2) time_batch_keys)

end
