(* ===== verification/Tsm_Simple8b.thy ===== *)
theory Tsm_Simple8b
  imports Bit_Set
begin

text \<open>
  The simple8b codec of \<open>influxdb_tsm/src/encoders/simple8b.rs\<close>: runs of small integers are packed into
  64-bit words, whose top four bits select how many values of how many bits follow.  Words are
  machine words, so every shift is the one of the code.
\<close>

type_synonym u64 = "64 word"

section \<open>Big-endian bytes\<close>

definition be_bytes :: "u64 \<Rightarrow> byte list" where
  "be_bytes v = map (\<lambda>i. ucast (drop_bit (8 * i) v)) [7, 6, 5, 4, 3, 2, 1, 0]"

definition from_be :: "byte list \<Rightarrow> u64" where
  "from_be bs = foldl (\<lambda>acc b. push_bit 8 acc OR ucast b) 0 bs"

section \<open>The codec\<close>

definition S8B_BIT_SIZE :: nat where "S8B_BIT_SIZE = 60"

definition S8B_MAX_VALUE :: u64 where "S8B_MAX_VALUE = push_bit 60 1 - 1"

definition NUM_BITS :: "(nat \<times> nat) list" where
  "NUM_BITS = [(60, 1), (30, 2), (20, 3), (15, 4), (12, 5), (10, 6), (8, 7), (7, 8), (6, 10), (5, 12), (4, 15), (3, 20), (2, 30), (1, 60)]"

text \<open>The loop over the values of one code: \<open>None\<close> where it continues with the next code.\<close>

fun s8b_pack :: "nat \<Rightarrow> nat \<Rightarrow> nat \<Rightarrow> u64 list \<Rightarrow> u64 \<Rightarrow> u64 option" where
  "s8b_pack k int_n bit_n [] val = Some val"
| "s8b_pack k int_n bit_n (in_v # vs) val =
     (if k < int_n
      then if in_v \<ge> push_bit (bit_n mod 64) 1 then None
           else s8b_pack (k + 1) int_n bit_n vs (val OR push_bit (k * bit_n mod 64) in_v)
      else Some val)"

text \<open>The loop over the codes.\<close>

fun s8b_try :: "nat \<Rightarrow> (nat \<times> nat) list \<Rightarrow> u64 list \<Rightarrow> (u64 \<times> nat) option" where
  "s8b_try idx [] src = None"
| "s8b_try idx ((int_n, bit_n) # codes) src =
     (if int_n > length src then s8b_try (idx + 1) codes src
      else
        (case s8b_pack 0 int_n bit_n src (push_bit S8B_BIT_SIZE (of_nat idx + 2)) of
           None \<Rightarrow> s8b_try (idx + 1) codes src
         | Some val \<Rightarrow> Some (val, int_n)))"

definition s8b_ones :: "u64 list \<Rightarrow> nat" where
  "s8b_ones src =
     (let remain = length src
      in if remain \<ge> 120 then length (takeWhile (\<lambda>x. x = 1) (take (if remain \<ge> 240 then 240 else 120) src)) else 0)"

lemma s8b_try_pos: "s8b_try idx codes src = Some (val, n) \<Longrightarrow> \<forall>(int_n, bit_n)\<in>set codes. 0 < int_n \<Longrightarrow> 0 < n"
  by (induction idx codes src rule: s8b_try.induct) (auto split: if_splits option.splits)

lemma NUM_BITS_pos: "\<forall>(int_n, bit_n)\<in>set NUM_BITS. 0 < int_n"
  by (simp add: NUM_BITS_def)

function simple8b_encode :: "u64 list \<Rightarrow> byte list \<Rightarrow> (string, unit) res \<times> byte list" where
  "simple8b_encode src dst =
     (if src = [] then (Ok (), dst)
      else if s8b_ones src = 240 then simple8b_encode (drop 240 src) (dst @ replicate 8 0)
      else if s8b_ones src \<ge> 120 then simple8b_encode (drop 120 src) (dst @ be_bytes (push_bit 60 1))
      else
        (case s8b_try 0 NUM_BITS src of
           None \<Rightarrow> (Err ''value out of bounds'', dst)
         | Some (val, int_n) \<Rightarrow> simple8b_encode (drop int_n src) (dst @ be_bytes val)))"
  by pat_completeness auto
termination
  by (relation "measure (\<lambda>(src, dst). length src)") (auto dest: s8b_try_pos [OF _ NUM_BITS_pos])

declare simple8b_encode.simps [simp del]

fun s8b_unpack :: "nat \<Rightarrow> nat \<Rightarrow> u64 \<Rightarrow> u64 list" where
  "s8b_unpack 0 bit_n v = []"
| "s8b_unpack (Suc n) bit_n v = (v AND mask bit_n) # s8b_unpack n bit_n (drop_bit bit_n v)"

text \<open>The values that \<open>decode_value\<close> stores, in order; it returns their number.\<close>

definition decode_value :: "u64 \<Rightarrow> u64 list" where
  "decode_value v =
     (let sel = drop_bit S8B_BIT_SIZE v
      in if sel = 0 then replicate 240 1
         else if sel = 1 then replicate 120 1
         else if sel = 2 then s8b_unpack 60 1 v
         else if sel = 3 then s8b_unpack 30 2 v
         else if sel = 4 then s8b_unpack 20 3 v
         else if sel = 5 then s8b_unpack 15 4 v
         else if sel = 6 then s8b_unpack 12 5 v
         else if sel = 7 then s8b_unpack 10 6 v
         else if sel = 8 then s8b_unpack 8 7 v
         else if sel = 9 then s8b_unpack 7 8 v
         else if sel = 10 then s8b_unpack 6 10 v
         else if sel = 11 then s8b_unpack 5 12 v
         else if sel = 12 then
           [v AND 0x7fff, drop_bit 15 v AND 0x7fff, drop_bit 30 v AND 0x7fff, drop_bit 45 v AND 0x7fff]
         else if sel = 13 then s8b_unpack 3 20 v
         else if sel = 14 then s8b_unpack 2 30 v
         else if sel = 15 then [v AND 0x0fffffffffffffff]
         else [])"

text \<open>
  The decoder grows its buffer, writes the values of a word at the position, and truncates it in the
  end.  A block whose length is not a multiple of eight makes it panic.
\<close>

function simple8b_decode_from :: "byte list \<Rightarrow> nat \<Rightarrow> u64 list \<Rightarrow> u64 list option" where
  "simple8b_decode_from src j dst =
     (if src = [] then Some (take j dst)
      else if length src < 8 then None
      else
        (let dst = (if length dst < j + 240 then dst @ replicate (j + 240 - length dst) 0 else dst);
             vs = decode_value (from_be (take 8 src))
         in simple8b_decode_from (drop 8 src) (j + length vs) (take j dst @ vs @ drop (j + length vs) dst)))"
  by pat_completeness auto
termination
  by (relation "measure (\<lambda>(src, j, dst). length src)") auto

declare simple8b_decode_from.simps [simp del]

definition simple8b_decode :: "byte list \<Rightarrow> u64 list \<Rightarrow> u64 list option" where
  "simple8b_decode src dst = simple8b_decode_from src 0 dst"

section \<open>Bytes can be read back\<close>

lemma length_be_bytes [simp]: "length (be_bytes v) = 8"
  by (simp add: be_bytes_def)

lemma be_bytes_nonempty [simp]: "be_bytes v \<noteq> []"
  by (simp add: be_bytes_def)

lemma byte_step: "push_bit 8 (drop_bit 8 w) OR ucast (ucast w :: byte) = (w :: u64)"
  by (rule bit_word_eqI) (auto simp: bit_simps)

lemma byte_next: "push_bit 8 (drop_bit (8 * Suc i) v) OR ucast (ucast (drop_bit (8 * i) v) :: byte) = drop_bit (8 * i) (v :: u64)"
  using byte_step [of "drop_bit (8 * i) v"] by (simp add: drop_bit_drop_bit add.commute)

lemma from_be_bytes [simp]: "from_be (be_bytes v) = v"
proof -
  have "drop_bit (8 * Suc 7) v = 0" by (rule bit_word_eqI) (simp add: bit_simps)
  then show ?thesis
    using byte_next [of 7 v] byte_next [of 6 v] byte_next [of 5 v] byte_next [of 4 v] byte_next [of 3 v] byte_next [of 2 v]
      byte_next [of 1 v] byte_next [of 0 v]
    by (simp add: from_be_def be_bytes_def)
qed

section \<open>Packing and unpacking\<close>

lemma unat_push_bit_1:
  assumes "b < 64"
  shows "unat (push_bit b (1 :: u64)) = 2 ^ b"
proof -
  have "(2 :: nat) ^ b < 2 ^ 64" using assms by (intro power_strict_increasing) auto
  then have "take_bit 64 ((2 :: nat) ^ b) = 2 ^ b" by (rule take_bit_nat_eq_self)
  moreover have "push_bit b (1 :: u64) = of_nat (2 ^ b)" by (simp add: push_bit_eq_mult)
  ultimately show ?thesis by (simp only: unsigned_of_nat) simp
qed

lemma bit_lt_2p:
  assumes "(v :: u64) < push_bit b 1" and "b < 64" and "bit v m"
  shows "m < b"
proof -
  have "unat v < 2 ^ b" using assms(1) unat_push_bit_1 [OF assms(2)] by (simp add: word_less_nat_alt)
  then have "take_bit b (unat v) = unat v" by (rule take_bit_nat_eq_self)
  moreover have "bit (unat v) m" using assms(3) by (simp add: bit_unsigned_iff possible_bit_def)
  ultimately show ?thesis by (metis bit_take_bit_iff)
qed

lemma s8b_pack_bits:
  assumes "s8b_pack k n b vs val = Some val'" and "n * b \<le> 60" and "0 < b"
  shows "(\<forall>i<n - k. i < length vs \<longrightarrow> vs ! i < push_bit (b mod 64) 1)
    \<and> (\<forall>m<64. bit val' m \<longleftrightarrow> bit val m \<or> (\<exists>i<n - k. i < length vs \<and> (k + i) * b \<le> m \<and> bit (vs ! i) (m - (k + i) * b)))"
  using assms(1)
proof (induction vs arbitrary: k val)
  case (Cons v vs)
  show ?case
  proof (cases "k < n")
    case False
    then show ?thesis using Cons.prems by simp
  next
    case True
    have step: "s8b_pack (k + 1) n b vs (val OR push_bit (k * b mod 64) v) = Some val'" and v: "v < push_bit (b mod 64) 1"
      using Cons.prems True by (simp_all add: not_le split: if_splits)
    have "k * b \<le> n * b" using True by simp
    then have "k * b < 64" using assms(2) by linarith
    then have kb: "k * b mod 64 = k * b" by (rule mod_less)
    have nk: "n - k = Suc (n - (k + 1))" using True by simp
    have all: "(\<forall>i<n - k. P i) \<longleftrightarrow> P 0 \<and> (\<forall>i<n - (k + 1). P (Suc i))" for P by (simp only: nk All_less_Suc2)
    have ex: "(\<exists>i<n - k. P i) \<longleftrightarrow> P 0 \<or> (\<exists>i<n - (k + 1). P (Suc i))" for P by (simp only: nk Ex_less_Suc2)
    have bit_val: "bit (val OR push_bit (k * b mod 64) v) m \<longleftrightarrow> bit val m \<or> k * b \<le> m \<and> bit v (m - k * b)" if "m < 64" for m
      using that by (auto simp: bit_simps kb)
    from Cons.IH [OF step] show ?thesis
      unfolding all ex using v bit_val by (auto simp: add.assoc)
  qed
qed simp

lemma nth_unpack: "i < n \<Longrightarrow> s8b_unpack n b v ! i = drop_bit (i * b) v AND mask b"
proof (induction n arbitrary: i v)
  case (Suc n)
  then show ?case by (cases i) (simp_all add: drop_bit_drop_bit add.commute)
qed simp

lemma length_unpack [simp]: "length (s8b_unpack n b v) = n"
  by (induction n arbitrary: v) simp_all

text \<open>A word that was packed with a code has the selector of the code and its values.\<close>

lemma pack_unpack:
  assumes pack: "s8b_pack 0 n b vs (push_bit 60 sel) = Some val" and nb: "n * b \<le> 60" "0 < b" and len: "n \<le> length vs" and sel: "unat sel < 16"
  shows "drop_bit 60 val = sel" and "s8b_unpack n b val = take n vs"
proof -
  have b: "b < 64" if "0 < n" using nb that by (cases n) auto
  have small: "vs ! i < push_bit b 1" if "i < n" for i
    using s8b_pack_bits [OF pack nb] that len b by (cases "n = 0") auto
  have val: "bit val m \<longleftrightarrow> 60 \<le> m \<and> bit sel (m - 60) \<or> (\<exists>i<n. i * b \<le> m \<and> bit (vs ! i) (m - i * b))" if "m < 64" for m
    using s8b_pack_bits [OF pack nb] that len by (fastforce simp: bit_simps)
  have low: "m < n * b" if "i < n" "i * b \<le> m" "bit (vs ! i) (m - i * b)" for i m
  proof -
    have "m - i * b < b" using bit_lt_2p [OF small [OF that(1)] b that(3)] that(1) by simp
    then have "m < Suc i * b" using that(2) by simp
    also have "\<dots> \<le> n * b" using that(1) by (simp add: Suc_leI mult_le_mono1 del: mult_Suc)
    finally show ?thesis .
  qed
  show "drop_bit 60 val = sel"
  proof (rule bit_word_eqI)
    fix m assume "m < LENGTH(64)"
    then have m: "m < 64" by simp
    show "bit (drop_bit 60 val) m = bit sel m"
    proof (cases "m < 4")
      case True
      then have "bit val (60 + m) \<longleftrightarrow> bit sel m" using val [of "60 + m"] low [of _ "60 + m"] nb(1) by (auto dest!: low)
      then show ?thesis by (simp add: bit_simps)
    next
      case False
      have "sel < push_bit 4 1" using sel unat_push_bit_1 [of 4] by (simp add: word_less_nat_alt)
      then have "\<not> bit sel m" using bit_lt_2p [of sel 4 m] False by auto
      moreover have "\<not> bit val (60 + m)" using False by (auto dest: bit_imp_le_length)
      ultimately show ?thesis by (simp add: bit_simps)
    qed
  qed
  show "s8b_unpack n b val = take n vs"
  proof (rule nth_equalityI)
    show "length (s8b_unpack n b val) = length (take n vs)" using len by simp
    fix i assume "i < length (s8b_unpack n b val)"
    then have i: "i < n" by simp
    have bn: "b < 64" using b i by simp
    have ib: "Suc i * b \<le> 60"
    proof -
      have "Suc i * b \<le> n * b" using i by (simp add: Suc_leI mult_le_mono1 del: mult_Suc)
      then show ?thesis using nb(1) by linarith
    qed
    have "drop_bit (i * b) val AND mask b = vs ! i"
    proof (rule bit_word_eqI)
      fix m
      show "bit (drop_bit (i * b) val AND mask b) m = bit (vs ! i) m"
      proof (cases "m < b")
        case False
        then show ?thesis using bit_lt_2p [OF small [OF i] bn, of m] by (auto simp: bit_simps)
      next
        case True
        have lt: "i * b + m < 60" using True ib by simp
        have only: "j = i" if "j < n" "j * b \<le> i * b + m" "bit (vs ! j) (i * b + m - j * b)" for j
        proof -
          have "i * b + m - j * b < b" using bit_lt_2p [OF small [OF that(1)] bn that(3)] .
          then have "i * b < Suc j * b" using that(2) by simp
          moreover have "j * b < Suc i * b" using that(2) True by simp
          ultimately have "i < Suc j" "j < Suc i" unfolding mult_less_cancel2 by blast+
          then show "j = i" by simp
        qed
        have "bit val (i * b + m) \<longleftrightarrow> (\<exists>j<n. j * b \<le> i * b + m \<and> bit (vs ! j) (i * b + m - j * b))"
          using val [of "i * b + m"] lt by simp
        also have "\<dots> \<longleftrightarrow> bit (vs ! i) m"
        proof
          assume "\<exists>j<n. j * b \<le> i * b + m \<and> bit (vs ! j) (i * b + m - j * b)"
          then obtain j where j: "j < n" "j * b \<le> i * b + m" "bit (vs ! j) (i * b + m - j * b)" by blast
          then have "j = i" by (rule only)
          with j show "bit (vs ! i) m" by simp
        next
          assume "bit (vs ! i) m"
          then show "\<exists>j<n. j * b \<le> i * b + m \<and> bit (vs ! j) (i * b + m - j * b)" using i by (intro exI [of _ i]) simp
        qed
        finally have "bit val (i * b + m) \<longleftrightarrow> bit (vs ! i) m" .
        then show ?thesis using True lt by (simp add: bit_simps)
      qed
    qed
    then show "s8b_unpack n b val ! i = take n vs ! i" using i len by (simp add: nth_unpack)
  qed
qed

section \<open>A word is decoded to its values\<close>

lemma s8b_try_code:
  "s8b_try idx codes src = Some (val, n) \<Longrightarrow>
    \<exists>j b. j < length codes \<and> codes ! j = (n, b) \<and> n \<le> length src \<and> s8b_pack 0 n b src (push_bit 60 (of_nat (idx + j) + 2)) = Some val"
proof (induction idx codes src rule: s8b_try.induct)
  case (2 idx int_n bit_n codes src)
  consider (later) "s8b_try (idx + 1) codes src = Some (val, n)" "int_n > length src \<or> s8b_pack 0 int_n bit_n src (push_bit S8B_BIT_SIZE (of_nat idx + 2)) = None"
    | (now) "int_n \<le> length src" "s8b_pack 0 int_n bit_n src (push_bit S8B_BIT_SIZE (of_nat idx + 2)) = Some val" "n = int_n"
    using 2(3) by (auto split: if_splits option.splits)
  then show ?case
  proof cases
    case now
    then have "0 < length ((int_n, bit_n) # codes) \<and> ((int_n, bit_n) # codes) ! 0 = (n, bit_n) \<and> n \<le> length src
        \<and> s8b_pack 0 n bit_n src (push_bit 60 (of_nat (idx + 0) + 2)) = Some val" by (simp add: S8B_BIT_SIZE_def)
    then show ?thesis by blast
  next
    case later
    then have "\<exists>j b. j < length codes \<and> codes ! j = (n, b) \<and> n \<le> length src \<and> s8b_pack 0 n b src (push_bit 60 (of_nat (idx + 1 + j) + 2)) = Some val"
      using 2(1,2) by (cases "int_n > length src") auto
    then obtain j b where "j < length codes" "codes ! j = (n, b)" "n \<le> length src" "s8b_pack 0 n b src (push_bit 60 (of_nat (idx + 1 + j) + 2)) = Some val"
      by blast
    then have "Suc j < length ((int_n, bit_n) # codes) \<and> ((int_n, bit_n) # codes) ! Suc j = (n, b) \<and> n \<le> length src
        \<and> s8b_pack 0 n b src (push_bit 60 (of_nat (idx + Suc j) + 2)) = Some val" by simp
    then show ?thesis by blast
  qed
qed simp

lemma unpack_few:
  "s8b_unpack 4 15 v = [v AND 0x7fff, drop_bit 15 v AND 0x7fff, drop_bit 30 v AND 0x7fff, drop_bit 45 v AND 0x7fff]"
  "s8b_unpack 1 60 v = [v AND 0x0fffffffffffffff]"
proof -
  have "(4 :: nat) = Suc (Suc (Suc (Suc 0)))" by simp
  then show "s8b_unpack 4 15 v = [v AND 0x7fff, drop_bit 15 v AND 0x7fff, drop_bit 30 v AND 0x7fff, drop_bit 45 v AND 0x7fff]"
    by (simp only: s8b_unpack.simps) (simp add: drop_bit_drop_bit mask_eq_exp_minus_1)
  show "s8b_unpack 1 60 v = [v AND 0x0fffffffffffffff]" by (simp only: One_nat_def s8b_unpack.simps) (simp add: mask_eq_exp_minus_1)
qed

lemma decode_sel:
  assumes "j < length NUM_BITS" and "NUM_BITS ! j = (n, b)"
  shows "0 < b \<and> n * b \<le> 60 \<and> unat (of_nat j + 2 :: u64) < 16"
    and "drop_bit 60 val = (of_nat j + 2 :: u64) \<Longrightarrow> decode_value val = s8b_unpack n b val"
proof -
  have "j \<in> set [0..<14]" using assms(1) by (simp add: NUM_BITS_def)
  then consider "j = 0" | "j = 1" | "j = 2" | "j = 3" | "j = 4" | "j = 5" | "j = 6" | "j = 7" | "j = 8" | "j = 9" | "j = 10" | "j = 11" | "j = 12" | "j = 13"
    by (force simp: upt_rec)
  note cases = this
  show "0 < b \<and> n * b \<le> 60 \<and> unat (of_nat j + 2 :: u64) < 16"
    using cases by cases (use assms(2) [symmetric] in \<open>simp_all add: NUM_BITS_def\<close>)
  assume "drop_bit 60 val = (of_nat j + 2 :: u64)"
  with cases show "decode_value val = s8b_unpack n b val"
    by cases (use assms(2) [symmetric] in \<open>simp_all add: NUM_BITS_def decode_value_def S8B_BIT_SIZE_def unpack_few mask_eq_exp_minus_1\<close>)
qed

lemma try_decode:
  assumes "s8b_try 0 NUM_BITS src = Some (val, n)"
  shows "decode_value val = take n src \<and> n \<le> length src"
proof -
  obtain j b where j: "j < length NUM_BITS" "NUM_BITS ! j = (n, b)" "n \<le> length src" "s8b_pack 0 n b src (push_bit 60 (of_nat j + 2)) = Some val"
    using s8b_try_code [OF assms] by auto
  note code = decode_sel [OF j(1,2)]
  have "drop_bit 60 val = of_nat j + 2" "s8b_unpack n b val = take n src"
    using pack_unpack [OF j(4) _ _ j(3)] code(1) by simp_all
  with code(2) j(3) show ?thesis by simp
qed

section \<open>Encoding can be undone\<close>

lemma ones_take:
  assumes "s8b_ones src \<ge> k" and "k = 240 \<or> k = 120"
  shows "take k src = replicate k 1 \<and> k \<le> length src"
proof -
  let ?a = "take (if length src \<ge> 240 then 240 else 120) src"
  have len: "120 \<le> length src" and k: "k \<le> length (takeWhile (\<lambda>x. x = 1) ?a)"
    using assms by (auto simp: s8b_ones_def Let_def split: if_splits)
  have "take k ?a = replicate k 1"
  proof -
    have "take k ?a = take k (takeWhile (\<lambda>x. x = 1) ?a)" using k by (metis takeWhile_dropWhile_id take_append diff_is_0_eq take_0 append_Nil2)
    also have "\<dots> = replicate k 1" by (rule replicate_eqI) (use k in \<open>auto dest!: in_set_takeD set_takeWhileD\<close>)
    finally show ?thesis .
  qed
  moreover have "k \<le> length ?a" using k length_takeWhile_le le_trans by blast
  ultimately show ?thesis by (auto simp: min_def split: if_splits)
qed

lemma length_decode_value: "length (decode_value v) \<le> 240"
  by (simp add: decode_value_def Let_def)

lemma decode_ones:
  "decode_value 0 = replicate 240 1" "decode_value (push_bit 60 1) = replicate 120 1"
  by (simp_all add: decode_value_def S8B_BIT_SIZE_def)

lemma be_bytes_0: "be_bytes 0 = replicate 8 0"
  by (simp add: be_bytes_def eval_nat_numeral)

lemma encode_words:
  "simple8b_encode src dst = (r, dst') \<Longrightarrow>
    \<exists>ws. dst' = dst @ concat (map be_bytes ws) \<and> (r = Ok () \<longrightarrow> concat (map decode_value ws) = src)"
proof (induction src dst rule: simple8b_encode.induct)
  case (1 src dst)
  show ?case
  proof (cases "src = []")
    case True
    then show ?thesis using 1(4) by (auto simp: simple8b_encode.simps [of "[]"] intro!: exI [of _ "[]"])
  next
    case nonempty: False
    have add: "\<exists>ws. dst' = dst @ concat (map be_bytes ws) \<and> (r = Ok () \<longrightarrow> concat (map decode_value ws) = src)"
      if "\<exists>ws. dst' = (dst @ be_bytes w) @ concat (map be_bytes ws) \<and> (r = Ok () \<longrightarrow> concat (map decode_value ws) = drop k src)"
        "decode_value w = take k src" for w k
    proof -
      from that(1) obtain ws where ws: "dst' = (dst @ be_bytes w) @ concat (map be_bytes ws)" "r = Ok () \<longrightarrow> concat (map decode_value ws) = drop k src" by blast
      show ?thesis by (rule exI [of _ "w # ws"]) (use ws that(2) in simp)
    qed
    consider (all) "s8b_ones src = 240" | (many) "s8b_ones src \<noteq> 240" "s8b_ones src \<ge> 120" | (few) "s8b_ones src \<noteq> 240" "\<not> s8b_ones src \<ge> 120" by blast
    then show ?thesis
    proof cases
      case all
      with 1(4) nonempty have "simple8b_encode (drop 240 src) (dst @ be_bytes 0) = (r, dst')" by (simp add: simple8b_encode.simps [of src] be_bytes_0)
      from 1(1) [OF nonempty all] this show ?thesis
        by (intro add [of 0 240]) (use ones_take [of 240 src] all decode_ones in \<open>simp_all add: be_bytes_0\<close>)
    next
      case many
      with 1(4) nonempty have "simple8b_encode (drop 120 src) (dst @ be_bytes (push_bit 60 1)) = (r, dst')" by (simp add: simple8b_encode.simps [of src])
      from 1(2) [OF nonempty many this] show ?thesis
        by (intro add [of "push_bit 60 1" 120]) (use ones_take [of 120 src] many(2) decode_ones in simp_all)
    next
      case few
      show ?thesis
      proof (cases "s8b_try 0 NUM_BITS src")
        case None
        then show ?thesis using 1(4) nonempty few by (auto simp: simple8b_encode.simps [of src] intro!: exI [of _ "[]"])
      next
        case (Some p)
        obtain w n where p: "p = (w, n)" by (cases p)
        with Some 1(4) nonempty few have "simple8b_encode (drop n src) (dst @ be_bytes w) = (r, dst')" by (simp add: simple8b_encode.simps [of src])
        from 1(3) [OF nonempty few Some p [symmetric] this] show ?thesis
          by (intro add [of w n]) (use try_decode [of src w n] Some p in simp_all)
      qed
    qed
  qed
qed

lemma decode_words:
  "j \<le> length dst \<Longrightarrow> simple8b_decode_from (concat (map be_bytes ws)) j dst = Some (take j dst @ concat (map decode_value ws))"
proof (induction ws arbitrary: j dst)
  case Nil
  then show ?case by (simp add: simple8b_decode_from.simps)
next
  case (Cons w ws)
  let ?dst = "if length dst < j + 240 then dst @ replicate (j + 240 - length dst) 0 else dst" and ?vs = "decode_value w"
  have "j + 240 \<le> length ?dst" by simp
  then have len: "j + length ?vs \<le> length (take j ?dst @ ?vs @ drop (j + length ?vs) ?dst)" by simp
  have "simple8b_decode_from (concat (map be_bytes (w # ws))) j dst
      = simple8b_decode_from (concat (map be_bytes ws)) (j + length ?vs) (take j ?dst @ ?vs @ drop (j + length ?vs) ?dst)"
    by (simp add: simple8b_decode_from.simps [of "be_bytes w @ concat (map be_bytes ws)"] Let_def)
  also have "\<dots> = Some (take (j + length ?vs) (take j ?dst @ ?vs @ drop (j + length ?vs) ?dst) @ concat (map decode_value ws))"
    using Cons.IH [OF len] .
  also have "take (j + length ?vs) (take j ?dst @ ?vs @ drop (j + length ?vs) ?dst) = take j dst @ ?vs" using Cons.prems by simp
  finally show ?case by simp
qed

lemma pack_small:
  "s8b_pack k n b vs val \<noteq> None \<Longrightarrow> k < n \<Longrightarrow> vs \<noteq> [] \<Longrightarrow> hd vs < push_bit (b mod 64) 1"
  by (cases vs) (auto split: if_splits)

lemma push_bit_mono: "b \<le> 60 \<Longrightarrow> (v :: u64) < push_bit b 1 \<Longrightarrow> v \<le> S8B_MAX_VALUE"
proof -
  assume b: "b \<le> 60" and v: "v < push_bit b 1"
  have "unat v < 2 ^ b" using v b unat_push_bit_1 [of b] by (simp add: word_less_nat_alt)
  also have "(2 :: nat) ^ b \<le> 2 ^ 60" using b by (intro power_increasing) auto
  finally show ?thesis by (simp add: word_le_nat_alt S8B_MAX_VALUE_def)
qed

lemma max_value_less: "v \<le> S8B_MAX_VALUE \<longleftrightarrow> v < push_bit 60 1"
  by (simp add: word_less_nat_alt word_le_nat_alt S8B_MAX_VALUE_def) linarith

lemma try_values:
  assumes "s8b_try 0 NUM_BITS src = Some (val, n)"
  shows "\<forall>v\<in>set (take n src). v \<le> S8B_MAX_VALUE"
proof -
  obtain j b where j: "j < length NUM_BITS" "NUM_BITS ! j = (n, b)" "n \<le> length src" "s8b_pack 0 n b src (push_bit 60 (of_nat j + 2)) = Some val"
    using s8b_try_code [OF assms] by auto
  note code = decode_sel(1) [OF j(1,2)]
  have "src ! i \<le> S8B_MAX_VALUE" if "i < n" for i
  proof -
    have b: "b \<le> 60" using code that by (cases n) auto
    have "src ! i < push_bit (b mod 64) 1" using s8b_pack_bits [OF j(4)] code that j(3) by auto
    then show ?thesis using push_bit_mono [OF b] b by simp
  qed
  then show ?thesis by (auto simp: in_set_conv_nth)
qed

lemma try_none:
  assumes "src \<noteq> []"
  shows "s8b_try 0 NUM_BITS src = None \<longleftrightarrow> \<not> hd src \<le> S8B_MAX_VALUE"
proof
  assume none: "s8b_try 0 NUM_BITS src = None"
  have last: "s8b_try idx (codes @ [(1, 60)]) src = None \<Longrightarrow> \<exists>val. s8b_pack 0 1 60 src val = None" for idx codes
    using assms by (induction idx codes src rule: s8b_try.induct) (auto split: if_splits option.splits simp: Suc_le_eq)
  have "NUM_BITS = butlast NUM_BITS @ [(1, 60)]" by (simp add: NUM_BITS_def)
  with none last obtain val where "s8b_pack 0 1 60 src val = None" by metis
  then show "\<not> hd src \<le> S8B_MAX_VALUE" using assms by (cases src; cases "tl src") (auto simp: max_value_less split: if_splits)
next
  assume "\<not> hd src \<le> S8B_MAX_VALUE"
  moreover have "hd src \<le> S8B_MAX_VALUE" if "s8b_try 0 NUM_BITS src = Some (val, n)" for val n
    using try_values [OF that] s8b_try_pos [OF that NUM_BITS_pos] assms by (cases src; cases n) auto
  ultimately show "s8b_try 0 NUM_BITS src = None" by (cases "s8b_try 0 NUM_BITS src") auto
qed

lemma encode_result:
  "fst (simple8b_encode src dst) = (if \<forall>v\<in>set src. v \<le> S8B_MAX_VALUE then Ok () else Err ''value out of bounds'')"
proof (induction src dst rule: simple8b_encode.induct)
  case (1 src dst)
  have split: "(\<forall>v\<in>set src. P v) \<longleftrightarrow> (\<forall>v\<in>set (take k src). P v) \<and> (\<forall>v\<in>set (drop k src). P v)" for P k
    by (metis Un_iff append_take_drop_id set_append)
  have one: "(1 :: u64) \<le> S8B_MAX_VALUE" by (simp add: S8B_MAX_VALUE_def)
  consider (nil) "src = []" | (all) "src \<noteq> []" "s8b_ones src = 240" | (many) "src \<noteq> []" "s8b_ones src \<noteq> 240" "s8b_ones src \<ge> 120"
    | (few) "src \<noteq> []" "s8b_ones src \<noteq> 240" "\<not> s8b_ones src \<ge> 120" by blast
  then show ?case
  proof cases
    case all
    have "simple8b_encode src dst = simple8b_encode (drop 240 src) (dst @ replicate 8 0)" using all by (simp add: simple8b_encode.simps [of src])
    then show ?thesis using 1(1) [OF all] ones_take [of 240 src] all(2) one by (simp only: split [where k = 240]) simp
  next
    case many
    have "simple8b_encode src dst = simple8b_encode (drop 120 src) (dst @ be_bytes (push_bit 60 1))" using many by (simp add: simple8b_encode.simps [of src])
    then show ?thesis using 1(2) [OF many] ones_take [of 120 src] many(3) one by (simp only: split [where k = 120]) simp
  next
    case few
    show ?thesis
    proof (cases "s8b_try 0 NUM_BITS src")
      case None
      then have "\<not> hd src \<le> S8B_MAX_VALUE" using try_none [OF few(1)] by simp
      then have "\<not> (\<forall>v\<in>set src. v \<le> S8B_MAX_VALUE)" using few(1) by (metis list.set_sel(1))
      then show ?thesis using few None by (simp add: simple8b_encode.simps [of src])
    next
      case (Some p)
      obtain w n where p: "p = (w, n)" by (cases p)
      have "simple8b_encode src dst = simple8b_encode (drop n src) (dst @ be_bytes w)" using few Some p by (simp add: simple8b_encode.simps [of src])
      then show ?thesis using 1(3) [OF few Some p [symmetric]] try_values [of src w n] Some p by (simp only: split [where k = n]) simp
    qed
  qed (simp add: simple8b_encode.simps)
qed

text \<open>
  Simple8b is lossless: encoding any values below \<open>2^60\<close> succeeds, whatever is already in the buffer,
  appends whole words to it, and decoding the words gives the values back, whatever was in the target.
\<close>

lemma simple8b_roundtrip:
  assumes "\<forall>v\<in>set src. v \<le> S8B_MAX_VALUE"
  shows "\<exists>bs. simple8b_encode src dst = (Ok (), dst @ bs) \<and> length bs mod 8 = 0 \<and> simple8b_decode bs buf = Some src"
proof -
  obtain dst' where enc: "simple8b_encode src dst = (Ok (), dst')" using encode_result [of src dst] assms by (metis prod.collapse)
  obtain ws where ws: "dst' = dst @ concat (map be_bytes ws)" "concat (map decode_value ws) = src" using encode_words [OF enc] by blast
  have "length (concat (map be_bytes ws)) mod 8 = 0" by (induction ws) (simp_all add: mod_add_eq [symmetric])
  then show ?thesis using enc ws decode_words [of 0 buf ws] by (auto simp: simple8b_decode_def)
qed

text \<open>
  The encoder ends on every input, and refuses exactly the inputs with a value of \<open>2^60\<close> or more, with
  the error \<open>value out of bounds\<close>.
\<close>

lemma simple8b_encode_total:
  "fst (simple8b_encode src dst) = (if \<forall>v\<in>set src. v \<le> S8B_MAX_VALUE then Ok () else Err ''value out of bounds'')"
  by (rule encode_result)

end
