(* ===== verification/Tsm_Key.thy ===== *)
theory Tsm_Key
  imports Tsm_Simple8b "HOL-Library.Sublist"
begin

text \<open>
  The parser of series keys, \<open>influxdb_tsm/src/key.rs\<close>.  A parser is a call whose state is what remains of
  the key.  Bytes are characters, as the code makes them with \<open>byte as char\<close>.  Each of the small state
  machines of the code is a recursive function with the source's states.
\<close>

section \<open>Keys and errors\<close>

type_synonym InfluxId = u64

record ParsedTsmKey =
  org_id :: InfluxId
  bucket_id :: InfluxId
  measurement :: string
  tagset :: "(string \<times> string) list"
  field_key :: string

datatype DataError =
    KeyTooShort
  | NoMeasurement
  | NoFieldKey
  | MultipleMeasurements string string
  | MultipleFields string string
  | ParsingFieldKey string
  | ParsingTsmTagKey string
  | ParsingTsmTagValue string string
  | ParsingTsmFieldKey string

datatype KeyType = Key_Tag string | Key_Measurement | Key_Field

type_synonym 'a parser = "(DataError, string, 'a) call"

abbreviation (input) backslash :: char where "backslash \<equiv> CHR 0x5C"

section \<open>Identifiers\<close>

definition InfluxId_from_be_bytes :: "string \<Rightarrow> InfluxId" where
  "InfluxId_from_be_bytes bs = from_be (map of_char bs)"

fun parse_id_from :: "nat \<Rightarrow> bool \<Rightarrow> string \<Rightarrow> InfluxId parser" where
  "parse_id_from i escaped id' [] = (Err KeyTooShort, [])"
| "parse_id_from i escaped id' (x # key) =
     (if x = backslash \<and> \<not> escaped then parse_id_from i True id' key
      else
        (let id' = id'[i := x]
         in if i \<ge> 7 then (Ok (InfluxId_from_be_bytes id'), key)
            else parse_id_from (i + 1) False id' key))"

definition parse_id :: "InfluxId parser" where
  "parse_id key = parse_id_from 0 False (replicate 8 (CHR 0x00)) key"

section \<open>The field key\<close>

datatype FieldState = FS_Data | FS_Escape | FS_Key1 | FS_Key2 | FS_Key3 | FS_Done

fun FieldState_debug :: "FieldState \<Rightarrow> string" where
  "FieldState_debug FS_Data = ''Data''"
| "FieldState_debug FS_Escape = ''Escape''"
| "FieldState_debug FS_Key1 = ''Key1''"
| "FieldState_debug FS_Key2 = ''Key2''"
| "FieldState_debug FS_Key3 = ''Key3''"
| "FieldState_debug FS_Done = ''Done''"

definition check_next_byte :: "char \<Rightarrow> (DataError, char) res" where
  "check_next_byte byte =
     (if byte = CHR ''='' then Err (ParsingTsmFieldKey (''invalid unescaped '' @ [CHR 0x27, CHR ''='', CHR 0x27]))
      else if byte = CHR '' '' then Err (ParsingTsmFieldKey (''invalid unescaped '' @ [CHR 0x27, CHR '' '', CHR 0x27]))
      else if byte = CHR '','' then Err (ParsingTsmFieldKey (''invalid unescaped '' @ [CHR 0x27, CHR '','', CHR 0x27]))
      else Ok byte)"

definition next_key_state ::
    "char \<Rightarrow> char \<Rightarrow> FieldState \<Rightarrow> string \<Rightarrow> string \<Rightarrow> (DataError, FieldState \<times> string) res" where
  "next_key_state byte next_delim_byte next_delim_state delim_so_far field_name =
     (if byte = next_delim_byte then Ok (next_delim_state, field_name)
      else
        (let field_name = field_name @ delim_so_far
         in if byte = CHR ''#'' then Ok (FS_Key1, field_name)
            else if byte = backslash then Ok (FS_Escape, field_name)
            else res_bind (check_next_byte byte) (\<lambda>c. Ok (FS_Data, field_name @ [c]))))"

text \<open>One iteration of the loop.\<close>

fun field_step :: "FieldState \<Rightarrow> string \<Rightarrow> char \<Rightarrow> (DataError, FieldState \<times> string) res" where
  "field_step FS_Data field_name byte =
     (if byte = CHR ''#'' then Ok (FS_Key1, field_name)
      else if byte = backslash then Ok (FS_Escape, field_name)
      else res_bind (check_next_byte byte) (\<lambda>c. Ok (FS_Data, field_name @ [c])))"
| "field_step FS_Escape field_name byte = Ok (FS_Data, field_name @ [byte])"
| "field_step FS_Key1 field_name byte = next_key_state byte (CHR ''!'') FS_Key2 ''#'' field_name"
| "field_step FS_Key2 field_name byte = next_key_state byte (CHR ''~'') FS_Key3 ''#!'' field_name"
| "field_step FS_Key3 field_name byte = next_key_state byte (CHR ''#'') FS_Done ''#!~'' field_name"
| "field_step FS_Done field_name byte = Ok (FS_Done, field_name)"

definition field_end :: "FieldState \<Rightarrow> string \<Rightarrow> (DataError, string) res" where
  "field_end state field_name =
     (if state = FS_Done \<and> field_name \<noteq> [] then Ok field_name
      else if state = FS_Done then Err (ParsingFieldKey ''field key too short'')
      else Err (ParsingFieldKey
        (''Delimiter not found before end of stream reached. Still in state '' @ FieldState_debug state)))"

fun field_from :: "FieldState \<Rightarrow> string \<Rightarrow> string parser" where
  "field_from state field_name [] = (field_end state field_name, [])"
| "field_from state field_name (byte # rem_key) =
     (case field_step state field_name byte of
        Ok (state, field_name) \<Rightarrow> field_from state field_name rem_key
      | Err e \<Rightarrow> (Err e, rem_key)
      | Panic \<Rightarrow> (Panic, rem_key))"

definition parse_tsm_field_key_value :: "string parser" where
  "parse_tsm_field_key_value rem_key = field_from FS_Data [] rem_key"

section \<open>Tag keys\<close>

datatype TagKeyState = TK_Data | TK_Measurement | TK_Field | TK_Escape

fun tag_key_from :: "TagKeyState \<Rightarrow> string \<Rightarrow> KeyType parser" where
  "tag_key_from state key [] = (Err (ParsingTsmTagKey ''unexpected end of data''), [])"
| "tag_key_from TK_Data key (byte # rem_key) =
     (if byte = CHR 0x00 then tag_key_from TK_Measurement key rem_key
      else if byte = CHR 0xFF then tag_key_from TK_Field key rem_key
      else if byte = CHR ''='' then (Ok (Key_Tag key), rem_key)
      else if byte = CHR '','' then (Err (ParsingTsmTagKey ''unescaped comma''), rem_key)
      else if byte = CHR '' '' then (Err (ParsingTsmTagKey ''unescaped space''), rem_key)
      else if byte = backslash then tag_key_from TK_Escape key rem_key
      else tag_key_from TK_Data (key @ [byte]) rem_key)"
| "tag_key_from TK_Measurement key (byte # rem_key) =
     (if byte = CHR ''='' then (Ok Key_Measurement, rem_key)
      else (Err (ParsingTsmTagKey ''extra data after special 0x00''), rem_key))"
| "tag_key_from TK_Field key (byte # rem_key) =
     (if byte = CHR ''='' then (Ok Key_Field, rem_key)
      else (Err (ParsingTsmTagKey ''extra data after special 0xff''), rem_key))"
| "tag_key_from TK_Escape key (byte # rem_key) = tag_key_from TK_Data (key @ [byte]) rem_key"

definition parse_tsm_tag_key :: "KeyType parser" where
  "parse_tsm_tag_key rem_key = tag_key_from TK_Data [] rem_key"

section \<open>Tag values\<close>

datatype TagValueState = TV_Start | TV_Data | TV_Escape

fun tag_value_from :: "string \<Rightarrow> TagValueState \<Rightarrow> string \<Rightarrow> (bool \<times> string) parser" where
  "tag_value_from tag_key TV_Start tag_value [] = (Err (ParsingTsmTagValue tag_key ''missing tag value''), [])"
| "tag_value_from tag_key TV_Escape tag_value [] = (Err (ParsingTsmTagValue tag_key ''tag value ends in escape''), [])"
| "tag_value_from tag_key TV_Data tag_value [] = (Ok (False, tag_value), [])"
| "tag_value_from tag_key TV_Start tag_value (byte # rem_key) =
     (if byte = CHR ''='' then (Err (ParsingTsmTagValue tag_key (''invalid unescaped '' @ [CHR 0x27, CHR ''='', CHR 0x27])), rem_key)
      else if byte = CHR '' '' then (Err (ParsingTsmTagValue tag_key (''invalid unescaped '' @ [CHR 0x27, CHR '' '', CHR 0x27])), rem_key)
      else if byte = CHR '','' then (Err (ParsingTsmTagValue tag_key ''missing tag value''), rem_key)
      else if byte = backslash then tag_value_from tag_key TV_Escape tag_value rem_key
      else tag_value_from tag_key TV_Data (tag_value @ [byte]) rem_key)"
| "tag_value_from tag_key TV_Data tag_value (byte # rem_key) =
     (if byte = CHR ''='' then (Err (ParsingTsmTagValue tag_key (''invalid unescaped '' @ [CHR 0x27, CHR ''='', CHR 0x27])), rem_key)
      else if byte = CHR '' '' then (Err (ParsingTsmTagValue tag_key (''invalid unescaped '' @ [CHR 0x27, CHR '' '', CHR 0x27])), rem_key)
      else if byte = CHR '','' then (Ok (True, tag_value), rem_key)
      else if byte = backslash then tag_value_from tag_key TV_Escape tag_value rem_key
      else tag_value_from tag_key TV_Data (tag_value @ [byte]) rem_key)"
| "tag_value_from tag_key TV_Escape tag_value (byte # rem_key) = tag_value_from tag_key TV_Data (tag_value @ [byte]) rem_key"

definition parse_tsm_tag_value :: "string \<Rightarrow> (bool \<times> string) parser" where
  "parse_tsm_tag_value tag_key rem_key = tag_value_from tag_key TV_Start [] rem_key"

section \<open>Every step consumes part of the key\<close>

lemma tag_key_from_consumes: "tag_key_from state key s = (Ok k, r) \<Longrightarrow> length r < length s"
  by (induction state key s rule: tag_key_from.induct) (auto split: if_splits)

lemma tag_value_from_consumes: "tag_value_from tag_key state v s = (Ok x, r) \<Longrightarrow> length r \<le> length s"
  by (induction tag_key state v s rule: tag_value_from.induct) (auto split: if_splits)

lemma parse_tsm_tag_key_consumes: "parse_tsm_tag_key s = (Ok k, r) \<Longrightarrow> length r < length s"
  by (simp add: parse_tsm_tag_key_def tag_key_from_consumes)

lemma parse_tsm_tag_value_consumes: "parse_tsm_tag_value tag_key s = (Ok x, r) \<Longrightarrow> length r \<le> length s"
  by (simp add: parse_tsm_tag_value_def tag_value_from_consumes)

section \<open>The whole key\<close>

text \<open>The loop over the tags, with the variables it assigns.\<close>

function key_tags ::
    "(string \<times> string) list \<Rightarrow> string option \<Rightarrow> string option \<Rightarrow> ((string \<times> string) list \<times> string option \<times> string option) parser" where
  "key_tags tags meas field rem_key =
     (case parse_tsm_tag_key rem_key of
        (Ok (Key_Tag tag_key), rem_key) \<Rightarrow>
          (case parse_tsm_tag_value tag_key rem_key of
             (Ok (has_more_tags, tag_value), rem_key) \<Rightarrow>
               if has_more_tags then key_tags (tags @ [(tag_key, tag_value)]) meas field rem_key
               else (Ok (tags @ [(tag_key, tag_value)], meas, field), rem_key)
           | (Err e, rem_key) \<Rightarrow> (Err e, rem_key)
           | (Panic, rem_key) \<Rightarrow> (Panic, rem_key))
      | (Ok Key_Measurement, rem_key) \<Rightarrow>
          (case parse_tsm_tag_value ''Measurement'' rem_key of
             (Ok (has_more_tags, tag_value), rem_key) \<Rightarrow>
               (case meas of
                  Some old \<Rightarrow> (Err (MultipleMeasurements tag_value old), rem_key)
                | None \<Rightarrow>
                    if has_more_tags then key_tags tags (Some tag_value) field rem_key
                    else (Ok (tags, Some tag_value, field), rem_key))
           | (Err e, rem_key) \<Rightarrow> (Err e, rem_key)
           | (Panic, rem_key) \<Rightarrow> (Panic, rem_key))
      | (Ok Key_Field, rem_key) \<Rightarrow>
          if field \<noteq> None then (Panic, rem_key)
          else
            (case parse_tsm_field_key_value rem_key of
               (Ok parsed_value, rem_key) \<Rightarrow>
                 if rem_key \<noteq> [] then (Panic, rem_key) else (Ok (tags, meas, Some parsed_value), rem_key)
             | (Err e, rem_key) \<Rightarrow> (Err e, rem_key)
             | (Panic, rem_key) \<Rightarrow> (Panic, rem_key))
      | (Err e, rem_key) \<Rightarrow> (Err e, rem_key)
      | (Panic, rem_key) \<Rightarrow> (Panic, rem_key))"
  by pat_completeness auto
termination
  by (relation "measure (\<lambda>(tags, meas, field, rem_key). length rem_key)")
    (auto dest!: parse_tsm_tag_key_consumes [OF sym] parse_tsm_tag_value_consumes [OF sym])

declare key_tags.simps [simp del]

definition parse_tsm_key_internal :: "ParsedTsmKey parser" where
  "parse_tsm_key_internal =
     m_bind parse_id (\<lambda>org.
     m_bind parse_id (\<lambda>bucket.
     m_bind (\<lambda>rem_key. (Ok (), tl rem_key)) (\<lambda>_.
     m_bind (key_tags [] None None) (\<lambda>(tags, meas, field).
       case meas of
         None \<Rightarrow> m_lift (Err NoMeasurement)
       | Some meas \<Rightarrow>
           (case field of
              None \<Rightarrow> m_lift (Err NoFieldKey)
            | Some field \<Rightarrow>
                m_return \<lparr>org_id = org, bucket_id = bucket, measurement = meas, tagset = tags, field_key = field\<rparr>)))))"

section \<open>The assertions hold\<close>

lemma field_step_no_panic [simp]: "field_step state name byte \<noteq> Panic"
  by (cases state) (auto simp: next_key_state_def check_next_byte_def Let_def)

lemma field_from_no_panic: "fst (field_from state name s) \<noteq> Panic"
  by (induction state name s rule: field_from.induct) (auto simp: field_end_def split: res.splits)

lemma field_from_rest: "field_from state name s = (Ok v, r) \<Longrightarrow> r = [] \<and> v \<noteq> []"
  by (induction state name s rule: field_from.induct) (auto simp: field_end_def split: res.splits if_splits)

lemma tag_key_from_no_panic: "fst (tag_key_from state key s) \<noteq> Panic"
  by (induction state key s rule: tag_key_from.induct) auto

lemma tag_value_from_no_panic: "fst (tag_value_from tag_key state v s) \<noteq> Panic"
  by (induction tag_key state v s rule: tag_value_from.induct) auto

lemma tag_value_nonempty:
  "tag_value_from tag_key state v s = (Ok (m, w), r) \<Longrightarrow> (state = TV_Data \<Longrightarrow> v \<noteq> []) \<Longrightarrow> w \<noteq> []"
  by (induction tag_key state v s rule: tag_value_from.induct) (auto split: if_splits)

lemma parse_id_no_panic: "fst (parse_id_from i escaped id' s) \<noteq> Panic"
  by (induction i escaped id' s rule: parse_id_from.induct) (auto simp: Let_def)

lemmas no_panics = field_from_no_panic tag_key_from_no_panic tag_value_from_no_panic

lemma parsers_no_panic:
  "parse_tsm_tag_key s \<noteq> (Panic, r)" "parse_tsm_tag_value k s \<noteq> (Panic, r)" "parse_tsm_field_key_value s \<noteq> (Panic, r)" "parse_id s \<noteq> (Panic, r)"
  using no_panics parse_id_no_panic
  by (simp_all add: parse_tsm_tag_key_def parse_tsm_tag_value_def parse_tsm_field_key_value_def parse_id_def) (metis fst_conv)+

lemma field_value_rest: "parse_tsm_field_key_value s = (Ok v, r) \<Longrightarrow> r = [] \<and> v \<noteq> []"
  by (simp add: parse_tsm_field_key_value_def field_from_rest)

lemma tag_value_result: "parse_tsm_tag_value k s = (Ok (m, v), r) \<Longrightarrow> v \<noteq> []"
  unfolding parse_tsm_tag_value_def by (drule tag_value_nonempty) auto

lemma key_tags_no_panic: "field = None \<Longrightarrow> fst (key_tags tags meas field s) \<noteq> Panic"
proof (induction tags meas field s rule: key_tags.induct)
  case (1 tags meas field s)
  then show ?case
    by (subst key_tags.simps)
      (auto simp: parsers_no_panic dest: field_value_rest split: prod.splits res.splits KeyType.splits option.splits)
qed

text \<open>No text of a parsed key is empty, but for the keys of tags.\<close>

definition texts_given :: "(string \<times> string) list \<Rightarrow> string option \<Rightarrow> string option \<Rightarrow> bool" where
  "texts_given tags meas field \<longleftrightarrow> (\<forall>(k, v)\<in>set tags. v \<noteq> []) \<and> meas \<noteq> Some [] \<and> field \<noteq> Some []"

lemma key_tags_given:
  "texts_given tags meas field \<Longrightarrow> key_tags tags meas field s = (Ok (tags', meas', field'), r) \<Longrightarrow> texts_given tags' meas' field'"
proof (induction "length s" arbitrary: s tags meas field rule: less_induct)
  case less
  have IH: "texts_given t m f \<Longrightarrow> key_tags t m f r2 = (Ok (tags', meas', field'), r) \<Longrightarrow> texts_given tags' meas' field'"
    if "parse_tsm_tag_key s = (Ok k, r1)" "parse_tsm_tag_value n r1 = (Ok x, r2)" for k n x r1 r2 t m f
    using less(1) [of r2 t m f] parse_tsm_tag_key_consumes [OF that(1)] parse_tsm_tag_value_consumes [OF that(2)] by linarith
  note eq = less(3) [unfolded key_tags.simps [of tags meas field s]]
  obtain k r1 where p1: "parse_tsm_tag_key s = (Ok k, r1)" using eq by (auto split: prod.split_asm res.split_asm)
  show ?case
  proof (cases k)
    case (Key_Tag n)
    obtain m v r2 where p2: "parse_tsm_tag_value n r1 = (Ok (m, v), r2)" using eq p1 Key_Tag by (auto split: prod.split_asm res.split_asm)
    have "texts_given (tags @ [(n, v)]) meas field" using less(2) tag_value_result [OF p2] by (auto simp: texts_given_def)
    then show ?thesis using IH [OF p1 p2] eq p1 p2 Key_Tag by (cases m) auto
  next
    case Key_Measurement
    obtain m v r2 where p2: "parse_tsm_tag_value ''Measurement'' r1 = (Ok (m, v), r2)" using eq p1 Key_Measurement by (auto split: prod.split_asm res.split_asm)
    have "meas = None" using eq p1 p2 Key_Measurement by (auto split: option.split_asm)
    moreover have "texts_given tags (Some v) field" using less(2) tag_value_result [OF p2] by (auto simp: texts_given_def)
    ultimately show ?thesis using IH [OF p1 p2] eq p1 p2 Key_Measurement by (cases m) auto
  next
    case Key_Field
    then show ?thesis using eq p1 less(2) field_value_rest by (fastforce simp: texts_given_def split: prod.split_asm res.split_asm if_split_asm)
  qed
qed

section \<open>The text of a key\<close>

text \<open>
  The format that the comments of the code describe: commas, equals signs, spaces and backslashes
  are escaped, measurement and field are the values of special tags, and the field stands once more
  after the delimiter, in a form that is not looked at.
\<close>

definition escape :: "string \<Rightarrow> string" where
  "escape s = concat (map (\<lambda>c. if c \<in> {CHR '','', CHR ''='', CHR '' '', backslash} then [backslash, c] else [c]) s)"

definition tags_text :: "(string \<times> string) list \<Rightarrow> string" where
  "tags_text tags = concat (map (\<lambda>(k, v). escape k @ ''='' @ escape v @ '','') tags)"

definition key_text :: "string \<Rightarrow> string \<Rightarrow> string \<Rightarrow> (string \<times> string) list \<Rightarrow> string \<Rightarrow> string \<Rightarrow> string" where
  "key_text org bucket meas tags field tail =
     escape org @ escape bucket @ '','' @ [CHR 0x00, CHR ''=''] @ escape meas @ '','' @ tags_text tags
     @ [CHR 0xFF, CHR ''=''] @ escape field @ ''#!~#'' @ tail"

lemma escape_simps [simp]:
  "escape [] = []"
  "escape (c # s) = (if c \<in> {CHR '','', CHR ''='', CHR '' '', backslash} then backslash # c # escape s else c # escape s)"
  by (simp_all add: escape_def)

lemma parse_id_text:
  "i + length xs = 8 \<Longrightarrow> xs \<noteq> [] \<Longrightarrow> length id' = 8 \<Longrightarrow>
   parse_id_from i False id' (escape xs @ rest) = (Ok (InfluxId_from_be_bytes (take i id' @ xs)), rest)"
proof (induction xs arbitrary: i id')
  case (Cons x xs)
  have upd: "take (Suc i) (id'[i := x]) = take i id' @ [x]" using Cons.prems by (simp add: take_Suc_conv_app_nth)
  show ?case
  proof (cases "xs = []")
    case True
    then have "i = 7" using Cons.prems by simp
    then have "id'[i := x] = take i id' @ [x]" using upd Cons.prems(3) by simp
    then show ?thesis using True \<open>i = 7\<close> by (simp add: Let_def)
  next
    case False
    then have "i < 7" using Cons.prems by (cases xs) auto
    moreover have "parse_id_from (i + 1) False (id'[i := x]) (escape xs @ rest) = (Ok (InfluxId_from_be_bytes (take (i + 1) (id'[i := x]) @ xs)), rest)"
      using Cons.prems False by (intro Cons.IH) simp_all
    ultimately show ?thesis using upd by (simp add: Let_def)
  qed
qed simp

lemma tag_key_text:
  "CHR 0x00 \<notin> set k \<Longrightarrow> CHR 0xFF \<notin> set k \<Longrightarrow> tag_key_from TK_Data acc (escape k @ CHR ''='' # rest) = (Ok (Key_Tag (acc @ k)), rest)"
  by (induction k arbitrary: acc) auto

lemma tag_value_text: "tag_value_from tag_key TV_Data acc (escape v @ CHR '','' # rest) = (Ok (True, acc @ v), rest)"
  by (induction v arbitrary: acc) auto

lemma parse_tag_value_text: "v \<noteq> [] \<Longrightarrow> parse_tsm_tag_value tag_key (escape v @ CHR '','' # rest) = (Ok (True, v), rest)"
  using tag_value_text [of tag_key "[hd v]" "tl v" rest] by (cases v) (auto simp: parse_tsm_tag_value_def)

section \<open>The delimiter of the field\<close>

text \<open>The part of the delimiter that a state has seen.\<close>

fun pending :: "FieldState \<Rightarrow> string" where
  "pending FS_Key1 = ''#''"
| "pending FS_Key2 = ''#!''"
| "pending FS_Key3 = ''#!~''"
| "pending _ = []"

text \<open>Where a character of the field leads, from a state that is not inside an escape.\<close>

fun after_char :: "FieldState \<Rightarrow> string \<Rightarrow> char \<Rightarrow> FieldState \<times> string" where
  "after_char FS_Key1 name c =
     (if c = CHR ''!'' then (FS_Key2, name) else if c = CHR ''#'' then (FS_Key1, name @ ''#'') else (FS_Data, name @ ''#'' @ [c]))"
| "after_char FS_Key2 name c =
     (if c = CHR ''~'' then (FS_Key3, name) else if c = CHR ''#'' then (FS_Key1, name @ ''#!'') else (FS_Data, name @ ''#!'' @ [c]))"
| "after_char FS_Key3 name c = (FS_Data, name @ ''#!~'' @ [c])"
| "after_char state name c = (if c = CHR ''#'' then (FS_Key1, name) else (FS_Data, name @ [c]))"

definition reading :: "FieldState \<Rightarrow> bool" where
  "reading state \<longleftrightarrow> state \<noteq> FS_Escape \<and> state \<noteq> FS_Done"

lemma after_char_text: "reading state \<Longrightarrow> after_char state name c = (state', name') \<Longrightarrow> reading state' \<and> name' @ pending state' = name @ pending state @ [c]"
  by (cases state) (auto simp: reading_def split: if_splits)

lemma field_from_char:
  assumes "reading state" and "\<not> (state = FS_Key3 \<and> c = CHR ''#'')" and "after_char state name c = (state', name')"
  shows "field_from state name (escape [c] @ s) = field_from state' name' s"
  using assms by (cases state) (auto simp: reading_def next_key_state_def check_next_byte_def Let_def split: if_splits)

lemma field_from_done: "field_from FS_Done name s = (field_end FS_Done name, [])"
  by (induction s) simp_all

lemma field_from_text:
  assumes "name @ pending state @ f \<noteq> []"
  shows "reading state \<Longrightarrow> \<not> sublist ''#!~#'' (name @ pending state @ f @ ''#'') \<Longrightarrow>
    field_from state name (escape f @ ''#!~#'' @ tail) = (Ok (name @ pending state @ f), [])"
  using assms
proof (induction f arbitrary: state name)
  case Nil
  have "state \<noteq> FS_Key3"
  proof
    assume "state = FS_Key3"
    then have "name @ pending state @ [] @ ''#'' = name @ ''#!~#'' @ []" by simp
    then show False using Nil.prems(2) unfolding sublist_def by blast
  qed
  then show ?case using Nil.prems
    by (cases state) (auto simp: reading_def next_key_state_def Let_def field_from_done field_end_def)
next
  case (Cons c f)
  have "\<not> (state = FS_Key3 \<and> c = CHR ''#'')"
  proof
    assume "state = FS_Key3 \<and> c = CHR ''#''"
    then have "name @ pending state @ (c # f) @ ''#'' = name @ ''#!~#'' @ f @ ''#''" by simp
    then show False using Cons.prems(2) unfolding sublist_def by blast
  qed
  moreover obtain state' name' where nxt: "after_char state name c = (state', name')" by (cases "after_char state name c") auto
  ultimately have step: "field_from state name (escape [c] @ escape f @ ''#!~#'' @ tail) = field_from state' name' (escape f @ ''#!~#'' @ tail)"
    using Cons.prems(1) by (intro field_from_char)
  have body: "reading state'" "name' @ pending state' = name @ pending state @ [c]" using after_char_text [OF Cons.prems(1) nxt] by simp_all
  then have all: "name' @ pending state' @ g = name @ pending state @ c # g" for g by (metis append.assoc append_Cons append_Nil)
  have "field_from state' name' (escape f @ ''#!~#'' @ tail) = (Ok (name' @ pending state' @ f), [])"
    using Cons.prems body(1) by (intro Cons.IH) (simp_all add: all)
  then show ?case using step by (cases "c \<in> {CHR '','', CHR ''='', CHR '' '', backslash}") (simp_all add: all)
qed

lemma key_tags_text:
  assumes "\<forall>(k, v)\<in>set tags. CHR 0x00 \<notin> set k \<and> CHR 0xFF \<notin> set k \<and> v \<noteq> []"
  shows "key_tags ts meas None (tags_text tags @ rest) = key_tags (ts @ tags) meas None rest"
  using assms
proof (induction tags arbitrary: ts)
  case (Cons t tags)
  obtain k v where t: "t = (k, v)" by (cases t)
  let ?s = "tags_text tags @ rest"
  have "tags_text (t # tags) @ rest = escape k @ CHR ''='' # escape v @ CHR '','' # ?s" by (simp add: tags_text_def t)
  moreover have "parse_tsm_tag_key (escape k @ CHR ''='' # escape v @ CHR '','' # ?s) = (Ok (Key_Tag k), escape v @ CHR '','' # ?s)"
    using tag_key_text [of k "[]"] Cons.prems by (simp add: parse_tsm_tag_key_def t)
  moreover have "parse_tsm_tag_value k (escape v @ CHR '','' # ?s) = (Ok (True, v), ?s)"
    using Cons.prems by (intro parse_tag_value_text) (simp add: t)
  moreover have "key_tags (ts @ [(k, v)]) meas None ?s = key_tags ((ts @ [(k, v)]) @ tags) meas None rest"
    using Cons.prems by (intro Cons.IH) simp
  ultimately show ?case by (subst key_tags.simps) (simp add: t)
qed (simp add: tags_text_def)

section \<open>Correctness of the parser\<close>

text \<open>
  C16. Parsing inverts printing: from the text of a key, with any escapable characters in its parts, the
  parser returns the identifiers, the measurement, the tags in order and the field, and leaves
  nothing.  Keys of tags must not contain the two special bytes, and the field must not form the
  delimiter before its end.
\<close>

theorem parse_tsm_key_roundtrip:
  assumes "length org = 8" and "length bucket = 8" and "meas \<noteq> []" and "field \<noteq> []"
    and "\<forall>(k, v)\<in>set tags. CHR 0x00 \<notin> set k \<and> CHR 0xFF \<notin> set k \<and> v \<noteq> []"
    and "\<not> sublist ''#!~#'' (field @ ''#'')"
  shows "parse_tsm_key_internal (key_text org bucket meas tags field tail) =
    (Ok \<lparr>org_id = InfluxId_from_be_bytes org, bucket_id = InfluxId_from_be_bytes bucket,
         measurement = meas, tagset = tags, field_key = field\<rparr>, [])"
proof -
  define s3 where "s3 = [CHR 0xFF, CHR ''=''] @ escape field @ ''#!~#'' @ tail"
  define s2 where "s2 = [CHR 0x00, CHR ''=''] @ escape meas @ CHR '','' # tags_text tags @ s3"
  have body: "key_text org bucket meas tags field tail = escape org @ escape bucket @ CHR '','' # s2" by (simp add: key_text_def s2_def s3_def)
  have id': "parse_id (escape xs @ rest) = (Ok (InfluxId_from_be_bytes xs), rest)" if "length xs = 8" for xs rest
    using parse_id_text [of 0 xs "replicate 8 (CHR 0x00)" rest] that by (cases xs) (simp_all add: parse_id_def)
  have "parse_tsm_field_key_value (escape field @ ''#!~#'' @ tail) = (Ok field, [])"
    using field_from_text [of "[]" FS_Data field tail] assms(4,6) by (simp add: parse_tsm_field_key_value_def reading_def)
  then have "key_tags tags (Some meas) None s3 = (Ok (tags, Some meas, Some field), [])"
    by (subst key_tags.simps) (simp add: s3_def parse_tsm_tag_key_def)
  then have "key_tags [] (Some meas) None (tags_text tags @ s3) = (Ok (tags, Some meas, Some field), [])"
    using key_tags_text [OF assms(5)] by simp
  then have "key_tags [] None None s2 = (Ok (tags, Some meas, Some field), [])"
    using parse_tag_value_text [OF assms(3)] by (subst key_tags.simps) (simp add: s2_def parse_tsm_tag_key_def)
  then show ?thesis unfolding body by (simp add: parse_tsm_key_internal_def id' assms(1,2) m_bind_def m_return_def)
qed

theorem parse_tsm_key_roundtrip_witness:
  "parse_tsm_key_internal (key_text ''12345678'' ''8765=321'' ''cpu load'' [(''host'', ''a,b''), (''x y'', ''1'')] ''sum#2'' ''sum'') =
    (Ok \<lparr>org_id = InfluxId_from_be_bytes ''12345678'', bucket_id = InfluxId_from_be_bytes ''8765=321'',
         measurement = ''cpu load'', tagset = [(''host'', ''a,b''), (''x y'', ''1'')], field_key = ''sum#2''\<rparr>, [])"
  by (rule parse_tsm_key_roundtrip) (simp_all add: sublist_Cons_right)

text \<open>
  C20. The parser always ends without a panic: its two assertions never fail.  When it returns a key,
  the measurement, the field and the values of all tags are not empty.
\<close>

theorem parse_tsm_key_total:
  "fst (parse_tsm_key_internal key) \<noteq> Panic
   \<and> (\<forall>k. fst (parse_tsm_key_internal key) = Ok k \<longrightarrow> measurement k \<noteq> [] \<and> field_key k \<noteq> [] \<and> (\<forall>(t, v)\<in>set (tagset k). v \<noteq> []))"
proof -
  have "key_tags [] None None s \<noteq> (Panic, r)" for s r using key_tags_no_panic [of None "[]" None s] by auto
  moreover have "texts_given t m f" if "key_tags [] None None s = (Ok (t, m, f), r)" for s t m f r
    using that by (rule key_tags_given [rotated]) (simp add: texts_given_def)
  ultimately show ?thesis
    by (fastforce simp: parse_tsm_key_internal_def m_bind_def m_lift_def m_return_def parsers_no_panic texts_given_def
        split: prod.splits res.splits option.splits)
qed

theorem parse_tsm_key_total_witness:
  "fst (parse_tsm_key_internal ''12345678'') \<noteq> Panic \<and> fst (parse_tsm_key_internal ''12345678'') = Err KeyTooShort"
  using parse_tsm_key_total [of "''12345678''"] by (simp add: parse_tsm_key_internal_def parse_id_def m_bind_def Let_def)

end
