(* ===== verification/Tsm_Integer.thy ===== *)
theory Tsm_Integer
  imports Tsm_Simple8b
begin

text \<open>
  The block encoders for signed and unsigned integers, \<open>influxdb_tsm/src/encoders/integer.rs\<close> and
  \<open>unsigned.rs\<close>: zig-zag encoded deltas, written as a run, packed with simple8b, or as they are.  Integers
  are 64-bit words; an addition that the code does not wrap panics when it overflows.  The variable
  length integers of the crate \<open>integer_encoding\<close> are the parameters \<open>encode_var\<close> and \<open>decode_var\<close>.
\<close>

type_synonym i64 = "64 word"

section \<open>Zig-zag encoding\<close>

definition zig_zag_encode :: "i64 \<Rightarrow> u64" where
  "zig_zag_encode v = push_bit 1 v XOR signed_drop_bit 63 v"

definition zig_zag_decode :: "u64 \<Rightarrow> i64" where
  "zig_zag_decode v = drop_bit 1 v XOR signed_drop_bit 63 (push_bit 63 (v AND 1))"

text \<open>\<open>+=\<close> on \<open>i64\<close>: \<open>None\<close> on overflow.\<close>

definition i64_add :: "i64 \<Rightarrow> i64 \<Rightarrow> i64 option" where
  "i64_add a b = (if is_i64 (sint a + sint b) then Some (a + b) else None)"

section \<open>Encoding\<close>

definition MAX_VAR_INT_64 :: nat where "MAX_VAR_INT_64 = 10"

definition buf_resize :: "nat \<Rightarrow> byte list \<Rightarrow> byte list" where
  "buf_resize n dst = take n dst @ replicate (n - length dst) 0"

text \<open>\<open>v.encode_var(&mut dst[n..])\<close>, which needs room for the bytes and returns their number.\<close>

definition put_var :: "(u64 \<Rightarrow> byte list) \<Rightarrow> u64 \<Rightarrow> nat \<Rightarrow> byte list \<Rightarrow> (nat \<times> byte list) option" where
  "put_var encode_var v n dst =
     (let bs = encode_var v
      in if n + length bs \<le> length dst then Some (n + length bs, take n dst @ bs @ drop (n + length bs) dst) else None)"

definition reserve_var :: "nat \<Rightarrow> byte list \<Rightarrow> byte list" where
  "reserve_var n dst = (if length dst - n \<le> MAX_VAR_INT_64 then buf_resize (n + MAX_VAR_INT_64) dst else dst)"

definition integer_encode_rle :: "(u64 \<Rightarrow> byte list) \<Rightarrow> u64 \<Rightarrow> u64 \<Rightarrow> u64 \<Rightarrow> byte list \<Rightarrow> byte list option" where
  "integer_encode_rle encode_var v delta cnt dst =
     (let dst = dst @ [0] @ be_bytes v; n = 9
      in Option.bind (put_var encode_var delta n (reserve_var n dst)) (\<lambda>(n, dst).
         Option.bind (put_var encode_var cnt n (reserve_var n dst)) (\<lambda>(n, dst).
           Some (take n dst))))"

text \<open>The loop over the deltas goes from the end, so that it still finds the value before.\<close>

definition integer_deltas :: "i64 list \<Rightarrow> u64 list" where
  "integer_deltas src = zig_zag_encode (hd src) # map2 (\<lambda>a b. zig_zag_encode (b - a)) src (tl src)"

definition max_delta :: "u64 list \<Rightarrow> u64" where
  "max_delta ds = foldr (\<lambda>d m. if d > m then d else m) ds 0"

definition integer_encode :: "(u64 \<Rightarrow> byte list) \<Rightarrow> i64 list \<Rightarrow> (string, unit) res \<times> byte list" where
  "integer_encode encode_var src =
     (if src = [] then (Ok (), [])
      else
        (let deltas = integer_deltas src
         in if length deltas > 2 \<and> (\<forall>d\<in>set (drop 2 deltas). deltas ! 1 = d)
            then (case integer_encode_rle encode_var (deltas ! 0) (deltas ! 1) (of_nat (length deltas) - 1) [] of
                    Some dst \<Rightarrow> (Ok (), dst[0 := dst ! 0 OR push_bit 4 2])
                  | None \<Rightarrow> (Panic, []))
            else if max_delta (tl deltas) > S8B_MAX_VALUE
            then (Ok (), [push_bit 4 0] @ concat (map be_bytes deltas))
            else simple8b_encode (tl deltas) ([push_bit 4 1] @ be_bytes (deltas ! 0))))"

section \<open>Decoding\<close>

fun uncompressed_from :: "byte list \<Rightarrow> nat \<Rightarrow> i64 \<Rightarrow> i64 list" where
  "uncompressed_from src 0 prev = []"
| "uncompressed_from src (Suc k) prev =
     (let prev = prev + zig_zag_decode (from_be (take 8 src)) in prev # uncompressed_from (drop 8 src) k prev)"

definition integer_decode_uncompressed :: "byte list \<Rightarrow> i64 list \<Rightarrow> (string, unit) res \<times> i64 list" where
  "integer_decode_uncompressed src dst =
     (if src = [] \<or> length src mod 8 \<noteq> 0 then (Err ''invalid uncompressed block length'', dst)
      else (Ok (), dst @ uncompressed_from src (length src div 8) 0))"

fun repeat_delta :: "nat \<Rightarrow> i64 \<Rightarrow> i64 \<Rightarrow> i64 list" where
  "repeat_delta 0 delta first = []"
| "repeat_delta (Suc k) delta first = (first + delta) # repeat_delta k delta (first + delta)"

definition integer_decode_rle :: "(byte list \<Rightarrow> (u64 \<times> nat) option) \<Rightarrow> byte list \<Rightarrow> i64 list \<Rightarrow> (string, unit) res \<times> i64 list" where
  "integer_decode_rle decode_var src dst =
     (if length src < 8 then (Err ''not enough data to decode using RLE'', dst)
      else
        (case decode_var (drop 8 src) of
           None \<Rightarrow> (Err ''unable to decode delta'', dst)
         | Some (delta, n) \<Rightarrow>
             if 8 + n > length src then (Panic, dst)
             else
               (case decode_var (drop (8 + n) src) of
                  None \<Rightarrow> (Err ''unable to decode count'', dst)
                | Some (cnt, _) \<Rightarrow>
                    (let first = zig_zag_decode (from_be (take 8 src))
                     in (Ok (), dst @ [first] @ repeat_delta (unat cnt) (zig_zag_decode delta) first)))))"

fun add_deltas :: "u64 list \<Rightarrow> i64 \<Rightarrow> i64 list option" where
  "add_deltas [] next' = Some []"
| "add_deltas (v # vs) next' =
     Option.bind (i64_add next' (zig_zag_decode v)) (\<lambda>next'. map_option ((#) next') (add_deltas vs next'))"

definition integer_decode_simple8b :: "byte list \<Rightarrow> i64 list \<Rightarrow> (string, unit) res \<times> i64 list" where
  "integer_decode_simple8b src dst =
     (if length src < 8 then (Err ''not enough data to decode packed integer.'', dst)
      else
        (let dst = dst @ [zig_zag_decode (from_be (take 8 src))]
         in case Option.bind (simple8b_decode (drop 8 src) []) (\<lambda>res. add_deltas res (dst ! 0)) of
              Some vs \<Rightarrow> (Ok (), dst @ vs)
            | None \<Rightarrow> (Panic, dst)))"

definition integer_decode :: "(byte list \<Rightarrow> (u64 \<times> nat) option) \<Rightarrow> byte list \<Rightarrow> i64 list \<Rightarrow> (string, unit) res \<times> i64 list" where
  "integer_decode decode_var src dst =
     (if src = [] then (Ok (), dst)
      else
        (let encoding = drop_bit 4 (hd src)
         in if encoding = 0 then integer_decode_uncompressed (tl src) dst
            else if encoding = 2 then integer_decode_rle decode_var (tl src) dst
            else if encoding = 1 then integer_decode_simple8b (tl src) dst
            else (Err ''invalid block encoding'', dst)))"

section \<open>Unsigned integers\<close>

definition unsigned_encode :: "(u64 \<Rightarrow> byte list) \<Rightarrow> u64 list \<Rightarrow> (string, unit) res \<times> byte list" where
  "unsigned_encode encode_var src = integer_encode encode_var src"

text \<open>
  \<open>capacity\<close> is that of the target, from which the code subtracts without a check.  The
  capacity of a vector that was made with room for a number of values is taken to be that number.
\<close>

definition unsigned_decode ::
    "(byte list \<Rightarrow> (u64 \<times> nat) option) \<Rightarrow> nat \<Rightarrow> byte list \<Rightarrow> u64 list \<Rightarrow> (string, unit) res \<times> u64 list" where
  "unsigned_decode decode_var capacity src dst =
     (if src = [] then (Ok (), dst)
      else
        (case integer_decode decode_var src [] of
           (Ok _, signed_results) \<Rightarrow>
             if capacity > length signed_results then (Panic, []) else (Ok (), signed_results)
         | (Err e, _) \<Rightarrow> (Err e, dst)
         | (Panic, _) \<Rightarrow> (Panic, dst)))"

section \<open>Zig-zag encoding can be undone\<close>

lemma bit_zig_zag_encode: "n < 64 \<Longrightarrow> bit (zig_zag_encode v) n \<longleftrightarrow> (0 < n \<and> bit v (n - 1)) \<noteq> bit v 63"
  unfolding zig_zag_encode_def bit_xor_iff bit_push_bit_iff bit_signed_drop_bit_iff by (cases n) auto

lemma bit_zig_zag_decode: "n < 64 \<Longrightarrow> bit (zig_zag_decode z) n \<longleftrightarrow> (n < 63 \<and> bit z (n + 1)) \<noteq> bit z 0"
  unfolding zig_zag_decode_def bit_xor_iff bit_drop_bit_eq bit_signed_drop_bit_iff bit_push_bit_iff bit_and_iff
  by (cases n) (auto simp: bit_1_iff dest: bit_imp_le_length)

lemma zig_zag_roundtrip [simp]: "zig_zag_decode (zig_zag_encode v) = v"
proof (rule bit_word_eqI)
  fix n assume "n < LENGTH(64)"
  then have n: "n < 64" by simp
  then have "n < 63 \<or> n = 63" by auto
  with n show "bit (zig_zag_decode (zig_zag_encode v)) n = bit v n"
    by (auto simp: bit_zig_zag_decode bit_zig_zag_encode)
qed

lemma i64_add_diff:
  assumes "is_i64 (sint b - sint a)"
  shows "i64_add a (b - a) = Some b"
proof -
  have "sint (b - a) = signed_take_bit 63 (sint b - sint a)" by (simp add: sint_word_diff)
  also have "\<dots> = sint b - sint a" using assms by (intro signed_take_bit_int_eq_self) (simp_all add: is_i64_def i64_min_def i64_max_def)
  finally have "sint a + sint (b - a) = sint b" by simp
  moreover have "is_i64 (sint b)" using sint_range_size [of b] by (simp add: is_i64_def i64_min_def i64_max_def word_size)
  ultimately show ?thesis by (simp add: i64_add_def)
qed

lemma is_i64_sint: "is_i64 (sint (a :: i64))"
  using sint_range_size [of a] by (simp add: is_i64_def i64_min_def i64_max_def word_size)

lemma i64_add_overflow:
  assumes "\<not> is_i64 (sint b - sint a)"
  shows "i64_add a (b - a) = None"
proof (rule ccontr)
  assume "i64_add a (b - a) \<noteq> None"
  then have "is_i64 (sint a + sint (b - a))" by (auto simp: i64_add_def split: if_splits)
  then have "signed_take_bit 63 (sint a + sint (b - a)) = sint a + sint (b - a)"
    by (intro signed_take_bit_int_eq_self) (simp_all add: is_i64_def i64_min_def i64_max_def)
  then have "sint (a + (b - a)) = sint a + sint (b - a)" unfolding sint_word_add by simp
  then show False using assms is_i64_sint [of "b - a"] by simp
qed

section \<open>Each of the three forms can be undone\<close>

text \<open>The difference between neighbours fits into an \<open>i64\<close>.\<close>

fun steps_fit :: "i64 list \<Rightarrow> bool" where
  "steps_fit (a # b # xs) = (is_i64 (sint b - sint a) \<and> steps_fit (b # xs))"
| "steps_fit _ = True"

abbreviation deltas_of :: "i64 \<Rightarrow> i64 list \<Rightarrow> u64 list" where
  "deltas_of x xs \<equiv> map2 (\<lambda>a b. zig_zag_encode (b - a)) (x # xs) xs"

lemma add_deltas_of: "steps_fit (x # xs) \<Longrightarrow> add_deltas (deltas_of x xs) x = Some xs"
proof (induction xs arbitrary: x)
  case (Cons y ys)
  then show ?case by (simp add: i64_add_diff)
qed simp

lemma add_deltas_overflow: "\<not> steps_fit (x # xs) \<Longrightarrow> add_deltas (deltas_of x xs) x = None"
proof (induction xs arbitrary: x)
  case (Cons y ys)
  then show ?case by (cases "is_i64 (sint y - sint x)") (simp_all add: i64_add_diff i64_add_overflow)
qed simp

lemma uncompressed_deltas_of: "uncompressed_from (concat (map be_bytes (deltas_of x xs))) (length xs) x = xs"
proof (induction xs arbitrary: x)
  case (Cons y ys)
  then show ?case by simp
qed simp

lemma repeat_deltas_of:
  assumes "\<forall>d'\<in>set (deltas_of x xs). d' = d"
  shows "repeat_delta (length xs) (zig_zag_decode d) x = xs"
  using assms
proof (induction xs arbitrary: x)
  case (Cons y ys)
  then have "x + zig_zag_decode d = y" by (auto simp: algebra_simps)
  with Cons show ?case by simp
qed simp

text \<open>
  What is assumed of the variable length integers: at most ten bytes, which are read back whatever
  follows them.
\<close>

definition varint_codec :: "(u64 \<Rightarrow> byte list) \<Rightarrow> (byte list \<Rightarrow> (u64 \<times> nat) option) \<Rightarrow> bool" where
  "varint_codec encode_var decode_var \<longleftrightarrow>
     (\<forall>v rest. decode_var (encode_var v @ rest) = Some (v, length (encode_var v)) \<and> length (encode_var v) \<le> MAX_VAR_INT_64)"

lemma put_reserved:
  assumes "n \<le> length dst" and "length (encode_var v) \<le> MAX_VAR_INT_64"
  shows "\<exists>dst'. put_var encode_var v n (reserve_var n dst) = Some (n + length (encode_var v), dst')
    \<and> take (n + length (encode_var v)) dst' = take n dst @ encode_var v \<and> n + length (encode_var v) \<le> length dst'"
proof -
  have len: "n + length (encode_var v) \<le> length (reserve_var n dst)" and pre: "take n (reserve_var n dst) = take n dst"
    using assms by (auto simp: reserve_var_def buf_resize_def min_def)
  then show ?thesis using assms by (simp add: put_var_def Let_def)
qed

lemma integer_encode_rle_bytes:
  assumes "varint_codec encode_var decode_var"
  shows "integer_encode_rle encode_var v delta cnt [] = Some ([0] @ be_bytes v @ encode_var delta @ encode_var cnt)"
proof -
  have short: "length (encode_var w) \<le> MAX_VAR_INT_64" for w using assms by (simp add: varint_codec_def)
  let ?dst = "[] @ [0] @ be_bytes v"
  obtain d1 where d1: "put_var encode_var delta 9 (reserve_var 9 ?dst) = Some (9 + length (encode_var delta), d1)"
    "take (9 + length (encode_var delta)) d1 = take 9 ?dst @ encode_var delta" "9 + length (encode_var delta) \<le> length d1"
    using put_reserved [of 9 ?dst encode_var delta] short by auto
  obtain d2 where d2: "put_var encode_var cnt (9 + length (encode_var delta)) (reserve_var (9 + length (encode_var delta)) d1) = Some (9 + length (encode_var delta) + length (encode_var cnt), d2)"
    "take (9 + length (encode_var delta) + length (encode_var cnt)) d2 = take (9 + length (encode_var delta)) d1 @ encode_var cnt"
    using put_reserved [of "9 + length (encode_var delta)" d1 encode_var cnt] d1(3) short by auto
  show ?thesis unfolding integer_encode_rle_def Let_def d1(1) by (simp add: d2 d1(2))
qed

lemma max_delta_le: "d \<in> set ds \<Longrightarrow> d \<le> max_delta ds"
proof -
  have step: "max_delta (x # xs) = (if x > max_delta xs then x else max_delta xs)" for x xs by (simp add: max_delta_def)
  show "d \<in> set ds \<Longrightarrow> d \<le> max_delta ds"
  proof (induction ds)
    case (Cons x xs)
    then show ?case by (cases "x > max_delta xs") (auto simp: step not_less dest: less_imp_le order_trans)
  qed simp
qed

lemma decode_uncompressed_block:
  "integer_decode_uncompressed (concat (map be_bytes (integer_deltas (x # xs)))) dst = (Ok (), dst @ x # xs)"
proof -
  have len: "length (concat (map be_bytes ds)) = 8 * length ds" for ds by (induction ds) simp_all
  have "integer_deltas (x # xs) = zig_zag_encode x # deltas_of x xs" by (simp add: integer_deltas_def)
  then show ?thesis
    using uncompressed_deltas_of [of x xs] len [of "integer_deltas (x # xs)"] len [of "deltas_of x xs"]
    by (simp add: integer_decode_uncompressed_def)
qed

lemma decode_rle_block:
  assumes "varint_codec encode_var decode_var" and "\<forall>d'\<in>set (deltas_of x xs). d' = d" and "length xs < 2 ^ 64"
  shows "integer_decode_rle decode_var (be_bytes (zig_zag_encode x) @ encode_var d @ encode_var (of_nat (length xs))) dst = (Ok (), dst @ x # xs)"
proof -
  have v: "decode_var (encode_var w @ rest) = Some (w, length (encode_var w))" for w rest using assms(1) by (simp add: varint_codec_def)
  have "decode_var (encode_var (of_nat (length xs))) = Some (of_nat (length xs), length (encode_var (of_nat (length xs))))"
    using v [of "of_nat (length xs)" "[]"] by simp
  moreover have "take_bit 64 (length xs) = length xs" using assms(3) by (rule take_bit_nat_eq_self)
  then have "unat (of_nat (length xs) :: u64) = length xs" by (simp add: unsigned_of_nat)
  ultimately show ?thesis
    using repeat_deltas_of [OF assms(2)] by (simp add: integer_decode_rle_def v)
qed

lemma decode_simple8b_block:
  assumes "simple8b_encode (deltas_of x xs) dst = (Ok (), dst @ bs)"
  shows "integer_decode_simple8b (be_bytes (zig_zag_encode x) @ bs) [] = (if steps_fit (x # xs) then (Ok (), x # xs) else (Panic, [x]))"
proof -
  obtain ws where "bs = concat (map be_bytes ws)" "concat (map decode_value ws) = deltas_of x xs" using encode_words [OF assms(1)] by auto
  then have "simple8b_decode bs [] = Some (deltas_of x xs)" using decode_words [of 0 "[]" ws] by (simp add: simple8b_decode_def)
  then show ?thesis using add_deltas_of [of x xs] add_deltas_overflow [of x xs] by (simp add: integer_decode_simple8b_def)
qed

definition all_equal :: "u64 list \<Rightarrow> bool" where
  "all_equal ds \<longleftrightarrow> 1 < length ds \<and> (\<forall>d\<in>set (drop 1 ds). hd ds = d)"

lemma all_equalD: "all_equal ds \<Longrightarrow> \<forall>d\<in>set ds. d = hd ds"
  by (cases ds) (auto simp: all_equal_def)

lemma integer_encode_Cons:
  assumes "varint_codec encode_var decode_var"
  shows "integer_encode encode_var (x # xs) =
    (if all_equal (deltas_of x xs)
     then (Ok (), 32 # be_bytes (zig_zag_encode x) @ encode_var (hd (deltas_of x xs)) @ encode_var (of_nat (length xs)))
     else if max_delta (deltas_of x xs) > S8B_MAX_VALUE then (Ok (), 0 # concat (map be_bytes (integer_deltas (x # xs))))
     else simple8b_encode (deltas_of x xs) (16 # be_bytes (zig_zag_encode x)))"
proof -
  define ds where "ds = deltas_of x xs"
  have deltas: "integer_deltas (x # xs) = zig_zag_encode x # ds" by (simp add: integer_deltas_def ds_def)
  have cnt: "of_nat (length (integer_deltas (x # xs))) - 1 = (of_nat (length xs) :: u64)" by (simp add: integer_deltas_def)
  have eq: "length (integer_deltas (x # xs)) > 2 \<and> (\<forall>d\<in>set (drop 2 (integer_deltas (x # xs))). integer_deltas (x # xs) ! 1 = d) \<longleftrightarrow> all_equal ds"
    by (cases ds) (auto simp: deltas all_equal_def)
  show ?thesis
  proof (cases "all_equal ds")
    case True
    then have "integer_deltas (x # xs) ! 1 = hd ds" by (cases ds) (auto simp: deltas all_equal_def)
    then show ?thesis
      using True unfolding integer_encode_def Let_def eq cnt ds_def [symmetric]
      by (simp add: integer_encode_rle_bytes [OF assms]) (simp add: deltas)
  next
    case False
    then show ?thesis unfolding integer_encode_def Let_def eq ds_def [symmetric] by (simp add: deltas)
  qed
qed

section \<open>A codec for variable length integers\<close>

text \<open>
  LEB128, the format of the crate: seven bits in a byte, from the lowest, and the top bit of a byte says
  that another one follows.  It satisfies what is assumed above.
\<close>

function leb_encode :: "u64 \<Rightarrow> byte list" where
  "leb_encode v = (if v < 128 then [ucast v] else (ucast v OR 128) # leb_encode (drop_bit 7 v))"
  by pat_completeness auto
termination
proof (relation "measure unat")
  fix v :: u64 assume "\<not> v < 128"
  then have "128 \<le> unat v" by (simp add: not_less word_le_nat_alt)
  then have "unat v div 128 < unat v" by simp
  moreover have "unat (drop_bit 7 v) = unat v div 128" by (simp add: drop_bit_eq_div unat_div)
  ultimately show "(drop_bit 7 v, v) \<in> measure unat" by simp
qed simp

declare leb_encode.simps [simp del]

fun leb_decode_from :: "nat \<Rightarrow> u64 \<Rightarrow> nat \<Rightarrow> byte list \<Rightarrow> (u64 \<times> nat) option" where
  "leb_decode_from shift acc n [] = None"
| "leb_decode_from shift acc n (b # bs) =
     (let acc = acc OR push_bit shift (ucast (b AND 127))
      in if b < 128 then Some (acc, n + 1) else leb_decode_from (shift + 7) acc (n + 1) bs)"

definition leb_decode :: "byte list \<Rightarrow> (u64 \<times> nat) option" where
  "leb_decode bs = leb_decode_from 0 0 0 bs"

lemma mask_seven: "(127 :: byte) = mask 7" "(128 :: byte) = push_bit 7 1"
  by (simp_all add: mask_eq_exp_minus_1)

lemma low_seven: "ucast ((ucast v :: byte) AND 127) = (take_bit 7 v :: u64)"
  unfolding mask_seven by (rule bit_word_eqI) (auto simp: bit_simps)

lemma small_seven: "v < 128 \<Longrightarrow> take_bit 7 v = (v :: u64)"
proof (rule bit_word_eqI)
  fix n assume "v < 128"
  then have "v < push_bit 7 1" by simp
  then show "bit (take_bit 7 v) n = bit v n" using bit_lt_2p [of v 7 n] by (auto simp: bit_simps)
qed

lemma byte_less_128: "b < 128 \<Longrightarrow> \<not> bit (b :: byte) 7"
proof -
  assume "b < 128"
  then have "unat b < 2 ^ 7" by (simp add: word_less_nat_alt)
  then have "take_bit 7 (unat b) = unat b" by (rule take_bit_nat_eq_self)
  then have "\<not> bit (unat b) 7" by (metis bit_take_bit_iff less_irrefl)
  then show ?thesis by (simp add: bit_unsigned_iff)
qed

lemma byte_top: "\<not> (ucast v OR 128 :: byte) < 128"
proof
  assume "(ucast v OR 128 :: byte) < 128"
  then have "\<not> bit (ucast v OR 128 :: byte) 7" by (rule byte_less_128)
  then show False unfolding mask_seven by (simp add: bit_or_iff bit_push_bit_iff)
qed

lemma low_seven_or: "ucast ((ucast v OR 128 :: byte) AND 127) = (take_bit 7 v :: u64)"
proof -
  have "(ucast v OR 128 :: byte) AND 127 = ucast v AND 127" by (simp add: bit.conj_disj_distrib2)
  then show ?thesis by (simp only: low_seven)
qed

lemma leb_join: "push_bit s (take_bit 7 v) OR push_bit (s + 7) (drop_bit 7 v) = push_bit s (v :: u64)"
proof (rule bit_word_eqI)
  fix n
  show "bit (push_bit s (take_bit 7 v) OR push_bit (s + 7) (drop_bit 7 v)) n = bit (push_bit s v) n"
  proof (cases "s + 7 \<le> n")
    case True
    then have "7 + (n - (s + 7)) = n - s" by simp
    with True show ?thesis by (auto simp: bit_simps)
  qed (auto simp: bit_simps)
qed

lemma leb_decode_encode: "leb_decode_from s acc n (leb_encode v @ rest) = Some (acc OR push_bit s v, n + length (leb_encode v))"
proof (induction v arbitrary: s acc n rule: leb_encode.induct)
  case (1 v)
  show ?case
  proof (cases "v < 128")
    case True
    then have "ucast v < (128 :: byte)" by (simp add: word_less_nat_alt unsigned_ucast_eq take_bit_nat_eq_self)
    then show ?thesis using True by (simp add: leb_encode.simps [of v] low_seven small_seven)
  next
    case False
    from 1 [OF False, of "s + 7" "acc OR push_bit s (take_bit 7 v)" "n + 1"] show ?thesis
      using False by (simp add: leb_encode.simps [of v] byte_top low_seven_or or.assoc leb_join)
  qed
qed

lemma length_leb: "unat v < 2 ^ (7 * k) \<Longrightarrow> 0 < k \<Longrightarrow> length (leb_encode v) \<le> k"
proof (induction k arbitrary: v)
  case (Suc k)
  show ?case
  proof (cases "v < 128")
    case True
    then show ?thesis by (simp add: leb_encode.simps [of v])
  next
    case False
    then have big: "128 \<le> unat v" by (simp add: not_less word_le_nat_alt)
    have k: "0 < k" using Suc.prems(1) big by (cases k) auto
    have "unat (drop_bit 7 v) = unat v div 128" by (simp add: drop_bit_eq_div unat_div)
    also have "\<dots> < 2 ^ (7 * k)" using Suc.prems(1) by (simp add: power_add less_mult_imp_div_less)
    finally have "length (leb_encode (drop_bit 7 v)) \<le> k" using Suc.IH k by blast
    then show ?thesis using False by (simp add: leb_encode.simps [of v])
  qed
qed simp

lemma leb_codec: "varint_codec leb_encode leb_decode"
proof -
  have "length (leb_encode v) \<le> 10" for v
  proof (rule length_leb)
    have "unat v < 2 ^ 64" using unsigned_less [of v] by simp
    also have "(2 :: nat) ^ 64 < 2 ^ (7 * 10)" by simp
    finally show "unat v < 2 ^ (7 * 10)" .
  qed simp
  then show ?thesis by (simp add: varint_codec_def MAX_VAR_INT_64_def leb_decode_def leb_decode_encode)
qed

section \<open>Round trips\<close>

lemma integer_roundtrip_cases:
  assumes "varint_codec encode_var decode_var" and "length src < 2 ^ 64"
  shows "\<exists>bs. integer_encode encode_var src = (Ok (), bs)
    \<and> (if bs \<noteq> [] \<and> hd bs = 16 \<and> \<not> steps_fit src then fst (integer_decode decode_var bs []) = Panic
       else integer_decode decode_var bs [] = (Ok (), src))"
proof (cases src)
  case Nil
  then show ?thesis by (simp add: integer_encode_def integer_decode_def)
next
  case (Cons x xs)
  define ds where "ds = deltas_of x xs"
  note enc = integer_encode_Cons [OF assms(1), of x xs, folded ds_def]
  consider (rle) "all_equal ds" | (raw) "\<not> all_equal ds" "max_delta ds > S8B_MAX_VALUE" | (s8b) "\<not> all_equal ds" "\<not> max_delta ds > S8B_MAX_VALUE" by blast
  then show ?thesis
  proof cases
    case rle
    have "length xs < 2 ^ 64" using assms(2) Cons by simp
    with rle show ?thesis using enc decode_rle_block [OF assms(1) all_equalD [OF rle [unfolded ds_def]]]
      by (simp add: integer_decode_def Cons ds_def)
  next
    case raw
    then show ?thesis using enc decode_uncompressed_block [of x xs "[]"] by (simp add: integer_decode_def Cons)
  next
    case s8b
    have small: "\<forall>d\<in>set ds. d \<le> S8B_MAX_VALUE"
    proof
      fix d assume "d \<in> set ds"
      then show "d \<le> S8B_MAX_VALUE" using max_delta_le [of d ds] s8b(2) by simp
    qed
    let ?dst = "16 # be_bytes (zig_zag_encode x)"
    obtain dst' where dst': "simple8b_encode ds ?dst = (Ok (), dst')" using encode_result [of ds ?dst] small by (metis prod.collapse)
    then obtain bs where bs: "dst' = ?dst @ bs" using encode_words by blast
    have "integer_decode_simple8b (be_bytes (zig_zag_encode x) @ bs) [] = (if steps_fit (x # xs) then (Ok (), x # xs) else (Panic, [x]))"
      using decode_simple8b_block [of x xs ?dst bs] dst' bs unfolding ds_def by simp
    then show ?thesis using enc s8b dst' bs by (simp add: integer_decode_def Cons)
  qed
qed

text \<open>
  Blocks of integers can be decoded: encoding never fails, and decoding the block into an empty
  vector gives the integers back, as long as the difference between neighbours fits into an \<open>i64\<close>.
\<close>

lemma integer_roundtrip:
  assumes "varint_codec encode_var decode_var" and "steps_fit src" and "length src < 2 ^ 64"
  shows "\<exists>bs. integer_encode encode_var src = (Ok (), bs) \<and> integer_decode decode_var bs [] = (Ok (), src)"
  using integer_roundtrip_cases [OF assms(1,3)] assms(2) by auto

text \<open>
  C33. What the encoder of integers produces is decoded to the integers, whatever they are and as long as there are fewer than
  \<open>2^64\<close>, except in one case, in which the
  decoder panics: the block is packed with Simple8b and some neighbours differ by more than an \<open>i64\<close> holds.  The
  encoder and the decoders of the other two forms wrap around, the decoder of packed blocks adds without wrapping.
\<close>

theorem integer_decode_exact:
  assumes "varint_codec encode_var decode_var" and "length src < 2 ^ 64"
  shows "\<exists>bs. integer_encode encode_var src = (Ok (), bs)
    \<and> (if bs \<noteq> [] \<and> hd bs = 16 \<and> \<not> steps_fit src then fst (integer_decode decode_var bs []) = Panic
       else integer_decode decode_var bs [] = (Ok (), src))"
  using assms by (rule integer_roundtrip_cases)

text \<open>
  From the largest \<open>i64\<close> to the smallest the delta wraps to one and is packed; as unsigned integers the two are neighbours.
\<close>

theorem integer_decode_exact_witness:
  "\<exists>bs. integer_encode leb_encode [0x7FFFFFFFFFFFFFFF, 0x8000000000000000] = (Ok (), bs) \<and> fst (integer_decode leb_decode bs []) = Panic"
proof -
  have enc: "integer_encode leb_encode [0x7FFFFFFFFFFFFFFF, 0x8000000000000000] = (Ok (), [16, 255, 255, 255, 255, 255, 255, 255, 254, 240, 0, 0, 0, 0, 0, 0, 2])"
    by code_simp
  have "\<not> steps_fit [0x7FFFFFFFFFFFFFFF, 0x8000000000000000]" by code_simp
  with integer_decode_exact [OF leb_codec, of "[0x7FFFFFFFFFFFFFFF, 0x8000000000000000]"] enc show ?thesis by simp
qed

lemma unsigned_large_capacity:
  assumes "integer_decode decode_var src [] = (Ok u, vs)" and "src \<noteq> []" and "length vs < capacity"
  shows "fst (unsigned_decode decode_var capacity src dst) = Panic"
  using assms by (simp add: unsigned_decode_def)

end
