(* ===== verification/Tsm_Boolean.thy ===== *)
theory Tsm_Boolean
  imports Tsm_Integer
begin

text \<open>
  The block encoder for booleans, \<open>influxdb_tsm/src/encoders/boolean.rs\<close>: a header byte, the number of
  booleans as a variable length integer, and one bit for each, from the top bit of a byte down.
\<close>

section \<open>Encoding\<close>

text \<open>The loop that stores the booleans from bit \<open>n\<close> of the buffer on; an index past its end panics.\<close>

fun put_bools :: "bool list \<Rightarrow> nat \<Rightarrow> byte list \<Rightarrow> (nat \<times> byte list) option" where
  "put_bools [] n dst = Some (n, dst)"
| "put_bools (v # vs) n dst =
     (let index = n div 8
      in if index < length dst
         then put_bools vs (n + 1)
                (dst[index := if v then dst ! index OR drop_bit (n mod 8) 128
                              else dst ! index AND NOT (drop_bit (n mod 8) 128)])
         else None)"

definition boolean_encode :: "(u64 \<Rightarrow> byte list) \<Rightarrow> bool list \<Rightarrow> (string, unit) res \<times> byte list" where
  "boolean_encode encode_var src =
     (if src = [] then (Ok (), [])
      else
        (let size = 1 + 8 + (length src + 7) div 8;
             dst = (replicate size 0)[0 := push_bit 4 1]
         in case Option.bind (put_var encode_var (of_nat (length src)) 1 dst) (\<lambda>(i, dst). put_bools src (8 * i) dst) of
              None \<Rightarrow> (Panic, [])
            | Some (n, dst) \<Rightarrow> (Ok (), take (if n mod 8 > 0 then n div 8 + 1 else n div 8) dst)))"

section \<open>Decoding\<close>

text \<open>The inner loop, over the bits of a byte, with the number \<open>j\<close> of booleans decoded so far.\<close>

function byte_bools :: "byte \<Rightarrow> byte \<Rightarrow> nat \<Rightarrow> nat \<Rightarrow> bool list" where
  "byte_bools v i j cnt = (if i > 0 \<and> j < cnt then (v AND i \<noteq> 0) # byte_bools v (drop_bit 1 i) (j + 1) cnt else [])"
  by pat_completeness auto
termination
  by (relation "measure (\<lambda>(v, i, j, cnt). cnt - j)") auto

declare byte_bools.simps [simp del]

fun take_bools :: "byte list \<Rightarrow> nat \<Rightarrow> nat \<Rightarrow> bool list" where
  "take_bools [] j cnt = []"
| "take_bools (v # src) j cnt = (let bs = byte_bools v 128 j cnt in bs @ take_bools src (j + length bs) cnt)"

definition boolean_decode :: "(byte list \<Rightarrow> (u64 \<times> nat) option) \<Rightarrow> byte list \<Rightarrow> bool list \<Rightarrow> (string, unit) res \<times> bool list" where
  "boolean_decode decode_var src dst =
     (if src = [] then (Ok (), dst)
      else if hd src \<noteq> push_bit 4 1 then (Panic, dst)
      else
        (case decode_var (tl src) of
           None \<Rightarrow> (Err ''boolean decoder: invalid count'', dst)
         | Some (cnt, num_bytes_read) \<Rightarrow>
             if num_bytes_read > length (tl src) then (Panic, dst)
             else
               (let src = drop num_bytes_read (tl src)
                in (Ok (), dst @ take_bools src 0 (min (length src * 8) (unat cnt))))))"

section \<open>Bits of a buffer\<close>

text \<open>Bit \<open>n\<close> of a buffer, counted from the top bit of its first byte.\<close>

definition buf_bit :: "byte list \<Rightarrow> nat \<Rightarrow> bool" where
  "buf_bit dst n = bit (dst ! (n div 8)) (7 - n mod 8)"

lemma bit_drop_128: "k < 8 \<Longrightarrow> bit (drop_bit k (128 :: byte)) j \<longleftrightarrow> j = 7 - k"
proof -
  assume "k < 8"
  have "(128 :: byte) = push_bit 7 1" by simp
  then have "bit (drop_bit k (128 :: byte)) j \<longleftrightarrow> bit (push_bit 7 1 :: byte) (k + j)" by (simp only: bit_drop_bit_eq comp_def)
  also have "\<dots> \<longleftrightarrow> k + j = 7" by (simp only: bit_push_bit_iff) (auto simp: bit_1_iff)
  finally show ?thesis using \<open>k < 8\<close> by auto
qed

lemma and_bit_iff: "k < 8 \<Longrightarrow> v AND drop_bit k (128 :: byte) \<noteq> 0 \<longleftrightarrow> bit v (7 - k)"
proof -
  assume k: "k < 8"
  have "bit (v AND drop_bit k 128) j \<longleftrightarrow> bit v j \<and> j = 7 - k" for j by (simp only: bit_and_iff bit_drop_128 [OF k])
  then show ?thesis using bit_eqI [of "v AND drop_bit k 128" 0] by (metis bit_0_eq bot_apply bot_bool_def)
qed

lemma put_bools_bits:
  "n + length vs \<le> 8 * length dst \<Longrightarrow>
   \<exists>dst'. put_bools vs n dst = Some (n + length vs, dst') \<and> length dst' = length dst
     \<and> (\<forall>k < 8 * length dst. buf_bit dst' k = (if n \<le> k \<and> k < n + length vs then vs ! (k - n) else buf_bit dst k))"
proof (induction vs arbitrary: n dst)
  case (Cons v vs)
  let ?i = "n div 8"
  define d1 where "d1 = dst[?i := if v then dst ! ?i OR drop_bit (n mod 8) 128 else dst ! ?i AND NOT (drop_bit (n mod 8) 128)]"
  have i: "?i < length dst" using Cons.prems by simp
  have d1: "buf_bit d1 k = (if k = n then v else buf_bit dst k)" if "k < 8 * length dst" for k
  proof (cases "k div 8 = ?i")
    case True
    have small: "k mod 8 < 8" "n mod 8 < 8" by simp_all
    have "k = n" if eq: "7 - k mod 8 = 7 - n mod 8"
    proof -
      have "k mod 8 = n mod 8" using eq small by linarith
      then show ?thesis using True by (metis div_mult_mod_eq)
    qed
    then have "k = n \<longleftrightarrow> 7 - k mod 8 = 7 - n mod 8" by auto
    then show ?thesis using True i by (auto simp: d1_def buf_bit_def bit_or_iff bit_and_iff bit_not_iff bit_drop_128)
  next
    case False
    then show ?thesis by (auto simp: d1_def buf_bit_def)
  qed
  have "(n + 1) + length vs \<le> 8 * length d1" using Cons.prems by (simp add: d1_def)
  from Cons.IH [OF this] obtain dst' where "put_bools vs (n + 1) d1 = Some (n + 1 + length vs, dst')" "length dst' = length d1"
    "\<forall>k < 8 * length d1. buf_bit dst' k = (if n + 1 \<le> k \<and> k < n + 1 + length vs then vs ! (k - (n + 1)) else buf_bit d1 k)" by blast
  moreover have "put_bools (v # vs) n dst = put_bools vs (n + 1) d1" using i by (simp add: d1_def Let_def)
  moreover have "length d1 = length dst" by (simp add: d1_def)
  ultimately show ?case using d1 by (auto simp: nth_Cons')
qed auto

lemma byte_bools_bits: "k \<le> 8 \<Longrightarrow> byte_bools v (drop_bit k 128) j cnt = map (\<lambda>i. bit v (7 - i)) [k..<k + min (8 - k) (cnt - j)]"
proof (induction "8 - k" arbitrary: k j)
  case 0
  then have "drop_bit k 128 = (0 :: byte)" by simp
  then show ?case using 0 by (simp add: byte_bools.simps [of v "0" j cnt])
next
  case (Suc m)
  then have k: "k < 8" by simp
  have pos: "drop_bit k (128 :: byte) > 0"
    using bit_drop_128 [OF k, of "7 - k"] by (metis bit_0_eq bot_apply bot_bool_def word_gt_0)
  have "drop_bit 1 (drop_bit k 128) = (drop_bit (Suc k) 128 :: byte)" by (simp add: drop_bit_drop_bit)
  then have step: "byte_bools v (drop_bit k 128) j cnt = (if j < cnt then bit v (7 - k) # byte_bools v (drop_bit (Suc k) 128) (j + 1) cnt else [])"
    using pos and_bit_iff [OF k, of v] by (simp add: byte_bools.simps [of v "drop_bit k 128" j cnt] del: drop_bit_numeral_bit1 drop_bit_Suc)
  show ?case
  proof (cases "j < cnt")
    case True
    then have eq: "k + min (8 - k) (cnt - j) = Suc k + min (8 - Suc k) (cnt - (j + 1))" using k by (simp add: min_def) linarith
    have "byte_bools v (drop_bit k 128) j cnt = bit v (7 - k) # map (\<lambda>i. bit v (7 - i)) [Suc k..<Suc k + min (8 - Suc k) (cnt - (j + 1))]"
      using step True Suc(1) [of "Suc k" "j + 1"] Suc(2) k by simp
    moreover have "[k..<Suc k + n] = k # [Suc k..<Suc k + n]" for n by (rule upt_conv_Cons) simp
    ultimately show ?thesis unfolding eq by (simp only: list.map)
  qed (simp add: step)
qed

lemma buf_bit_Cons: "buf_bit (v # src) i = (if i < 8 then bit v (7 - i) else buf_bit src (i - 8))"
proof (cases "i < 8")
  case False
  then have "i = (i - 8) + 8" by simp
  then have "i div 8 = Suc ((i - 8) div 8)" "i mod 8 = (i - 8) mod 8" by (metis Suc_eq_plus1 div_add_self2 zero_neq_numeral) (metis \<open>i = i - 8 + 8\<close> mod_add_self2)
  then show ?thesis using False by (simp add: buf_bit_def)
qed (simp add: buf_bit_def)

lemma take_bools_bits: "take_bools src j cnt = map (buf_bit src) [0..<min (8 * length src) (cnt - j)]"
proof (induction src arbitrary: j)
  case (Cons v src)
  let ?bs = "byte_bools v 128 j cnt"
  have bs: "?bs = map (buf_bit (v # src)) [0..<min 8 (cnt - j)]"
    using byte_bools_bits [of 0 v j cnt] by (simp add: buf_bit_Cons)
  show ?case
  proof (cases "cnt - j \<le> 8")
    case True
    then have "min (8 * length (v # src)) (cnt - j) = cnt - j" by simp
    then show ?thesis using True bs Cons [of "j + length ?bs"] by (simp add: Let_def)
  next
    case False
    let ?r = "min (8 * length src) (cnt - (j + 8))"
    have "take_bools (v # src) j cnt = map (buf_bit (v # src)) [0..<8] @ map (buf_bit src) [0..<?r]"
      using bs Cons [of "j + 8"] False by (simp add: Let_def)
    also have "map (buf_bit src) [0..<?r] = map (buf_bit (v # src)) [8..<8 + ?r]"
      by (rule nth_equalityI) (simp_all add: buf_bit_Cons)
    also have "map (buf_bit (v # src)) [0..<8] @ map (buf_bit (v # src)) [8..<8 + ?r] = map (buf_bit (v # src)) [0..<8 + ?r]"
      by (simp only: map_append [symmetric] upt_add_eq_append [of 0 8, symmetric])
    also have "8 + ?r = min (8 * length (v # src)) (cnt - j)" using False by (auto simp: min_def)
    finally show ?thesis .
  qed
qed simp

lemma buf_bit_drop: "i < 8 * q \<Longrightarrow> m + q \<le> length dst \<Longrightarrow> buf_bit (take q (drop m dst)) i = buf_bit dst (8 * m + i)"
  by (simp add: buf_bit_def less_mult_imp_div_less)

lemma take_eq_bits:
  assumes "\<forall>k < 8 * m. buf_bit a k = buf_bit b k" and "m \<le> length a" and "length a = length b"
  shows "take m a = take m b"
proof (rule nth_equalityI)
  fix i assume "i < length (take m a)"
  then have i: "i < m" by simp
  have "a ! i = b ! i"
  proof (rule bit_word_eqI)
    fix j assume "j < LENGTH(8)"
    define r where "r = 7 - j"
    have r: "r < 8" "j = 7 - r" using \<open>j < LENGTH(8)\<close> by (simp_all add: r_def)
    have "8 * i + r < 8 * m" using i r(1) by linarith
    then have "buf_bit a (8 * i + r) = buf_bit b (8 * i + r)" using assms(1) by blast
    then show "bit (a ! i) j = bit (b ! i) j" using r by (simp add: buf_bit_def)
  qed
  then show "take m a ! i = take m b ! i" using i by simp
qed (use assms in simp)

text \<open>The format has seven bits in a byte.\<close>

definition varint_compact :: "(u64 \<Rightarrow> byte list) \<Rightarrow> bool" where
  "varint_compact encode_var \<longleftrightarrow> (\<forall>v k. 0 < k \<and> unat v < 2 ^ (7 * k) \<longrightarrow> length (encode_var v) \<le> k)"

lemma leb_compact: "varint_compact leb_encode"
  by (simp add: varint_compact_def length_leb)

section \<open>Round trip\<close>

text \<open>
  Blocks of booleans can be decoded: encoding never fails, the block takes one bit for every
  boolean besides the header, and decoding it gives the booleans back.
\<close>

lemma boolean_roundtrip:
  assumes "varint_codec encode_var decode_var" and "varint_compact encode_var" and "length src < 2 ^ 56"
  shows "\<exists>bs. boolean_encode encode_var src = (Ok (), bs) \<and> length bs \<le> 9 + (length src + 7) div 8
    \<and> boolean_decode decode_var bs dst = (Ok (), dst @ src)"
proof (cases "src = []")
  case True
  then show ?thesis by (simp add: boolean_encode_def boolean_decode_def)
next
  case False
  define q where "q = (length src + 7) div 8"
  define vs where "vs = encode_var (of_nat (length src))"
  have "take_bit 64 (length src) = length src" using assms(3) by (intro take_bit_nat_eq_self) simp
  then have cnt: "unat (of_nat (length src) :: u64) = length src" by (simp add: unsigned_of_nat)
  then have l: "length vs \<le> 8" using assms(2) [unfolded varint_compact_def, rule_format, of 8 "of_nat (length src)"] assms(3) by (simp add: vs_def)
  have dec: "decode_var (vs @ rest) = Some (of_nat (length src), length vs)" for rest using assms(1) by (simp add: varint_codec_def vs_def)
  have q: "length src \<le> 8 * q" by (simp add: q_def)
  define D where "D = (16 :: byte) # vs @ replicate (8 + q - length vs) 0"
  have "1 + 8 + q = Suc (8 + q)" by simp
  then have rep: "(replicate (1 + 8 + q) (0 :: byte))[0 := push_bit 4 1] = 16 # replicate (8 + q) 0" by (simp only: replicate_Suc) simp
  have put: "put_var encode_var (of_nat (length src)) 1 ((replicate (1 + 8 + q) 0)[0 := push_bit 4 1]) = Some (1 + length vs, D)"
    unfolding rep using l by (simp add: put_var_def D_def vs_def Let_def)
  have lenD: "length D = 9 + q" using l by (simp add: D_def)
  have room: "8 * (1 + length vs) + length src \<le> 8 * length D" using q l lenD by simp
  obtain D' where D': "put_bools src (8 * (1 + length vs)) D = Some (8 * (1 + length vs) + length src, D')" "length D' = length D"
    "\<forall>k < 8 * length D. buf_bit D' k = (if 8 * (1 + length vs) \<le> k \<and> k < 8 * (1 + length vs) + length src then src ! (k - 8 * (1 + length vs)) else buf_bit D k)"
    using put_bools_bits [OF room] by blast
  have head: "take (1 + length vs) D' = 16 # vs"
  proof -
    have "take (1 + length vs) D' = take (1 + length vs) D" using D' lenD l by (intro take_eq_bits) auto
    then show ?thesis by (simp add: D_def)
  qed
  define R where "R = take q (drop (1 + length vs) D')"
  define N where "N = 8 * (1 + length vs) + length src"
  have len: "(if N mod 8 > 0 then N div 8 + 1 else N div 8) = (1 + length vs) + q" unfolding q_def N_def by presburger
  have "Option.bind (Some (1 + length vs, D)) (\<lambda>(i, dst). put_bools src (8 * i) dst) = Some (N, D')" using D'(1) by (simp add: N_def)
  then have enc: "boolean_encode encode_var src = (Ok (), 16 # vs @ R)"
    unfolding boolean_encode_def Let_def q_def [symmetric] put
    by (simp only: False if_False option.case prod.case len) (simp only: R_def take_add [of "1 + length vs"] head append_Cons)
  have "length R = q" using D'(2) lenD l by (simp add: R_def)
  moreover have "take_bools R 0 (length src) = src"
  proof (rule nth_equalityI)
    show "length (take_bools R 0 (length src)) = length src" using \<open>length R = q\<close> q by (simp add: take_bools_bits)
    fix i assume "i < length (take_bools R 0 (length src))"
    then have i: "i < length src" by (simp add: take_bools_bits)
    then have "take_bools R 0 (length src) ! i = buf_bit R i" using \<open>length R = q\<close> q by (simp add: take_bools_bits)
    also have "\<dots> = buf_bit D' (8 * (1 + length vs) + i)" unfolding R_def using i q l D'(2) lenD by (intro buf_bit_drop) auto
    also have "\<dots> = src ! i" using D'(3) i room by simp
    finally show "take_bools R 0 (length src) ! i = src ! i" .
  qed
  moreover have "min (q * 8) (length src) = length src" using q by simp
  ultimately have "boolean_decode decode_var (16 # vs @ R) dst = (Ok (), dst @ src)"
    using dec by (simp add: boolean_decode_def cnt)
  then show ?thesis using enc l \<open>length R = q\<close> by (simp add: q_def)
qed

end
