(* ===== verification/Tsm_String.thy ===== *)
theory Tsm_String
  imports Tsm_Boolean
begin

text \<open>
  The block encoder for strings, \<open>influxdb_tsm/src/encoders/string.rs\<close>: the strings, each after its
  length, compressed with Snappy.  The crate \<open>snap\<close> is the parameters \<open>max_compress_len\<close>, \<open>compress\<close> (of the
  data, and the room for the result) and \<open>decompress\<close>, where \<open>None\<close> is an error.
\<close>

type_synonym bytes = "byte list"

section \<open>Encoding\<close>

definition MAX_VAR_INT_32 :: nat where "MAX_VAR_INT_32 = 5"

definition MAX_I32 :: nat where "MAX_I32 = 2147483647"

text \<open>\<open>data[n..][..len].copy_from_slice(s)\<close>\<close>

definition put_slice :: "bytes \<Rightarrow> nat \<Rightarrow> bytes \<Rightarrow> (nat \<times> bytes) option" where
  "put_slice s n data =
     (if n + length s \<le> length data then Some (n + length s, take n data @ s @ drop (n + length s) data) else None)"

fun put_strings :: "(u64 \<Rightarrow> bytes) \<Rightarrow> bytes list \<Rightarrow> nat \<Rightarrow> bytes \<Rightarrow> (nat \<times> bytes) option" where
  "put_strings encode_var [] n data = Some (n, data)"
| "put_strings encode_var (s # src) n data =
     Option.bind (put_var encode_var (of_nat (length s)) n data) (\<lambda>(n, data).
     Option.bind (put_slice s n data) (\<lambda>(n, data).
       put_strings encode_var src n data))"

definition string_encode ::
    "(u64 \<Rightarrow> bytes) \<Rightarrow> (nat \<Rightarrow> nat) \<Rightarrow> (bytes \<Rightarrow> nat \<Rightarrow> bytes option) \<Rightarrow> bytes list \<Rightarrow> (string, unit) res \<times> bytes" where
  "string_encode encode_var max_compress_len compress src =
     (if src = [] then (Ok (), [])
      else if \<not> (\<forall>s\<in>set src. length s < MAX_I32) then (Panic, [])
      else
        (let length_of_lengths = length src * MAX_VAR_INT_32;
             source_size = 2 + length_of_lengths + sum_list (map length src);
             max_encoded_len = max_compress_len source_size
         in if max_encoded_len = 0 then (Err ''source length too large'', [])
            else
              (case put_strings encode_var src 0 (replicate source_size 0) of
                 None \<Rightarrow> (Panic, [])
               | Some (n, data) \<Rightarrow>
                   (case compress (take n data) max_encoded_len of
                      None \<Rightarrow> (Err ''compress'', [])
                    | Some compressed_data \<Rightarrow> (Ok (), push_bit 4 1 # compressed_data)))))"

section \<open>Decoding\<close>

text \<open>
  The loop ends only if every length takes at least one byte, which depends on the decoder of
  variable length integers: \<open>None\<close> is a loop that does not end.
\<close>

partial_function (option) strings_from ::
    "(bytes \<Rightarrow> (u64 \<times> nat) option) \<Rightarrow> bytes \<Rightarrow> nat \<Rightarrow> bytes list \<Rightarrow> ((string, unit) res \<times> bytes list) option" where
  "strings_from decode_var decoded_bytes i dst =
     (if i < length decoded_bytes
      then
        (case decode_var (drop i decoded_bytes) of
           None \<Rightarrow> Some (Err ''invalid encoded string length'', dst)
         | Some (len, num_bytes_read) \<Rightarrow>
             let lower = i + num_bytes_read; upper = lower + unat len
             in if upper \<ge> 2 ^ 64 then Some (Panic, dst)
                else if upper > length decoded_bytes then Some (Err ''short buffer'', dst)
                else strings_from decode_var decoded_bytes upper (dst @ [take (unat len) (drop lower decoded_bytes)]))
      else Some (Ok (), dst))"

definition string_decode ::
    "(bytes \<Rightarrow> (u64 \<times> nat) option) \<Rightarrow> (bytes \<Rightarrow> bytes option) \<Rightarrow> bytes \<Rightarrow> bytes list \<Rightarrow> ((string, unit) res \<times> bytes list) option" where
  "string_decode decode_var decompress src dst =
     (if src = [] then Some (Ok (), dst)
      else
        (case decompress (tl src) of
           None \<Rightarrow> Some (Err ''decompress'', dst)
         | Some decoded_bytes \<Rightarrow> strings_from decode_var decoded_bytes 0 dst))"

section \<open>The strings can be read back\<close>

definition framed :: "(u64 \<Rightarrow> bytes) \<Rightarrow> bytes list \<Rightarrow> bytes" where
  "framed encode_var src = concat (map (\<lambda>s. encode_var (of_nat (length s)) @ s) src)"

lemma framed_simps [simp]:
  "framed encode_var [] = []" "framed encode_var (s # src) = encode_var (of_nat (length s)) @ s @ framed encode_var src"
  by (simp_all add: framed_def)

lemma put_strings_framed:
  "n + length (framed encode_var src) \<le> length data \<Longrightarrow>
   \<exists>data'. put_strings encode_var src n data = Some (n + length (framed encode_var src), data')
     \<and> take (n + length (framed encode_var src)) data' = take n data @ framed encode_var src \<and> length data' = length data"
proof (induction src arbitrary: n data)
  case (Cons s src)
  let ?e = "encode_var (of_nat (length s))"
  define n1 where "n1 = n + length ?e"
  define d1 where "d1 = take n data @ ?e @ drop n1 data"
  have d1: "put_var encode_var (of_nat (length s)) n data = Some (n1, d1)" "length d1 = length data" "take n1 d1 = take n data @ ?e"
    using Cons.prems by (simp_all add: put_var_def Let_def d1_def n1_def)
  define n2 where "n2 = n1 + length s"
  define d2 where "d2 = take n1 d1 @ s @ drop n2 d1"
  have d2: "put_slice s n1 d1 = Some (n2, d2)" "length d2 = length data" "take n2 d2 = take n data @ ?e @ s"
    using Cons.prems d1 by (simp_all add: put_slice_def d2_def n2_def n1_def)
  have total: "n2 + length (framed encode_var src) = n + length (framed encode_var (s # src))" by (simp add: n1_def n2_def)
  have "n2 + length (framed encode_var src) \<le> length d2" using Cons.prems d2(2) total by simp
  from Cons.IH [OF this] show ?case using d1(1) d2 total by auto
qed simp

lemma varint_nonempty: "varint_codec encode_var decode_var \<Longrightarrow> encode_var v \<noteq> []"
proof
  assume codec: "varint_codec encode_var decode_var" and "encode_var v = []"
  then have "decode_var rest = Some (v, 0)" for rest unfolding varint_codec_def by (metis append_Nil list.size(3))
  then have "w = v" for w using codec unfolding varint_codec_def by (metis option.inject prod.inject)
  then show False by (metis zero_neq_one)
qed

lemma strings_from_framed:
  assumes "varint_codec encode_var decode_var"
  shows "\<forall>s\<in>set src. length s < MAX_I32 \<Longrightarrow> length (pre @ framed encode_var src) < 2 ^ 64 \<Longrightarrow>
    strings_from decode_var (pre @ framed encode_var src) (length pre) dst = Some (Ok (), dst @ src)"
proof (induction src arbitrary: pre dst)
  case (Cons s src)
  let ?e = "encode_var (of_nat (length s))"
  have "take_bit 64 (length s) = length s" using Cons.prems(1) by (intro take_bit_nat_eq_self) (simp add: MAX_I32_def)
  then have len: "unat (of_nat (length s) :: u64) = length s" by (simp add: unsigned_of_nat)
  have dec: "decode_var (?e @ rest) = Some (of_nat (length s), length ?e)" for rest using assms by (simp add: varint_codec_def)
  have "strings_from decode_var ((pre @ ?e @ s) @ framed encode_var src) (length (pre @ ?e @ s)) (dst @ [s]) = Some (Ok (), (dst @ [s]) @ src)"
    using Cons.prems by (intro Cons.IH) simp_all
  then show ?case using Cons.prems(2) varint_nonempty [OF assms] by (subst strings_from.simps) (simp add: dec len Let_def add.assoc)
qed (simp add: strings_from.simps)

lemma framed_length:
  assumes "varint_compact encode_var" and "\<forall>s\<in>set src. length s < MAX_I32"
  shows "length (framed encode_var src) \<le> length src * MAX_VAR_INT_32 + sum_list (map length src)"
  using assms(2)
proof (induction src)
  case (Cons s src)
  have "take_bit 64 (length s) = length s" using Cons.prems by (intro take_bit_nat_eq_self) (simp add: MAX_I32_def)
  then have "unat (of_nat (length s) :: u64) < 2 ^ (7 * 5)" using Cons.prems by (simp add: unsigned_of_nat MAX_I32_def)
  then have "length (encode_var (of_nat (length s))) \<le> 5"
    using assms(1) [unfolded varint_compact_def, rule_format, of 5 "of_nat (length s)"] by simp
  with Cons show ?case by (simp add: MAX_VAR_INT_32_def)
qed simp

text \<open>
  What is assumed of Snappy, as its documentation has it: the bound \<open>32 + n + n / 6\<close> for the compressed size
  of \<open>n\<close> bytes has to be below \<open>2^32\<close>, and \<open>max_compress_len\<close> is 0 otherwise; with that much room for the
  result compressing succeeds, and the result can be decompressed.
\<close>

definition snappy_fits :: "nat \<Rightarrow> bool" where
  "snappy_fits n \<longleftrightarrow> 32 + n + n div 6 < 2 ^ 32"

definition snappy :: "(nat \<Rightarrow> nat) \<Rightarrow> (bytes \<Rightarrow> nat \<Rightarrow> bytes option) \<Rightarrow> (bytes \<Rightarrow> bytes option) \<Rightarrow> bool" where
  "snappy max_compress_len compress decompress \<longleftrightarrow>
     (\<forall>data n. length data \<le> n \<and> snappy_fits n \<longrightarrow>
        0 < max_compress_len n \<and> (\<exists>c. compress data (max_compress_len n) = Some c \<and> decompress c = Some data))"

section \<open>Round trip\<close>

text \<open>
  Blocks of strings can be decoded: as long as the strings with room for their lengths are no more than Snappy
  compresses, encoding succeeds, and decoding the block ends and appends the strings to the vector.
\<close>

definition string_size :: "bytes list \<Rightarrow> nat" where
  "string_size src = 2 + length src * MAX_VAR_INT_32 + sum_list (map length src)"

lemma string_roundtrip:
  assumes "varint_codec encode_var decode_var" and "varint_compact encode_var" and "snappy max_compress_len compress decompress"
    and "\<forall>s\<in>set src. length s < MAX_I32" and "snappy_fits (string_size src)"
  shows "\<exists>bs. string_encode encode_var max_compress_len compress src = (Ok (), bs)
    \<and> string_decode decode_var decompress bs dst = Some (Ok (), dst @ src)"
proof (cases "src = []")
  case True
  then show ?thesis by (simp add: string_encode_def string_decode_def)
next
  case False
  define size where "size = 2 + length src * MAX_VAR_INT_32 + sum_list (map length src)"
  let ?f = "framed encode_var src"
  have fits: "length ?f \<le> size" "snappy_fits size" using framed_length [OF assms(2,4)] assms(5) by (simp_all add: size_def string_size_def)
  obtain data where data: "put_strings encode_var src 0 (replicate size 0) = Some (length ?f, data)" "take (length ?f) data = ?f"
    using put_strings_framed [of 0 encode_var src "replicate size 0"] fits(1) by auto
  obtain c where c: "0 < max_compress_len size" "compress ?f (max_compress_len size) = Some c" "decompress c = Some ?f"
    using assms(3) fits unfolding snappy_def by blast
  have "string_encode encode_var max_compress_len compress src = (Ok (), push_bit 4 1 # c)"
    unfolding string_encode_def Let_def size_def [symmetric] using False assms(4) c data by simp
  moreover have "strings_from decode_var ([] @ ?f) (length ([] :: bytes)) dst = Some (Ok (), dst @ src)"
    using fits unfolding snappy_fits_def by (intro strings_from_framed [OF assms(1) assms(4)]) simp
  then have "string_decode decode_var decompress (push_bit 4 1 # c) dst = Some (Ok (), dst @ src)" by (simp add: string_decode_def c(3))
  ultimately show ?thesis by blast
qed

end
