(* ===== verification/Tsm_Merge.thy ===== *)
theory Tsm_Merge
  imports Tsm_String
begin

text \<open>
  The data of a decoded block and the merge of blocks, \<open>BlockData\<close> and \<open>ValuePair\<close> of
  \<open>influxdb_tsm/src/reader.rs\<close>.  Floats are their 64 bits, which the code only moves.  \<open>None\<close> is a panic.
\<close>

section \<open>Block data\<close>

type_synonym f64_bits = u64

datatype BlockType = BT_Float | BT_Integer | BT_Bool | BT_Str | BT_Unsigned

datatype BlockData =
    BD_Float nat "i64 list" "f64_bits list"
  | BD_Integer nat "i64 list" "i64 list"
  | BD_Bool nat "i64 list" "bool list"
  | BD_Str nat "i64 list" "bytes list"
  | BD_Unsigned nat "i64 list" "u64 list"

datatype ValuePair =
    VP_F64 i64 f64_bits
  | VP_I64 i64 i64
  | VP_Bool i64 bool
  | VP_Str i64 bytes
  | VP_U64 i64 u64

fun ValuePair_timestamp :: "ValuePair \<Rightarrow> i64" where
  "ValuePair_timestamp (VP_F64 ts _) = ts"
| "ValuePair_timestamp (VP_I64 ts _) = ts"
| "ValuePair_timestamp (VP_Bool ts _) = ts"
| "ValuePair_timestamp (VP_Str ts _) = ts"
| "ValuePair_timestamp (VP_U64 ts _) = ts"

fun BlockData_new_from_data :: "BlockData \<Rightarrow> BlockData" where
  "BlockData_new_from_data (BD_Float _ _ _) = BD_Float 0 [] []"
| "BlockData_new_from_data (BD_Integer _ _ _) = BD_Integer 0 [] []"
| "BlockData_new_from_data (BD_Bool _ _ _) = BD_Bool 0 [] []"
| "BlockData_new_from_data (BD_Str _ _ _) = BD_Str 0 [] []"
| "BlockData_new_from_data (BD_Unsigned _ _ _) = BD_Unsigned 0 [] []"

text \<open>A pair of another type than the block is a panic.\<close>

fun BlockData_push :: "ValuePair \<Rightarrow> BlockData \<Rightarrow> BlockData option" where
  "BlockData_push (VP_F64 t v) (BD_Float i ts values) = Some (BD_Float i (ts @ [t]) (values @ [v]))"
| "BlockData_push (VP_I64 t v) (BD_Integer i ts values) = Some (BD_Integer i (ts @ [t]) (values @ [v]))"
| "BlockData_push (VP_Bool t v) (BD_Bool i ts values) = Some (BD_Bool i (ts @ [t]) (values @ [v]))"
| "BlockData_push (VP_Str t v) (BD_Str i ts values) = Some (BD_Str i (ts @ [t]) (values @ [v]))"
| "BlockData_push (VP_U64 t v) (BD_Unsigned i ts values) = Some (BD_Unsigned i (ts @ [t]) (values @ [v]))"
| "BlockData_push _ _ = None"

fun BlockData_is_empty :: "BlockData \<Rightarrow> bool" where
  "BlockData_is_empty (BD_Float i ts _) = (i = length ts)"
| "BlockData_is_empty (BD_Integer i ts _) = (i = length ts)"
| "BlockData_is_empty (BD_Bool i ts _) = (i = length ts)"
| "BlockData_is_empty (BD_Str i ts _) = (i = length ts)"
| "BlockData_is_empty (BD_Unsigned i ts _) = (i = length ts)"

fun BlockData_len :: "BlockData \<Rightarrow> nat" where
  "BlockData_len (BD_Float _ ts _) = length ts"
| "BlockData_len (BD_Integer _ ts _) = length ts"
| "BlockData_len (BD_Bool _ ts _) = length ts"
| "BlockData_len (BD_Str _ ts _) = length ts"
| "BlockData_len (BD_Unsigned _ ts _) = length ts"

text \<open>The pair at an index of both vectors.\<close>

definition pair_at :: "(i64 \<Rightarrow> 'v \<Rightarrow> ValuePair) \<Rightarrow> nat \<Rightarrow> i64 list \<Rightarrow> 'v list \<Rightarrow> ValuePair option" where
  "pair_at con idx ts values = (if idx < length ts \<and> idx < length values then Some (con (ts ! idx) (values ! idx)) else None)"

fun BlockData_advance :: "BlockData \<Rightarrow> (ValuePair \<times> BlockData) option" where
  "BlockData_advance (BD_Float i ts values) = map_option (\<lambda>p. (p, BD_Float (i + 1) ts values)) (pair_at VP_F64 i ts values)"
| "BlockData_advance (BD_Integer i ts values) = map_option (\<lambda>p. (p, BD_Integer (i + 1) ts values)) (pair_at VP_I64 i ts values)"
| "BlockData_advance (BD_Bool i ts values) = map_option (\<lambda>p. (p, BD_Bool (i + 1) ts values)) (pair_at VP_Bool i ts values)"
| "BlockData_advance (BD_Str i ts values) = map_option (\<lambda>p. (p, BD_Str (i + 1) ts values)) (pair_at VP_Str i ts values)"
| "BlockData_advance (BD_Unsigned i ts values) = map_option (\<lambda>p. (p, BD_Unsigned (i + 1) ts values)) (pair_at VP_U64 i ts values)"

definition BlockData_next_pair :: "BlockData \<Rightarrow> (ValuePair option \<times> BlockData) option" where
  "BlockData_next_pair b =
     (if BlockData_is_empty b then Some (None, b)
      else map_option (\<lambda>(p, b). (Some p, b)) (BlockData_advance b))"

section \<open>Merging\<close>

text \<open>The loop of \<open>refill_buffer\<close> over the blocks and their candidates.\<close>

definition refill_one :: "BlockData \<Rightarrow> ValuePair option \<Rightarrow> (ValuePair option \<times> BlockData) option" where
  "refill_one block dst = (if dst = None then BlockData_next_pair block else Some (dst, block))"

definition min_step :: "ValuePair option \<Rightarrow> i64 option \<Rightarrow> i64 option" where
  "min_step dst min_ts =
     (case dst of
        None \<Rightarrow> min_ts
      | Some pair \<Rightarrow>
          (case min_ts of
             Some m \<Rightarrow> if sint (ValuePair_timestamp pair) < sint m then Some (ValuePair_timestamp pair) else min_ts
           | None \<Rightarrow> Some (ValuePair_timestamp pair)))"

fun refill_from :: "BlockData list \<Rightarrow> ValuePair option list \<Rightarrow> i64 option \<Rightarrow> (i64 option \<times> BlockData list \<times> ValuePair option list) option" where
  "refill_from (block # blocks) (dst # dsts) min_ts =
     (case refill_one block dst of
        None \<Rightarrow> None
      | Some (dst, block) \<Rightarrow>
          map_option (\<lambda>(m, bs, ds). (m, block # bs, dst # ds)) (refill_from blocks dsts (min_step dst min_ts)))"
| "refill_from blocks dsts min_ts = Some (min_ts, blocks, dsts)"

definition refill_buffer :: "BlockData list \<Rightarrow> ValuePair option list \<Rightarrow> (i64 option \<times> BlockData list \<times> ValuePair option list) option" where
  "refill_buffer blocks dst = refill_from blocks dst None"

text \<open>The loop that takes the candidates with the smallest timestamp; the last one stays in \<open>next_pair\<close>.\<close>

fun take_min :: "i64 \<Rightarrow> ValuePair option list \<Rightarrow> ValuePair option \<Rightarrow> ValuePair option \<times> ValuePair option list" where
  "take_min min_ts [] next_pair = (next_pair, [])"
| "take_min min_ts (pair # buf) next_pair =
     (case pair of
        Some vp \<Rightarrow>
          if ValuePair_timestamp vp = min_ts
          then (let (n, buf) = take_min min_ts buf (Some vp) in (n, None # buf))
          else (let (n, buf) = take_min min_ts buf next_pair in (n, pair # buf))
      | None \<Rightarrow> (let (n, buf) = take_min min_ts buf next_pair in (n, pair # buf)))"

section \<open>What a block holds\<close>

text \<open>The pairs that a block has not yet given out.\<close>

fun bd_pairs :: "BlockData \<Rightarrow> ValuePair list" where
  "bd_pairs (BD_Float i ts values) = drop i (map2 VP_F64 ts values)"
| "bd_pairs (BD_Integer i ts values) = drop i (map2 VP_I64 ts values)"
| "bd_pairs (BD_Bool i ts values) = drop i (map2 VP_Bool ts values)"
| "bd_pairs (BD_Str i ts values) = drop i (map2 VP_Str ts values)"
| "bd_pairs (BD_Unsigned i ts values) = drop i (map2 VP_U64 ts values)"

fun bd_type :: "BlockData \<Rightarrow> BlockType" where
  "bd_type (BD_Float _ _ _) = BT_Float"
| "bd_type (BD_Integer _ _ _) = BT_Integer"
| "bd_type (BD_Bool _ _ _) = BT_Bool"
| "bd_type (BD_Str _ _ _) = BT_Str"
| "bd_type (BD_Unsigned _ _ _) = BT_Unsigned"

fun vp_type :: "ValuePair \<Rightarrow> BlockType" where
  "vp_type (VP_F64 _ _) = BT_Float"
| "vp_type (VP_I64 _ _) = BT_Integer"
| "vp_type (VP_Bool _ _) = BT_Bool"
| "vp_type (VP_Str _ _) = BT_Str"
| "vp_type (VP_U64 _ _) = BT_Unsigned"

text \<open>Both vectors are equally long, and the position is not past their end.\<close>

fun bd_wf :: "BlockData \<Rightarrow> bool" where
  "bd_wf (BD_Float i ts values) = (length ts = length values \<and> i \<le> length ts)"
| "bd_wf (BD_Integer i ts values) = (length ts = length values \<and> i \<le> length ts)"
| "bd_wf (BD_Bool i ts values) = (length ts = length values \<and> i \<le> length ts)"
| "bd_wf (BD_Str i ts values) = (length ts = length values \<and> i \<le> length ts)"
| "bd_wf (BD_Unsigned i ts values) = (length ts = length values \<and> i \<le> length ts)"

lemma drop_zip_Cons: "i < length xs \<Longrightarrow> i < length ys \<Longrightarrow> drop i (map2 f xs ys) = f (xs ! i) (ys ! i) # drop (Suc i) (map2 f xs ys)"
  by (subst Cons_nth_drop_Suc [symmetric]) simp_all

lemma advance_pairs: "BlockData_advance b = Some (p, b') \<Longrightarrow> bd_pairs b = p # bd_pairs b'"
  by (cases b) (auto simp: pair_at_def drop_zip_Cons split: if_splits)

lemma advance_wf: "bd_wf b \<Longrightarrow> \<not> BlockData_is_empty b \<Longrightarrow> \<exists>p b'. BlockData_advance b = Some (p, b') \<and> bd_wf b' \<and> bd_type b' = bd_type b"
  by (cases b) (auto simp: pair_at_def)

lemma empty_pairs: "BlockData_is_empty b \<Longrightarrow> bd_pairs b = []"
  by (cases b) auto

lemma bd_pairs_type: "p \<in> set (bd_pairs b) \<Longrightarrow> vp_type p = bd_type b"
  by (cases b) (auto dest!: in_set_dropD)

lemma push_pairs:
  "bd_wf b \<Longrightarrow> vp_type p = bd_type b \<Longrightarrow> \<exists>b'. BlockData_push p b = Some b' \<and> bd_wf b' \<and> bd_type b' = bd_type b \<and> bd_pairs b' = bd_pairs b @ [p]"
  by (cases b; cases p) auto

lemma new_from_data: "bd_wf (BlockData_new_from_data b)" "bd_type (BlockData_new_from_data b) = bd_type b" "bd_pairs (BlockData_new_from_data b) = []"
  by (cases b; simp)+

section \<open>Streams\<close>

text \<open>The pairs of a block that are still to be merged, with the candidate taken from it.\<close>

definition stream :: "BlockData \<Rightarrow> ValuePair option \<Rightarrow> ValuePair list" where
  "stream b p = (case p of None \<Rightarrow> bd_pairs b | Some x \<Rightarrow> x # bd_pairs b)"

lemma stream_simps [simp]: "stream b None = bd_pairs b" "stream b (Some x) = x # bd_pairs b"
  by (simp_all add: stream_def)

text \<open>Refilling keeps the streams, and afterwards every stream that is not empty has a candidate.\<close>

lemma refill_one_stream: "refill_one b p = Some (p', b') \<Longrightarrow> stream b' p' = stream b p \<and> (p' = None \<longrightarrow> bd_pairs b' = [])"
  by (cases p) (auto simp: refill_one_def BlockData_next_pair_def empty_pairs dest: advance_pairs split: if_splits)

lemma refill_streams:
  "refill_from blocks dsts m = Some (m', bs, ds) \<Longrightarrow> length blocks = length dsts \<Longrightarrow>
   map2 stream bs ds = map2 stream blocks dsts \<and> list_all2 (\<lambda>b d. d = None \<longrightarrow> bd_pairs b = []) bs ds \<and> m' = fold min_step ds m"
  by (induction blocks dsts m arbitrary: m' bs ds rule: refill_from.induct) (auto dest: refill_one_stream split: option.splits)

definition hit :: "i64 \<Rightarrow> ValuePair option \<Rightarrow> bool" where
  "hit m p \<longleftrightarrow> (case p of Some vp \<Rightarrow> ValuePair_timestamp vp = m | None \<Rightarrow> False)"

lemma hit_simps [simp]: "\<not> hit m None" "hit m (Some vp) \<longleftrightarrow> ValuePair_timestamp vp = m"
  by (simp_all add: hit_def)

abbreviation clear_hits :: "i64 \<Rightarrow> ValuePair option list \<Rightarrow> ValuePair option list" where
  "clear_hits m \<equiv> map (\<lambda>p. if hit m p then None else p)"

lemma take_min_eq: "take_min m buf nx = ((if filter (hit m) buf = [] then nx else last (filter (hit m) buf)), clear_hits m buf)"
  by (induction m buf nx rule: take_min.induct) (auto split: option.splits)

text \<open>What is left to merge.\<close>

definition pending_pairs :: "BlockData list \<Rightarrow> ValuePair option list \<Rightarrow> nat" where
  "pending_pairs blocks buf = sum_list (map (\<lambda>b. length (bd_pairs b)) blocks) + length (filter (\<lambda>p. p \<noteq> None) buf)"

lemma refill_pending: "refill_from blocks dsts m = Some (m', bs, ds) \<Longrightarrow> pending_pairs bs ds = pending_pairs blocks dsts"
proof (induction blocks arbitrary: dsts m m' bs ds)
  case (Cons block blocks)
  show ?case
  proof (cases dsts)
    case (Cons dst dsts')
    then obtain d b bs' ds' where one: "refill_one block dst = Some (d, b)" "bs = b # bs'" "ds = d # ds'"
      and "refill_from blocks dsts' (min_step d m) = Some (m', bs', ds')" using Cons.prems by (auto split: option.splits)
    then have "pending_pairs bs' ds' = pending_pairs blocks dsts'" using Cons.IH by blast
    moreover have "length (stream b d) = length (stream block dst)" using refill_one_stream [OF one(1)] by simp
    ultimately show ?thesis using one Cons by (cases d; cases dst) (simp_all add: pending_pairs_def)
  qed (use Cons.prems in simp)
qed simp

lemma clear_pending: "filter (hit m) buf \<noteq> [] \<Longrightarrow> pending_pairs blocks (clear_hits m buf) < pending_pairs blocks buf"
proof -
  have le: "length (filter (\<lambda>p. p \<noteq> None) (clear_hits m buf)) \<le> length (filter (\<lambda>p. p \<noteq> None) buf)" for buf
    by (induction buf) auto
  assume "filter (hit m) buf \<noteq> []"
  then have "length (filter (\<lambda>p. p \<noteq> None) (clear_hits m buf)) < length (filter (\<lambda>p. p \<noteq> None) buf)"
  proof (induction buf)
    case (Cons p buf)
    then show ?case using le [of buf] by (cases "hit m p"; cases p) auto
  qed simp
  then show ?thesis by (simp add: pending_pairs_def)
qed

section \<open>The merge\<close>

function merge_loop :: "BlockData list \<Rightarrow> ValuePair option list \<Rightarrow> BlockData \<Rightarrow> BlockData option" where
  "merge_loop blocks buf block_data =
     (case refill_buffer blocks buf of
        None \<Rightarrow> None
      | Some (None, _, _) \<Rightarrow> Some block_data
      | Some (Some min_ts, blocks, buf) \<Rightarrow>
          (case take_min min_ts buf None of
             (Some vp, buf) \<Rightarrow>
               (case BlockData_push vp block_data of
                  None \<Rightarrow> None
                | Some block_data \<Rightarrow> merge_loop blocks buf block_data)
           | (None, _) \<Rightarrow> None))"
  by pat_completeness auto
termination
proof (relation "measure (\<lambda>(blocks, buf, block_data). pending_pairs blocks buf)")
  fix blocks bs :: "BlockData list" and buf ds ds' :: "ValuePair option list" and block_data block_data' a b x2 x2a m vp p
  assume "refill_buffer blocks buf = Some p" "(a, b) = p" "a = Some m" "(bs, ds) = b" "(x2, ds') = take_min m ds None" "x2 = Some vp"
    "BlockData_push vp block_data = Some block_data'"
  then show "((bs, ds', block_data'), blocks, buf, block_data) \<in> measure (\<lambda>(blocks, buf, block_data). pending_pairs blocks buf)"
    using clear_pending [of m ds bs] by (auto simp: refill_buffer_def take_min_eq dest!: refill_pending split: if_splits)
qed simp

declare merge_loop.simps [simp del]

definition BlockData_merge :: "BlockData list \<Rightarrow> BlockData option" where
  "BlockData_merge blocks =
     (if blocks = [] then None
      else if length blocks = 1 then Some (hd blocks)
      else merge_loop blocks (replicate (length blocks) None) (BlockData_new_from_data (hd blocks)))"

section \<open>Last write wins\<close>

definition ts_less :: "ValuePair \<Rightarrow> ValuePair \<Rightarrow> bool" where
  "ts_less p q \<longleftrightarrow> sint (ValuePair_timestamp p) < sint (ValuePair_timestamp q)"

text \<open>The pairs by timestamp; later blocks override earlier ones.\<close>

definition by_time :: "ValuePair list \<Rightarrow> (i64 \<rightharpoonup> ValuePair)" where
  "by_time ps = map_of (map (\<lambda>p. (ValuePair_timestamp p, p)) ps)"

fun last_write :: "ValuePair list list \<Rightarrow> (i64 \<rightharpoonup> ValuePair)" where
  "last_write [] = Map.empty"
| "last_write (s # ss) = by_time s ++ last_write ss"

lemma by_time_simps [simp]: "by_time [] = Map.empty" "by_time (p # ps) = (by_time ps)(ValuePair_timestamp p \<mapsto> p)"
  by (simp_all add: by_time_def)

abbreviation drop_head :: "i64 \<Rightarrow> ValuePair list \<Rightarrow> ValuePair list" where
  "drop_head m s \<equiv> (if s \<noteq> [] \<and> ValuePair_timestamp (hd s) = m then tl s else s)"

lemma by_time_None: "m \<notin> ValuePair_timestamp ` set ps \<Longrightarrow> by_time ps m = None"
  by (induction ps) auto

text \<open>When no pair is before \<open>m\<close>, the pair with timestamp \<open>m\<close> is the first one.\<close>

lemma by_time_drop_head:
  assumes "sorted_wrt ts_less s" and "\<forall>p\<in>set s. sint m \<le> sint (ValuePair_timestamp p)"
  shows "by_time (drop_head m s) = (by_time s)(m := None)"
proof (cases s)
  case (Cons p ps)
  have "by_time ps m = None"
  proof (rule by_time_None)
    show "m \<notin> ValuePair_timestamp ` set ps" using assms Cons by (force simp: ts_less_def)
  qed
  then show ?thesis using Cons by (auto simp: fun_eq_iff)
qed auto

lemma by_time_head:
  assumes "sorted_wrt ts_less s" and "\<forall>p\<in>set s. sint m \<le> sint (ValuePair_timestamp p)"
  shows "by_time s m = (if s \<noteq> [] \<and> ValuePair_timestamp (hd s) = m then Some (hd s) else None)"
proof (cases s)
  case (Cons p ps)
  have "by_time ps m = None"
  proof (rule by_time_None)
    show "m \<notin> ValuePair_timestamp ` set ps" using assms Cons by (force simp: ts_less_def)
  qed
  then show ?thesis using Cons by auto
qed simp

definition streams_from :: "i64 \<Rightarrow> ValuePair list list \<Rightarrow> bool" where
  "streams_from m ss \<longleftrightarrow> (\<forall>s\<in>set ss. sorted_wrt ts_less s \<and> (\<forall>p\<in>set s. sint m \<le> sint (ValuePair_timestamp p)))"

lemma map_add_remove: "(f ++ g)(m := None) = f(m := None) ++ g(m := None)"
  by (rule ext) (simp add: map_add_def split: option.splits)

lemma last_write_drop_heads: "streams_from m ss \<Longrightarrow> last_write (map (drop_head m) ss) = (last_write ss)(m := None)"
proof (induction ss)
  case (Cons s ss)
  then have "by_time (drop_head m s) = (by_time s)(m := None)" by (intro by_time_drop_head) (auto simp: streams_from_def)
  moreover have "streams_from m ss" using Cons.prems by (simp add: streams_from_def)
  ultimately show ?case using Cons.IH by (simp only: map_add_remove list.map last_write.simps)
qed simp

lemma last_write_heads:
  "streams_from m ss \<Longrightarrow>
   last_write ss m = (let hs = filter (\<lambda>s. s \<noteq> [] \<and> ValuePair_timestamp (hd s) = m) ss in if hs = [] then None else Some (hd (last hs)))"
proof (induction ss)
  case (Cons s ss)
  then have "by_time s m = (if s \<noteq> [] \<and> ValuePair_timestamp (hd s) = m then Some (hd s) else None)" by (intro by_time_head) (auto simp: streams_from_def)
  with Cons show ?case by (auto simp: streams_from_def map_add_def Let_def split: option.splits)
qed auto

section \<open>Correctness of the merge\<close>

lemma min_step_simps [simp]:
  "min_step None m = m" "min_step (Some p) None = Some (ValuePair_timestamp p)"
  "min_step (Some p) (Some t) = Some (if sint (ValuePair_timestamp p) < sint t then ValuePair_timestamp p else t)"
  by (simp_all add: min_step_def)

lemma fold_min_Some: "\<exists>m'. fold min_step ds (Some m) = Some m' \<and> sint m' \<le> sint m
  \<and> (\<forall>q. Some q \<in> set ds \<longrightarrow> sint m' \<le> sint (ValuePair_timestamp q)) \<and> (m' = m \<or> filter (hit m') ds \<noteq> [])"
proof (induction ds arbitrary: m)
  case (Cons d ds)
  show ?case
  proof (cases d)
    case (Some p)
    let ?m = "if sint (ValuePair_timestamp p) < sint m then ValuePair_timestamp p else m"
    obtain m' where m': "fold min_step ds (Some ?m) = Some m'" "sint m' \<le> sint ?m"
      "\<forall>q. Some q \<in> set ds \<longrightarrow> sint m' \<le> sint (ValuePair_timestamp q)" "m' = ?m \<or> filter (hit m') ds \<noteq> []"
      using Cons [of ?m] by blast
    then have "fold min_step (d # ds) (Some m) = Some m'" "sint m' \<le> sint m"
      "\<forall>q. Some q \<in> set (d # ds) \<longrightarrow> sint m' \<le> sint (ValuePair_timestamp q)" "m' = m \<or> filter (hit m') (d # ds) \<noteq> []"
      using Some by (auto split: if_splits)
    then show ?thesis by blast
  qed (use Cons [of m] in simp)
qed simp

lemma fold_min_None: "fold min_step ds None = None \<longleftrightarrow> (\<forall>d\<in>set ds. d = None)"
proof (induction ds)
  case (Cons d ds)
  show ?case
  proof (cases d)
    case (Some p)
    then show ?thesis using fold_min_Some [of ds "ValuePair_timestamp p"] by auto
  qed (use Cons in simp)
qed simp

lemma fold_min:
  "fold min_step ds None = Some m \<Longrightarrow> (\<forall>q. Some q \<in> set ds \<longrightarrow> sint m \<le> sint (ValuePair_timestamp q)) \<and> filter (hit m) ds \<noteq> []"
proof (induction ds)
  case (Cons d ds)
  show ?case
  proof (cases d)
    case (Some p)
    then show ?thesis using fold_min_Some [of ds "ValuePair_timestamp p"] Cons.prems by auto
  qed (use Cons in simp)
qed simp

definition typed :: "BlockType \<Rightarrow> BlockData list \<Rightarrow> ValuePair option list \<Rightarrow> bool" where
  "typed t blocks buf \<longleftrightarrow> length blocks = length buf \<and> (\<forall>b\<in>set blocks. bd_wf b \<and> bd_type b = t) \<and> (\<forall>p. Some p \<in> set buf \<longrightarrow> vp_type p = t)"

lemma refill_one_typed:
  assumes "bd_wf b" and "bd_type b = t" and "\<forall>q. p = Some q \<longrightarrow> vp_type q = t"
  shows "\<exists>p' b'. refill_one b p = Some (p', b') \<and> bd_wf b' \<and> bd_type b' = t \<and> (\<forall>q. p' = Some q \<longrightarrow> vp_type q = t)"
proof (cases "p = None \<and> \<not> BlockData_is_empty b")
  case True
  then obtain q b' where q: "BlockData_advance b = Some (q, b')" "bd_wf b'" "bd_type b' = bd_type b" using advance_wf assms(1) by blast
  then have "vp_type q = t" using advance_pairs [OF q(1)] bd_pairs_type [of q b] assms(2) by simp
  then show ?thesis using True q assms(2) by (simp add: refill_one_def BlockData_next_pair_def)
next
  case False
  then show ?thesis using assms by (cases p) (auto simp: refill_one_def BlockData_next_pair_def)
qed

lemma refill_typed: "typed t blocks dsts \<Longrightarrow> \<exists>m' bs ds. refill_from blocks dsts m = Some (m', bs, ds) \<and> typed t bs ds"
proof (induction blocks arbitrary: dsts m)
  case (Cons b blocks)
  then obtain d dsts' where dsts: "dsts = d # dsts'" by (cases dsts) (auto simp: typed_def)
  obtain d' b' where one: "refill_one b d = Some (d', b')" "bd_wf b'" "bd_type b' = t" "\<forall>q. d' = Some q \<longrightarrow> vp_type q = t"
    using refill_one_typed [of b t d] Cons.prems by (auto simp: typed_def dsts)
  have "typed t blocks dsts'" using Cons.prems by (auto simp: typed_def dsts)
  then obtain m' bs ds where "refill_from blocks dsts' (min_step d' m) = Some (m', bs, ds)" "typed t bs ds" using Cons.IH by blast
  then show ?case using one by (auto simp: dsts typed_def)
qed (simp add: typed_def)

lemma heads_after_refill:
  assumes "list_all2 (\<lambda>b d. d = None \<longrightarrow> bd_pairs b = []) bs ds"
  shows "map2 stream bs (clear_hits m ds) = map (drop_head m) (map2 stream bs ds)"
    "filter (hit m) ds = map (\<lambda>s. Some (hd s)) (filter (\<lambda>s. s \<noteq> [] \<and> ValuePair_timestamp (hd s) = m) (map2 stream bs ds))"
    "s \<in> set (map2 stream bs ds) \<Longrightarrow> s \<noteq> [] \<Longrightarrow> Some (hd s) \<in> set ds"
  using assms by (induction bs ds rule: list_all2_induct; auto split: if_splits; (case_tac y; auto)[1])+

lemma last_write_empty: "\<forall>s\<in>set ss. s = [] \<Longrightarrow> last_write ss = Map.empty"
  by (induction ss) simp_all

text \<open>One round: the pair that is pushed comes before all that is left, and is the last write at its time.\<close>

lemma merge_round:
  assumes "streams_from m ss" and "hs = filter (\<lambda>s. s \<noteq> [] \<and> ValuePair_timestamp (hd s) = m) ss" and "hs \<noteq> []" and "vp = hd (last hs)"
    and "by_time R = last_write (map (drop_head m) ss)" and "sorted_wrt ts_less R" and "\<forall>p\<in>set R. \<exists>s\<in>set (map (drop_head m) ss). p \<in> set s"
  shows "sorted_wrt ts_less (vp # R) \<and> by_time (vp # R) = last_write ss \<and> (\<forall>p\<in>set (vp # R). \<exists>s\<in>set ss. p \<in> set s)"
proof -
  have "last hs \<in> set hs" using assms(3) by simp
  then have vp: "ValuePair_timestamp vp = m" "last hs \<in> set ss" "last hs \<noteq> []" using assms(2,4) by auto
  have "last_write ss m = Some vp" using last_write_heads [OF assms(1)] assms(2,3,4) by (simp add: Let_def)
  then have "by_time (vp # R) = last_write ss" unfolding by_time_simps assms(5) last_write_drop_heads [OF assms(1)] vp(1) by auto
  moreover have "ts_less vp p \<and> (\<exists>s\<in>set ss. p \<in> set s)" if p: "p \<in> set R" for p
  proof -
    obtain s where s: "s \<in> set ss" "p \<in> set (drop_head m s)" using assms(7) p by auto
    then have "p \<in> set s" by (auto split: if_splits dest: list.set_sel(2))
    moreover have "sorted_wrt ts_less s" "\<forall>q\<in>set s. sint m \<le> sint (ValuePair_timestamp q)" using assms(1) s(1) by (auto simp: streams_from_def)
    moreover have "sint m < sint (ValuePair_timestamp p)"
    proof (cases s)
      case (Cons a list)
      have "sint m \<le> sint (ValuePair_timestamp a)" using calculation(3) Cons by simp
      then have "sint m < sint (ValuePair_timestamp q)" if "q \<in> set list" for q using calculation(2) Cons that by (auto simp: ts_less_def)
      moreover have "sint m < sint (ValuePair_timestamp a)" if "ValuePair_timestamp a \<noteq> m"
        using that \<open>sint m \<le> _\<close> by (metis order_le_less word_eq_iff_signed)
      ultimately show ?thesis using s(2) Cons by (auto split: if_splits)
    qed (use \<open>p \<in> set s\<close> in simp)
    ultimately show ?thesis using s(1) vp(1) by (auto simp: ts_less_def)
  qed
  moreover have "\<exists>s\<in>set ss. vp \<in> set s" using vp assms(4) by (metis hd_in_set)
  ultimately show ?thesis using assms(6) by auto
qed

lemma streams_from_heads:
  assumes "\<forall>s\<in>set ss. sorted_wrt ts_less s" and "\<forall>s\<in>set ss. s \<noteq> [] \<longrightarrow> sint m \<le> sint (ValuePair_timestamp (hd s))"
  shows "streams_from m ss"
  unfolding streams_from_def
proof (intro ballI conjI)
  fix s assume s: "s \<in> set ss"
  then show "sorted_wrt ts_less s" using assms(1) by simp
  fix p assume p: "p \<in> set s"
  then have "sint m \<le> sint (ValuePair_timestamp (hd s))" using assms(2) s by (cases s) auto
  also have "\<dots> \<le> sint (ValuePair_timestamp p)" using p \<open>sorted_wrt ts_less s\<close> by (cases s) (auto simp: ts_less_def)
  finally show "sint m \<le> sint (ValuePair_timestamp p)" .
qed

lemma merge_loop_correct:
  assumes "typed t blocks buf" and "bd_wf out" and "bd_type out = t" and "\<forall>s\<in>set (map2 stream blocks buf). sorted_wrt ts_less s"
  shows "\<exists>r R. merge_loop blocks buf out = Some r \<and> bd_wf r \<and> bd_type r = t \<and> bd_pairs r = bd_pairs out @ R \<and> sorted_wrt ts_less R
    \<and> by_time R = last_write (map2 stream blocks buf) \<and> (\<forall>p\<in>set R. \<exists>s\<in>set (map2 stream blocks buf). p \<in> set s)"
  using assms
proof (induction "pending_pairs blocks buf" arbitrary: blocks buf out rule: less_induct)
  case less
  obtain m' bs ds where refill: "refill_from blocks buf None = Some (m', bs, ds)" and typed: "typed t bs ds"
    using refill_typed [OF less(2)] by blast
  have "length blocks = length buf" using less(2) by (simp add: typed_def)
  note rs = refill_streams [OF refill this]
  define ss where "ss = map2 stream bs ds"
  have S: "map2 stream blocks buf = ss" using rs by (simp add: ss_def)
  have sorted: "\<forall>s\<in>set ss. sorted_wrt ts_less s" using less(5) unfolding S .
  have cand: "Some (hd s) \<in> set ds" if "s \<in> set ss" "s \<noteq> []" for s using heads_after_refill(3) rs that unfolding ss_def by blast
  show ?case
  proof (cases m')
    case None
    then have "\<forall>d\<in>set ds. d = None" using rs fold_min_None by metis
    then have "last_write ss = Map.empty" using cand by (intro last_write_empty) fastforce
    moreover have "merge_loop blocks buf out = Some out" using refill None by (simp add: merge_loop.simps refill_buffer_def)
    ultimately show ?thesis unfolding S using less(3,4) by (intro exI [of _ out] exI [of _ "[]"]) simp
  next
    case (Some m)
    have m: "\<forall>q. Some q \<in> set ds \<longrightarrow> sint m \<le> sint (ValuePair_timestamp q)" "filter (hit m) ds \<noteq> []" using rs fold_min Some by metis+
    define hs where "hs = filter (\<lambda>s. s \<noteq> [] \<and> ValuePair_timestamp (hd s) = m) ss"
    have hs: "filter (hit m) ds = map (\<lambda>s. Some (hd s)) hs" using heads_after_refill(2) rs unfolding hs_def ss_def by blast
    then have "hs \<noteq> []" using m(2) by auto
    define vp where "vp = hd (last hs)"
    have vp: "last (filter (hit m) ds) = Some vp" using hs \<open>hs \<noteq> []\<close> by (simp add: vp_def last_map)
    then have "Some vp \<in> set ds" using m(2) by (metis filter_is_subset last_in_set subsetD)
    then obtain out' where out': "BlockData_push vp out = Some out'" "bd_wf out'" "bd_type out' = t" "bd_pairs out' = bd_pairs out @ [vp]"
      using push_pairs [OF less(3), of vp] less(4) typed by (auto simp: typed_def)
    have step: "merge_loop blocks buf out = merge_loop bs (clear_hits m ds) out'"
      by (subst merge_loop.simps) (simp add: refill_buffer_def refill Some take_min_eq m(2) vp out'(1))
    have from_m: "streams_from m ss" using sorted cand m(1) by (intro streams_from_heads) auto
    have S': "map2 stream bs (clear_hits m ds) = map (drop_head m) ss" using heads_after_refill(1) rs unfolding ss_def by blast
    have "pending_pairs bs (clear_hits m ds) < pending_pairs blocks buf" using clear_pending [OF m(2), of bs] refill_pending [OF refill] by simp
    moreover have "typed t bs (clear_hits m ds)" using typed by (auto simp: typed_def split: if_splits)
    moreover have "\<forall>s\<in>set (map2 stream bs (clear_hits m ds)). sorted_wrt ts_less s"
    proof -
      have "sorted_wrt ts_less (tl s)" if "sorted_wrt ts_less s" for s using that by (cases s) auto
      then show ?thesis unfolding S' using sorted by auto
    qed
    ultimately obtain r R where r: "merge_loop bs (clear_hits m ds) out' = Some r" "bd_wf r" "bd_type r = t" "bd_pairs r = bd_pairs out' @ R"
      and R: "sorted_wrt ts_less R" "by_time R = last_write (map (drop_head m) ss)" "\<forall>p\<in>set R. \<exists>s\<in>set (map (drop_head m) ss). p \<in> set s"
      using less(1) [of bs "clear_hits m ds" out'] out'(2,3) unfolding S' by blast
    note merge_round [OF from_m hs_def \<open>hs \<noteq> []\<close> vp_def R(2,1,3)]
    then show ?thesis unfolding S step using r out'(4) by (intro exI [of _ r] exI [of _ "vp # R"]) simp
  qed
qed

lemma merge_blocks_last_write:
  assumes "blocks \<noteq> []" and "\<forall>b\<in>set blocks. bd_wf b \<and> bd_type b = t \<and> sorted_wrt ts_less (bd_pairs b)"
  shows "\<exists>r. BlockData_merge blocks = Some r \<and> bd_wf r \<and> bd_type r = t \<and> sorted_wrt ts_less (bd_pairs r)
    \<and> by_time (bd_pairs r) = last_write (map bd_pairs blocks)"
proof (cases "length blocks = 1")
  case True
  then obtain b where "blocks = [b]" by (cases blocks) auto
  then show ?thesis using assms by (auto simp: BlockData_merge_def map_add_def fun_eq_iff)
next
  case False
  let ?buf = "replicate (length blocks) None" and ?new = "BlockData_new_from_data (hd blocks)"
  have streams: "map2 stream blocks ?buf = map bd_pairs blocks" by (induction blocks) simp_all
  have "typed t blocks ?buf" using assms(2) by (simp add: typed_def)
  moreover have "bd_wf ?new" "bd_type ?new = t" "bd_pairs ?new = []" using assms new_from_data [of "hd blocks"] by (simp_all add: hd_in_set)
  ultimately obtain r R where "merge_loop blocks ?buf ?new = Some r" "bd_wf r" "bd_type r = t" "bd_pairs r = R" "sorted_wrt ts_less R"
    "by_time R = last_write (map bd_pairs blocks)"
    using merge_loop_correct [of t blocks ?buf ?new] assms(2) unfolding streams by auto
  then show ?thesis using False assms(1) by (auto simp: BlockData_merge_def)
qed

text \<open>
  C36. Merging decoded blocks is last write wins: for blocks of one type whose timestamps ascend, the
  merge ends without a panic and returns a block of this type, its timestamps ascend, and it has exactly the
  timestamps that occur, each with the value of the last block that has it.
\<close>

theorem BlockData_merge_last_write_wins:
  assumes "blocks \<noteq> []" and "\<forall>b\<in>set blocks. bd_wf b \<and> bd_type b = t \<and> sorted_wrt ts_less (bd_pairs b)"
  shows "\<exists>r. BlockData_merge blocks = Some r \<and> bd_wf r \<and> bd_type r = t \<and> sorted_wrt ts_less (bd_pairs r)
    \<and> by_time (bd_pairs r) = last_write (map bd_pairs blocks)"
  using assms by (rule merge_blocks_last_write)

theorem BlockData_merge_last_write_wins_witness:
  "\<exists>r. BlockData_merge [BD_Integer 0 [1, 2, 3] [10, 20, 30], BD_Integer 0 [2, 4] [21, 41]] = Some r
     \<and> by_time (bd_pairs r) 2 = Some (VP_I64 2 21) \<and> by_time (bd_pairs r) 3 = Some (VP_I64 3 30)"
proof -
  let ?bs = "[BD_Integer 0 [1, 2, 3] [10, 20, 30], BD_Integer 0 [2, 4] [21, 41]]"
  have "\<forall>b\<in>set ?bs. bd_wf b \<and> bd_type b = BT_Integer \<and> sorted_wrt ts_less (bd_pairs b)" by (simp add: ts_less_def)
  from BlockData_merge_last_write_wins [OF _ this] show ?thesis by auto
qed

end
