(* ===== verification/Tsm_Float.thy ===== *)
theory Tsm_Float
  imports Tsm_Boolean
begin

text \<open>
  The block encoder for floats, \<open>influxdb_tsm/src/encoders/float.rs\<close>: every value is combined with the one
  before by exclusive or, and the significant bits of the result are written, with their position when
  it has changed.  Floats are their 64 bits.  \<open>None\<close> is a panic in the helpers that return an option.
\<close>

section \<open>Machine words\<close>

definition leading_zeros :: "u64 \<Rightarrow> nat" where
  "leading_zeros v = length (takeWhile (\<lambda>i. \<not> bit v i) (rev [0..<64]))"

definition trailing_zeros_u64 :: "u64 \<Rightarrow> nat" where
  "trailing_zeros_u64 v = length (takeWhile (\<lambda>i. \<not> bit v i) [0..<64])"

definition SENTINEL :: u64 where "SENTINEL = 0x7ff80000000000ff"

definition SENTINEL_INFLUXDB :: u64 where "SENTINEL_INFLUXDB = 0x7ff8000000000001"

section \<open>Encoding\<close>

text \<open>\<open>while i >= dst.len() { dst.push(0) }\<close> and the same with \<open>if\<close>.\<close>

definition grow :: "nat \<Rightarrow> byte list \<Rightarrow> byte list" where
  "grow i dst = dst @ replicate (Suc i - length dst) 0"

definition push_if :: "nat \<Rightarrow> byte list \<Rightarrow> byte list" where
  "push_if i dst = (if i \<ge> length dst then dst @ [0] else dst)"

text \<open>\<open>dst[i] |= b\<close>\<close>

definition or_at :: "nat \<Rightarrow> byte \<Rightarrow> byte list \<Rightarrow> byte list option" where
  "or_at i b dst = (if i < length dst then Some (dst[i := dst ! i OR b]) else None)"

text \<open>
  Five or six bits, from the top of \<open>v\<close>: into the current byte when they fit, and otherwise the rest of
  them into the next.
\<close>

definition put_field :: "nat \<Rightarrow> u64 \<Rightarrow> nat \<Rightarrow> byte list \<Rightarrow> (nat \<times> byte list) option" where
  "put_field l v n dst =
     (let m = n mod 8; msk = drop_bit 56 v
      in if m \<le> 8 - l then map_option (Pair (n + l)) (or_at (n div 8) (ucast (drop_bit m msk)) dst)
         else
           (let written = 8 - m
            in Option.bind (or_at (n div 8) (ucast (drop_bit m msk)) dst) (\<lambda>dst.
                 let n = n + written; msk = drop_bit 56 (push_bit written v); m = n mod 8
                 in map_option (Pair (n + (l - written))) (or_at (n div 8) (ucast (drop_bit m msk)) dst))))"

text \<open>The remaining bits of a value, when the current byte is full: eight bytes are written over the buffer.\<close>

definition put_rest :: "nat \<Rightarrow> u64 \<Rightarrow> nat \<Rightarrow> nat \<Rightarrow> byte list \<Rightarrow> (nat \<times> byte list) option" where
  "put_rest l v written n dst =
     (let vv = push_bit written v; dst = grow (n div 8 + 8) dst; k = n div 8
      in Some (n + (l - written), take k dst @ be_bytes vv @ drop (k + 8) dst))"

definition put_value :: "nat \<Rightarrow> u64 \<Rightarrow> nat \<Rightarrow> byte list \<Rightarrow> (nat \<times> byte list) option" where
  "put_value l v n dst =
     (let m = n mod 8
      in if m > 0
         then
           (let written = (if l < 8 - m then l else 8 - m)
            in Option.bind (or_at (n div 8) (ucast (drop_bit m (drop_bit 56 v))) dst) (\<lambda>dst.
                 if l - written = 0 then Some (n + written, dst) else put_rest l v written (n + written) dst))
         else put_rest l v 0 n dst)"

text \<open>The position of the significant bits of the last value that had one; \<open>None\<close> is the initial \<open>!0\<close>.\<close>

type_synonym window = "(nat \<times> nat) option"

definition float_put_new :: "u64 \<Rightarrow> nat \<Rightarrow> nat \<Rightarrow> nat \<Rightarrow> byte list \<Rightarrow> (window \<times> nat \<times> byte list) option" where
  "float_put_new v_delta leading trailing n dst =
     Option.bind (or_at (n div 8) (drop_bit (n mod 8) 128) dst) (\<lambda>dst.
     let n = n + 1; dst = push_if ((n + 5) div 8) dst
     in Option.bind (put_field 5 (push_bit 59 (of_nat leading)) n dst) (\<lambda>(n, dst).
        let sig_bits = 64 - leading - trailing; dst = push_if ((n + 6) div 8) dst
        in Option.bind (put_field 6 (push_bit 58 (of_nat sig_bits)) n dst) (\<lambda>(n, dst).
           let l = sig_bits; v = push_bit (64 - l) (drop_bit trailing v_delta); dst = grow ((n + l) div 8) dst
           in map_option (Pair (Some (leading, trailing))) (put_value l v n dst))))"

definition float_put :: "u64 \<Rightarrow> window \<Rightarrow> nat \<Rightarrow> byte list \<Rightarrow> (window \<times> nat \<times> byte list) option" where
  "float_put v_delta prev n dst =
     (let dst = grow (n div 8) dst
      in Option.bind (or_at (n div 8) (drop_bit (n mod 8) 128) dst) (\<lambda>dst.
      let n = n + 1;
          leading = leading_zeros v_delta mod 32;
          trailing = trailing_zeros_u64 v_delta;
          dst = push_if ((n + 2) div 8) dst
      in case prev of
           Some (prev_leading, prev_trailing) \<Rightarrow>
             if leading \<ge> prev_leading \<and> trailing \<ge> prev_trailing
             then
               (let n = n + 1; l = 64 - prev_leading - prev_trailing; dst = grow ((n + 1) div 8) dst;
                    v = push_bit (64 - l) (drop_bit prev_trailing v_delta)
                in map_option (Pair prev) (put_value l v n dst))
             else float_put_new v_delta leading trailing n dst
         | None \<Rightarrow> float_put_new v_delta leading trailing n dst))"

definition float_step :: "u64 \<Rightarrow> u64 \<Rightarrow> window \<Rightarrow> nat \<Rightarrow> byte list \<Rightarrow> (window \<times> nat \<times> byte list) option" where
  "float_step cur prev w n dst =
     (let v_delta = cur XOR prev in if v_delta = 0 then Some (w, n + 1, dst) else float_put v_delta w n dst)"

text \<open>The loop over the values after the first; in its last round it writes the sentinel.\<close>

fun float_encode_from :: "u64 list \<Rightarrow> u64 \<Rightarrow> window \<Rightarrow> nat \<Rightarrow> byte list \<Rightarrow> (string, nat) res \<times> byte list" where
  "float_encode_from [] prev w n dst =
     (case float_step SENTINEL prev w n dst of
        None \<Rightarrow> (Panic, dst)
      | Some (_, n, dst) \<Rightarrow> (Ok n, dst))"
| "float_encode_from (x # xs) prev w n dst =
     (if x = SENTINEL then (Err ''unsupported value'', dst)
      else
        (case float_step x prev w n dst of
           None \<Rightarrow> (Panic, dst)
         | Some (w, n, dst) \<Rightarrow> float_encode_from xs x w n dst))"

definition float_encode :: "u64 list \<Rightarrow> (string, unit) res \<times> byte list" where
  "float_encode src =
     (if src = [] then (Ok (), [])
      else
        (case float_encode_from (tl src) (hd src) None 72 ([push_bit 4 1] @ be_bytes (hd src)) of
           (Ok n, dst) \<Rightarrow> (Ok (), take (if n mod 8 > 0 then n div 8 + 1 else n div 8) dst)
         | (Err e, dst) \<Rightarrow> (Err e, dst)
         | (Panic, dst) \<Rightarrow> (Panic, dst)))"

section \<open>Decoding\<close>

text \<open>The table of masks; its first entry stands for 64 bits.\<close>

definition BIT_MASK :: "u64 list" where
  "BIT_MASK = (- 1) # map mask [1..<64]"

text \<open>Bits that are read ahead: the cached word, how many of its top bits are valid, and the next byte of the block.\<close>

type_synonym cache = "u64 \<times> nat \<times> nat"

definition refill_cache :: "byte list \<Rightarrow> nat \<Rightarrow> (string, u64 \<times> nat \<times> nat) res" where
  "refill_cache src i =
     (let remaining_bytes = length src - i
      in if remaining_bytes \<ge> 8 then Ok (from_be (take 8 (drop i src)), 64, 8)
         else if remaining_bytes > 0
         then Ok (word_rotr (remaining_bytes * 8) (from_be (drop i src)), remaining_bytes * 8, remaining_bytes)
         else Err ''unexpected end of block'')"

definition refill_empty :: "byte list \<Rightarrow> cache \<Rightarrow> (string, cache) res" where
  "refill_empty src cch =
     (case cch of (c, valid, i) \<Rightarrow>
        if valid = 0 then res_map (\<lambda>(c, valid, n). (c, valid, i + n)) (refill_cache src i) else Ok cch)"

definition read_control :: "byte list \<Rightarrow> cache \<Rightarrow> (string, bool \<times> cache) res" where
  "read_control src cch =
     res_bind (refill_empty src cch) (\<lambda>(c, valid, i).
       let c = word_rotl 1 c in Ok (c AND 1 \<noteq> 0, c, valid - 1, i))"

definition read_lm_bits :: "byte list \<Rightarrow> cache \<Rightarrow> (string, u64 \<times> cache) res" where
  "read_lm_bits src cch =
     (case cch of (c, valid, i) \<Rightarrow>
        if valid \<ge> 11 then (let c = word_rotl 11 c in Ok (c, c, valid - 11, i))
        else
          (let bits_01 = 11 - valid; lm_bits = (if valid > 0 then word_rotl 11 c else 0)
           in res_bind (refill_cache src i) (\<lambda>(c, valid, n).
                let c = word_rotl bits_01 c
                in if valid < bits_01 then Panic
                   else Ok ((lm_bits AND NOT (BIT_MASK ! (bits_01 mod 64))) OR (c AND BIT_MASK ! (bits_01 mod 64)),
                            c, valid - bits_01, i + n))))"

text \<open>The trailing zeros and the number of meaningful bits.\<close>

definition read_window :: "byte list \<Rightarrow> cache \<Rightarrow> (string, (nat \<times> nat) \<times> cache) res" where
  "read_window src cch =
     res_bind (read_lm_bits src cch) (\<lambda>(lm_bits, cch).
       let lm_bits = lm_bits AND 0x7ff;
           leading_n = unat (drop_bit 6 lm_bits AND 0x1f);
           meaningful_n = unat (lm_bits AND 0x3f)
       in if meaningful_n > 0
          then if leading_n + meaningful_n > 64 then Panic else Ok ((64 - leading_n - meaningful_n, meaningful_n), cch)
          else Ok ((0, 64), cch))"

definition read_s_bits :: "byte list \<Rightarrow> nat \<Rightarrow> cache \<Rightarrow> (string, u64 \<times> cache) res" where
  "read_s_bits src meaningful_n cch =
     (case cch of (c, valid, i) \<Rightarrow>
        if valid \<ge> meaningful_n
        then (let c = word_rotl meaningful_n c in Ok (c, c, valid - meaningful_n, i))
        else
          (let m_bits = meaningful_n - valid; s_bits = (if valid > 0 then word_rotl meaningful_n c else 0)
           in res_bind (refill_cache src i) (\<lambda>(c, valid, n).
                let c = word_rotl m_bits c
                in Ok ((s_bits AND NOT (BIT_MASK ! (m_bits mod 64))) OR (c AND BIT_MASK ! (m_bits mod 64)),
                       c, (256 + valid - m_bits) mod 256, i + n))))"

text \<open>What is left to read decreases in every round.\<close>

definition cache_rank :: "byte list \<Rightarrow> cache \<Rightarrow> nat" where
  "cache_rank src cch = (case cch of (c, valid, i) \<Rightarrow> (length src - i) * 256 + valid)"

lemma refill_cache_rank:
  "refill_cache src i = Ok (c, valid, n) \<Longrightarrow> 0 < n \<and> n \<le> length src - i \<and> 0 < valid \<and> valid \<le> 64"
  by (auto simp: refill_cache_def Let_def split: if_splits)

lemma refilled_rank: "refill_cache src i = Ok (c, valid, n) \<Longrightarrow> valid' < 256 \<Longrightarrow> (length src - (i + n)) * 256 + valid' < (length src - i) * 256"
  using refill_cache_rank [of src i c valid n] by (auto simp: less_diff_conv2)

lemma read_control_rank: "read_control src cch = Ok (b, cch') \<Longrightarrow> cache_rank src cch' < cache_rank src cch"
proof -
  obtain c valid i where cch: "cch = (c, valid, i)" by (cases cch)
  assume "read_control src cch = Ok (b, cch')"
  then show ?thesis
  proof (cases "valid = 0")
    case True
    then obtain c1 v1 n where r: "refill_cache src i = Ok (c1, v1, n)" "cch' = (word_rotl 1 c1, v1 - 1, i + n)"
      using \<open>read_control _ _ = _\<close> by (cases "refill_cache src i") (auto simp: read_control_def refill_empty_def cch Let_def)
    have "v1 - 1 < 256" using refill_cache_rank [OF r(1)] by linarith
    then show ?thesis using refilled_rank [OF r(1)] r(2) by (simp add: cache_rank_def cch True)
  qed (auto simp: read_control_def refill_empty_def cch Let_def cache_rank_def)
qed

lemma read_lm_bits_rank: "read_lm_bits src cch = Ok (v, cch') \<Longrightarrow> cache_rank src cch' \<le> cache_rank src cch"
proof -
  obtain c valid i where cch: "cch = (c, valid, i)" by (cases cch)
  assume "read_lm_bits src cch = Ok (v, cch')"
  then show ?thesis
  proof (cases "valid \<ge> 11")
    case False
    then obtain c1 v1 n where r: "refill_cache src i = Ok (c1, v1, n)" "\<exists>c2. cch' = (c2, v1 - (11 - valid), i + n)"
      using \<open>read_lm_bits _ _ = _\<close> by (cases "refill_cache src i") (auto simp: read_lm_bits_def cch Let_def split: if_splits)
    have "v1 - (11 - valid) < 256" using refill_cache_rank [OF r(1)] by linarith
    then show ?thesis using refilled_rank [OF r(1)] r(2) by (force simp: cache_rank_def cch)
  qed (auto simp: read_lm_bits_def cch Let_def cache_rank_def)
qed

lemma read_window_rank: "read_window src cch = Ok (w, cch') \<Longrightarrow> cache_rank src cch' \<le> cache_rank src cch"
  by (cases "read_lm_bits src cch") (auto simp: read_window_def Let_def split: if_splits dest: read_lm_bits_rank)

lemma read_s_bits_rank: "read_s_bits src k cch = Ok (v, cch') \<Longrightarrow> cache_rank src cch' \<le> cache_rank src cch"
proof -
  obtain c valid i where cch: "cch = (c, valid, i)" by (cases cch)
  assume "read_s_bits src k cch = Ok (v, cch')"
  then show ?thesis
  proof (cases "valid \<ge> k")
    case False
    then obtain c1 v1 n where r: "refill_cache src i = Ok (c1, v1, n)" "\<exists>c2. cch' = (c2, (256 + v1 - (k - valid)) mod 256, i + n)"
      using \<open>read_s_bits _ _ _ = _\<close> by (cases "refill_cache src i") (auto simp: read_s_bits_def cch Let_def)
    then show ?thesis using refilled_rank [OF r(1), of "(256 + v1 - (k - valid)) mod 256"] by (auto simp: cache_rank_def cch)
  qed (auto simp: read_s_bits_def cch Let_def cache_rank_def)
qed

definition read_position :: "byte list \<Rightarrow> nat \<times> nat \<Rightarrow> cache \<Rightarrow> (string, (nat \<times> nat) \<times> cache) res" where
  "read_position src w cch = res_bind (read_control src cch) (\<lambda>(b, cch). if b then read_window src cch else Ok (w, cch))"

lemma read_position_rank: "read_position src w cch = Ok (w', cch') \<Longrightarrow> cache_rank src cch' < cache_rank src cch"
proof -
  assume "read_position src w cch = Ok (w', cch')"
  then obtain b c1 where c1: "read_control src cch = Ok (b, c1)" "(if b then read_window src c1 else Ok (w, c1)) = Ok (w', cch')"
    by (cases "read_control src cch") (auto simp: read_position_def)
  then have "cache_rank src cch' \<le> cache_rank src c1" using read_window_rank by (metis (full_types) order_refl prod.inject res.inject(1))
  then show ?thesis using read_control_rank [OF c1(1)] by simp
qed

function gorilla_from :: "byte list \<Rightarrow> u64 \<Rightarrow> u64 \<Rightarrow> nat \<times> nat \<Rightarrow> cache \<Rightarrow> u64 list \<Rightarrow> (string, unit) res \<times> u64 list" where
  "gorilla_from src sentinel val w cch dst =
     (case read_control src cch of
        Err e \<Rightarrow> (Err e, dst)
      | Panic \<Rightarrow> (Panic, dst)
      | Ok (b, cch) \<Rightarrow>
          if \<not> b then gorilla_from src sentinel val w cch (dst @ [val])
          else
            (case read_position src w cch of
               Err e \<Rightarrow> (Err e, dst)
             | Panic \<Rightarrow> (Panic, dst)
             | Ok (w, cch) \<Rightarrow>
                 (case read_s_bits src (snd w) cch of
                    Err e \<Rightarrow> (Err e, dst)
                  | Panic \<Rightarrow> (Panic, dst)
                  | Ok (s_bits, cch) \<Rightarrow>
                      (let s_bits = s_bits AND BIT_MASK ! (snd w mod 64);
                           val = val XOR push_bit (fst w mod 64) s_bits
                       in if val = sentinel then (Ok (), dst)
                          else gorilla_from src sentinel val w cch (dst @ [val])))))"
  by pat_completeness auto
termination
proof (relation "measure (\<lambda>(src, sentinel, val, w, cch, dst). cache_rank src cch)", goal_cases)
  case (2 src sentinel val w cch dst x y)
  then show ?case using read_control_rank by fastforce
next
  case (3 src sentinel val w cch dst p b c1 q w' c2 r s_bits c3 s v)
  then have r: "read_control src cch = Ok (b, c1)" "read_position src w c1 = Ok (w', c2)" "read_s_bits src (snd w') c2 = Ok (s_bits, c3)" by simp_all
  then show ?case using read_control_rank [OF r(1)] read_position_rank [OF r(2)] read_s_bits_rank [OF r(3)] by simp
qed simp

declare gorilla_from.simps [simp del]

definition decode_with_sentinel :: "byte list \<Rightarrow> u64 list \<Rightarrow> u64 \<Rightarrow> (string, unit) res \<times> u64 list" where
  "decode_with_sentinel src dst sentinel =
     (if length src < 9 then (Ok (), dst)
      else
        (let val = from_be (take 8 (drop 1 src)); dst = dst @ [val]
         in case refill_cache src 9 of
              Err e \<Rightarrow> (Err e, dst)
            | Panic \<Rightarrow> (Panic, dst)
            | Ok (c, valid, n) \<Rightarrow> gorilla_from src sentinel val (0, 64) (c, valid, 9 + n) dst))"

definition float_decode :: "byte list \<Rightarrow> u64 list \<Rightarrow> (string, unit) res \<times> u64 list" where
  "float_decode src dst = decode_with_sentinel src dst SENTINEL"

definition float_decode_influxdb :: "byte list \<Rightarrow> u64 list \<Rightarrow> (string, unit) res \<times> u64 list" where
  "float_decode_influxdb src dst = decode_with_sentinel src dst SENTINEL_INFLUXDB"

end
