(* ===== verification/Tsm_Gorilla.thy ===== *)
theory Tsm_Gorilla
  imports Tsm_Float
begin

text \<open>
  Correctness of the float codec.  The encoder is shown to append exactly the bits of a format, given as a
  list of booleans, whatever bytes the bits fall into; the decoder is shown to read these bits, whatever
  part of them is in its cache; and the format can be decoded.
\<close>

section \<open>Writing bits\<close>

text \<open>Bit \<open>k\<close> of a buffer is set; past the end no bit is.\<close>

definition buf_set :: "byte list \<Rightarrow> nat \<Rightarrow> bool" where
  "buf_set dst k \<longleftrightarrow> k div 8 < length dst \<and> buf_bit dst k"

definition holds :: "bool list \<Rightarrow> nat \<Rightarrow> byte list \<Rightarrow> bool" where
  "holds bs n dst \<longleftrightarrow> n = length bs \<and> (\<forall>k. buf_set dst k \<longleftrightarrow> k < n \<and> bs ! k)"

text \<open>The top \<open>l\<close> bits of a word.\<close>

definition top_bits :: "nat \<Rightarrow> u64 \<Rightarrow> bool list" where
  "top_bits l v = map (\<lambda>i. bit v (63 - i)) [0..<l]"

definition only_top :: "nat \<Rightarrow> u64 \<Rightarrow> bool" where
  "only_top l v \<longleftrightarrow> (\<forall>i. i < 64 - l \<longrightarrow> \<not> bit v i)"

lemma length_top_bits [simp]: "length (top_bits l v) = l"
  by (simp add: top_bits_def)

lemma buf_set_append_zeros: "buf_set (dst @ replicate m 0) k = buf_set dst k"
  by (auto simp: buf_set_def buf_bit_def nth_append)

lemma grow_set [simp]: "buf_set (grow i dst) k = buf_set dst k"
  by (simp add: grow_def buf_set_append_zeros)

lemma length_grow [simp]: "length (grow i dst) = max (length dst) (Suc i)"
  by (simp add: grow_def max_def)

lemma push_if_set [simp]: "buf_set (push_if i dst) k = buf_set dst k"
  using buf_set_append_zeros [of dst 1] by (simp add: push_if_def)

lemma length_push_if: "length (push_if i dst) = (if i \<ge> length dst then Suc (length dst) else length dst)"
  by (simp add: push_if_def)

lemma holds_grow [simp]: "holds bs n (grow i dst) = holds bs n dst" "holds bs n (push_if i dst) = holds bs n dst"
  by (simp_all add: holds_def)

lemma holds_append:
  assumes "holds bs n dst" and "\<And>k. buf_set dst' k \<longleftrightarrow> buf_set dst k \<or> (n \<le> k \<and> k < n + l \<and> f (k - n))"
  shows "holds (bs @ map f [0..<l]) (n + l) dst'"
proof -
  have n: "n = length bs" and old: "buf_set dst k \<longleftrightarrow> k < n \<and> bs ! k" for k using assms(1) by (auto simp: holds_def)
  have "buf_set dst' k \<longleftrightarrow> k < n + l \<and> (bs @ map f [0..<l]) ! k" for k
  proof (cases "k < n")
    case True
    then show ?thesis using assms(2) [of k] old [of k] by (simp add: n nth_append)
  next
    case False
    then show ?thesis using assms(2) [of k] old [of k] by (cases "k < n + l") (simp_all add: n nth_append)
  qed
  then show ?thesis using assms(1) by (simp add: holds_def)
qed

lemma holds_zero: "holds bs n dst \<Longrightarrow> holds (bs @ [False]) (n + 1) dst"
  using holds_append [of bs n dst dst 1 "\<lambda>_. False"] by simp

lemma bit_u64: "64 \<le> i \<Longrightarrow> \<not> bit (v :: u64) i"
  using bit_imp_le_length [of v i] by auto

lemma same_byte: "(k :: nat) div 8 = n div 8 \<Longrightarrow> 7 - k mod 8 = 7 - n mod 8 \<longleftrightarrow> k = n"
proof
  assume "k div 8 = n div 8" "7 - k mod 8 = 7 - n mod 8"
  moreover have "k mod 8 < 8" "n mod 8 < 8" by simp_all
  ultimately have "k mod 8 = n mod 8" by linarith
  then show "k = n" using \<open>k div 8 = n div 8\<close> by (metis div_mult_mod_eq)
qed simp

text \<open>The byte that holds bit \<open>n\<close> receives the top bits of a word from bit \<open>n\<close> on.\<close>

lemma or_at_top:
  fixes v :: u64
  assumes "n div 8 < length dst"
  shows "\<exists>dst'. or_at (n div 8) (ucast (drop_bit (n mod 8) (drop_bit 56 v))) dst = Some dst' \<and> length dst' = length dst
    \<and> (\<forall>k. buf_set dst' k \<longleftrightarrow> buf_set dst k \<or> (n \<le> k \<and> k div 8 = n div 8 \<and> bit v (63 - (k - n))))"
proof -
  let ?c = "ucast (drop_bit (n mod 8) (drop_bit 56 v)) :: byte"
  have bit_c: "bit ?c t \<longleftrightarrow> t < 8 \<and> bit v (56 + n mod 8 + t)" for t by (auto simp: bit_simps ac_simps)
  have c: "bit ?c (7 - k mod 8) \<longleftrightarrow> n \<le> k \<and> bit v (63 - (k - n))" if same: "k div 8 = n div 8" for k
  proof (cases "n \<le> k")
    case True
    have "k - n = k mod 8 - n mod 8" "n mod 8 \<le> k mod 8" using True same div_mult_mod_eq [of k 8] div_mult_mod_eq [of n 8] by linarith+
    then have "56 + n mod 8 + (7 - k mod 8) = 63 - (k - n)" using mod_less_divisor [of 8 k] by linarith
    moreover have "7 - k mod 8 < 8" by linarith
    ultimately show ?thesis using True unfolding bit_c by simp
  next
    case False
    then have "k mod 8 < n mod 8" using same div_mult_mod_eq [of k 8] div_mult_mod_eq [of n 8] by linarith
    then have "64 \<le> 56 + n mod 8 + (7 - k mod 8)" by linarith
    then have "\<not> bit v (56 + n mod 8 + (7 - k mod 8))" by (rule bit_u64)
    then show ?thesis using False unfolding bit_c by simp
  qed
  have "buf_set (dst[n div 8 := dst ! (n div 8) OR ?c]) k \<longleftrightarrow> buf_set dst k \<or> (n \<le> k \<and> k div 8 = n div 8 \<and> bit v (63 - (k - n)))" for k
    using assms c [of k] by (auto simp: buf_set_def buf_bit_def nth_list_update bit_or_iff)
  then show ?thesis using assms by (simp add: or_at_def)
qed

lemma or_at_one:
  assumes "n div 8 < length dst" and "holds bs n dst"
  shows "\<exists>dst'. or_at (n div 8) (drop_bit (n mod 8) 128) dst = Some dst' \<and> length dst' = length dst \<and> holds (bs @ [True]) (n + 1) dst'"
proof -
  let ?dst' = "dst[n div 8 := dst ! (n div 8) OR drop_bit (n mod 8) 128]"
  have "buf_set ?dst' k \<longleftrightarrow> buf_set dst k \<or> (n \<le> k \<and> k < n + 1 \<and> True)" for k
  proof (cases "k div 8 = n div 8")
    case True
    have "bit (drop_bit (n mod 8) 128 :: byte) (7 - k mod 8) \<longleftrightarrow> 7 - k mod 8 = 7 - n mod 8" by (rule bit_drop_128) simp
    also have "\<dots> \<longleftrightarrow> k = n" using True by (rule same_byte)
    finally show ?thesis using True assms(1) by (auto simp: buf_set_def buf_bit_def bit_or_iff)
  qed (auto simp: buf_set_def buf_bit_def)
  from holds_append [OF assms(2) this] have "holds (bs @ [True]) (n + 1) ?dst'" by simp
  then show ?thesis using assms(1) by (simp add: or_at_def)
qed

lemma div8: "k div 8 = q \<longleftrightarrow> 8 * q \<le> k \<and> k < 8 * q + (8 :: nat)"
proof
  assume "k div 8 = q"
  then have "k = 8 * q + k mod 8" by (metis mult_div_mod_eq)
  moreover have "k mod 8 < 8" by simp
  ultimately show "8 * q \<le> k \<and> k < 8 * q + 8" by linarith
next
  assume "8 * q \<le> k \<and> k < 8 * q + 8"
  then show "k div 8 = q" by (intro div_nat_eqI) simp_all
qed

lemma bit_push: "bit (push_bit w v :: u64) i \<longleftrightarrow> w \<le> i \<and> i < 64 \<and> bit v (i - w)"
  by (auto simp: bit_push_bit_iff)

lemma only_topD: "only_top l v \<Longrightarrow> l \<le> i \<Longrightarrow> l < 64 \<Longrightarrow> \<not> bit v (63 - i)"
proof -
  assume top: "only_top l v" and "l \<le> i" "l < 64"
  then have "63 - i < 64 - l" by linarith
  then show ?thesis using top by (simp add: only_top_def)
qed

lemma put_field_bits:
  assumes "holds bs n dst" and "only_top l v" and "0 < l" and "l \<le> 8" and "(n + l) div 8 < length dst"
  shows "\<exists>dst'. put_field l v n dst = Some (n + l, dst') \<and> length dst' = length dst \<and> holds (bs @ top_bits l v) (n + l) dst'"
proof -
  obtain q r where n: "n = 8 * q + r" "r < 8" by (metis mod_less_divisor mult_div_mod_eq zero_less_numeral)
  then have qr: "n div 8 = q" "n mod 8 = r" by simp_all
  have room: "q < length dst" using assms(5) div_le_mono [of n "n + l" 8] qr(1) by simp
  then obtain d1 where d1: "or_at q (ucast (drop_bit r (drop_bit 56 v))) dst = Some d1" "length d1 = length dst"
    "\<And>k. buf_set d1 k \<longleftrightarrow> buf_set dst k \<or> (n \<le> k \<and> k div 8 = q \<and> bit v (63 - (k - n)))"
    using or_at_top [of n dst v] unfolding qr by blast
  have low: "\<not> bit v (63 - (k - n))" if "n + l \<le> k" for k using only_topD [OF assms(2), of "k - n"] that assms(4) by simp
  show ?thesis
  proof (cases "r \<le> 8 - l")
    case True
    have "buf_set d1 k \<longleftrightarrow> buf_set dst k \<or> (n \<le> k \<and> k < n + l \<and> bit v (63 - (k - n)))" for k
      using d1(3) [of k] low [of k] True n assms(4) unfolding div8 by (cases "k < n + l") auto
    from holds_append [OF assms(1) this] show ?thesis using True d1 by (simp add: put_field_def Let_def top_bits_def qr)
  next
    case False
    define w where "w = 8 - r"
    have w: "w \<le> l" "n + w = 8 * (q + 1)" using False n by (simp_all add: w_def)
    have "(n + w) div 8 = q + 1" "(n + w) mod 8 = 0" unfolding w(2) by simp_all
    note qr' = this
    have "q + 1 < length d1" using div_le_mono [of "n + w" "n + l" 8] w(1) assms(5) d1(2) qr'(1) by simp
    then obtain d2 where d2: "or_at (q + 1) (ucast (drop_bit 0 (drop_bit 56 (push_bit w v)))) d1 = Some d2" "length d2 = length d1"
      "\<And>k. buf_set d2 k \<longleftrightarrow> buf_set d1 k \<or> (n + w \<le> k \<and> k div 8 = q + 1 \<and> bit (push_bit w v) (63 - (k - (n + w))))"
      using or_at_top [of "n + w" d1 "push_bit w v"] unfolding qr' by blast
    have "buf_set d2 k \<longleftrightarrow> buf_set dst k \<or> (n \<le> k \<and> k < n + l \<and> bit v (63 - (k - n)))" for k
    proof (cases "n + w \<le> k")
      case True
      then have idx: "63 - (k - (n + w)) - w = 63 - (k - n)" by simp
      show ?thesis
      proof (cases "k < n + l")
        case below: True
        then have "w \<le> 63 - (k - (n + w))" "63 - (k - (n + w)) < 64" using True w assms(4) by simp_all
        then have "bit (push_bit w v) (63 - (k - (n + w))) \<longleftrightarrow> bit v (63 - (k - n))" unfolding bit_push idx by simp
        then show ?thesis using True below w n(2) assms(4) d1(3) [of k] d2(3) [of k] unfolding div8 by simp
      next
        case beyond: False
        have "\<not> bit (push_bit w v) (63 - (k - (n + w)))" unfolding bit_push idx using low [of k] beyond by simp
        then show ?thesis using beyond low [of k] d1(3) [of k] d2(3) [of k] by simp
      qed
    next
      case False
      then show ?thesis using w n d1(3) [of k] d2(3) [of k] unfolding div8 by auto
    qed
    from holds_append [OF assms(1) this] have "holds (bs @ top_bits l v) (n + l) d2" by (simp add: top_bits_def)
    moreover have "n + w + (l - w) = n + l" using w(1) by simp
    then have "put_field l v n dst = Some (n + l, d2)"
      using False d2(1) unfolding put_field_def Let_def qr d1(1) w_def [symmetric] qr' by simp
    ultimately show ?thesis using d1(2) d2(2) by simp
  qed
qed

lemma be_bytes_nth: "j < 8 \<Longrightarrow> be_bytes v ! j = ucast (drop_bit (8 * (7 - j)) v)"
proof -
  assume "j < 8"
  then have "j = 0 \<or> j = 1 \<or> j = 2 \<or> j = 3 \<or> j = 4 \<or> j = 5 \<or> j = 6 \<or> j = 7" by arith
  then show ?thesis by (elim disjE) (simp_all add: be_bytes_def)
qed

lemma be_bytes_bit: "j < 8 \<Longrightarrow> r < 8 \<Longrightarrow> bit (be_bytes v ! j) (7 - r) = bit v (63 - (8 * j + r))"
proof -
  assume "j < 8" "r < 8"
  then have "8 * (7 - j) + (7 - r) = 63 - (8 * j + r)" "7 - r < 8" by simp_all
  then show ?thesis using \<open>j < 8\<close> by (simp add: be_bytes_nth bit_ucast_iff bit_drop_bit_eq)
qed

lemma put_rest_bits:
  assumes "holds bs n dst" and "n = 8 * q" and "vv = push_bit written v" and "L = l - written" and "only_top L vv" and "L \<le> 64"
  shows "\<exists>dst'. put_rest l v written n dst = Some (n + L, dst') \<and> holds (bs @ top_bits L vv) (n + L) dst' \<and> n + L \<le> 8 * length dst'"
proof -
  define D where "D = grow (q + 8) dst"
  have D: "q + 8 < length D" "\<And>k. buf_set D k = buf_set dst k" by (simp_all add: D_def)
  define d' where "d' = take q D @ be_bytes vv @ drop (q + 8) D"
  have len: "length d' = length D" using D(1) by (simp add: d'_def)
  have old: "\<not> buf_set dst k" if "n \<le> k" for k using assms(1) that by (simp add: holds_def)
  have "buf_set d' k \<longleftrightarrow> buf_set dst k \<or> (n \<le> k \<and> k < n + L \<and> bit vv (63 - (k - n)))" for k
  proof -
    obtain p r where k: "k = 8 * p + r" "r < 8" by (metis mod_less_divisor mult_div_mod_eq zero_less_numeral)
    then have kp: "k div 8 = p" "k mod 8 = r" by simp_all
    consider "p < q" | "q \<le> p" "p < q + 8" | "q + 8 \<le> p" by linarith
    then show ?thesis
    proof cases
      case 1
      then have "d' ! p = D ! p" using D(1) by (simp add: d'_def nth_append)
      then have "buf_set d' k = buf_set D k" by (simp add: buf_set_def buf_bit_def kp len)
      then show ?thesis using 1 k assms(2) D(2) by simp
    next
      case 2
      then have "p - q < 8" "length (take q D) = q" using D(1) by simp_all
      then have "d' ! p = be_bytes vv ! (p - q)" using 2(1) by (simp add: d'_def nth_append)
      then have "buf_set d' k \<longleftrightarrow> bit vv (63 - (k - n))"
        using 2 D(1) k be_bytes_bit [of "p - q" r vv] assms(2) by (simp add: buf_set_def buf_bit_def kp len right_diff_distrib')
      moreover have "n \<le> k" using 2 k assms(2) by simp
      moreover have "\<not> bit vv (63 - (k - n))" if "n + L \<le> k"
      proof -
        have "63 - (k - n) < 64 - L" using that 2 k assms(2,6) by linarith
        then show ?thesis using assms(5) by (simp add: only_top_def)
      qed
      ultimately show ?thesis using old [of k] by (cases "k < n + L") auto
    next
      case 3
      then have "\<not> p - q < 8" "length (take q D) = q" "q + 8 + (p - q - 8) = p" using D(1) by simp_all
      then have "p < length D \<Longrightarrow> d' ! p = D ! p" using 3 by (simp add: d'_def nth_append)
      then have "buf_set d' k = buf_set D k" by (auto simp: buf_set_def buf_bit_def kp len)
      moreover have "n + 64 \<le> k" using 3 k assms(2) by simp
      ultimately show ?thesis using D(2) assms(6) by simp
    qed
  qed
  from holds_append [OF assms(1) this] have "holds (bs @ top_bits L vv) (n + L) d'" by (simp add: top_bits_def)
  moreover have "put_rest l v written n dst = Some (n + L, d')" using assms(2,3,4) by (simp add: put_rest_def Let_def d'_def D_def)
  moreover have "n + L \<le> 8 * length d'" using len D(1) assms(2,6) by simp
  ultimately show ?thesis by blast
qed

lemma put_value_bits:
  assumes "holds bs n dst" and "only_top l v" and "0 < l" and "l \<le> 64" and "n div 8 < length dst"
  shows "\<exists>dst'. put_value l v n dst = Some (n + l, dst') \<and> holds (bs @ top_bits l v) (n + l) dst' \<and> n + l \<le> 8 * length dst'"
proof -
  obtain q r where n: "n = 8 * q + r" "r < 8" by (metis mod_less_divisor mult_div_mod_eq zero_less_numeral)
  then have qr: "n div 8 = q" "n mod 8 = r" by simp_all
  show ?thesis
  proof (cases "r > 0")
    case False
    then have "n = 8 * q" "n mod 8 = 0" using n by simp_all
    then show ?thesis using put_rest_bits [OF assms(1), of q v 0 v l l] assms(2,4) by (auto simp: put_value_def Let_def)
  next
    case True
    define w where "w = (if l < 8 - r then l else 8 - r)"
    obtain d1 where d1: "or_at q (ucast (drop_bit r (drop_bit 56 v))) dst = Some d1" "length d1 = length dst"
      "\<And>k. buf_set d1 k \<longleftrightarrow> buf_set dst k \<or> (n \<le> k \<and> k div 8 = q \<and> bit v (63 - (k - n)))"
      using or_at_top [OF assms(5), of v] unfolding qr by blast
    have "buf_set d1 k \<longleftrightarrow> buf_set dst k \<or> (n \<le> k \<and> k < n + w \<and> bit v (63 - (k - n)))" for k
    proof (cases "k < n + w")
      case True
      then show ?thesis using d1(3) [of k] n unfolding div8 w_def by (auto split: if_splits)
    next
      case False
      have "\<not> bit v (63 - (k - n))" if "k < 8 * q + 8"
      proof -
        have "l < 8 - r" using False that n(1) by (auto simp: w_def split: if_splits)
        then show ?thesis using False that assms(2) n(2) by (intro only_topD) (auto simp: w_def)
      qed
      then show ?thesis using False d1(3) [of k] unfolding div8 by auto
    qed
    from holds_append [OF assms(1) this] have h1: "holds (bs @ top_bits w v) (n + w) d1" by (simp add: top_bits_def)
    have step: "put_value l v n dst = (if l - w = 0 then Some (n + w, d1) else put_rest l v w (n + w) d1)"
      using True unfolding put_value_def Let_def qr d1(1) w_def [symmetric] by simp
    show ?thesis
    proof (cases "l - w = 0")
      case True
      then have "w = l" by (auto simp: w_def split: if_splits)
      moreover have "w \<le> 8 - r" by (simp add: w_def)
      then have "n + w \<le> 8 * length d1" using assms(5) d1(2) n qr(1) by linarith
      ultimately show ?thesis using step h1 by simp
    next
      case False
      then have w: "w = 8 - r" "w < l" by (auto simp: w_def split: if_splits)
      then have "n + w = 8 * (q + 1)" using n by simp
      moreover have "only_top (l - w) (push_bit w v)"
        using assms(2,4) w unfolding only_top_def bit_push by auto
      ultimately obtain d2 where "put_rest l v w (n + w) d1 = Some (n + w + (l - w), d2)"
        "holds ((bs @ top_bits w v) @ top_bits (l - w) (push_bit w v)) (n + w + (l - w)) d2" "n + w + (l - w) \<le> 8 * length d2"
        using put_rest_bits [OF h1 _ refl refl, where q = "q + 1" and written = w and v = v and l = l] assms(4) by fastforce
      moreover have "top_bits w v @ top_bits (l - w) (push_bit w v) = top_bits l v"
      proof (rule nth_equalityI)
        fix i assume "i < length (top_bits w v @ top_bits (l - w) (push_bit w v))"
        then have "i < l" using w by simp
        moreover have "bit (push_bit w v) (63 - (i - w)) = bit v (63 - i)" if "w \<le> i"
        proof -
          have "63 - (i - w) - w = 63 - i" "w \<le> 63 - (i - w)" "63 - (i - w) < 64" using that \<open>i < l\<close> assms(4) by simp_all
          then show ?thesis unfolding bit_push by simp
        qed
        moreover have "[0..<l - w] ! (i - w) = i - w" if "w \<le> i" using that \<open>i < l\<close> by simp
        ultimately show "(top_bits w v @ top_bits (l - w) (push_bit w v)) ! i = top_bits l v ! i"
          by (cases "i < w") (simp_all add: top_bits_def nth_append)
      qed (use w in simp)
      ultimately show ?thesis using step False w(2) by simp
    qed
  qed
qed

section \<open>The format\<close>

text \<open>How often a word has zeros at its ends.\<close>

lemma trailing_zeros_low: "i < trailing_zeros_u64 v \<Longrightarrow> \<not> bit v i"
proof -
  assume i: "i < trailing_zeros_u64 v"
  then have "i < 64" using length_takeWhile_le [of "\<lambda>i. \<not> bit v i" "[0..<64]"] by (simp add: trailing_zeros_u64_def)
  then show ?thesis using nth_mem [of i "takeWhile (\<lambda>i. \<not> bit v i) [0..<64]"] i set_takeWhileD takeWhile_nth [of i "\<lambda>i. \<not> bit v i" "[0..<64]"]
    unfolding trailing_zeros_u64_def by (metis add_0 nth_upt)
qed

lemma leading_zeros_high: "64 - leading_zeros v \<le> i \<Longrightarrow> \<not> bit v i"
proof (cases "i < 64")
  case True
  assume i: "64 - leading_zeros v \<le> i"
  let ?xs = "rev [0..<64 :: nat]"
  have "63 - i < leading_zeros v" using i True by simp
  then have "?xs ! (63 - i) \<in> set (takeWhile (\<lambda>i. \<not> bit v i) ?xs)" unfolding leading_zeros_def by (metis nth_mem takeWhile_nth)
  moreover have "?xs ! (63 - i) = i" using True by (simp add: rev_nth)
  ultimately show ?thesis using set_takeWhileD by metis
qed (use bit_u64 in simp)

lemma zeros_bound: "v \<noteq> 0 \<Longrightarrow> leading_zeros v + trailing_zeros_u64 v < 64"
proof -
  assume "v \<noteq> 0"
  then obtain j where j: "bit v j" by (metis bit_eqI bit_0_eq bot_apply bot_bool_def)
  then have "j < 64" using bit_u64 by (meson not_less)
  have "\<not> j < trailing_zeros_u64 v" "\<not> 64 - leading_zeros v \<le> j" using trailing_zeros_low leading_zeros_high j by blast+
  then show ?thesis by linarith
qed

text \<open>The bits that are written for a value, and the window that is used for the next.\<close>

definition lead5 :: "u64 \<Rightarrow> nat" where
  "lead5 d = leading_zeros d mod 32"

definition fits :: "u64 \<Rightarrow> window \<Rightarrow> bool" where
  "fits d w \<longleftrightarrow> (case w of Some (pl, pt) \<Rightarrow> lead5 d \<ge> pl \<and> trailing_zeros_u64 d \<ge> pt | None \<Rightarrow> False)"

definition next_window :: "u64 \<Rightarrow> window \<Rightarrow> nat \<times> nat" where
  "next_window d w = (if fits d w then the w else (lead5 d, trailing_zeros_u64 d))"

definition significant :: "u64 \<Rightarrow> nat \<times> nat \<Rightarrow> bool list" where
  "significant d w = (case w of (l, t) \<Rightarrow> top_bits (64 - l - t) (push_bit (l + t) (drop_bit t d)))"

definition delta_bits :: "u64 \<Rightarrow> window \<Rightarrow> bool list" where
  "delta_bits d w =
     (if d = 0 then [False]
      else if fits d w then [True, False] @ significant d (the w)
      else
        [True, True] @ top_bits 5 (push_bit 59 (of_nat (lead5 d)))
          @ top_bits 6 (push_bit 58 (of_nat (64 - lead5 d - trailing_zeros_u64 d))) @ significant d (lead5 d, trailing_zeros_u64 d))"

definition window_ok :: "window \<Rightarrow> bool" where
  "window_ok w \<longleftrightarrow> (case w of Some (l, t) \<Rightarrow> l + t < 64 \<and> l < 32 | None \<Rightarrow> True)"

lemma new_window_ok: "d \<noteq> 0 \<Longrightarrow> lead5 d + trailing_zeros_u64 d < 64" "lead5 d < 32"
proof -
  have "lead5 d \<le> leading_zeros d" by (simp add: lead5_def)
  then show "d \<noteq> 0 \<Longrightarrow> lead5 d + trailing_zeros_u64 d < 64" using zeros_bound [of d] by simp
qed (simp add: lead5_def)

lemma only_top_push: "l \<le> 64 \<Longrightarrow> only_top l (push_bit (64 - l) v)"
  by (auto simp: only_top_def bit_push)

section \<open>The encoder writes the format\<close>

lemma push_room: "i \<le> length dst \<Longrightarrow> i < length (push_if i dst)"
  by (simp add: length_push_if)

lemma div8_add: "k \<le> 8 \<Longrightarrow> (n + k) div 8 \<le> n div 8 + (1 :: nat)"
proof -
  assume "k \<le> 8"
  then have "(n + k) div 8 \<le> (n + 8) div 8" by (intro div_le_mono) simp
  then show ?thesis by simp
qed

lemma float_put_new_bits:
  assumes "holds bs n dst" and "(n + 2) div 8 < length dst" and "l + t < 64" and "L = 64 - l - t"
  shows "\<exists>dst'. float_put_new d l t n dst = Some (Some (l, t), n + 12 + L, dst')
    \<and> holds (bs @ [True] @ top_bits 5 (push_bit 59 (of_nat l)) @ top_bits 6 (push_bit 58 (of_nat L)) @ significant d (l, t))
        (n + 12 + L) dst' \<and> n + 12 + L \<le> 8 * length dst'"
proof -
  have room: "n div 8 < length dst" using div_le_mono [of n "n + 2" 8] assms(2) by simp
  obtain d1 where d1: "or_at (n div 8) (drop_bit (n mod 8) 128) dst = Some d1" "length d1 = length dst" "holds (bs @ [True]) (n + 1) d1"
    using or_at_one [OF room assms(1)] by blast
  define d2 where "d2 = push_if ((n + 1 + 5) div 8) d1"
  have "(n + 1 + 5) div 8 \<le> length d1" using div8_add [of 4 "n + 2"] assms(2) d1(2) by simp
  then have "(n + 1 + 5) div 8 < length d2" unfolding d2_def by (rule push_room)
  moreover have "holds (bs @ [True]) (n + 1) d2" using d1(3) by (simp add: d2_def)
  ultimately obtain d3 where d3: "put_field 5 (push_bit 59 (of_nat l)) (n + 1) d2 = Some (n + 1 + 5, d3)" "length d3 = length d2"
    "holds ((bs @ [True]) @ top_bits 5 (push_bit 59 (of_nat l))) (n + 1 + 5) d3"
    using put_field_bits [of "bs @ [True]" "n + 1" d2 5] only_top_push [of 5] by fastforce
  define d4 where "d4 = push_if ((n + 1 + 5 + 6) div 8) d3"
  have "(n + 1 + 5 + 6) div 8 \<le> length d3" using div8_add [of 6 "n + 1 + 5"] \<open>(n + 1 + 5) div 8 < length d2\<close> d3(2) by linarith
  then have "(n + 1 + 5 + 6) div 8 < length d4" unfolding d4_def by (rule push_room)
  moreover have "holds ((bs @ [True]) @ top_bits 5 (push_bit 59 (of_nat l))) (n + 1 + 5) d4" using d3(3) by (simp add: d4_def)
  ultimately obtain d5 where d5: "put_field 6 (push_bit 58 (of_nat L)) (n + 1 + 5) d4 = Some (n + 1 + 5 + 6, d5)"
    "holds (((bs @ [True]) @ top_bits 5 (push_bit 59 (of_nat l))) @ top_bits 6 (push_bit 58 (of_nat L))) (n + 1 + 5 + 6) d5"
    using put_field_bits [of "(bs @ [True]) @ top_bits 5 (push_bit 59 (of_nat l))" "n + 1 + 5" d4 6] only_top_push [of 6] by fastforce
  define d6 where "d6 = grow ((n + 1 + 5 + 6 + L) div 8) d5"
  have "(n + 1 + 5 + 6) div 8 \<le> (n + 1 + 5 + 6 + L) div 8" by (rule div_le_mono) simp
  then have "(n + 1 + 5 + 6) div 8 < length d6" unfolding d6_def length_grow by linarith
  moreover have "only_top L (push_bit (64 - L) (drop_bit t d))" using assms(4) by (intro only_top_push) simp
  moreover have "0 < L" "L \<le> 64" using assms(3,4) by simp_all
  moreover note d5(2)
  ultimately obtain d7 where d7: "put_value L (push_bit (64 - L) (drop_bit t d)) (n + 1 + 5 + 6) d6 = Some (n + 1 + 5 + 6 + L, d7)"
    "holds ((((bs @ [True]) @ top_bits 5 (push_bit 59 (of_nat l))) @ top_bits 6 (push_bit 58 (of_nat L))) @ top_bits L (push_bit (64 - L) (drop_bit t d))) (n + 1 + 5 + 6 + L) d7" "n + 1 + 5 + 6 + L \<le> 8 * length d7"
    using put_value_bits [of "((bs @ [True]) @ top_bits 5 (push_bit 59 (of_nat l))) @ top_bits 6 (push_bit 58 (of_nat L))" "n + 1 + 5 + 6" d6 L] by (fastforce simp: d6_def)
  have "64 - L = l + t" using assms(3,4) by simp
  then have sig: "top_bits L (push_bit (64 - L) (drop_bit t d)) = significant d (l, t)" by (simp only: significant_def prod.case assms(4))
  have "float_put_new d l t n dst = Some (Some (l, t), n + 1 + 5 + 6 + L, d7)"
    unfolding float_put_new_def Let_def assms(4) [symmetric] d1(1) bind.bind_lunit d2_def [symmetric] d3(1) prod.case
      d4_def [symmetric] d5(1) d6_def [symmetric] d7(1) by simp
  moreover have "n + 1 + 5 + 6 + L = n + 12 + L" by simp
  ultimately show ?thesis using d7(2,3) unfolding sig by (simp only: append_assoc) blast
qed

lemma float_put_bits:
  assumes "d \<noteq> 0" and "holds bs n dst" and "window_ok w"
  shows "\<exists>dst'. float_put d w n dst = Some (Some (next_window d w), n + length (delta_bits d w), dst') \<and> holds (bs @ delta_bits d w) (n + length (delta_bits d w)) dst'
    \<and> n + length (delta_bits d w) \<le> 8 * length dst'"
proof -
  define d1 where "d1 = grow (n div 8) dst"
  have "holds bs n d1" "n div 8 < length d1" using assms(2) by (simp_all add: d1_def)
  then obtain d2 where d2: "or_at (n div 8) (drop_bit (n mod 8) 128) d1 = Some d2" "length d2 = length d1" "holds (bs @ [True]) (n + 1) d2"
    using or_at_one by blast
  define d3 where "d3 = push_if ((n + 1 + 2) div 8) d2"
  have "(n + 1 + 2) div 8 \<le> length d2" using div8_add [of 3 n] \<open>n div 8 < length d1\<close> d2(2) by simp
  then have room: "(n + 1 + 2) div 8 < length d3" unfolding d3_def by (rule push_room)
  have h3: "holds (bs @ [True]) (n + 1) d3" using d2(3) by (simp add: d3_def)
  have put: "float_put d w n dst = (case w of
      Some (pl, pt) \<Rightarrow> if lead5 d \<ge> pl \<and> trailing_zeros_u64 d \<ge> pt
        then map_option (Pair w) (put_value (64 - pl - pt) (push_bit (64 - (64 - pl - pt)) (drop_bit pt d)) (n + 1 + 1) (grow ((n + 1 + 1 + 1) div 8) d3))
        else float_put_new d (lead5 d) (trailing_zeros_u64 d) (n + 1) d3
    | None \<Rightarrow> float_put_new d (lead5 d) (trailing_zeros_u64 d) (n + 1) d3)"
    unfolding float_put_def Let_def d1_def [symmetric] d2(1) bind.bind_lunit d3_def [symmetric] lead5_def ..
  show ?thesis
  proof (cases "fits d w")
    case True
    then obtain pl pt where w: "w = Some (pl, pt)" "lead5 d \<ge> pl" "trailing_zeros_u64 d \<ge> pt" by (auto simp: fits_def split: option.splits)
    obtain L where L_eq: "64 - pl - pt = L" by blast
    have L: "0 < L" "L \<le> 64" "64 - L = pl + pt" using assms(3) by (auto simp: L_eq [symmetric] window_ok_def w)
    define d4 where "d4 = grow ((n + 1 + 1 + 1) div 8) d3"
    have "holds ((bs @ [True]) @ [False]) (n + 1 + 1) d4" using holds_zero [OF h3] by (simp add: d4_def)
    moreover have "(n + 1 + 1) div 8 < length d4" using div_le_mono [of "n + 1 + 1" "n + 1 + 1 + 1" 8] unfolding d4_def length_grow by linarith
    moreover have "only_top L (push_bit (64 - L) (drop_bit pt d))" using L(2) by (rule only_top_push)
    ultimately obtain d5 where d5: "put_value L (push_bit (64 - L) (drop_bit pt d)) (n + 1 + 1) d4 = Some (n + 1 + 1 + L, d5)"
      "holds (((bs @ [True]) @ [False]) @ top_bits L (push_bit (64 - L) (drop_bit pt d))) (n + 1 + 1 + L) d5" "n + 1 + 1 + L \<le> 8 * length d5"
      using put_value_bits L(1,2) by blast
    have bits: "delta_bits d w = [True, False] @ top_bits L (push_bit (64 - L) (drop_bit pt d))"
      using assms(1) True unfolding delta_bits_def w significant_def option.sel prod.case L_eq L(3) by simp
    have "float_put d w n dst = Some (w, n + 1 + 1 + L, d5)"
      unfolding put unfolding w(1) option.case prod.case L_eq d4_def [symmetric] d5(1) using w(2,3) by simp
    moreover have "next_window d w = (pl, pt)" using True by (simp add: next_window_def w)
    moreover have "n + 1 + 1 + L = n + length (delta_bits d w)" by (simp add: bits)
    moreover have "((bs @ [True]) @ [False]) @ top_bits L (push_bit (64 - L) (drop_bit pt d)) = bs @ delta_bits d w" by (simp add: bits)
    ultimately show ?thesis using d5(2,3) w(1) by metis
  next
    case False
    have new: "float_put d w n dst = float_put_new d (lead5 d) (trailing_zeros_u64 d) (n + 1) d3"
      unfolding put using False by (auto simp: fits_def split: option.splits)
    obtain L where L_eq: "L = 64 - lead5 d - trailing_zeros_u64 d" by blast
    obtain d4 where d4: "float_put_new d (lead5 d) (trailing_zeros_u64 d) (n + 1) d3 = Some (Some (lead5 d, trailing_zeros_u64 d), n + 1 + 12 + L, d4)"
      "holds ((bs @ [True]) @ [True] @ top_bits 5 (push_bit 59 (of_nat (lead5 d))) @ top_bits 6 (push_bit 58 (of_nat L)) @ significant d (lead5 d, trailing_zeros_u64 d)) (n + 1 + 12 + L) d4" "n + 1 + 12 + L \<le> 8 * length d4"
      using float_put_new_bits [OF h3 _ new_window_ok(1) [OF assms(1)] L_eq] room by blast
    have bits: "delta_bits d w = [True, True] @ top_bits 5 (push_bit 59 (of_nat (lead5 d))) @ top_bits 6 (push_bit 58 (of_nat L)) @ significant d (lead5 d, trailing_zeros_u64 d)"
      unfolding delta_bits_def L_eq using assms(1) False by simp
    have "length (significant d (lead5 d, trailing_zeros_u64 d)) = L" unfolding significant_def L_eq by simp
    then have "n + 1 + 12 + L = n + length (delta_bits d w)" by (simp add: bits)
    moreover have "next_window d w = (lead5 d, trailing_zeros_u64 d)" using False by (simp add: next_window_def)
    moreover have "(bs @ [True]) @ [True] @ top_bits 5 (push_bit 59 (of_nat (lead5 d))) @ top_bits 6 (push_bit 58 (of_nat L)) @ significant d (lead5 d, trailing_zeros_u64 d) = bs @ delta_bits d w"
      by (simp add: bits)
    ultimately show ?thesis using d4 new by metis
  qed
qed

text \<open>The bits of all values after the first, and of the sentinel.\<close>

definition window_after :: "u64 \<Rightarrow> window \<Rightarrow> window" where
  "window_after d w = (if d = 0 then w else Some (next_window d w))"

fun all_bits :: "u64 list \<Rightarrow> u64 \<Rightarrow> window \<Rightarrow> bool list" where
  "all_bits [] prev w = delta_bits (SENTINEL XOR prev) w"
| "all_bits (x # xs) prev w = delta_bits (x XOR prev) w @ all_bits xs x (window_after (x XOR prev) w)"

lemma window_after_ok: "window_ok w \<Longrightarrow> window_ok (window_after d w)"
  using new_window_ok [of d] by (auto simp: window_after_def next_window_def window_ok_def fits_def split: option.splits)

lemma float_step_bits:
  assumes "holds bs n dst" and "window_ok w"
  shows "\<exists>dst'. float_step x prev w n dst = Some (window_after (x XOR prev) w, n + length (delta_bits (x XOR prev) w), dst')
    \<and> holds (bs @ delta_bits (x XOR prev) w) (n + length (delta_bits (x XOR prev) w)) dst'
    \<and> (x \<noteq> prev \<longrightarrow> n + length (delta_bits (x XOR prev) w) \<le> 8 * length dst')"
proof (cases "x XOR prev = 0")
  case True
  then have "bit (x XOR prev) i = bit 0 i" for i by simp
  then have "x = prev" by (intro bit_word_eqI) (simp add: bit_xor_iff)
  then show ?thesis using holds_zero [OF assms(1)] by (simp add: float_step_def delta_bits_def window_after_def)
next
  case False
  then show ?thesis using float_put_bits [OF False assms] by (auto simp: float_step_def window_after_def)
qed

lemma float_encode_from_bits:
  "SENTINEL \<notin> set xs \<Longrightarrow> prev \<noteq> SENTINEL \<Longrightarrow> holds bs n dst \<Longrightarrow> window_ok w \<Longrightarrow>
   \<exists>n' dst'. float_encode_from xs prev w n dst = (Ok n', dst') \<and> holds (bs @ all_bits xs prev w) n' dst' \<and> n' \<le> 8 * length dst'"
proof (induction xs arbitrary: prev w n dst bs)
  case Nil
  then show ?case using float_step_bits [of bs n dst w SENTINEL prev] by fastforce
next
  case (Cons x xs)
  obtain dst' where step: "float_step x prev w n dst = Some (window_after (x XOR prev) w, n + length (delta_bits (x XOR prev) w), dst')"
    "holds (bs @ delta_bits (x XOR prev) w) (n + length (delta_bits (x XOR prev) w)) dst'"
    using float_step_bits [OF Cons.prems(3,4)] by blast
  show ?case
    using Cons.IH [OF _ _ step(2), of x "window_after (x XOR prev) w"] Cons.prems step(1) window_after_ok by auto
qed

end
