(* ===== verification/Tsm_Float_Roundtrip.thy ===== *)
theory Tsm_Float_Roundtrip
  imports Tsm_Gorilla
begin

text \<open>
  The decoder of float blocks reads the bits of a block in order, although it rotates them out of a cached
  word; with the format that the encoder writes this gives the round trip.
\<close>

section \<open>Bits of big-endian bytes\<close>

lemma from_be_snoc: "from_be (bs @ [b]) = push_bit 8 (from_be bs) OR ucast b"
  by (simp add: from_be_def)

lemma bit_from_be:
  "length bs \<le> 8 \<Longrightarrow> bit (from_be bs) t \<longleftrightarrow> t < 8 * length bs \<and> bit (bs ! (length bs - 1 - t div 8)) (t mod 8)"
proof (induction bs arbitrary: t rule: rev_induct)
  case Nil
  then show ?case by (simp add: from_be_def)
next
  case (snoc b bs)
  have IH: "bit (from_be bs) t \<longleftrightarrow> t < 8 * length bs \<and> bit (bs ! (length bs - 1 - t div 8)) (t mod 8)" for t using snoc by simp
  show ?case
  proof (cases "t < 8")
    case True
    then show ?thesis using snoc.prems by (simp add: from_be_snoc bit_or_iff bit_push bit_ucast_iff nth_append)
  next
    case False
    then obtain u where u: "t = u + 8" by (metis le_add_diff_inverse2 not_less)
    have "bit (from_be (bs @ [b])) t \<longleftrightarrow> t < 64 \<and> bit (from_be bs) u"
      using u by (auto simp: from_be_snoc bit_or_iff bit_push bit_ucast_iff dest: bit_imp_le_length)
    also have "\<dots> \<longleftrightarrow> t < 8 * length (bs @ [b]) \<and> bit ((bs @ [b]) ! (length (bs @ [b]) - 1 - t div 8)) (t mod 8)"
    proof (cases "u < 8 * length bs")
      case True
      then have "length bs - 1 - u div 8 < length bs" "length bs - (u + 8) div 8 = length bs - 1 - u div 8" by auto
      then show ?thesis using True snoc.prems unfolding IH u by (auto simp: nth_append)
    qed (use u IH in simp)
    finally show ?thesis .
  qed
qed

lemma bit_from_be_top: "length bs \<le> 8 \<Longrightarrow> j < 8 * length bs \<Longrightarrow> bit (from_be bs) (8 * length bs - 1 - j) = buf_bit bs j"
proof -
  assume "length bs \<le> 8" "j < 8 * length bs"
  obtain p r where j: "j = 8 * p + r" "r < 8" by (metis mod_less_divisor mult_div_mod_eq zero_less_numeral)
  then have p: "p < length bs" "j div 8 = p" "j mod 8 = r" using \<open>j < 8 * length bs\<close> by simp_all
  obtain r' where r': "r' = 7 - r" "r' < 8" by simp
  have "8 * length bs - 1 - j = 8 * (length bs - 1 - p) + r'" using j p(1) r' by simp
  then have "(8 * length bs - 1 - j) div 8 = length bs - 1 - p" "(8 * length bs - 1 - j) mod 8 = 7 - r" using r' by simp_all
  moreover have "length bs - 1 - (length bs - 1 - p) = p" using p(1) by simp
  moreover have "8 * length bs - 1 - j < 8 * length bs" using \<open>j < 8 * length bs\<close> by simp
  ultimately show ?thesis using bit_from_be [OF \<open>length bs \<le> 8\<close>, of "8 * length bs - 1 - j"] by (simp add: buf_bit_def p)
qed

section \<open>The cache\<close>

text \<open>The valid bits of the cache and the bytes after them are the block from bit \<open>pos\<close> on.\<close>

definition cache_at :: "byte list \<Rightarrow> cache \<Rightarrow> nat \<Rightarrow> bool" where
  "cache_at src cch pos \<longleftrightarrow>
     (case cch of (c, valid, i) \<Rightarrow> pos + valid = 8 * i \<and> i \<le> length src \<and> valid \<le> 64
        \<and> (\<forall>j<valid. bit c (63 - j) = buf_bit src (pos + j)))"

lemma buf_bit_drop_all: "buf_bit (drop m src) j = buf_bit src (8 * m + j)" if "8 * m + j < 8 * length src"
  using that by (simp add: buf_bit_def)

lemma refill_cache_at:
  assumes "i < length src"
  shows "\<exists>c valid n. refill_cache src i = Ok (c, valid, n) \<and> cache_at src (c, valid, i + n) (8 * i) \<and> valid = min 64 (8 * (length src - i))"
proof (cases "length src - i \<ge> 8")
  case True
  have "bit (from_be (take 8 (drop i src))) (63 - j) = buf_bit src (8 * i + j)" if "j < 64" for j
    using bit_from_be_top [of "take 8 (drop i src)" j] buf_bit_drop [of j 8 i src] that True by simp
  then show ?thesis using True by (simp add: refill_cache_def Let_def cache_at_def)
next
  case False
  define r where "r = length src - i"
  have r: "0 < r" "r < 8" "length (drop i src) = r" using assms False by (simp_all add: r_def)
  have "bit (word_rotr (r * 8) (from_be (drop i src))) (63 - j) = buf_bit src (8 * i + j)" if "j < r * 8" for j
  proof -
    obtain u where u: "u = 8 * r - 1 - j" "u < 64" using r(2) by simp
    have "63 - j + r * 8 = u + 64" using that r u by simp
    then have "(63 - j + r * 8) mod LENGTH(64) = u" using u(2) by simp
    moreover have "63 - j < LENGTH(64)" by simp
    ultimately have "bit (word_rotr (r * 8) (from_be (drop i src))) (63 - j) = bit (from_be (drop i src)) (8 * r - 1 - j)"
      unfolding bit_word_rotr_iff u(1) by simp
    also have "\<dots> = buf_bit (drop i src) j" using bit_from_be_top [of "drop i src" j] r that by (simp add: mult.commute)
    also have "\<dots> = buf_bit src (8 * i + j)" using that r(3) by (intro buf_bit_drop_all) simp
    finally show ?thesis .
  qed
  moreover have "i + r \<le> length src" "min 64 (8 * r) = r * 8" using r assms by (simp_all add: r_def)
  ultimately show ?thesis using False r by (simp add: refill_cache_def Let_def cache_at_def r_def [symmetric])
qed

lemma bit_rotl: "k \<le> 64 \<Longrightarrow> t < k \<Longrightarrow> bit (word_rotl k (c :: u64)) t = bit c (63 - (k - 1 - t))"
proof -
  assume "k \<le> 64" "t < k"
  have "(t + (LENGTH(64) - k mod LENGTH(64))) mod LENGTH(64) = 63 - (k - 1 - t)"
  proof (cases "k = 64")
    case False
    then show ?thesis using \<open>k \<le> 64\<close> \<open>t < k\<close> by simp
  qed (use \<open>t < k\<close> in simp)
  then show ?thesis using \<open>k \<le> 64\<close> \<open>t < k\<close> unfolding bit_word_rotl_iff by simp
qed

lemma bit_rotl_rest: "k \<le> 64 \<Longrightarrow> j + k < 64 \<Longrightarrow> bit (word_rotl k (c :: u64)) (63 - j) = bit c (63 - (k + j))"
proof -
  assume "k \<le> 64" "j + k < 64"
  then obtain u where u: "u = 63 - (k + j)" "u < 64" "k mod 64 = k" by simp
  have "63 - j + (64 - k) = u + 64" using \<open>j + k < 64\<close> u by simp
  then have "(63 - j + (LENGTH(64) - k mod LENGTH(64))) mod LENGTH(64) = u" using u by simp
  moreover have "63 - j < LENGTH(64)" by simp
  ultimately show ?thesis using u(1) unfolding bit_word_rotl_iff by simp
qed

lemma BIT_MASK_eq: "0 < m \<Longrightarrow> m \<le> 64 \<Longrightarrow> BIT_MASK ! (m mod 64) = mask m"
proof -
  assume "0 < m" "m \<le> 64"
  have "(mask 64 :: u64) = - 1" by (rule bit_word_eqI) (simp add: bit_mask_iff)
  moreover have "BIT_MASK ! (m mod 64) = mask m" if "m < 64"
  proof -
    obtain k where k: "m = Suc k" using \<open>0 < m\<close> by (cases m) auto
    then have "BIT_MASK ! (m mod 64) = map mask [1..<64] ! k" using that by (simp add: BIT_MASK_def del: upt_Suc)
    also have "\<dots> = mask m" using that k by (subst nth_map) (simp_all del: upt_Suc)
    finally show ?thesis .
  qed
  ultimately show ?thesis using \<open>m \<le> 64\<close> by (cases "m = 64") (simp_all add: BIT_MASK_def)
qed

text \<open>Reading up to 64 bits, of which some may be in the cache.\<close>

lemma cache_rotl:
  assumes "cache_at src (c, valid, i) pos" and "k \<le> valid"
  shows "cache_at src (word_rotl k c, valid - k, i) (pos + k)" "t < k \<Longrightarrow> bit (word_rotl k c) t = buf_bit src (pos + (k - 1 - t))"
proof -
  have v: "valid \<le> 64" "pos + valid = 8 * i" "i \<le> length src" "\<forall>j<valid. bit c (63 - j) = buf_bit src (pos + j)" using assms(1) by (auto simp: cache_at_def)
  show "bit (word_rotl k c) t = buf_bit src (pos + (k - 1 - t))" if "t < k"
  proof -
    have "bit (word_rotl k c) t = bit c (63 - (k - 1 - t))" using that v(1) assms(2) by (intro bit_rotl) simp_all
    also have "\<dots> = buf_bit src (pos + (k - 1 - t))" using that assms(2) by (intro v(4) [rule_format]) simp
    finally show ?thesis .
  qed
  have "bit (word_rotl k c) (63 - j) = buf_bit src (pos + k + j)" if "j < valid - k" for j
  proof -
    have "bit (word_rotl k c) (63 - j) = bit c (63 - (k + j))" using that v(1) assms(2) by (intro bit_rotl_rest) simp_all
    also have "\<dots> = buf_bit src (pos + (k + j))" using that v(4) assms(2) by simp
    finally show ?thesis by (simp add: add.assoc)
  qed
  then show "cache_at src (word_rotl k c, valid - k, i) (pos + k)" using v assms(2) by (simp add: cache_at_def)
qed

lemma split_read:
  assumes "cache_at src (c, valid, i) pos" and "valid < k" and "k \<le> 64" and "pos + k \<le> 8 * length src"
  shows "\<exists>c2 v2 n. refill_cache src i = Ok (c2, v2, n) \<and> k - valid \<le> v2 \<and> v2 \<le> 64
    \<and> cache_at src (word_rotl (k - valid) c2, v2 - (k - valid), i + n) (pos + k)
    \<and> (\<forall>t<k. bit (((if valid > 0 then word_rotl k c else 0) AND NOT (BIT_MASK ! ((k - valid) mod 64)))
                 OR (word_rotl (k - valid) c2 AND BIT_MASK ! ((k - valid) mod 64))) t = buf_bit src (pos + (k - 1 - t)))"
proof -
  have v: "pos + valid = 8 * i" "\<forall>j<valid. bit c (63 - j) = buf_bit src (pos + j)" using assms(1) by (auto simp: cache_at_def)
  then have "i < length src" using assms(2,4) by simp
  then obtain c2 v2 n where r: "refill_cache src i = Ok (c2, v2, n)" "cache_at src (c2, v2, i + n) (8 * i)" "v2 = min 64 (8 * (length src - i))"
    using refill_cache_at by blast
  define m where "m = k - valid"
  have m: "0 < m" "m \<le> v2" "v2 \<le> 64" "m \<le> 64" using assms(2,3,4) v(1) r(3) by (auto simp: m_def min_def)
  have at: "cache_at src (word_rotl m c2, v2 - m, i + n) (pos + k)" "\<And>t. t < m \<Longrightarrow> bit (word_rotl m c2) t = buf_bit src (pos + (k - 1 - t))"
  proof -
    have "8 * i + m = pos + k" using v(1) assms(2) by (simp add: m_def)
    then show "cache_at src (word_rotl m c2, v2 - m, i + n) (pos + k)" using cache_rotl(1) [OF r(2) m(2)] by simp
    fix t assume "t < m"
    then have "8 * i + (m - 1 - t) = pos + (k - 1 - t)" using v(1) assms(2) by (simp add: m_def)
    then show "bit (word_rotl m c2) t = buf_bit src (pos + (k - 1 - t))" using cache_rotl(2) [OF r(2) m(2) \<open>t < m\<close>] by simp
  qed
  have "bit (((if valid > 0 then word_rotl k c else 0) AND NOT (mask m)) OR (word_rotl m c2 AND mask m)) t = buf_bit src (pos + (k - 1 - t))" if "t < k" for t
  proof (cases "t < m")
    case True
    then have "t < 64" using m(4) by simp
    then show ?thesis using True at(2) by (simp add: bit_or_iff bit_and_iff bit_not_iff bit_mask_iff)
  next
    case False
    then have "0 < valid" "t < 64" using that assms(3) by (auto simp: m_def)
    have "bit (word_rotl k c) t = bit c (63 - (k - 1 - t))" using that assms(3) by (intro bit_rotl) simp_all
    also have "\<dots> = buf_bit src (pos + (k - 1 - t))" using False that assms(2) by (intro v(2) [rule_format]) (simp add: m_def)
    finally show ?thesis using False \<open>0 < valid\<close> \<open>t < 64\<close> by (simp add: bit_or_iff bit_and_iff bit_not_iff bit_mask_iff)
  qed
  then show ?thesis using r(1) m at(1) unfolding m_def [symmetric] BIT_MASK_eq [OF m(1,4)] by blast
qed

section \<open>Reading the format\<close>

lemma read_control_at:
  assumes "cache_at src cch pos" and "pos < 8 * length src"
  shows "\<exists>cch'. read_control src cch = Ok (buf_bit src pos, cch') \<and> cache_at src cch' (pos + 1)"
proof -
  obtain c valid i where cch: "cch = (c, valid, i)" by (cases cch)
  have "\<exists>c' v' i'. refill_empty src cch = Ok (c', v', i') \<and> cache_at src (c', v', i') pos \<and> 0 < v'"
  proof (cases "valid = 0")
    case True
    then have "8 * i = pos" "i < length src" using assms by (auto simp: cache_at_def cch)
    then show ?thesis using refill_cache_at [of i src] True by (auto simp: refill_empty_def cch)
  qed (use assms(1) in \<open>auto simp: refill_empty_def cch\<close>)
  then obtain c' v' i' where r: "refill_empty src cch = Ok (c', v', i')" "cache_at src (c', v', i') pos" "1 \<le> v'" by auto
  have "bit (word_rotl 1 c') 0 = buf_bit src pos" using cache_rotl(2) [OF r(2,3), of 0] by simp
  moreover have "(word_rotl 1 c' AND 1 \<noteq> 0) = bit (word_rotl 1 c') 0" by (simp add: and_one_eq bit_0 even_iff_mod_2_eq_zero)
  ultimately show ?thesis using cache_rotl(1) [OF r(2,3)] r(1) by (simp add: read_control_def Let_def)
qed

lemma read_s_bits_at:
  assumes "cache_at src cch pos" and "k \<le> 64" and "pos + k \<le> 8 * length src"
  shows "\<exists>v cch'. read_s_bits src k cch = Ok (v, cch') \<and> cache_at src cch' (pos + k) \<and> (\<forall>t<k. bit v t = buf_bit src (pos + (k - 1 - t)))"
proof -
  obtain c valid i where cch: "cch = (c, valid, i)" by (cases cch)
  show ?thesis
  proof (cases "k \<le> valid")
    case True
    then show ?thesis using cache_rotl [OF assms(1) [unfolded cch] True] by (auto simp: read_s_bits_def cch Let_def)
  next
    case False
    then have "valid < k" by simp
    then obtain c2 v2 n where r: "refill_cache src i = Ok (c2, v2, n)" "k - valid \<le> v2" "v2 \<le> 64"
      "cache_at src (word_rotl (k - valid) c2, v2 - (k - valid), i + n) (pos + k)"
      "\<forall>t<k. bit (((if valid > 0 then word_rotl k c else 0) AND NOT (BIT_MASK ! ((k - valid) mod 64)))
                 OR (word_rotl (k - valid) c2 AND BIT_MASK ! ((k - valid) mod 64))) t = buf_bit src (pos + (k - 1 - t))"
      using split_read [OF assms(1) [unfolded cch] _ assms(2,3)] by blast
    have "(256 + v2 - (k - valid)) mod 256 = v2 - (k - valid)" 
    proof -
      obtain j where j: "j = v2 - (k - valid)" "j < 256" using r(3) by simp
      then have "256 + v2 - (k - valid) = 256 + j" using r(2) by simp
      moreover have "(256 + j) mod 256 = j" using j(2) by simp
      ultimately show ?thesis by (simp only: j(1))
    qed
    then show ?thesis using False r unfolding read_s_bits_def cch prod.case Let_def by simp
  qed
qed

lemma read_lm_bits_at:
  assumes "cache_at src cch pos" and "pos + 11 \<le> 8 * length src"
  shows "\<exists>v cch'. read_lm_bits src cch = Ok (v, cch') \<and> cache_at src cch' (pos + 11) \<and> (\<forall>t<11. bit v t = buf_bit src (pos + (11 - 1 - t)))"
proof -
  obtain c valid i where cch: "cch = (c, valid, i)" by (cases cch)
  show ?thesis
  proof (cases "11 \<le> valid")
    case True
    then show ?thesis using cache_rotl [OF assms(1) [unfolded cch] True] by (auto simp: read_lm_bits_def cch Let_def)
  next
    case False
    then have "valid < 11" by simp
    then obtain c2 v2 n where r: "refill_cache src i = Ok (c2, v2, n)" "11 - valid \<le> v2"
      "cache_at src (word_rotl (11 - valid) c2, v2 - (11 - valid), i + n) (pos + 11)"
      "\<forall>t<11. bit (((if valid > 0 then word_rotl 11 c else 0) AND NOT (BIT_MASK ! ((11 - valid) mod 64)))
                 OR (word_rotl (11 - valid) c2 AND BIT_MASK ! ((11 - valid) mod 64))) t = buf_bit src (pos + (11 - 1 - t))"
      using split_read [OF assms(1) [unfolded cch] _ _ assms(2)] by auto
    then show ?thesis using False unfolding read_lm_bits_def cch prod.case Let_def by simp
  qed
qed

text \<open>The fields of a window.\<close>

lemma top_bits_field: "k \<le> 64 \<Longrightarrow> u < k \<Longrightarrow> top_bits k (push_bit (64 - k) v) ! (k - 1 - u) = bit v u"
proof -
  assume u: "k \<le> 64" "u < k"
  have "top_bits k (push_bit (64 - k) v) ! (k - 1 - u) = bit (push_bit (64 - k) v) (63 - (k - 1 - u))" using u by (simp add: top_bits_def)
  also have "63 - (k - 1 - u) = 64 - k + u" using u by simp
  also have "bit (push_bit (64 - k) v) (64 - k + u) = bit v u" using u unfolding bit_push by (simp add: le_diff_conv2 less_diff_conv2)
  finally show ?thesis .
qed

lemma read_window_at:
  assumes "cache_at src cch pos" and "pos + 11 \<le> 8 * length src" and "l + t < 64" and "l < 32" and "L = 64 - l - t"
    and "\<forall>i<11. buf_bit src (pos + i) = (top_bits 5 (push_bit 59 (of_nat l)) @ top_bits 6 (push_bit 58 (of_nat L))) ! i"
  shows "\<exists>cch'. read_window src cch = Ok ((t, L), cch') \<and> cache_at src cch' (pos + 11)"
proof -
  obtain v cch' where v: "read_lm_bits src cch = Ok (v, cch')" "cache_at src cch' (pos + 11)" "\<forall>t<11. bit v t = buf_bit src (pos + (11 - 1 - t))"
    using read_lm_bits_at [OF assms(1,2)] by blast
  have L: "0 < L" "L \<le> 64" "l + L + t = 64" using assms(3,5) by simp_all
  have low: "bit v u = bit (of_nat L :: u64) u" if "u < 6" for u
  proof -
    have i: "10 - u < 11" "\<not> 10 - u < 5" "10 - u - 5 = 6 - 1 - u" "11 - 1 - u = 10 - u" using that by simp_all
    have "bit v u = buf_bit src (pos + (10 - u))" using v(3) that i(4) by simp
    also have "\<dots> = top_bits 6 (push_bit 58 (of_nat L)) ! (6 - 1 - u)"
      using assms(6) [rule_format, OF i(1)] unfolding nth_append length_top_bits if_not_P [OF i(2)] i(3) .
    also have "\<dots> = bit (of_nat L :: u64) u" using top_bits_field [of 6 u "of_nat L"] that by simp
    finally show ?thesis .
  qed
  have high: "bit v (6 + u) = bit (of_nat l :: u64) u" if "u < 5" for u
  proof -
    have i: "4 - u < 11" "4 - u < 5" "4 - u = 5 - 1 - u" "11 - 1 - (6 + u) = 4 - u" using that by simp_all
    have "bit v (6 + u) = buf_bit src (pos + (4 - u))" using v(3) [rule_format, of "6 + u"] that unfolding i(4) by simp
    also have "\<dots> = top_bits 5 (push_bit 59 (of_nat l)) ! (5 - 1 - u)"
      using assms(6) [rule_format, OF i(1)] i(2) unfolding nth_append length_top_bits if_P [OF i(2)] i(3) [symmetric] by (simp only: if_True simp_thms)
    also have "\<dots> = bit (of_nat l :: u64) u" using top_bits_field [of 5 u "of_nat l"] that by simp
    finally show ?thesis .
  qed
  have m7ff: "(0x7ff :: u64) = mask 11" and m1f: "(0x1f :: u64) = mask 5" and m3f: "(0x3f :: u64) = mask 6" by (simp_all add: mask_eq_exp_minus_1)
  have e: "drop_bit 6 (v AND 0x7ff) AND 0x1f = take_bit 5 (of_nat l)"
    unfolding m7ff m1f by (rule bit_word_eqI) (use high in \<open>auto simp: bit_simps\<close>)
  have lead: "unat (drop_bit 6 (v AND 0x7ff) AND 0x1f) = l" unfolding e using assms(4) by (simp add: unsigned_take_bit_eq unsigned_of_nat take_bit_nat_eq_self)
  have f: "(v AND 0x7ff) AND 0x3f = take_bit 6 (of_nat L)"
    unfolding m7ff m3f by (rule bit_word_eqI) (use low in \<open>auto simp: bit_simps\<close>)
  have sig: "unat ((v AND 0x7ff) AND 0x3f) = L mod 64"
    unfolding f unsigned_take_bit_eq unsigned_of_nat using L by (simp add: take_bit_nat_eq_self take_bit_nat_def)
  have w: "read_window src cch = (if L mod 64 > 0 then if l + L mod 64 > 64 then Panic else Ok ((64 - l - L mod 64, L mod 64), cch') else Ok ((0, 64), cch'))"
    by (simp only: read_window_def v(1) res_bind.simps Let_def prod.case lead sig)
  show ?thesis
  proof (cases "L = 64")
    case True
    then show ?thesis using v(2) L w by simp
  next
    case False
    then have m: "L mod 64 = L" "64 - l - L = t" using L by simp_all
    show ?thesis using v(2) L w unfolding m by simp
  qed
qed

text \<open>The significant bits give the delta back.\<close>

definition covers :: "u64 \<Rightarrow> nat \<times> nat \<Rightarrow> bool" where
  "covers d w \<longleftrightarrow> fst w + snd w < 64 \<and> (\<forall>i. bit d i \<longrightarrow> snd w \<le> i \<and> i < 64 - fst w)"

lemma next_window_covers: "d \<noteq> 0 \<Longrightarrow> window_ok w \<Longrightarrow> covers d (next_window d w)"
proof -
  assume d: "d \<noteq> 0" "window_ok w"
  have le: "lead5 d \<le> leading_zeros d" by (simp add: lead5_def)
  have in_range: "trailing_zeros_u64 d \<le> i" "i < 64 - lead5 d" if "bit d i" for i
  proof -
    show "trailing_zeros_u64 d \<le> i" using trailing_zeros_low that not_le_imp_less by blast
    have "i < 64 - leading_zeros d" using leading_zeros_high that not_le_imp_less by blast
    then show "i < 64 - lead5 d" using le by simp
  qed
  show ?thesis
  proof (cases "fits d w")
    case True
    then obtain pl pt where w: "w = Some (pl, pt)" "pl \<le> lead5 d" "pt \<le> trailing_zeros_u64 d" by (auto simp: fits_def split: option.splits)
    have "pt \<le> i \<and> i < 64 - pl" if "bit d i" for i using in_range [OF that] w(2,3) by simp
    then show ?thesis using True d(2) by (simp add: next_window_def covers_def window_ok_def w(1))
  next
    case False
    then show ?thesis using new_window_ok(1) [OF d(1)] in_range by (simp add: next_window_def covers_def)
  qed
qed

lemma read_significant:
  assumes "cache_at src cch pos" and "pos + L \<le> 8 * length src" and "covers d (l, t)" and "L = 64 - l - t"
    and "\<forall>i<L. buf_bit src (pos + i) = significant d (l, t) ! i"
  shows "\<exists>v cch'. read_s_bits src L cch = Ok (v, cch') \<and> cache_at src cch' (pos + L) \<and> push_bit (t mod 64) (v AND BIT_MASK ! (L mod 64)) = d"
proof -
  have L: "0 < L" "L \<le> 64" "l + L + t = 64" "t < 64" using assms(3,4) by (simp_all add: covers_def)
  have k: "64 - L = l + t" using L by simp
  obtain v cch' where v: "read_s_bits src L cch = Ok (v, cch')" "cache_at src cch' (pos + L)" "\<forall>u<L. bit v u = buf_bit src (pos + (L - 1 - u))"
    using read_s_bits_at [OF assms(1) L(2) assms(2)] by blast
  have b: "bit v u = bit d (t + u)" if "u < L" for u
  proof -
    have "bit v u = significant d (l, t) ! (L - 1 - u)" using v(3) [rule_format, OF that] assms(5) [rule_format, of "L - 1 - u"] L(1) by linarith
    also have "\<dots> = bit (drop_bit t d) u" using top_bits_field [OF L(2) that, of "drop_bit t d"] unfolding significant_def prod.case k assms(4) [symmetric] .
    finally show ?thesis by (simp add: bit_drop_bit_eq)
  qed
  have "push_bit (t mod 64) (v AND BIT_MASK ! (L mod 64)) = d"
    unfolding BIT_MASK_eq [OF L(1,2)]
  proof (rule bit_word_eqI)
    fix n assume "n < LENGTH(64)"
    then have n: "n < 64" by simp
    show "bit (push_bit (t mod 64) (v AND mask L)) n = bit d n"
    proof (cases "bit d n")
      case True
      then have "t \<le> n" "n < 64 - l" using assms(3) by (simp_all add: covers_def)
      then have u: "n - t < L" "t + (n - t) = n" using L by simp_all
      then show ?thesis using b [OF u(1)] True n L \<open>t \<le> n\<close> by (simp add: bit_push bit_and_iff bit_mask_iff)
    next
      case False
      then show ?thesis using b [of "n - t"] L by (auto simp: bit_push bit_and_iff bit_mask_iff)
    qed
  qed
  then show ?thesis using v(1,2) by blast
qed

text \<open>One value of the stream.\<close>

definition bits_at :: "byte list \<Rightarrow> nat \<Rightarrow> bool list \<Rightarrow> bool" where
  "bits_at src pos bs \<longleftrightarrow> pos + length bs \<le> 8 * length src \<and> (\<forall>i<length bs. buf_bit src (pos + i) = bs ! i)"

lemma bits_at_append: "bits_at src pos (as @ bs) \<longleftrightarrow> bits_at src pos as \<and> bits_at src (pos + length as) bs"
proof -
  have "(\<forall>i<length (as @ bs). buf_bit src (pos + i) = (as @ bs) ! i)
    \<longleftrightarrow> (\<forall>i<length as. buf_bit src (pos + i) = as ! i) \<and> (\<forall>i<length bs. buf_bit src (pos + length as + i) = bs ! i)" (is "?l \<longleftrightarrow> ?a \<and> ?b")
  proof
    assume l: ?l
    have ?a using l by (simp add: nth_append)
    moreover have "buf_bit src (pos + length as + i) = bs ! i" if "i < length bs" for i
      using l [rule_format, of "length as + i"] that by (simp add: add.assoc)
    ultimately show "?a \<and> ?b" by blast
  next
    assume ab: "?a \<and> ?b"
    show ?l
    proof (intro allI impI)
      fix i assume "i < length (as @ bs)"
      then show "buf_bit src (pos + i) = (as @ bs) ! i"
        using ab [THEN conjunct1, rule_format, of i] ab [THEN conjunct2, rule_format, of "i - length as"] by (cases "i < length as") (simp_all add: nth_append)
    qed
  qed
  then show ?thesis by (auto simp: bits_at_def)
qed

lemma bits_at_Cons: "bits_at src pos (b # bs) \<longleftrightarrow> pos < 8 * length src \<and> buf_bit src pos = b \<and> bits_at src (pos + 1) bs"
  using bits_at_append [of src pos "[b]" bs] by (auto simp: bits_at_def)

text \<open>The decoder keeps the trailing zeros and the width of the encoder's window.\<close>

definition same_window :: "nat \<times> nat \<Rightarrow> window \<Rightarrow> bool" where
  "same_window dw w \<longleftrightarrow> (case w of Some (l, t) \<Rightarrow> dw = (t, 64 - l - t) | None \<Rightarrow> True)"

lemma length_significant [simp]: "length (significant d (l, t)) = 64 - l - t"
  by (simp add: significant_def)

lemma read_delta_at:
  assumes "d \<noteq> 0" and "window_ok w" and "same_window dw w" and "cache_at src cch pos" and "bits_at src pos (delta_bits d w)"
  shows "\<exists>c1 dw' c2 v c3. read_control src cch = Ok (True, c1) \<and> read_position src dw c1 = Ok (dw', c2) \<and> read_s_bits src (snd dw') c2 = Ok (v, c3)
    \<and> push_bit (fst dw' mod 64) (v AND BIT_MASK ! (snd dw' mod 64)) = d \<and> same_window dw' (Some (next_window d w))
    \<and> cache_at src c3 (pos + length (delta_bits d w))"
proof -
  obtain l t where nw: "next_window d w = (l, t)" by force
  then have cov: "covers d (l, t)" using next_window_covers [OF assms(1,2)] by simp
  obtain L where L: "L = 64 - l - t" by blast
  define pre where "pre = (if fits d w then [] else top_bits 5 (push_bit 59 (of_nat l)) @ top_bits 6 (push_bit 58 (of_nat L)))"
  have db: "delta_bits d w = True # (\<not> fits d w) # pre @ significant d (l, t)"
    using assms(1) nw by (auto simp: delta_bits_def pre_def next_window_def L)
  have at: "pos < 8 * length src" "buf_bit src pos" "pos + 1 < 8 * length src" "buf_bit src (pos + 1) = (\<not> fits d w)"
    "bits_at src (pos + 2) pre" "bits_at src (pos + 2 + length pre) (significant d (l, t))"
    using assms(5) by (simp_all add: db bits_at_Cons bits_at_append)
  obtain c1 where c1: "read_control src cch = Ok (True, c1)" "cache_at src c1 (pos + 1)"
    using read_control_at [OF assms(4) at(1)] at(2) by auto
  obtain c2 where c2: "read_control src c1 = Ok (\<not> fits d w, c2)" "cache_at src c2 (pos + 2)"
    using read_control_at [OF c1(2) at(3)] at(4) by auto
  have "\<exists>c. read_position src dw c1 = Ok ((t, L), c) \<and> cache_at src c (pos + 2 + length pre)"
  proof (cases "fits d w")
    case True
    then have "w = Some (l, t)" using nw by (auto simp: next_window_def fits_def split: option.splits)
    then show ?thesis using assms(3) True c2 by (simp add: read_position_def same_window_def pre_def L)
  next
    case False
    then have lt: "l + t < 64" "l < 32" using nw new_window_ok [of d] assms(1) by (auto simp: next_window_def)
    have "pos + 2 + 11 \<le> 8 * length src" "\<forall>i<11. buf_bit src (pos + 2 + i) = (top_bits 5 (push_bit 59 (of_nat l)) @ top_bits 6 (push_bit 58 (of_nat L))) ! i"
      using at(5) False by (simp_all add: pre_def bits_at_def)
    from read_window_at [OF c2(2) this(1) lt L this(2)] show ?thesis using False c2(1) by (auto simp: read_position_def pre_def)
  qed
  then obtain c where c: "read_position src dw c1 = Ok ((t, L), c)" "cache_at src c (pos + 2 + length pre)" by blast
  have "pos + 2 + length pre + L \<le> 8 * length src" "\<forall>i<L. buf_bit src (pos + 2 + length pre + i) = significant d (l, t) ! i"
    using at(6) unfolding bits_at_def length_significant L [symmetric] by blast+
  from read_significant [OF c(2) this(1) cov L this(2)] obtain v c3 where v: "read_s_bits src L c = Ok (v, c3)" "cache_at src c3 (pos + 2 + length pre + L)"
    "push_bit (t mod 64) (v AND BIT_MASK ! (L mod 64)) = d" by blast
  have "length (delta_bits d w) = 2 + length pre + L" by (simp only: db list.size length_append length_significant L)
  then have "cache_at src c3 (pos + length (delta_bits d w))" using v(2) by (simp add: add.assoc)
  moreover have "same_window (t, L) (Some (next_window d w))" by (simp add: same_window_def nw L)
  moreover obtain dw' where dw': "dw' = (t, L)" by blast
  moreover have "read_s_bits src (snd dw') c = Ok (v, c3)" "push_bit (fst dw' mod 64) (v AND BIT_MASK ! (snd dw' mod 64)) = d"
    using v(1,3) by (simp_all only: dw' fst_conv snd_conv)
  ultimately show ?thesis using c1(1) c(1) unfolding dw' [symmetric] by blast
qed

lemma gorilla_zero:
  assumes "cache_at src cch pos" and "bits_at src pos (delta_bits 0 w)"
  shows "\<exists>cch'. cache_at src cch' (pos + length (delta_bits 0 w))
    \<and> gorilla_from src sentinel val dw cch dst = gorilla_from src sentinel val dw cch' (dst @ [val])"
proof -
  have "delta_bits 0 w = [False]" by (simp add: delta_bits_def)
  then obtain cch' where c: "read_control src cch = Ok (False, cch')" "cache_at src cch' (pos + 1)"
    using read_control_at [OF assms(1)] assms(2) by (auto simp: bits_at_Cons)
  have "gorilla_from src sentinel val dw cch dst = gorilla_from src sentinel val dw cch' (dst @ [val])"
    using gorilla_from.simps [of src sentinel val dw cch dst] c(1) by simp
  moreover have "cache_at src cch' (pos + length (delta_bits 0 w))" using c(2) \<open>delta_bits 0 w = [False]\<close> by simp
  ultimately show ?thesis by blast
qed

lemma gorilla_delta:
  assumes "d \<noteq> 0" and "window_ok w" and "same_window dw w" and "cache_at src cch pos" and "bits_at src pos (delta_bits d w)"
  shows "\<exists>dw' cch'. cache_at src cch' (pos + length (delta_bits d w)) \<and> same_window dw' (Some (next_window d w))
    \<and> gorilla_from src sentinel val dw cch dst =
        (if val XOR d = sentinel then (Ok (), dst) else gorilla_from src sentinel (val XOR d) dw' cch' (dst @ [val XOR d]))"
proof -
  obtain c1 dw' c2 v c3 where r: "read_control src cch = Ok (True, c1)" "read_position src dw c1 = Ok (dw', c2)" "read_s_bits src (snd dw') c2 = Ok (v, c3)"
    "push_bit (fst dw' mod 64) (v AND BIT_MASK ! (snd dw' mod 64)) = d" "same_window dw' (Some (next_window d w))"
    "cache_at src c3 (pos + length (delta_bits d w))"
    using read_delta_at [OF assms] by blast
  have "gorilla_from src sentinel val dw cch dst =
      (if val XOR d = sentinel then (Ok (), dst) else gorilla_from src sentinel (val XOR d) dw' c3 (dst @ [val XOR d]))"
    by (subst gorilla_from.simps) (simp only: r(1-4) res.case prod.case Let_def not_True_eq_False if_False)
  then show ?thesis using r(5,6) by blast
qed

lemma xor_zero: "x XOR y = 0 \<longleftrightarrow> x = (y :: u64)"
proof
  assume "x XOR y = 0"
  then have "(x XOR y) XOR y = y" by simp
  then show "x = y" by (simp add: xor.assoc)
qed simp

lemma gorilla_from_bits:
  "SENTINEL \<notin> set xs \<Longrightarrow> prev \<noteq> SENTINEL \<Longrightarrow> window_ok w \<Longrightarrow> same_window dw w \<Longrightarrow> cache_at src cch pos \<Longrightarrow> bits_at src pos (all_bits xs prev w) \<Longrightarrow>
   gorilla_from src SENTINEL prev dw cch dst = (Ok (), dst @ xs)"
proof (induction xs arbitrary: prev w dw cch pos dst)
  case Nil
  have d: "SENTINEL XOR prev \<noteq> 0" using Nil.prems(2) by (simp add: xor_zero)
  have "prev XOR (SENTINEL XOR prev) = SENTINEL" by (simp add: xor.left_commute)
  then show ?case using gorilla_delta [OF d Nil.prems(3,4,5), of SENTINEL prev dst] Nil.prems(6) by auto
next
  case (Cons x xs)
  have bits: "bits_at src pos (delta_bits (x XOR prev) w)" "bits_at src (pos + length (delta_bits (x XOR prev) w)) (all_bits xs x (window_after (x XOR prev) w))"
    using Cons.prems(6) by (simp_all add: bits_at_append)
  have xs: "SENTINEL \<notin> set xs" "x \<noteq> SENTINEL" using Cons.prems(1) by auto
  have x: "prev XOR (x XOR prev) = x" by (simp add: xor.left_commute [of prev])
  show ?case
  proof (cases "x XOR prev = 0")
    case True
    then have "x = prev" by (simp add: xor_zero)
    obtain cch' where c: "cache_at src cch' (pos + length (delta_bits (x XOR prev) w))"
      "gorilla_from src SENTINEL prev dw cch dst = gorilla_from src SENTINEL prev dw cch' (dst @ [prev])"
      using gorilla_zero [OF Cons.prems(5)] bits(1) unfolding True by blast
    have "window_after (x XOR prev) w = w" using True by (simp add: window_after_def)
    then show ?thesis using Cons.IH [OF xs Cons.prems(3,4) c(1), of "dst @ [prev]"] bits(2) c(2) \<open>x = prev\<close> by simp
  next
    case False
    obtain dw' cch' where c: "cache_at src cch' (pos + length (delta_bits (x XOR prev) w))" "same_window dw' (Some (next_window (x XOR prev) w))"
      "gorilla_from src SENTINEL prev dw cch dst = gorilla_from src SENTINEL x dw' cch' (dst @ [x])"
      using gorilla_delta [OF False Cons.prems(3,4,5) bits(1), of SENTINEL prev dst] xs(2) unfolding x by auto
    have "window_after (x XOR prev) w = Some (next_window (x XOR prev) w)" using False by (simp add: window_after_def)
    then show ?thesis using Cons.IH [OF xs _ _ c(1) bits(2), of dw' "dst @ [x]"] window_after_ok [OF Cons.prems(3), of "x XOR prev"] c(2,3) by simp
  qed
qed

text \<open>The header byte and the first value.\<close>

lemma bits_at_holds:
  assumes "holds bs n dst" and "m = (if n mod 8 > 0 then n div 8 + 1 else n div 8)" and "n \<le> 8 * length dst"
  shows "bits_at (take m dst) 0 bs"
proof -
  obtain q r where n: "n = 8 * q + r" "r < 8" by (metis mod_less_divisor mult_div_mod_eq zero_less_numeral)
  then have "n div 8 = q" "n mod 8 = r" by simp_all
  then have m: "m \<le> length dst" "n \<le> 8 * m" using assms(2,3) n by (auto split: if_splits)
  have "buf_bit (take m dst) i = bs ! i" if "i < n" for i
  proof -
    have i: "i div 8 < m" using that m(2) by (simp add: less_mult_imp_div_less mult.commute)
    then have "buf_bit (take m dst) i = buf_set dst i" using m(1) by (simp add: buf_bit_def buf_set_def)
    then show ?thesis using assms(1) that by (simp add: holds_def)
  qed
  moreover have "n = length bs" using assms(1) by (simp add: holds_def)
  ultimately show ?thesis using m by (simp add: bits_at_def min_absorb2)
qed

lemma holds_whole: "holds (map (buf_bit dst) [0..<8 * length dst]) (8 * length dst) dst"
proof -
  have "k div 8 < length dst \<longleftrightarrow> k < 8 * length dst" for k by (metis div_less_iff_less_mult mult.commute zero_less_numeral)
  then have "buf_set dst k \<longleftrightarrow> k < 8 * length dst \<and> map (buf_bit dst) [0..<8 * length dst] ! k" for k
    unfolding buf_set_def by (cases "k < 8 * length dst") (simp_all del: upt_Suc)
  then show ?thesis unfolding holds_def by simp
qed

lemma all_bits_nonempty: "0 < length (all_bits xs prev w)"
proof -
  have "0 < length (delta_bits d w)" for d by (simp add: delta_bits_def)
  then show ?thesis by (cases xs) (simp_all add: add_pos_nonneg)
qed

lemma buf_bit_at: "r < 8 \<Longrightarrow> buf_bit s (8 * p + r) = bit (s ! p) (7 - r)"
  by (simp add: buf_bit_def)

lemma first_value:
  assumes "bits_at src 0 (map (buf_bit (b # be_bytes x)) [0..<72])"
  shows "from_be (take 8 (drop 1 src)) = x"
proof (rule bit_word_eqI)
  fix n assume "n < LENGTH(64)"
  then have n: "n < 64" by simp
  obtain p r where j: "63 - n = 8 * p + r" "r < 8" by (metis mod_less_divisor mult_div_mod_eq zero_less_numeral)
  have p: "p < 8" "8 * p + r < 64" using j n by linarith+
  have len: "9 \<le> length src" using assms by (simp add: bits_at_def)
  have s: "length (take 8 (drop 1 src)) = 8" using len by simp
  have "n = 8 * length (take 8 (drop 1 src)) - 1 - (8 * p + r)" unfolding s using j(1) n by linarith
  then have "bit (from_be (take 8 (drop 1 src))) n = buf_bit (take 8 (drop 1 src)) (8 * p + r)"
    using bit_from_be_top [of "take 8 (drop 1 src)" "8 * p + r"] s p(2) by simp
  also have "\<dots> = bit (src ! Suc p) (7 - r)" using p(1) len by (simp add: buf_bit_at [OF j(2)])
  also have "\<dots> = buf_bit src (8 * Suc p + r)" by (simp only: buf_bit_at [OF j(2)] nth_Cons_Suc)
  also have "\<dots> = buf_bit (b # be_bytes x) (8 * Suc p + r)"
  proof -
    have "8 * Suc p + r < 72" using p(2) by simp
    then show ?thesis using assms unfolding bits_at_def by (simp add: nth_append del: upt_Suc)
  qed
  also have "\<dots> = bit (be_bytes x ! p) (7 - r)" by (simp only: buf_bit_at [OF j(2)] nth_Cons_Suc)
  also have "\<dots> = bit x (63 - (8 * p + r))" using be_bytes_bit p(1) j(2) by simp
  also have "63 - (8 * p + r) = n" using j(1) n by linarith
  finally show "bit (from_be (take 8 (drop 1 src))) n = bit x n" .
qed

text \<open>
  C14. Every list of values other than the sentinel is encoded, and decoding the block gives the values back, bit for bit.
\<close>

theorem float_roundtrip:
  assumes "SENTINEL \<notin> set src"
  shows "\<exists>bs. float_encode src = (Ok (), bs) \<and> float_decode bs [] = (Ok (), src)"
proof (cases src)
  case Nil
  then show ?thesis by (simp add: float_encode_def float_decode_def decode_with_sentinel_def)
next
  case (Cons x xs)
  define d0 where "d0 = push_bit 4 1 # be_bytes x"
  have len: "8 * length d0 = 72" by (simp add: d0_def be_bytes_def)
  have "SENTINEL \<notin> set xs" "x \<noteq> SENTINEL" using assms Cons by auto
  obtain n dst where n: "float_encode_from xs x None 72 d0 = (Ok n, dst)" "holds (map (buf_bit d0) [0..<72] @ all_bits xs x None) n dst" "n \<le> 8 * length dst"
    using float_encode_from_bits [OF \<open>SENTINEL \<notin> set xs\<close> \<open>x \<noteq> SENTINEL\<close> holds_whole [of d0, unfolded len], of None] by (auto simp: window_ok_def)
  define m where "m = (if n mod 8 > 0 then n div 8 + 1 else n div 8)"
  define bs where "bs = take m dst"
  have enc: "float_encode src = (Ok (), bs)" using n(1) by (simp add: float_encode_def Cons m_def bs_def d0_def)
  have at: "bits_at bs 0 (map (buf_bit d0) [0..<72])" "bits_at bs 72 (all_bits xs x None)"
    using bits_at_holds [OF n(2) m_def n(3)] by (simp_all add: bits_at_append bs_def)
  have "72 + length (all_bits xs x None) \<le> 8 * length bs" using at(2) by (simp add: bits_at_def)
  then have "9 < length bs" using all_bits_nonempty [of xs x None] by linarith
  then obtain c valid k where r: "refill_cache bs 9 = Ok (c, valid, k)" "cache_at bs (c, valid, 9 + k) 72"
    using refill_cache_at [of 9 bs] by auto
  have "from_be (take 8 (drop 1 bs)) = x" using first_value at(1) unfolding d0_def .
  then have "float_decode bs [] = gorilla_from bs SENTINEL x (0, 64) (c, valid, 9 + k) [x]"
    using \<open>9 < length bs\<close> r(1) by (simp add: float_decode_def decode_with_sentinel_def)
  also have "\<dots> = (Ok (), [x] @ xs)"
    by (rule gorilla_from_bits [OF \<open>SENTINEL \<notin> set xs\<close> \<open>x \<noteq> SENTINEL\<close> _ _ r(2) at(2)]) (simp_all add: window_ok_def same_window_def)
  finally show ?thesis using enc Cons by simp
qed

theorem float_roundtrip_witness:
  "\<exists>bs. float_encode [0x3ff0000000000000, 0x3ff0000000000000, 0x4000000000000000, 0] = (Ok (), bs)
     \<and> float_decode bs [] = (Ok (), [0x3ff0000000000000, 0x3ff0000000000000, 0x4000000000000000, 0])"
  using float_roundtrip [of "[0x3ff0000000000000, 0x3ff0000000000000, 0x4000000000000000, 0]"] by (simp add: SENTINEL_def)

text \<open>
  Bug.  Only the values after the first are compared with the sentinel: a block whose single value is the sentinel is encoded
  without an error, and decoding it fails.
\<close>

lemma float_sentinel_first:
  "float_encode [SENTINEL] = (Ok (), 16 # be_bytes SENTINEL)
   \<and> float_decode (16 # be_bytes SENTINEL) [] = (Err ''unexpected end of block'', [SENTINEL])"
proof
  have "length (be_bytes SENTINEL) = 8" by (simp add: be_bytes_def)
  then show "float_encode [SENTINEL] = (Ok (), 16 # be_bytes SENTINEL)" by (simp add: float_encode_def float_step_def)
  show "float_decode (16 # be_bytes SENTINEL) [] = (Err ''unexpected end of block'', [SENTINEL])"
    by code_simp
qed

end
