(* ===== verification/Tsm_Timestamp.thy ===== *)
theory Tsm_Timestamp
  imports Tsm_Integer
begin

text \<open>
  The block encoder for timestamps, \<open>influxdb_tsm/src/encoders/timestamp.rs\<close>: deltas, divided by a common
  power of ten, written as a run, packed with simple8b, or as they are.  Additions and
  multiplications that the code does not wrap panic when they overflow.
\<close>

section \<open>Scaling\<close>

text \<open>The loop that reduces the divisor until it divides the delta.\<close>

function shrink_div :: "u64 \<Rightarrow> u64 \<Rightarrow> u64" where
  "shrink_div delta d = (if d > 1 \<and> delta mod d \<noteq> 0 then shrink_div delta (d div 10) else d)"
  by pat_completeness auto
termination
proof (relation "measure (\<lambda>(delta, d). unat d)")
  fix delta d :: u64 assume "d > 1 \<and> delta mod d \<noteq> 0"
  then have "1 < unat d" by (simp add: word_less_nat_alt)
  then show "((delta, d div 10), delta, d) \<in> measure (\<lambda>(delta, d). unat d)" by (simp add: unat_div)
qed simp

declare shrink_div.simps [simp del]

fun deltas_div :: "u64 list \<Rightarrow> u64 \<Rightarrow> u64" where
  "deltas_div [] d = d"
| "deltas_div (delta # deltas) d = (if d \<le> 1 then d else deltas_div deltas (shrink_div delta d))"

text \<open>\<open>(div as f64).log10() as u8\<close>, the logarithm rounded down; the code applies it to powers of ten.\<close>

fun log10_floor :: "nat \<Rightarrow> nat" where
  "log10_floor n = (if n < 10 then 0 else Suc (log10_floor (n div 10)))"

declare log10_floor.simps [simp del]

definition log10_u8 :: "u64 \<Rightarrow> byte" where
  "log10_u8 d = of_nat (log10_floor (unat d))"

text \<open>\<open>*\<close> on \<open>u64\<close>: \<open>None\<close> on overflow.\<close>

definition u64_mul :: "u64 \<Rightarrow> u64 \<Rightarrow> u64 option" where
  "u64_mul a b = (if unat a * unat b < 2 ^ 64 then Some (a * b) else None)"

section \<open>Encoding\<close>

definition timestamp_encode_rle :: "(u64 \<Rightarrow> byte list) \<Rightarrow> u64 \<Rightarrow> u64 \<Rightarrow> u64 \<Rightarrow> byte list \<Rightarrow> byte list option" where
  "timestamp_encode_rle encode_var v delta cnt dst =
     (let dst = dst @ [0] @ be_bytes v; n = 9;
          d = shrink_div delta 1000000000000;
          dst = (if length dst \<le> n + MAX_VAR_INT_64 then buf_resize (n + MAX_VAR_INT_64) dst else dst)
      in Option.bind
           (if d > 1
            then (let scaler = log10_u8 d
                  in if scaler \<le> 15 then put_var encode_var (delta div d) n (dst[0 := dst ! 0 OR scaler]) else None)
            else put_var encode_var delta n dst) (\<lambda>(n, dst).
         Option.bind (put_var encode_var cnt n (reserve_var n dst)) (\<lambda>(n, dst).
           Some (take n dst))))"

definition timestamp_deltas :: "i64 list \<Rightarrow> u64 list" where
  "timestamp_deltas src = hd src # map2 (\<lambda>a b. b - a) src (tl src)"

definition timestamp_encode :: "(u64 \<Rightarrow> byte list) \<Rightarrow> i64 list \<Rightarrow> (string, unit) res \<times> byte list" where
  "timestamp_encode encode_var src =
     (if src = [] then (Ok (), [])
      else
        (let deltas = timestamp_deltas src
         in if length deltas > 1 \<and> (\<forall>d\<in>set (drop 2 deltas). deltas ! 1 = d)
            then (case timestamp_encode_rle encode_var (deltas ! 0) (deltas ! 1) (of_nat (length deltas)) [] of
                    Some dst \<Rightarrow> (Ok (), dst[0 := dst ! 0 OR push_bit 4 2])
                  | None \<Rightarrow> (Panic, []))
            else if max_delta (tl deltas) > S8B_MAX_VALUE
            then (Ok (), [push_bit 4 0] @ concat (map be_bytes deltas))
            else
              (let d = deltas_div (tl deltas) 1000000000000;
                   scaled = (if d > 1 then map (\<lambda>delta. delta div d) (tl deltas) else tl deltas)
               in simple8b_encode scaled ([push_bit 4 1 OR log10_u8 d] @ be_bytes (deltas ! 0)))))"

section \<open>Decoding\<close>

fun timestamp_sums :: "byte list \<Rightarrow> nat \<Rightarrow> i64 \<Rightarrow> i64 list option" where
  "timestamp_sums src 0 prev = Some []"
| "timestamp_sums src (Suc k) prev =
     Option.bind (i64_add prev (from_be (take 8 src))) (\<lambda>prev.
       map_option ((#) prev) (timestamp_sums (drop 8 src) k prev))"

definition timestamp_decode_uncompressed :: "byte list \<Rightarrow> i64 list \<Rightarrow> (string, unit) res \<times> i64 list" where
  "timestamp_decode_uncompressed src dst =
     (if src = [] \<or> length src mod 8 \<noteq> 0 then (Err ''invalid uncompressed block length'', dst)
      else
        (case timestamp_sums src (length src div 8) 0 of
           Some vs \<Rightarrow> (Ok (), dst @ vs)
         | None \<Rightarrow> (Panic, dst)))"

fun run_from :: "nat \<Rightarrow> i64 \<Rightarrow> i64 \<Rightarrow> i64 list" where
  "run_from 0 delta first = []"
| "run_from (Suc k) delta first = first # run_from k delta (first + delta)"

definition timestamp_scaler :: "byte \<Rightarrow> u64" where
  "timestamp_scaler b = 10 ^ unat (b AND 15)"

definition timestamp_decode_rle :: "(byte list \<Rightarrow> (u64 \<times> nat) option) \<Rightarrow> byte list \<Rightarrow> i64 list \<Rightarrow> (string, unit) res \<times> i64 list" where
  "timestamp_decode_rle decode_var src dst =
     (if length src < 9 then (Err ''not enough data to decode using RLE'', dst)
      else
        (case decode_var (drop 9 src) of
           None \<Rightarrow> (Err ''unable to decode delta'', dst)
         | Some (delta, n) \<Rightarrow>
             (case u64_mul delta (timestamp_scaler (hd src)) of
                None \<Rightarrow> (Panic, dst)
              | Some delta \<Rightarrow>
                  if 9 + n > length src then (Panic, dst)
                  else
                    (case decode_var (drop (9 + n) src) of
                       None \<Rightarrow> (Err ''unable to decode count'', dst)
                     | Some (cnt, _) \<Rightarrow> (Ok (), dst @ run_from (unat cnt) delta (from_be (take 8 (tl src))))))))"

fun add_scaled :: "u64 \<Rightarrow> u64 list \<Rightarrow> i64 \<Rightarrow> i64 list option" where
  "add_scaled scaler [] next' = Some []"
| "add_scaled scaler (v # vs) next' =
     Option.bind (if scaler > 1 then u64_mul v scaler else Some v) (\<lambda>d.
     Option.bind (i64_add next' d) (\<lambda>next'.
       map_option ((#) next') (add_scaled scaler vs next')))"

definition timestamp_decode_simple8b :: "byte list \<Rightarrow> i64 list \<Rightarrow> (string, unit) res \<times> i64 list" where
  "timestamp_decode_simple8b src dst =
     (if length src < 9 then (Err ''not enough data to decode packed timestamp'', dst)
      else
        (let dst = dst @ [from_be (take 8 (tl src))]
         in case Option.bind (simple8b_decode (drop 9 src) []) (\<lambda>res. add_scaled (timestamp_scaler (hd src)) res (last dst)) of
              Some vs \<Rightarrow> (Ok (), dst @ vs)
            | None \<Rightarrow> (Panic, dst)))"

definition timestamp_decode :: "(byte list \<Rightarrow> (u64 \<times> nat) option) \<Rightarrow> byte list \<Rightarrow> i64 list \<Rightarrow> (string, unit) res \<times> i64 list" where
  "timestamp_decode decode_var src dst =
     (if src = [] then (Ok (), dst)
      else
        (let encoding = drop_bit 4 (hd src)
         in if encoding = 0 then timestamp_decode_uncompressed (tl src) dst
            else if encoding = 2 then timestamp_decode_rle decode_var src dst
            else if encoding = 1 then timestamp_decode_simple8b src dst
            else (Err ''invalid block encoding'', dst)))"

section \<open>The divisor is a power of ten and divides every delta\<close>

definition pow10 :: "nat \<Rightarrow> u64 \<Rightarrow> bool" where
  "pow10 k d \<longleftrightarrow> unat d = 10 ^ k \<and> k \<le> 12"

lemma pow10_gt: "pow10 k d \<Longrightarrow> d > 1 \<longleftrightarrow> 0 < k"
  using one_less_power [of "10 :: nat" k] by (cases "k = 0") (auto simp: pow10_def word_less_nat_alt)

lemma pow10_start: "pow10 12 1000000000000"
  by (simp add: pow10_def)

lemma unat_mod_0: "delta mod d = 0 \<longleftrightarrow> unat d dvd unat (delta :: u64)"
  by (simp add: unat_eq_0 [symmetric] unat_mod dvd_eq_mod_eq_0)

lemma shrink_div_pow10:
  "pow10 k d \<Longrightarrow> \<exists>j. pow10 j (shrink_div delta d) \<and> unat (shrink_div delta d) dvd unat d \<and> unat (shrink_div delta d) dvd unat delta"
proof (induction delta d arbitrary: k rule: shrink_div.induct)
  case (1 delta d)
  show ?case
  proof (cases "d > 1 \<and> delta mod d \<noteq> 0")
    case True
    then obtain k' where k': "k = Suc k'" using pow10_gt [OF 1(2)] by (cases k) auto
    then have p: "pow10 k' (d div 10)" and "unat d = unat (d div 10) * 10" using 1(2) by (simp_all add: pow10_def unat_div)
    then have "unat (d div 10) dvd unat d" by simp
    then show ?thesis using True 1(1) [OF True p] by (auto simp: shrink_div.simps [of delta d] intro: dvd_trans)
  next
    case False
    have "unat d dvd unat delta"
    proof (cases "d > 1")
      case False
      then show ?thesis using 1(2) pow10_gt [OF 1(2)] by (simp add: pow10_def)
    qed (use False in \<open>simp add: unat_mod_0\<close>)
    moreover have "shrink_div delta d = d" by (subst shrink_div.simps) (simp only: False if_False)
    ultimately show ?thesis using 1(2) by auto
  qed
qed

lemma deltas_div_pow10:
  "pow10 k d \<Longrightarrow> \<exists>j. pow10 j (deltas_div ds d) \<and> unat (deltas_div ds d) dvd unat d \<and> (\<forall>delta\<in>set ds. unat (deltas_div ds d) dvd unat delta)"
proof (induction ds arbitrary: k d)
  case (Cons delta ds)
  show ?case
  proof (cases "d \<le> 1")
    case True
    then have "k = 0" using pow10_gt [OF Cons(2)] by (simp add: not_less [symmetric])
    then have "unat d = 1" using Cons(2) by (simp add: pow10_def)
    then show ?thesis using Cons(2) True by auto
  next
    case False
    obtain j where j: "pow10 j (shrink_div delta d)" "unat (shrink_div delta d) dvd unat d" "unat (shrink_div delta d) dvd unat delta"
      using shrink_div_pow10 [OF Cons(2), of delta] by auto
    then show ?thesis using False Cons(1) [OF j(1)] by (auto intro: dvd_trans)
  qed
qed auto

lemma log10_floor_pow: "log10_floor (10 ^ k) = k"
proof (induction k)
  case (Suc k)
  then show ?case by (subst log10_floor.simps) simp
qed (simp add: log10_floor.simps)

lemma log10_pow10: "pow10 k d \<Longrightarrow> log10_u8 d = of_nat k"
  by (simp add: log10_u8_def pow10_def log10_floor_pow)

lemma pow10_word: "pow10 k d \<Longrightarrow> d = 10 ^ k"
proof -
  assume "pow10 k d"
  then have "(of_nat (unat d) :: u64) = 10 ^ k" by (simp only: pow10_def of_nat_power of_nat_numeral)
  then show ?thesis by simp
qed

lemma u64_mul_div: "unat d dvd unat x \<Longrightarrow> u64_mul (x div d) d = Some x"
proof -
  assume "unat d dvd unat x"
  then have eq: "unat (x div d) * unat d = unat x" by (simp add: unat_div)
  have "x div d * d = x" using \<open>unat d dvd unat x\<close> div_mult_mod_eq [of x d] by (simp add: unat_mod_0 [symmetric])
  moreover have "unat x < 2 ^ 64" using unsigned_less [of x] by simp
  ultimately show ?thesis using eq by (simp add: u64_mul_def)
qed

text \<open>The header byte holds the encoding and the exponent.\<close>

lemma header_fields:
  assumes "k \<le> 12" and "e = 1 \<or> e = 2"
  shows "drop_bit 4 (push_bit 4 e OR of_nat k :: byte) = e" "timestamp_scaler (push_bit 4 e OR of_nat k) = 10 ^ k" "of_nat k \<le> (15 :: byte)"
proof -
  have "k = 0 \<or> k = 1 \<or> k = 2 \<or> k = 3 \<or> k = 4 \<or> k = 5 \<or> k = 6 \<or> k = 7 \<or> k = 8 \<or> k = 9 \<or> k = 10 \<or> k = 11 \<or> k = 12" using assms(1) by arith
  then have "drop_bit 4 (push_bit 4 e OR of_nat k :: byte) = e \<and> unat ((push_bit 4 e OR of_nat k :: byte) AND 15) = k \<and> of_nat k \<le> (15 :: byte)"
    using assms(2) by (elim disjE) simp_all
  then show "drop_bit 4 (push_bit 4 e OR of_nat k :: byte) = e" "timestamp_scaler (push_bit 4 e OR of_nat k) = 10 ^ k" "of_nat k \<le> (15 :: byte)"
    by (simp_all add: timestamp_scaler_def)
qed

section \<open>Each of the three forms can be undone\<close>

abbreviation diffs :: "i64 \<Rightarrow> i64 list \<Rightarrow> u64 list" where
  "diffs x xs \<equiv> map2 (\<lambda>a b. b - a) (x # xs) xs"

lemma timestamp_sums_diffs: "steps_fit (x # xs) \<Longrightarrow> timestamp_sums (concat (map be_bytes (diffs x xs))) (length xs) x = Some xs"
proof (induction xs arbitrary: x)
  case (Cons y ys)
  then show ?case by (simp add: i64_add_diff)
qed simp

lemma run_from_diffs: "\<forall>d'\<in>set (diffs x xs). d' = d \<Longrightarrow> run_from (Suc (length xs)) d x = x # xs"
proof (induction xs arbitrary: x)
  case (Cons y ys)
  then have "x + d = y" by (auto simp: algebra_simps)
  with Cons show ?case by simp
qed simp

lemma add_scaled_diffs:
  "steps_fit (x # xs) \<Longrightarrow> \<forall>d\<in>set (diffs x xs). unat sc dvd unat d \<Longrightarrow>
   add_scaled sc (if sc > 1 then map (\<lambda>d. d div sc) (diffs x xs) else diffs x xs) x = Some xs"
proof (induction xs arbitrary: x)
  case (Cons y ys)
  then show ?case by (cases "sc > 1") (simp_all add: i64_add_diff u64_mul_div)
qed simp

lemma timestamp_encode_rle_bytes:
  assumes "varint_codec encode_var decode_var"
  shows "\<exists>k d. k \<le> 12 \<and> d = 10 ^ k \<and> unat d dvd unat delta \<and>
    timestamp_encode_rle encode_var v delta cnt [] = Some (of_nat k # be_bytes v @ encode_var (delta div d) @ encode_var cnt)"
proof -
  have short: "length (encode_var w) \<le> MAX_VAR_INT_64" for w using assms by (simp add: varint_codec_def)
  let ?d = "shrink_div delta 1000000000000"
  obtain k where k: "pow10 k ?d" "unat ?d dvd unat delta" using shrink_div_pow10 [OF pow10_start] by blast
  let ?dst = "of_nat k # be_bytes v" and ?n = "9 + length (encode_var (delta div ?d))"
  obtain d1 where d1: "put_var encode_var (delta div ?d) 9 (reserve_var 9 ?dst) = Some (?n, d1)"
    "take ?n d1 = take 9 ?dst @ encode_var (delta div ?d)" "?n \<le> length d1"
    using put_reserved [of 9 ?dst encode_var "delta div ?d"] short by auto
  obtain d2 where d2: "put_var encode_var cnt ?n (reserve_var ?n d1) = Some (?n + length (encode_var cnt), d2)"
    "take (?n + length (encode_var cnt)) d2 = take ?n d1 @ encode_var cnt"
    using put_reserved [of ?n d1 encode_var cnt] d1(3) short by auto
  define b where "b = (0 :: byte) # be_bytes v @ replicate 10 0"
  have res: "reserve_var 9 ?dst = b[0 := of_nat k]" by (simp add: b_def reserve_var_def buf_resize_def MAX_VAR_INT_64_def)
  have buf: "(if length ([] @ [0] @ be_bytes v) \<le> 9 + MAX_VAR_INT_64 then buf_resize (9 + MAX_VAR_INT_64) ([] @ [0] @ be_bytes v) else [] @ [0] @ be_bytes v) = b"
    by (simp add: b_def buf_resize_def MAX_VAR_INT_64_def)
  have first: "(if ?d > 1
      then (if log10_u8 ?d \<le> 15 then put_var encode_var (delta div ?d) 9 (b[0 := b ! 0 OR log10_u8 ?d]) else None)
      else put_var encode_var delta 9 b) = Some (?n, d1)"
  proof (cases "?d > 1")
    case True
    moreover have "log10_u8 ?d \<le> 15" using k(1) header_fields(3) [of k 1] unfolding log10_pow10 [OF k(1)] by (simp add: pow10_def)
    moreover have "b ! 0 OR log10_u8 ?d = of_nat k" by (simp add: b_def log10_pow10 [OF k(1)])
    ultimately show ?thesis using d1(1) [unfolded res] by simp
  next
    case False
    then have "k = 0" using pow10_gt [OF k(1)] by simp
    moreover have "?d = 1" using pow10_word [OF k(1)] \<open>k = 0\<close> by simp
    moreover have "b[0 := 0] = b" by (simp add: b_def)
    ultimately show ?thesis using d1(1) [unfolded res] False by simp
  qed
  have "timestamp_encode_rle encode_var v delta cnt [] = Some (of_nat k # be_bytes v @ encode_var (delta div ?d) @ encode_var cnt)"
    unfolding timestamp_encode_rle_def Let_def buf first by (simp add: d2 d1(2))
  then show ?thesis using k pow10_word [OF k(1)] by (auto simp: pow10_def)
qed

lemma decode_rle_run:
  assumes "varint_codec encode_var decode_var" and "\<forall>d'\<in>set (diffs x xs). d' = delta" and "length xs + 1 < 2 ^ 64"
    and "timestamp_scaler h = d" and "unat d dvd unat delta"
  shows "timestamp_decode_rle decode_var (h # be_bytes x @ encode_var (delta div d) @ encode_var (of_nat (length xs + 1))) dst = (Ok (), dst @ x # xs)"
proof -
  have v: "decode_var (encode_var w @ rest) = Some (w, length (encode_var w))" for w rest using assms(1) by (simp add: varint_codec_def)
  define c :: u64 where "c = of_nat (length xs + 1)"
  have "decode_var (encode_var c) = Some (c, length (encode_var c))" using v [of c "[]"] by simp
  moreover have "take_bit 64 (length xs + 1) = length xs + 1" using assms(3) by (rule take_bit_nat_eq_self)
  then have "unat c = Suc (length xs)" unfolding c_def unsigned_of_nat by simp
  moreover have "drop (9 + length e) (h # be_bytes x @ e @ rest) = rest" for e rest by (simp add: drop_Cons')
  ultimately show ?thesis
    unfolding c_def [symmetric] using run_from_diffs [OF assms(2)] u64_mul_div [OF assms(5)]
    by (simp add: timestamp_decode_rle_def v assms(4))
qed

lemma decode_uncompressed_diffs:
  assumes "steps_fit (x # xs)"
  shows "timestamp_decode_uncompressed (be_bytes x @ concat (map be_bytes (diffs x xs))) dst = (Ok (), dst @ x # xs)"
proof -
  have len: "length (concat (map be_bytes ds)) = 8 * length ds" for ds by (induction ds) simp_all
  have "i64_add 0 x = Some x" using i64_add_diff [of x 0] sint_range_size [of x] by (simp add: is_i64_def i64_min_def i64_max_def word_size)
  then show ?thesis using timestamp_sums_diffs [OF assms] len [of "diffs x xs"] by (simp add: timestamp_decode_uncompressed_def)
qed

lemma decode_simple8b_diffs:
  assumes "steps_fit (x # xs)" and "timestamp_scaler h = d" and "\<forall>delta\<in>set (diffs x xs). unat d dvd unat delta"
    and "scaled = (if d > 1 then map (\<lambda>delta. delta div d) (diffs x xs) else diffs x xs)"
    and "simple8b_encode scaled dst = (Ok (), dst @ bs)"
  shows "timestamp_decode_simple8b (h # be_bytes x @ bs) [] = (Ok (), x # xs)"
proof -
  obtain ws where "bs = concat (map be_bytes ws)" "concat (map decode_value ws) = scaled" using encode_words [OF assms(5)] by auto
  then have "simple8b_decode bs [] = Some scaled" using decode_words [of 0 "[]" ws] by (simp add: simple8b_decode_def)
  moreover have "add_scaled d scaled x = Some xs" unfolding assms(4) by (rule add_scaled_diffs [OF assms(1,3)])
  ultimately show ?thesis by (simp add: timestamp_decode_simple8b_def assms(2))
qed

lemma div_le: "d > 1 \<Longrightarrow> x \<le> m \<Longrightarrow> x div d \<le> (m :: u64)"
  by (metis div_le_dividend order_trans unat_div word_le_nat_alt)

lemma simple8b_encodes: "\<forall>v\<in>set src. v \<le> S8B_MAX_VALUE \<Longrightarrow> \<exists>bs. simple8b_encode src dst = (Ok (), dst @ bs)"
proof -
  assume "\<forall>v\<in>set src. v \<le> S8B_MAX_VALUE"
  then obtain dst' where "simple8b_encode src dst = (Ok (), dst')" using encode_result [of src dst] by (metis prod.collapse)
  then show ?thesis using encode_words by blast
qed

section \<open>Round trip\<close>

text \<open>
  Blocks of timestamps can be decoded: encoding never fails, and decoding the block into an empty
  vector gives the timestamps back, as long as the difference between neighbours fits into an \<open>i64\<close>.
\<close>

lemma timestamp_roundtrip:
  assumes "varint_codec encode_var decode_var" and "steps_fit src" and "length src < 2 ^ 64"
  shows "\<exists>bs. timestamp_encode encode_var src = (Ok (), bs) \<and> timestamp_decode decode_var bs [] = (Ok (), src)"
proof (cases src)
  case Nil
  then show ?thesis by (simp add: timestamp_encode_def timestamp_decode_def)
next
  case (Cons x xs)
  define ds where "ds = diffs x xs"
  have deltas: "timestamp_deltas src = x # ds" by (simp add: timestamp_deltas_def ds_def Cons)
  have len: "length ds = length xs" by (simp add: ds_def)
  have fit: "steps_fit (x # xs)" using assms(2) Cons by simp
  consider (rle) d ds' where "ds = d # ds'" "\<forall>d'\<in>set ds'. d = d'"
    | (raw) "\<not> (length (x # ds) > 1 \<and> (\<forall>d\<in>set (drop 2 (x # ds)). (x # ds) ! 1 = d))" "max_delta ds > S8B_MAX_VALUE"
    | (s8b) "\<not> (length (x # ds) > 1 \<and> (\<forall>d\<in>set (drop 2 (x # ds)). (x # ds) ! 1 = d))" "\<not> max_delta ds > S8B_MAX_VALUE"
    by (cases ds) auto
  then show ?thesis
  proof cases
    case (rle delta ds')
    obtain k d where k: "k \<le> 12" "d = 10 ^ k" "unat d dvd unat delta"
      and enc: "timestamp_encode_rle encode_var x delta (of_nat (length xs + 1)) [] = Some (of_nat k # be_bytes x @ encode_var (delta div d) @ encode_var (of_nat (length xs + 1)))"
      using timestamp_encode_rle_bytes [OF assms(1)] by blast
    define h :: byte where "h = push_bit 4 2 OR of_nat k"
    have h: "drop_bit 4 h = 2" "timestamp_scaler h = d" unfolding h_def k(2) using header_fields [OF k(1), of 2] by simp_all
    have "xs \<noteq> []" using rle(1) len by auto
    then have "timestamp_encode encode_var src = (Ok (), h # be_bytes x @ encode_var (delta div d) @ encode_var (of_nat (length xs + 1)))"
      unfolding timestamp_encode_def deltas Let_def using rle enc len by (simp add: Cons h_def or.commute)
    moreover have "\<forall>d'\<in>set (diffs x xs). d' = delta" using rle unfolding ds_def by auto
    ultimately show ?thesis using decode_rle_run [OF assms(1) _ _ h(2) k(3), of x xs "[]"] assms(3) h(1) by (simp add: timestamp_decode_def Cons)
  next
    case raw
    then have "timestamp_encode encode_var src = (Ok (), 0 # be_bytes x @ concat (map be_bytes ds))"
      unfolding timestamp_encode_def deltas Let_def if_not_P [OF raw(1)] by (simp add: Cons)
    then show ?thesis using decode_uncompressed_diffs [OF fit, of "[]"] by (simp add: timestamp_decode_def Cons ds_def)
  next
    case s8b
    define d where "d = deltas_div ds 1000000000000"
    define scaled where "scaled = (if d > 1 then map (\<lambda>delta. delta div d) ds else ds)"
    obtain k where k: "pow10 k d" "\<forall>delta\<in>set ds. unat d dvd unat delta" using deltas_div_pow10 [OF pow10_start, of ds] unfolding d_def by blast
    define h :: byte where "h = push_bit 4 1 OR log10_u8 d"
    have h: "drop_bit 4 h = 1" "timestamp_scaler h = d"
      using header_fields [of k 1] k(1) pow10_word [OF k(1)] unfolding h_def log10_pow10 [OF k(1)] by (simp_all add: pow10_def)
    have small: "\<forall>v\<in>set ds. v \<le> S8B_MAX_VALUE"
    proof
      fix v assume "v \<in> set ds"
      then show "v \<le> S8B_MAX_VALUE" using max_delta_le [of v ds] s8b(2) by simp
    qed
    then have "\<forall>v\<in>set scaled. v \<le> S8B_MAX_VALUE" using div_le by (auto simp: scaled_def)
    then obtain bs where bs: "simple8b_encode scaled (h # be_bytes x) = (Ok (), (h # be_bytes x) @ bs)" using simple8b_encodes by blast
    have "timestamp_encode encode_var src = simple8b_encode scaled ([h] @ be_bytes x)"
      using s8b(2) unfolding timestamp_encode_def deltas Let_def if_not_P [OF s8b(1)] by (simp add: Cons d_def scaled_def h_def)
    moreover have "timestamp_decode_simple8b (h # be_bytes x @ bs) [] = (Ok (), x # xs)"
      using decode_simple8b_diffs [OF fit h(2) _ _ bs] k(2) by (simp add: ds_def scaled_def)
    ultimately show ?thesis using bs h(1) by (simp add: timestamp_decode_def Cons)
  qed
qed

end
