(* ===== verification/Tsm_Reader.thy ===== *)
theory Tsm_Reader
  imports Tsm_Key Tsm_Merge Tsm_Float_Roundtrip Tsm_Timestamp
begin

text \<open>
  Readers of TSM files, \<open>influxdb_tsm/src/lib.rs\<close> and \<open>reader.rs\<close>: the iterator over the index at the end of a
  file, and the decoder of the blocks that the index describes.  A reader is a \<open>std::io::Cursor\<close> over the bytes
  of the file.  The descriptions of errors are constructors that hold the values in their texts.
\<close>

section \<open>Files\<close>

datatype IoError = UnexpectedEof | InvalidSeek

datatype TsmError =
    TE_Io IoError
  | TE_BlockType byte
  | TE_Decode string
  | TE_TimestampLength
  | TE_NoDecoder
  | TE_BlockNotFound
  | TE_ParsingTsmKey bytes DataError
  | TE_CannotMerge string string

record Cursor =
  cu_data :: bytes
  cu_pos :: nat

definition Cursor_seek_start :: "nat \<Rightarrow> Cursor \<Rightarrow> Cursor" where
  "Cursor_seek_start n c = c\<lparr>cu_pos := n\<rparr>"

definition Cursor_seek_back :: "nat \<Rightarrow> (TsmError, Cursor, unit) call" where
  "Cursor_seek_back n c =
     (if length (cu_data c) < n then (Err (TE_Io InvalidSeek), c) else (Ok (), c\<lparr>cu_pos := length (cu_data c) - n\<rparr>))"

definition Cursor_read_exact :: "nat \<Rightarrow> (TsmError, Cursor, bytes) call" where
  "Cursor_read_exact n c =
     (if n \<le> length (cu_data c) - cu_pos c then (Ok (take n (drop (cu_pos c) (cu_data c))), c\<lparr>cu_pos := cu_pos c + n\<rparr>)
      else (Err (TE_Io UnexpectedEof), c))"

section \<open>Blocks and index entries\<close>

definition BlockType_try_from :: "byte \<Rightarrow> (TsmError, BlockType) res" where
  "BlockType_try_from value =
     (if value = 0 then Ok BT_Float
      else if value = 1 then Ok BT_Integer
      else if value = 2 then Ok BT_Bool
      else if value = 3 then Ok BT_Str
      else if value = 4 then Ok BT_Unsigned
      else Err (TE_BlockType value))"

record Block =
  blk_min_time :: i64
  blk_max_time :: i64
  blk_offset :: u64
  blk_size :: nat
  blk_typ :: BlockType
  blk_reader_idx :: nat

definition Block_overlaps :: "Block \<Rightarrow> Block \<Rightarrow> bool" where
  "Block_overlaps self other \<longleftrightarrow>
     sint (blk_min_time self) \<le> sint (blk_max_time other) \<and> sint (blk_min_time other) \<le> sint (blk_max_time self)"

record IndexEntry =
  ie_key :: bytes
  ie_block_type :: BlockType
  ie_count :: nat
  ie_block :: Block
  ie_curr_block :: nat

text \<open>Slicing a key that is too short is a panic.\<close>

definition extract_id_from_slice :: "bytes \<Rightarrow> InfluxId option" where
  "extract_id_from_slice data = (if length data < 8 then None else Some (from_be (take 8 data)))"

definition IndexEntry_org_id :: "IndexEntry \<Rightarrow> InfluxId option" where
  "IndexEntry_org_id e = (if length (ie_key e) < 8 then None else extract_id_from_slice (take 8 (ie_key e)))"

definition IndexEntry_bucket_id :: "IndexEntry \<Rightarrow> InfluxId option" where
  "IndexEntry_bucket_id e = (if length (ie_key e) < 16 then None else extract_id_from_slice (take 8 (drop 8 (ie_key e))))"

text \<open>\<open>byte as char\<close>\<close>

definition char_of_byte :: "byte \<Rightarrow> char" where
  "char_of_byte b = char_of (unat b)"

definition parse_tsm_key :: "bytes \<Rightarrow> (TsmError, ParsedTsmKey) res" where
  "parse_tsm_key key =
     (case fst (parse_tsm_key_internal (map char_of_byte key)) of
        Ok k \<Rightarrow> Ok k
      | Err e \<Rightarrow> Err (TE_ParsingTsmKey key e)
      | Panic \<Rightarrow> Panic)"

definition IndexEntry_parse_key :: "IndexEntry \<Rightarrow> (TsmError, ParsedTsmKey) res" where
  "IndexEntry_parse_key e = parse_tsm_key (ie_key e)"

section \<open>The index\<close>

record TsmIndexReader =
  tir_r :: Cursor
  curr_offset :: nat
  end_offset :: nat
  tir_curr :: "IndexEntry option"
  tir_next :: "IndexEntry option"

definition TsmIndexReader_try_new :: "Cursor \<Rightarrow> nat \<Rightarrow> (TsmError, TsmIndexReader) res" where
  "TsmIndexReader_try_new r len =
     (case m_bind (Cursor_seek_back 8) (\<lambda>_. Cursor_read_exact 8) r of
        (Err e, _) \<Rightarrow> Err e
      | (Panic, _) \<Rightarrow> Panic
      | (Ok buf, r) \<Rightarrow>
          let index_offset = unat (from_be buf)
          in if len < 8 then Panic
             else Ok \<lparr>tir_r = Cursor_seek_start index_offset r, curr_offset = index_offset, end_offset = len - 8, tir_curr = None, tir_next = None\<rparr>)"

text \<open>Read bytes of the index; the offset follows the reader.\<close>

definition index_read :: "nat \<Rightarrow> (TsmError, TsmIndexReader, bytes) call" where
  "index_read n s =
     (case Cursor_read_exact n (tir_r s) of
        (Ok buf, r) \<Rightarrow> (Ok buf, s\<lparr>tir_r := r, curr_offset := curr_offset s + n\<rparr>)
      | (Err e, r) \<Rightarrow> (Err e, s\<lparr>tir_r := r\<rparr>)
      | (Panic, r) \<Rightarrow> (Panic, s\<lparr>tir_r := r\<rparr>))"

definition next_block_entry :: "BlockType \<Rightarrow> (TsmError, TsmIndexReader, Block) call" where
  "next_block_entry typ =
     m_bind (index_read 8) (\<lambda>min_time.
     m_bind (index_read 8) (\<lambda>max_time.
     m_bind (index_read 8) (\<lambda>offset.
     m_bind (index_read 4) (\<lambda>size.
       m_return \<lparr>blk_min_time = from_be min_time, blk_max_time = from_be max_time, blk_offset = from_be offset,
                 blk_size = unat (from_be size), blk_typ = typ, blk_reader_idx = 0\<rparr>))))"

definition next_index_entry :: "(TsmError, TsmIndexReader, IndexEntry) call" where
  "next_index_entry =
     m_bind (index_read 2) (\<lambda>key_len.
     m_bind (index_read (unat (from_be key_len))) (\<lambda>key_bytes.
     m_bind (index_read 1) (\<lambda>b_type.
     m_bind (index_read 2) (\<lambda>count.
     m_bind (m_lift (BlockType_try_from (hd b_type))) (\<lambda>typ.
     m_bind (next_block_entry typ) (\<lambda>block.
       m_return \<lparr>ie_key = key_bytes, ie_block_type = typ, ie_count = unat (from_be count), ie_block = block, ie_curr_block = 1\<rparr>))))))"

definition next_of_entry :: "IndexEntry \<Rightarrow> (TsmError, TsmIndexReader, IndexEntry) call" where
  "next_of_entry cur =
     (if ie_curr_block cur < ie_count cur
      then m_bind (next_block_entry (ie_block_type cur)) (\<lambda>block.
             m_return (cur\<lparr>ie_block := block, ie_curr_block := ie_curr_block cur + 1\<rparr>))
      else next_index_entry)"

definition TsmIndexReader_next :: "TsmIndexReader \<Rightarrow> (TsmError, IndexEntry) res option \<times> TsmIndexReader" where
  "TsmIndexReader_next s =
     (if curr_offset s = end_offset s then (None, s)
      else
        (case (case tir_curr s of Some entry \<Rightarrow> next_of_entry entry s | None \<Rightarrow> next_index_entry s) of
           (Ok entry, s) \<Rightarrow> (Some (Ok entry), s\<lparr>tir_next := Some entry, tir_curr := Some entry\<rparr>)
         | (Err e, s) \<Rightarrow> (Some (Err e), s)
         | (Panic, s) \<Rightarrow> (Some Panic, s)))"

section \<open>Decoding blocks\<close>

text \<open>The values after the timestamps; \<open>None\<close> is a loop that does not end.\<close>

definition with_values :: "('v list \<Rightarrow> BlockData) \<Rightarrow> (string, unit) res \<times> 'v list \<Rightarrow> (TsmError, BlockData) res" where
  "with_values con r =
     (case r of (Ok _, values) \<Rightarrow> Ok (con values) | (Err e, _) \<Rightarrow> Err (TE_Decode e) | (Panic, _) \<Rightarrow> Panic)"

definition decode_values ::
    "(bytes \<Rightarrow> (u64 \<times> nat) option) \<Rightarrow> (bytes \<Rightarrow> bytes option) \<Rightarrow> BlockType \<Rightarrow> i64 list \<Rightarrow> bytes \<Rightarrow> (TsmError, BlockData) res option" where
  "decode_values decode_var decompress block_type ts data =
     (case block_type of
        BT_Float \<Rightarrow> Some (with_values (BD_Float 0 ts) (float_decode_influxdb data []))
      | BT_Integer \<Rightarrow> Some (with_values (BD_Integer 0 ts) (integer_decode decode_var data []))
      | BT_Bool \<Rightarrow> Some (with_values (BD_Bool 0 ts) (boolean_decode decode_var data []))
      | BT_Str \<Rightarrow> map_option (with_values (BD_Str 0 ts)) (string_decode decode_var decompress data [])
      | BT_Unsigned \<Rightarrow> Some (with_values (BD_Unsigned 0 ts) (unsigned_decode decode_var (length ts) data [])))"

definition decode_data ::
    "(bytes \<Rightarrow> (u64 \<times> nat) option) \<Rightarrow> (bytes \<Rightarrow> bytes option) \<Rightarrow> bytes \<Rightarrow> (TsmError, BlockData) res option" where
  "decode_data decode_var decompress data =
     (if length data \<le> 4 then Some Panic
      else
        (case BlockType_try_from (data ! 4) of
           Err e \<Rightarrow> Some (Err e)
         | Panic \<Rightarrow> Some Panic
         | Ok block_type \<Rightarrow>
             (case decode_var (drop 5 data) of
                None \<Rightarrow> Some (Err TE_TimestampLength)
              | Some (len, n) \<Rightarrow>
                  let idx = 5 + n; end = idx + unat len
                  in if end > length data then Some Panic
                     else
                       (case timestamp_decode decode_var (take (unat len) (drop idx data)) [] of
                          (Err e, _) \<Rightarrow> Some (Err (TE_Decode e))
                        | (Panic, _) \<Rightarrow> Some Panic
                        | (Ok _, ts) \<Rightarrow> decode_values decode_var decompress block_type ts (drop end data)))))"

definition TsmBlockReader_new :: "Cursor \<Rightarrow> Cursor list" where
  "TsmBlockReader_new r = [r]"

definition TsmBlockReader_add_reader :: "Cursor \<Rightarrow> Cursor list \<Rightarrow> Cursor list" where
  "TsmBlockReader_add_reader r readers = readers @ [r]"


definition MockBlockDecoder_decode :: "(i64 \<rightharpoonup> BlockData) \<Rightarrow> Block \<Rightarrow> (TsmError, BlockData) res" where
  "MockBlockDecoder_decode blocks block = (case blocks (blk_min_time block) of Some d \<Rightarrow> Ok d | None \<Rightarrow> Err TE_BlockNotFound)"

section \<open>Reading the index ends\<close>

definition advance :: "nat \<Rightarrow> TsmIndexReader \<Rightarrow> TsmIndexReader" where
  "advance n s = s\<lparr>tir_r := (tir_r s)\<lparr>cu_pos := cu_pos (tir_r s) + n\<rparr>, curr_offset := curr_offset s + n\<rparr>"

definition remaining :: "TsmIndexReader \<Rightarrow> bytes" where
  "remaining s = drop (cu_pos (tir_r s)) (cu_data (tir_r s))"

lemma advance_simps [simp]:
  "remaining (advance n s) = drop n (remaining s)" "advance m (advance n s) = advance (n + m) s" "curr_offset (advance n s) = curr_offset s + n"
  "end_offset (advance n s) = end_offset s" "tir_curr (advance n s) = tir_curr s" "cu_data (tir_r (advance n s)) = cu_data (tir_r s)"
  by (simp_all add: advance_def remaining_def add.commute add.left_commute)

lemma index_read_eq:
  "index_read n s = (if n \<le> length (remaining s) then (Ok (take n (remaining s)), advance n s) else (Err (TE_Io UnexpectedEof), s))"
  by (simp add: index_read_def Cursor_read_exact_def remaining_def advance_def)

definition block_entry :: "BlockType \<Rightarrow> bytes \<Rightarrow> Block" where
  "block_entry typ bs =
     \<lparr>blk_min_time = from_be (take 8 bs), blk_max_time = from_be (take 8 (drop 8 bs)), blk_offset = from_be (take 8 (drop 16 bs)),
      blk_size = unat (from_be (take 4 (drop 24 bs))), blk_typ = typ, blk_reader_idx = 0\<rparr>"

lemma advance_0 [simp]: "advance 0 s = s"
  by (simp add: advance_def)

text \<open>Reads that succeed or stop in the middle only move the reader forward.\<close>

definition moves :: "nat \<Rightarrow> (TsmError, TsmIndexReader, 'a) call \<Rightarrow> bool" where
  "moves k m \<longleftrightarrow> (\<forall>s. (\<exists>x n. m s = (Ok x, advance n s) \<and> k \<le> n \<and> n \<le> length (remaining s)) \<or> (\<exists>e n. m s = (Err e, advance n s)))"

lemma moves_read: "moves n (index_read n)"
  unfolding moves_def index_read_eq by (metis advance_0 order_refl)

lemma moves_return: "moves 0 (m_return x)"
  unfolding moves_def m_return_def by (metis advance_0 le0)

lemma moves_try_from: "moves 0 (m_lift (BlockType_try_from b))"
proof -
  have "(\<exists>t. BlockType_try_from b = Ok t) \<or> (\<exists>e. BlockType_try_from b = Err e)" by (simp add: BlockType_try_from_def)
  then show ?thesis unfolding moves_def m_lift_def by (metis advance_0 le0)
qed

lemma moves_bind:
  assumes "moves j m" and "\<And>x. moves k (f x)"
  shows "moves (j + k) (m_bind m f)"
  unfolding moves_def
proof
  fix s
  consider (ok) x n where "m s = (Ok x, advance n s)" "j \<le> n" "n \<le> length (remaining s)" | (err) e n where "m s = (Err e, advance n s)"
    using assms(1) unfolding moves_def by blast
  then show "(\<exists>x n. m_bind m f s = (Ok x, advance n s) \<and> j + k \<le> n \<and> n \<le> length (remaining s)) \<or> (\<exists>e n. m_bind m f s = (Err e, advance n s))"
  proof cases
    case ok
    consider y n' where "f x (advance n s) = (Ok y, advance n' (advance n s))" "k \<le> n'" "n' \<le> length (remaining (advance n s))"
      | e n' where "f x (advance n s) = (Err e, advance n' (advance n s))" using assms(2) [of x] unfolding moves_def by blast
    then show ?thesis
    proof cases
      case 1
      then have "j + k \<le> n + n'" "n + n' \<le> length (remaining s)" using ok by simp_all
      then show ?thesis using ok(1) 1(1) by fastforce
    next
      case 2
      then show ?thesis using ok(1) by fastforce
    qed
  next
    case err
    then show ?thesis by fastforce
  qed
qed

lemma moves_weaken: "moves j m \<Longrightarrow> k \<le> j \<Longrightarrow> moves k m"
  unfolding moves_def by (meson order_trans)

lemma moves_block_entry: "moves 28 (next_block_entry typ)"
proof -
  have "moves (8 + (8 + (8 + (4 + 0)))) (next_block_entry typ)"
    unfolding next_block_entry_def by (intro moves_bind moves_read moves_return)
  then show ?thesis by simp
qed

lemma moves_index_entry: "moves 28 next_index_entry"
proof -
  have "moves (2 + (0 + (1 + (2 + (0 + (28 + 0)))))) next_index_entry"
    unfolding next_index_entry_def
    by (intro moves_bind moves_read moves_return moves_block_entry moves_try_from moves_weaken [OF moves_read, of 0]) simp
  then show ?thesis by (rule moves_weaken) simp
qed

lemma moves_next_of_entry: "moves 28 (next_of_entry c)"
proof -
  have "moves (28 + 0) (m_bind (next_block_entry (ie_block_type c)) (\<lambda>block. m_return (c\<lparr>ie_block := block, ie_curr_block := ie_curr_block c + 1\<rparr>)))"
    by (intro moves_bind moves_return moves_block_entry)
  then show ?thesis unfolding next_of_entry_def using moves_index_entry by simp
qed

text \<open>The iterator never panics, and each entry takes at least the 28 bytes of a block from what remains of the file.\<close>

lemma next_outcomes:
  obtains (finished) "TsmIndexReader_next s = (None, s)"
    | (item) e n where "fst (TsmIndexReader_next s) = Some (Ok e)" "28 \<le> n" "n \<le> length (remaining s)"
        "remaining (snd (TsmIndexReader_next s)) = drop n (remaining s)"
    | (fault) e where "fst (TsmIndexReader_next s) = Some (Err e)"
proof (cases "curr_offset s = end_offset s")
  case True
  then show ?thesis using finished by (simp add: TsmIndexReader_next_def)
next
  case False
  define m where "m = (case tir_curr s of Some entry \<Rightarrow> next_of_entry entry | None \<Rightarrow> next_index_entry)"
  have "moves 28 m" by (simp add: m_def moves_next_of_entry moves_index_entry split: option.splits)
  moreover have m: "(case tir_curr s of Some entry \<Rightarrow> next_of_entry entry s | None \<Rightarrow> next_index_entry s) = m s" by (simp add: m_def split: option.splits)
  ultimately consider e n where "m s = (Ok e, advance n s)" "28 \<le> n" "n \<le> length (remaining s)" | e n where "m s = (Err e, advance n s)"
    unfolding moves_def by blast
  then show ?thesis
  proof cases
    case 1
    have "remaining (t\<lparr>tir_next := a, tir_curr := b\<rparr>) = remaining t" for t a b by (simp add: remaining_def)
    then show ?thesis using 1 False item [of e n] by (simp add: TsmIndexReader_next_def m)
  next
    case 2
    then show ?thesis using False fault [of e] by (simp add: TsmIndexReader_next_def m)
  qed
qed

fun index_after :: "nat \<Rightarrow> TsmIndexReader \<Rightarrow> TsmIndexReader" where
  "index_after 0 s = s"
| "index_after (Suc n) s = index_after n (snd (TsmIndexReader_next s))"

text \<open>
  C21. Whatever the bytes of the file, a loop over the index ends: after at most one call for every 28 bytes the iterator is at its end or reports
  an error, and it never panics.
\<close>

theorem index_iteration_ends:
  "(\<exists>n. n \<le> length (remaining s) div 28
      \<and> (fst (TsmIndexReader_next (index_after n s)) = None \<or> (\<exists>e. fst (TsmIndexReader_next (index_after n s)) = Some (Err e))))
   \<and> (\<forall>n. fst (TsmIndexReader_next (index_after n s)) \<noteq> Some Panic)"
proof
  show "\<exists>n. n \<le> length (remaining s) div 28
      \<and> (fst (TsmIndexReader_next (index_after n s)) = None \<or> (\<exists>e. fst (TsmIndexReader_next (index_after n s)) = Some (Err e)))"
  proof (induction "length (remaining s)" arbitrary: s rule: less_induct)
    case less
    show ?case
    proof (cases rule: next_outcomes [of s])
      case finished
      then show ?thesis by (intro exI [of _ 0]) simp
    next
      case (fault e)
      then show ?thesis by (intro exI [of _ 0]) simp
    next
      case (item e n)
      let ?s = "snd (TsmIndexReader_next s)"
      have "length (remaining ?s) < length (remaining s)" using item by simp
      then obtain k where k: "k \<le> length (remaining ?s) div 28"
        "fst (TsmIndexReader_next (index_after k ?s)) = None \<or> (\<exists>e. fst (TsmIndexReader_next (index_after k ?s)) = Some (Err e))"
        using less by blast
      have "length (remaining ?s) + 28 \<le> length (remaining s)" using item by simp
      then have "Suc k \<le> length (remaining s) div 28" using k(1) by linarith
      then show ?thesis using k(2) by (intro exI [of _ "Suc k"]) simp
    qed
  qed
  show "\<forall>n. fst (TsmIndexReader_next (index_after n s)) \<noteq> Some Panic"
  proof
    fix n show "fst (TsmIndexReader_next (index_after n s)) \<noteq> Some Panic"
      by (cases rule: next_outcomes [of "index_after n s"]) simp_all
  qed
qed

section \<open>The index is read back\<close>

text \<open>The format of the index: for every key its type, the number of its blocks, and the blocks.\<close>

definition be16 :: "nat \<Rightarrow> bytes" where "be16 n = drop 6 (be_bytes (of_nat n))"

definition be32 :: "nat \<Rightarrow> bytes" where "be32 n = drop 4 (be_bytes (of_nat n))"

definition type_byte :: "BlockType \<Rightarrow> byte" where
  "type_byte t = (case t of BT_Float \<Rightarrow> 0 | BT_Integer \<Rightarrow> 1 | BT_Bool \<Rightarrow> 2 | BT_Str \<Rightarrow> 3 | BT_Unsigned \<Rightarrow> 4)"

definition block_bytes :: "Block \<Rightarrow> bytes" where
  "block_bytes b = be_bytes (blk_min_time b) @ be_bytes (blk_max_time b) @ be_bytes (blk_offset b) @ be32 (blk_size b)"

type_synonym index_item = "bytes \<times> BlockType \<times> Block list"

fun item_bytes :: "index_item \<Rightarrow> bytes" where
  "item_bytes (key, typ, blocks) = be16 (length key) @ key @ [type_byte typ] @ be16 (length blocks) @ concat (map block_bytes blocks)"

fun item_ok :: "index_item \<Rightarrow> bool" where
  "item_ok (key, typ, blocks) \<longleftrightarrow> length key < 2 ^ 16 \<and> blocks \<noteq> [] \<and> length blocks < 2 ^ 16
     \<and> list_all (\<lambda>b. blk_size b < 2 ^ 32 \<and> blk_typ b = typ \<and> blk_reader_idx b = 0) blocks"

text \<open>What the iterator should give: every block with the key it belongs to.\<close>

fun item_entries :: "index_item \<Rightarrow> IndexEntry list" where
  "item_entries (key, typ, blocks) =
     map2 (\<lambda>i b. \<lparr>ie_key = key, ie_block_type = typ, ie_count = length blocks, ie_block = b, ie_curr_block = i + 1\<rparr>) [0..<length blocks] blocks"

fun index_results :: "nat \<Rightarrow> TsmIndexReader \<Rightarrow> (TsmError, IndexEntry) res option list" where
  "index_results 0 s = []"
| "index_results (Suc n) s = fst (TsmIndexReader_next s) # index_results n (snd (TsmIndexReader_next s))"

lemma from_be_suffix: "k \<le> 8 \<Longrightarrow> from_be (drop (8 - k) (be_bytes v)) = take_bit (8 * k) v"
proof (rule bit_word_eqI)
  fix n assume k: "k \<le> 8" and "n < LENGTH(64)"
  then have n: "n < 64" by simp
  obtain q r where qr: "n = 8 * q + r" "r < 8" by (metis mod_less_divisor mult_div_mod_eq zero_less_numeral)
  have len: "length (drop (8 - k) (be_bytes v)) = k" using k by simp
  show "bit (from_be (drop (8 - k) (be_bytes v))) n = bit (take_bit (8 * k) v) n"
  proof (cases "n < 8 * k")
    case True
    then have q: "q < k" "q < 8" using qr k by linarith+
    have "bit (from_be (drop (8 - k) (be_bytes v))) n = bit (drop (8 - k) (be_bytes v) ! (k - 1 - q)) r"
      using bit_from_be [of "drop (8 - k) (be_bytes v)" n] True len k qr by simp
    also have "\<dots> = bit (be_bytes v ! (7 - q)) (7 - (7 - r))" using q k qr(2) by simp
    also have "\<dots> = bit v (63 - (8 * (7 - q) + (7 - r)))" using q qr(2) by (intro be_bytes_bit) simp_all
    also have "63 - (8 * (7 - q) + (7 - r)) = n" using q qr by simp
    finally show ?thesis using True by (simp add: bit_take_bit_iff)
  next
    case False
    then show ?thesis using bit_from_be [of "drop (8 - k) (be_bytes v)" n] len k by (simp add: bit_take_bit_iff)
  qed
qed

lemma length_be16 [simp]: "length (be16 n) = 2" "length (be32 n) = 4"
  by (simp_all add: be16_def be32_def)

lemma from_be16 [simp]: "n < 2 ^ 16 \<Longrightarrow> unat (from_be (be16 n)) = n"
  using from_be_suffix [of 2 "of_nat n"] by (simp add: be16_def unsigned_take_bit_eq unsigned_of_nat take_bit_nat_eq_self)

lemma from_be32 [simp]: "n < 2 ^ 32 \<Longrightarrow> unat (from_be (be32 n)) = n"
  using from_be_suffix [of 4 "of_nat n"] by (simp add: be32_def unsigned_take_bit_eq unsigned_of_nat take_bit_nat_eq_self)

lemma try_from_type_byte [simp]: "BlockType_try_from (type_byte t) = Ok t"
  by (cases t) (simp_all add: BlockType_try_from_def type_byte_def)

lemma length_block_bytes [simp]: "length (block_bytes b) = 28"
  by (simp add: block_bytes_def)

lemma index_read_bytes: "remaining s = xs @ rest \<Longrightarrow> length xs = n \<Longrightarrow> index_read n s = (Ok xs, advance n s)"
  by (simp add: index_read_eq)

lemma next_block_entry_bytes:
  assumes "remaining s = block_bytes b @ rest" and "blk_size b < 2 ^ 32" and "blk_typ b = typ" and "blk_reader_idx b = 0"
  shows "next_block_entry typ s = (Ok b, advance 28 s)"
proof -
  have b: "b = \<lparr>blk_min_time = blk_min_time b, blk_max_time = blk_max_time b, blk_offset = blk_offset b, blk_size = blk_size b, blk_typ = typ, blk_reader_idx = 0\<rparr>"
    using assms(3,4) by simp
  show ?thesis
    using assms(1,2) b by (simp add: next_block_entry_def index_read_eq block_bytes_def m_return_def)
qed

lemma next_index_entry_bytes:
  assumes "remaining s = be16 (length key) @ key @ [type_byte typ] @ be16 cnt @ block_bytes b @ rest"
    and "length key < 2 ^ 16" and "cnt < 2 ^ 16" and "blk_size b < 2 ^ 32" and "blk_typ b = typ" and "blk_reader_idx b = 0"
  shows "next_index_entry s = (Ok \<lparr>ie_key = key, ie_block_type = typ, ie_count = cnt, ie_block = b, ie_curr_block = 1\<rparr>, advance (33 + length key) s)"
proof -
  have "next_block_entry typ (advance (5 + length key) s) = (Ok b, advance 28 (advance (5 + length key) s))"
    using assms(1,4,5,6) by (intro next_block_entry_bytes [of _ _ rest]) simp_all
  moreover have "5 + length key = Suc (Suc (Suc (Suc (Suc (length key)))))" by simp
  ultimately have "next_block_entry typ (advance (Suc (Suc (Suc (Suc (Suc (length key)))))) s) = (Ok b, advance (33 + length key) s)" by simp
  then show ?thesis using assms(1,2,3) by (simp add: next_index_entry_def index_read_eq m_return_def m_lift_def)
qed

definition in_sync :: "TsmIndexReader \<Rightarrow> bool" where
  "in_sync s \<longleftrightarrow> curr_offset s + length (remaining s) = end_offset s + 8"

lemma in_sync_advance: "in_sync s \<Longrightarrow> n \<le> length (remaining s) \<Longrightarrow> in_sync (advance n s)"
  by (simp add: in_sync_def)

definition give :: "IndexEntry \<Rightarrow> TsmIndexReader \<Rightarrow> TsmIndexReader" where
  "give e s = s\<lparr>tir_next := Some e, tir_curr := Some e\<rparr>"

lemma give_simps [simp]: "remaining (give e s) = remaining s" "tir_curr (give e s) = Some e" "in_sync (give e s) = in_sync s"
  by (simp_all add: give_def remaining_def in_sync_def)

lemma next_gives:
  assumes "in_sync s" and "8 < length (remaining s)"
    and "(case tir_curr s of Some entry \<Rightarrow> next_of_entry entry s | None \<Rightarrow> next_index_entry s) = (Ok e, advance n s)"
  shows "TsmIndexReader_next s = (Some (Ok e), give e (advance n s))"
  using assms by (simp add: TsmIndexReader_next_def give_def in_sync_def)

lemma rest_of_item:
  "tir_curr s = Some e \<Longrightarrow> ie_curr_block e + length bs = ie_count e \<Longrightarrow>
   list_all (\<lambda>b. blk_size b < 2 ^ 32 \<and> blk_typ b = ie_block_type e \<and> blk_reader_idx b = 0) bs \<Longrightarrow>
   remaining s = concat (map block_bytes bs) @ rest \<Longrightarrow> in_sync s \<Longrightarrow>
   \<exists>s' e'. (\<forall>k. index_results (length bs + k) s =
       map (\<lambda>e. Some (Ok e)) (map2 (\<lambda>i b. e\<lparr>ie_block := b, ie_curr_block := i + 1\<rparr>) [ie_curr_block e..<ie_count e] bs) @ index_results k s')
     \<and> tir_curr s' = Some e' \<and> ie_curr_block e' = ie_count e' \<and> remaining s' = rest \<and> in_sync s'"
proof (induction bs arbitrary: s e)
  case Nil
  then show ?case by (intro exI [of _ s] exI [of _ e]) simp
next
  case (Cons b bs)
  define e1 where "e1 = e\<lparr>ie_block := b, ie_curr_block := ie_curr_block e + 1\<rparr>"
  define s1 where "s1 = give e1 (advance 28 s)"
  have r: "remaining s = block_bytes b @ concat (map block_bytes bs) @ rest" using Cons.prems(4) by simp
  then have "next_block_entry (ie_block_type e) s = (Ok b, advance 28 s)" using Cons.prems(3) by (intro next_block_entry_bytes) auto
  then have "next_of_entry e s = (Ok e1, advance 28 s)" using Cons.prems(2) by (simp add: next_of_entry_def e1_def m_return_def)
  then have step: "TsmIndexReader_next s = (Some (Ok e1), s1)" unfolding s1_def using Cons.prems(1,5) r by (intro next_gives) simp_all
  have "in_sync s1" using Cons.prems(5) r by (simp add: s1_def in_sync_advance)
  moreover have "remaining s1 = concat (map block_bytes bs) @ rest" using r by (simp add: s1_def)
  moreover have "ie_curr_block e1 + length bs = ie_count e1" "ie_block_type e1 = ie_block_type e" "ie_count e1 = ie_count e" using Cons.prems(2) by (simp_all add: e1_def)
  ultimately obtain s' e' where IH: "\<forall>k. index_results (length bs + k) s1 =
       map (\<lambda>e. Some (Ok e)) (map2 (\<lambda>i b. e1\<lparr>ie_block := b, ie_curr_block := i + 1\<rparr>) [ie_curr_block e1..<ie_count e1] bs) @ index_results k s'"
     "tir_curr s' = Some e'" "ie_curr_block e' = ie_count e'" "remaining s' = rest" "in_sync s'"
    using Cons.IH [of s1 e1] Cons.prems(3) by (auto simp: s1_def)
  have "[ie_curr_block e..<ie_count e] = ie_curr_block e # [ie_curr_block e1..<ie_count e1]" using Cons.prems(2) by (simp add: e1_def upt_conv_Cons)
  then have "index_results (length (b # bs) + k) s =
       map (\<lambda>e. Some (Ok e)) (map2 (\<lambda>i b. e\<lparr>ie_block := b, ie_curr_block := i + 1\<rparr>) [ie_curr_block e..<ie_count e] (b # bs)) @ index_results k s'" for k
    using IH(1) step by (simp add: e1_def)
  then show ?case using IH(2-5) by blast
qed

lemma item_results:
  assumes "item_ok it" and "remaining s = item_bytes it @ rest" and "in_sync s" and "case tir_curr s of None \<Rightarrow> True | Some e \<Rightarrow> ie_curr_block e = ie_count e"
  shows "\<exists>s' e'. (\<forall>k. index_results (length (item_entries it) + k) s = map (\<lambda>e. Some (Ok e)) (item_entries it) @ index_results k s')
     \<and> tir_curr s' = Some e' \<and> ie_curr_block e' = ie_count e' \<and> remaining s' = rest \<and> in_sync s'"
proof -
  obtain key ty blocks where it: "it = (key, ty, blocks)" by (cases it)
  then obtain b bs where blocks: "blocks = b # bs" using assms(1) by (cases blocks) auto
  define e where "e = \<lparr>ie_key = key, ie_block_type = ty, ie_count = length blocks, ie_block = b, ie_curr_block = 1\<rparr>"
  define s1 where "s1 = give e (advance (33 + length key) s)"
  have r: "remaining s = be16 (length key) @ key @ [type_byte ty] @ be16 (length blocks) @ block_bytes b @ concat (map block_bytes bs) @ rest"
    using assms(2) by (simp add: it blocks)
  have "next_index_entry s = (Ok e, advance (33 + length key) s)" unfolding e_def
    by (rule next_index_entry_bytes [OF r]) (use assms(1) in \<open>simp_all add: it blocks\<close>)
  then have "(case tir_curr s of Some entry \<Rightarrow> next_of_entry entry s | None \<Rightarrow> next_index_entry s) = (Ok e, advance (33 + length key) s)"
    using assms(4) by (simp add: next_of_entry_def split: option.splits)
  then have step: "TsmIndexReader_next s = (Some (Ok e), s1)" unfolding s1_def using assms(3) r by (intro next_gives) simp_all
  have "remaining s1 = concat (map block_bytes bs) @ rest" "in_sync s1" using r assms(3) by (simp_all add: s1_def in_sync_advance)
  then obtain s' e' where IH: "\<forall>k. index_results (length bs + k) s1 =
       map (\<lambda>e. Some (Ok e)) (map2 (\<lambda>i b. e\<lparr>ie_block := b, ie_curr_block := i + 1\<rparr>) [ie_curr_block e..<ie_count e] bs) @ index_results k s'"
     "tir_curr s' = Some e'" "ie_curr_block e' = ie_count e'" "remaining s' = rest" "in_sync s'"
    using rest_of_item [of s1 e bs rest] assms(1) by (auto simp: s1_def e_def it blocks)
  have "[0..<length blocks] = 0 # [ie_curr_block e..<ie_count e]" by (simp add: e_def blocks upt_conv_Cons del: upt_Suc)
  then have ents: "item_entries it = e # map2 (\<lambda>i b. e\<lparr>ie_block := b, ie_curr_block := i + 1\<rparr>) [ie_curr_block e..<ie_count e] bs"
    by (simp add: it blocks e_def del: upt_Suc)
  have "length (item_entries it) = Suc (length bs)" by (simp add: it blocks del: upt_Suc)
  then have "index_results (length (item_entries it) + k) s = map (\<lambda>e. Some (Ok e)) (item_entries it) @ index_results k s'" for k
    using IH(1) step by (simp only: ents add_Suc index_results.simps fst_conv snd_conv list.map append_Cons)
  then show ?thesis using IH(2-5) by blast
qed

lemma items_results:
  "list_all item_ok items \<Longrightarrow> remaining s = concat (map item_bytes items) @ rest \<Longrightarrow> in_sync s \<Longrightarrow> length rest = 8 \<Longrightarrow>
   (case tir_curr s of None \<Rightarrow> True | Some e \<Rightarrow> ie_curr_block e = ie_count e) \<Longrightarrow>
   index_results (length (concat (map item_entries items)) + 1) s = map (\<lambda>e. Some (Ok e)) (concat (map item_entries items)) @ [None]"
proof (induction items arbitrary: s)
  case Nil
  then show ?case by (simp add: in_sync_def TsmIndexReader_next_def)
next
  case (Cons it items)
  have "item_ok it" "remaining s = item_bytes it @ concat (map item_bytes items) @ rest" using Cons.prems by simp_all
  from item_results [OF this Cons.prems(3,5)] obtain s' e' where s':
    "\<forall>k. index_results (length (item_entries it) + k) s = map (\<lambda>e. Some (Ok e)) (item_entries it) @ index_results k s'"
    "tir_curr s' = Some e'" "ie_curr_block e' = ie_count e'" "remaining s' = concat (map item_bytes items) @ rest" "in_sync s'" by blast
  have "index_results (length (concat (map item_entries items)) + 1) s' = map (\<lambda>e. Some (Ok e)) (concat (map item_entries items)) @ [None]"
    using Cons.IH [OF _ s'(4,5) Cons.prems(4)] Cons.prems(1) s'(2,3) by simp
  then show ?case using s'(1) [rule_format, of "length (concat (map item_entries items)) + 1"] by (simp only: list.map concat.simps length_append map_append add.assoc append_assoc)
qed

text \<open>
  C15. From a file that ends with an index in the TSM format the iterator gives every block of every key in the order of the index, with its
  times, its place and its type, and then ends.
\<close>

theorem index_roundtrip:
  assumes "file = blocks @ concat (map item_bytes items) @ be_bytes (of_nat (length blocks))" and "list_all item_ok items" and "length blocks < 2 ^ 64"
  shows "\<exists>s. TsmIndexReader_try_new \<lparr>cu_data = file, cu_pos = pos\<rparr> (length file) = Ok s
    \<and> index_results (length (concat (map item_entries items)) + 1) s = map (\<lambda>e. Some (Ok e)) (concat (map item_entries items)) @ [None]"
proof -
  let ?idx = "concat (map item_bytes items) @ be_bytes (of_nat (length blocks))"
  let ?s = "\<lparr>tir_r = \<lparr>cu_data = file, cu_pos = length blocks\<rparr>, curr_offset = length blocks, end_offset = length file - 8, tir_curr = None, tir_next = None\<rparr>"
  have "unat (of_nat (length blocks) :: u64) = length blocks" using assms(3) by (simp add: unsigned_of_nat take_bit_nat_eq_self)
  then have "TsmIndexReader_try_new \<lparr>cu_data = file, cu_pos = pos\<rparr> (length file) = Ok ?s"
    by (simp add: TsmIndexReader_try_new_def Cursor_seek_back_def Cursor_read_exact_def Cursor_seek_start_def m_bind_def Let_def assms(1))
  moreover have "remaining ?s = ?idx" "in_sync ?s" by (simp_all add: remaining_def in_sync_def assms(1))
  then have "index_results (length (concat (map item_entries items)) + 1) ?s = map (\<lambda>e. Some (Ok e)) (concat (map item_entries items)) @ [None]"
    using items_results [OF assms(2), of ?s "be_bytes (of_nat (length blocks))"] by simp
  ultimately show ?thesis by blast
qed

theorem index_roundtrip_witness:
  "\<exists>s. TsmIndexReader_try_new \<lparr>cu_data = [7, 8] @ item_bytes ([65, 66], BT_Bool, [\<lparr>blk_min_time = 1, blk_max_time = 5, blk_offset = 0, blk_size = 2, blk_typ = BT_Bool, blk_reader_idx = 0\<rparr>]) @ be_bytes 2, cu_pos = 0\<rparr> 45 = Ok s
    \<and> index_results (1 + 1) s = [Some (Ok \<lparr>ie_key = [65, 66], ie_block_type = BT_Bool, ie_count = 1,
          ie_block = \<lparr>blk_min_time = 1, blk_max_time = 5, blk_offset = 0, blk_size = 2, blk_typ = BT_Bool, blk_reader_idx = 0\<rparr>, ie_curr_block = 1\<rparr>), None]"
  using index_roundtrip [of _ "[7, 8]" "[([65, 66], BT_Bool, [\<lparr>blk_min_time = 1, blk_max_time = 5, blk_offset = 0, blk_size = 2, blk_typ = BT_Bool, blk_reader_idx = 0\<rparr>])]" 0, OF refl]
  by simp

section \<open>Blocks are read back\<close>

text \<open>A block as it lies in the file, put together from the encoders.\<close>

definition block_layout :: "(u64 \<Rightarrow> bytes) \<Rightarrow> bytes \<Rightarrow> BlockType \<Rightarrow> bytes \<Rightarrow> bytes \<Rightarrow> bytes" where
  "block_layout encode_var crc t tb vb = crc @ [type_byte t] @ encode_var (of_nat (length tb)) @ tb @ vb"






lemma decode_data_layout:
  assumes "varint_codec encode_var decode_var" and "length crc = 4" and "length tb < 2 ^ 64" and "timestamp_decode decode_var tb [] = (Ok (), ts)"
  shows "decode_data decode_var decompress (block_layout encode_var crc t tb vb) = decode_values decode_var decompress t ts vb"
proof -
  let ?data = "block_layout encode_var crc t tb vb" and ?n = "length (encode_var (of_nat (length tb)))"
  have "unat (of_nat (length tb) :: u64) = length tb" using assms(3) by (simp add: unsigned_of_nat take_bit_nat_eq_self)
  moreover have "?data ! 4 = type_byte t" "\<not> length ?data \<le> 4" using assms(2) by (simp_all add: block_layout_def nth_append)
  moreover have "drop 5 ?data = encode_var (of_nat (length tb)) @ tb @ vb" using assms(2) by (simp add: block_layout_def)
  moreover have "drop (5 + ?n) ?data = tb @ vb" using assms(2) by (simp add: block_layout_def)
  moreover have "drop (5 + ?n + length tb) ?data = vb" using assms(2) by (simp add: block_layout_def)
  moreover have "decode_var (encode_var (of_nat (length tb)) @ tb @ vb) = Some (of_nat (length tb), ?n)" using assms(1) by (simp add: varint_codec_def)
  moreover have "\<not> 5 + ?n + length tb > length ?data" using assms(2) by (simp add: block_layout_def)
  ultimately show ?thesis using assms(4) by (simp add: decode_data_def Let_def)
qed



text \<open>Nothing compares the number of values with the number of timestamps.\<close>

lemma decoded_lengths_differ:
  assumes "varint_codec encode_var decode_var"
  shows "\<exists>data. decode_data decode_var decompress data = Some (Ok (BD_Integer 0 [1] [2, 3]))"
proof -
  have fit: "steps_fit [1]" "steps_fit [2, 3]" by (simp_all add: is_i64_def i64_min_def i64_max_def)
  obtain tb where tb: "timestamp_encode encode_var [1] = (Ok (), tb)" "timestamp_decode decode_var tb [] = (Ok (), [1])"
    using timestamp_roundtrip [OF assms fit(1)] by auto
  obtain vb where vb: "integer_decode decode_var vb [] = (Ok (), [2, 3])" using integer_roundtrip [OF assms fit(2)] by auto
  have "length tb = 9" using tb(1) by (auto simp: timestamp_encode_def timestamp_deltas_def max_delta_def Let_def simple8b_encode.simps [of "[]"])
  then show ?thesis using decode_data_layout [OF assms _ _ tb(2), of "[0, 0, 0, 0]" decompress BT_Integer vb] vb
    by (intro exI [of _ "block_layout encode_var [0, 0, 0, 0] BT_Integer tb vb"]) (simp add: decode_values_def with_values_def)
qed

end
