(* ===== verification/Tsm_Mapper.thy ===== *)
theory Tsm_Mapper
  imports Tsm_Reader "HOL-Library.Product_Lexorder"
begin

text \<open>
  From the index of TSM files to tables, \<open>influxdb_tsm/src/mapper.rs\<close>: the iterator that collects the series of a
  measurement, the table it builds, the merge of two tables, and the join of the blocks of all fields
  into rows.  A block decoder is a function of the block, as the implementations in \<open>reader.rs\<close> are: they look
  at the bytes that the block describes and not at earlier calls.
\<close>

section \<open>Measurement tables\<close>

type_synonym FieldKeyBlocks = "(string, Block list) BTreeMap"

type_synonym TagSet = "(string \<times> string) list"

record MeasurementTable =
  mt_name :: string
  tag_set_fields_blocks :: "(TagSet, FieldKeyBlocks) BTreeMap"
  tag_columns :: "string set"
  field_columns :: "(string, BlockType) BTreeMap"
  mt_reader_idx :: nat

definition MeasurementTable_new :: "string \<Rightarrow> nat \<Rightarrow> MeasurementTable" where
  "MeasurementTable_new name reader_idx =
     \<lparr>mt_name = name, tag_set_fields_blocks = [], tag_columns = {}, field_columns = [], mt_reader_idx = reader_idx\<rparr>"

text \<open>\<open>entry(k).or_default()\<close>\<close>

definition or_default :: "'v option \<Rightarrow> 'v \<Rightarrow> 'v" where
  "or_default x d = (case x of Some v \<Rightarrow> v | None \<Rightarrow> d)"

text \<open>A block whose type is not that of the field is dropped with a warning.\<close>

definition add_series_data :: "TagSet \<Rightarrow> string \<Rightarrow> Block \<Rightarrow> MeasurementTable \<Rightarrow> MeasurementTable" where
  "add_series_data tags field block self =
     (if (case bt_get (field_columns self) field of Some fk \<Rightarrow> fk \<noteq> blk_typ block | None \<Rightarrow> False) then self
      else
        (let field_key_blocks = or_default (bt_get (tag_set_fields_blocks self) tags) [];
             blocks = or_default (bt_get field_key_blocks field) []
         in self\<lparr>field_columns := bt_insert field (blk_typ block) (field_columns self),
                 tag_columns := tag_columns self \<union> set (map fst tags),
                 tag_set_fields_blocks :=
                   bt_insert tags (bt_insert field (blocks @ [block\<lparr>blk_reader_idx := mt_reader_idx self\<rparr>]) field_key_blocks)
                     (tag_set_fields_blocks self)\<rparr>))"

section \<open>Merging tables\<close>

text \<open>\<open>BTreeMap::append\<close>: the entries of the other map overwrite.\<close>

definition bt_append :: "('k::linorder, 'v) BTreeMap \<Rightarrow> ('k, 'v) BTreeMap \<Rightarrow> ('k, 'v) BTreeMap" where
  "bt_append m other = foldl (\<lambda>m (k, v). bt_insert k v m) m other"

definition sort_by_min_time :: "Block list \<Rightarrow> Block list" where
  "sort_by_min_time blocks = sort_key (\<lambda>b. sint (blk_min_time b)) blocks"

text \<open>
  The loop over the fields of a tag set; \<open>None\<close> is a failed assertion.  When all blocks of a field come
  after the ones that are there, the code leaves the loop.
\<close>

fun merge_fields :: "FieldKeyBlocks \<Rightarrow> FieldKeyBlocks \<Rightarrow> FieldKeyBlocks option" where
  "merge_fields [] field_key_blocks = Some field_key_blocks"
| "merge_fields ((other_field_key, other_blocks) # others) field_key_blocks =
     (case bt_get field_key_blocks other_field_key of
        Some blocks \<Rightarrow>
          if other_blocks = [] then None
          else if blocks = [] then None
          else if sint (blk_min_time (other_blocks ! 0)) > sint (blk_max_time (blocks ! (length blocks - 1)))
          then Some (bt_insert other_field_key (blocks @ other_blocks) field_key_blocks)
          else merge_fields others (bt_insert other_field_key (sort_by_min_time (blocks @ other_blocks)) field_key_blocks)
      | None \<Rightarrow> merge_fields others (bt_insert other_field_key other_blocks field_key_blocks))"

fun merge_tag_sets ::
    "(TagSet, FieldKeyBlocks) BTreeMap \<Rightarrow> (TagSet, FieldKeyBlocks) BTreeMap \<Rightarrow> (TagSet, FieldKeyBlocks) BTreeMap option" where
  "merge_tag_sets [] m = Some m"
| "merge_tag_sets ((other_tagset, other_field_key_blocks) # others) m =
     (case merge_fields other_field_key_blocks (or_default (bt_get m other_tagset) []) of
        None \<Rightarrow> None
      | Some field_key_blocks \<Rightarrow> merge_tag_sets others (bt_insert other_tagset field_key_blocks m))"

text \<open>Both tables change: the columns move out of the other one.\<close>

definition MeasurementTable_merge :: "MeasurementTable \<Rightarrow> MeasurementTable \<Rightarrow> (TsmError, MeasurementTable \<times> MeasurementTable) res" where
  "MeasurementTable_merge self other =
     (if mt_name self \<noteq> mt_name other then Err (TE_CannotMerge (mt_name self) (mt_name other))
      else
        (case merge_tag_sets (tag_set_fields_blocks other) (tag_set_fields_blocks self) of
           None \<Rightarrow> Panic
         | Some m \<Rightarrow>
             Ok (self\<lparr>tag_columns := tag_columns self \<union> tag_columns other, field_columns := bt_append (field_columns self) (field_columns other),
                      tag_set_fields_blocks := m\<rparr>,
                 other\<lparr>tag_columns := {}, field_columns := []\<rparr>)))"

section \<open>Collecting measurements\<close>

text \<open>\<open>Peekable\<close>: the item that was looked at, if any, comes first.\<close>

record Peekable =
  pk_iter :: TsmIndexReader
  pk_peeked :: "(TsmError, IndexEntry) res option option"

definition Peekable_next :: "Peekable \<Rightarrow> (TsmError, IndexEntry) res option \<times> Peekable" where
  "Peekable_next p =
     (case pk_peeked p of
        Some item \<Rightarrow> (item, p\<lparr>pk_peeked := None\<rparr>)
      | None \<Rightarrow> (case TsmIndexReader_next (pk_iter p) of (item, it) \<Rightarrow> (item, p\<lparr>pk_iter := it\<rparr>)))"

definition Peekable_peek :: "Peekable \<Rightarrow> (TsmError, IndexEntry) res option \<times> Peekable" where
  "Peekable_peek p =
     (case pk_peeked p of
        Some item \<Rightarrow> (item, p)
      | None \<Rightarrow> (case TsmIndexReader_next (pk_iter p) of (item, it) \<Rightarrow> (item, p\<lparr>pk_iter := it, pk_peeked := Some item\<rparr>)))"

text \<open>What the iterator still has to read, and the item that waits.\<close>

definition pk_rank :: "Peekable \<Rightarrow> nat" where
  "pk_rank p = length (remaining (pk_iter p)) + (if pk_peeked p = None then 0 else 1)"

lemma peek_then_next:
  assumes "Peekable_peek p = (Some (Ok entry), p')"
  shows "pk_rank (snd (Peekable_next p')) < pk_rank p"
proof (cases "pk_peeked p")
  case None
  obtain item it where n: "TsmIndexReader_next (pk_iter p) = (item, it)" by fastforce
  have p': "item = Some (Ok entry)" "p' = p\<lparr>pk_iter := it, pk_peeked := Some item\<rparr>" using assms None n by (auto simp: Peekable_peek_def)
  then have "length (remaining it) < length (remaining (pk_iter p))"
    using n by (cases rule: next_outcomes [of "pk_iter p"]) auto
  then show ?thesis using None p' by (simp add: Peekable_next_def pk_rank_def)
next
  case (Some item)
  then have "p' = p" using assms by (simp add: Peekable_peek_def)
  then show ?thesis using Some by (simp add: Peekable_next_def pk_rank_def)
qed

function collect_measurement :: "MeasurementTable \<Rightarrow> Peekable \<Rightarrow> (TsmError, MeasurementTable) res \<times> Peekable" where
  "collect_measurement table p =
     (case Peekable_peek p of
        (None, p) \<Rightarrow> (Ok table, p)
      | (Some (Err e), p) \<Rightarrow> (Err e, p)
      | (Some Panic, p) \<Rightarrow> (Panic, p)
      | (Some (Ok entry), p) \<Rightarrow>
          (case IndexEntry_parse_key entry of
             Err e \<Rightarrow> (Err e, p)
           | Panic \<Rightarrow> (Panic, p)
           | Ok parsed_key \<Rightarrow>
               if mt_name table \<noteq> measurement parsed_key then (Ok table, p)
               else collect_measurement (add_series_data (tagset parsed_key) (field_key parsed_key) (ie_block entry) table) (snd (Peekable_next p))))"
  by pat_completeness auto
termination
  by (relation "measure (\<lambda>(table, p). pk_rank p)") (auto dest: peek_then_next [OF sym])

declare collect_measurement.simps [simp del]

definition TsmMeasurementMapper_next :: "nat \<Rightarrow> Peekable \<Rightarrow> (TsmError, MeasurementTable) res option \<times> Peekable" where
  "TsmMeasurementMapper_next reader_idx p =
     (case Peekable_next p of
        (None, p) \<Rightarrow> (None, p)
      | (Some (Err e), p) \<Rightarrow> (Some (Err e), p)
      | (Some Panic, p) \<Rightarrow> (Some Panic, p)
      | (Some (Ok entry), p) \<Rightarrow>
          (case IndexEntry_parse_key entry of
             Err e \<Rightarrow> (Some (Err e), p)
           | Panic \<Rightarrow> (Some Panic, p)
           | Ok parsed_key \<Rightarrow>
               (case collect_measurement
                       (add_series_data (tagset parsed_key) (field_key parsed_key) (ie_block entry) (MeasurementTable_new (measurement parsed_key) reader_idx)) p of
                  (r, p) \<Rightarrow> (Some r, p))))"

section \<open>Joining the blocks of the fields\<close>

datatype TsmColumnData =
    CD_Float "f64_bits option list"
  | CD_Integer "i64 option list"
  | CD_Bool "bool option list"
  | CD_Str "bytes option list"
  | CD_Unsigned "u64 option list"

text \<open>How many blocks after the first overlap, each with its neighbour.\<close>

fun overlap_run :: "Block list \<Rightarrow> nat" where
  "overlap_run (a # b # blocks) = (if \<not> Block_overlaps a b then 0 else Suc (overlap_run (b # blocks)))"
| "overlap_run _ = 0"

fun decode_all :: "(Block \<Rightarrow> (TsmError, BlockData) res) \<Rightarrow> Block list \<Rightarrow> (TsmError, BlockData list) res" where
  "decode_all decode [] = Ok []"
| "decode_all decode (b # bs) = res_bind (decode b) (\<lambda>d. res_map (Cons d) (decode_all decode bs))"

text \<open>One field of \<open>refill_block_buffer\<close>: the blocks that remain and the block that is ready.\<close>

definition refill_field ::
    "(Block \<Rightarrow> (TsmError, BlockData) res) \<Rightarrow> Block list \<Rightarrow> BlockData option \<Rightarrow> (TsmError, BlockData option) res \<times> Block list" where
  "refill_field decode blocks ready =
     (if blocks = [] then (Ok ready, blocks)
      else if (case ready of Some b \<Rightarrow> \<not> BlockData_is_empty b | None \<Rightarrow> False) then (Ok ready, blocks)
      else
        (let i = overlap_run blocks
         in (case decode_all decode (take (i + 1) blocks) of
               Ok decoded_blocks \<Rightarrow> (case BlockData_merge decoded_blocks of Some b \<Rightarrow> (Ok (Some b), drop (i + 1) blocks) | None \<Rightarrow> (Panic, drop (i + 1) blocks))
             | Err e \<Rightarrow> (Err e, drop (i + 1) blocks)
             | Panic \<Rightarrow> (Panic, drop (i + 1) blocks))))"

fun refill_block_buffer ::
    "(Block \<Rightarrow> (TsmError, BlockData) res) \<Rightarrow> FieldKeyBlocks \<Rightarrow> (string, BlockData) BTreeMap
       \<Rightarrow> (TsmError, (string, BlockData) BTreeMap) res \<times> FieldKeyBlocks" where
  "refill_block_buffer decode [] dst = (Ok dst, [])"
| "refill_block_buffer decode ((field, blocks) # field_blocks) dst =
     (case refill_field decode blocks (bt_get dst field) of
        (Ok ready, blocks) \<Rightarrow>
          (case refill_block_buffer decode field_blocks (case ready of Some b \<Rightarrow> bt_insert field b dst | None \<Rightarrow> dst) of
             (r, field_blocks) \<Rightarrow> (r, (field, blocks) # field_blocks))
      | (Err e, blocks) \<Rightarrow> (Err e, (field, blocks) # field_blocks)
      | (Panic, blocks) \<Rightarrow> (Panic, (field, blocks) # field_blocks))"

text \<open>\<open>None\<close> is a panic.\<close>

fun refill_value_pair_buffer ::
    "(string, BlockData) BTreeMap \<Rightarrow> ValuePair option list \<Rightarrow> ((string, BlockData) BTreeMap \<times> ValuePair option list) option" where
  "refill_value_pair_buffer ((k, block) # blocks) (d # dst) =
     (case refill_one block d of
        None \<Rightarrow> None
      | Some (d, block) \<Rightarrow> map_option (\<lambda>(bs, ds). ((k, block) # bs, d # ds)) (refill_value_pair_buffer blocks dst))"
| "refill_value_pair_buffer blocks dst = Some (blocks, dst)"

fun min_timestamp :: "ValuePair option list \<Rightarrow> i64 option" where
  "min_timestamp [] = None"
| "min_timestamp (None # ps) = min_timestamp ps"
| "min_timestamp (Some p # ps) =
     (case min_timestamp ps of
        None \<Rightarrow> Some (ValuePair_timestamp p)
      | Some m \<Rightarrow> Some (if sint (ValuePair_timestamp p) \<le> sint m then ValuePair_timestamp p else m))"

text \<open>The value of a candidate for a column: when the types differ nothing happens and the candidate stays.\<close>

definition put_if :: "i64 \<Rightarrow> i64 \<Rightarrow> 'v \<Rightarrow> ('v option list \<Rightarrow> TsmColumnData) \<Rightarrow> 'v option list \<Rightarrow> ValuePair option \<Rightarrow> TsmColumnData \<times> ValuePair option" where
  "put_if min_ts ts v con vs pair = (if ts = min_ts then (con (vs @ [Some v]), None) else (con (vs @ [None]), pair))"

fun push_null :: "TsmColumnData \<Rightarrow> TsmColumnData" where
  "push_null (CD_Float vs) = CD_Float (vs @ [None])"
| "push_null (CD_Integer vs) = CD_Integer (vs @ [None])"
| "push_null (CD_Bool vs) = CD_Bool (vs @ [None])"
| "push_null (CD_Str vs) = CD_Str (vs @ [None])"
| "push_null (CD_Unsigned vs) = CD_Unsigned (vs @ [None])"

fun put_column :: "i64 \<Rightarrow> ValuePair option \<Rightarrow> TsmColumnData \<Rightarrow> TsmColumnData \<times> ValuePair option" where
  "put_column m (Some (VP_F64 t v)) (CD_Float vs) = put_if m t v CD_Float vs (Some (VP_F64 t v))"
| "put_column m (Some (VP_I64 t v)) (CD_Integer vs) = put_if m t v CD_Integer vs (Some (VP_I64 t v))"
| "put_column m (Some (VP_Bool t v)) (CD_Bool vs) = put_if m t v CD_Bool vs (Some (VP_Bool t v))"
| "put_column m (Some (VP_Str t v)) (CD_Str vs) = put_if m t v CD_Str vs (Some (VP_Str t v))"
| "put_column m (Some (VP_U64 t v)) (CD_Unsigned vs) = put_if m t v CD_Unsigned vs (Some (VP_U64 t v))"
| "put_column m (Some p) c = (c, Some p)"
| "put_column m None c = (push_null c, None)"

text \<open>\<open>None\<close> is an index past the end of the candidates.\<close>

fun put_columns ::
    "i64 \<Rightarrow> ValuePair option list \<Rightarrow> (string, TsmColumnData) BTreeMap \<Rightarrow> (ValuePair option list \<times> (string, TsmColumnData) BTreeMap) option" where
  "put_columns m blocks [] = Some (blocks, [])"
| "put_columns m [] (c # dst) = None"
| "put_columns m (p # blocks) ((k, column) # dst) =
     (case put_column m p column of
        (column, p) \<Rightarrow> map_option (\<lambda>(ps, cs). (p # ps, (k, column) # cs)) (put_columns m blocks dst))"

fun new_column :: "BlockData \<Rightarrow> TsmColumnData" where
  "new_column (BD_Float _ _ _) = CD_Float []"
| "new_column (BD_Integer _ _ _) = CD_Integer []"
| "new_column (BD_Bool _ _ _) = CD_Bool []"
| "new_column (BD_Str _ _ _) = CD_Str []"
| "new_column (BD_Unsigned _ _ _) = CD_Unsigned []"

text \<open>The loop that makes a row in every round; \<open>None\<close> is a loop that does not end.\<close>

type_synonym joined = "(TsmError, i64 list \<times> (string, TsmColumnData) BTreeMap) res \<times> FieldKeyBlocks"

partial_function (option) join_rows ::
    "(Block \<Rightarrow> (TsmError, BlockData) res) \<Rightarrow> FieldKeyBlocks \<Rightarrow> (string, BlockData) BTreeMap \<Rightarrow> ValuePair option list
       \<Rightarrow> (string, TsmColumnData) BTreeMap \<Rightarrow> i64 list \<Rightarrow> joined option" where
  [code]: "join_rows decode field_blocks inputs pairs result timestamps =
     (case min_timestamp pairs of
        None \<Rightarrow> Some (Ok (timestamps, result), field_blocks)
      | Some min_ts \<Rightarrow>
          (case put_columns min_ts pairs result of
             None \<Rightarrow> Some (Panic, field_blocks)
           | Some (pairs, result) \<Rightarrow>
               (case refill_block_buffer decode field_blocks inputs of
                  (Err e, field_blocks) \<Rightarrow> Some (Err e, field_blocks)
                | (Panic, field_blocks) \<Rightarrow> Some (Panic, field_blocks)
                | (Ok inputs, field_blocks) \<Rightarrow>
                    (case refill_value_pair_buffer inputs pairs of
                       None \<Rightarrow> Some (Panic, field_blocks)
                     | Some (inputs, pairs) \<Rightarrow> join_rows decode field_blocks inputs pairs result (timestamps @ [min_ts])))))"

definition map_field_columns :: "(Block \<Rightarrow> (TsmError, BlockData) res) \<Rightarrow> FieldKeyBlocks \<Rightarrow> joined option" where
  "map_field_columns decode field_blocks =
     (case refill_block_buffer decode field_blocks [] of
        (Err e, field_blocks) \<Rightarrow> Some (Err e, field_blocks)
      | (Panic, field_blocks) \<Rightarrow> Some (Panic, field_blocks)
      | (Ok inputs, field_blocks) \<Rightarrow>
          (case refill_value_pair_buffer inputs (replicate (length inputs) None) of
             None \<Rightarrow> Some (Panic, field_blocks)
           | Some (inputs, pairs) \<Rightarrow>
               join_rows decode field_blocks inputs pairs (map (\<lambda>(k, b). (k, new_column b)) inputs) []))"

section \<open>Sections of a table\<close>

record TableSection =
  sec_i :: nat
  sec_ts :: "i64 list"
  sec_tag_cols :: TagSet
  sec_field_cols :: "(string, TsmColumnData) BTreeMap"

definition TableSection_len :: "TableSection \<Rightarrow> nat" where
  "TableSection_len s = length (sec_ts s)"

definition TableSection_is_empty :: "TableSection \<Rightarrow> bool" where
  "TableSection_is_empty s \<longleftrightarrow> TableSection_len s = 0"

definition TableSection_is_first :: "TableSection \<Rightarrow> bool" where
  "TableSection_is_first s \<longleftrightarrow> sec_i s = 0"

text \<open>The closure that takes the sections has a state of its own.\<close>

fun process_from ::
    "(Block \<Rightarrow> (TsmError, BlockData) res) \<Rightarrow> (TableSection \<Rightarrow> (TsmError, 's, unit) call) \<Rightarrow> nat \<Rightarrow> (TagSet, FieldKeyBlocks) BTreeMap \<Rightarrow> 's
       \<Rightarrow> ((TsmError, unit) res \<times> (TagSet, FieldKeyBlocks) BTreeMap \<times> 's) option" where
  "process_from decode apply_fn i [] st = Some (Ok (), [], st)"
| "process_from decode apply_fn i ((tag_set_pair, blocks) # sets) st =
     (case map_field_columns decode blocks of
        None \<Rightarrow> None
      | Some (Err e, blocks) \<Rightarrow> Some (Err e, (tag_set_pair, blocks) # sets, st)
      | Some (Panic, blocks) \<Rightarrow> Some (Panic, (tag_set_pair, blocks) # sets, st)
      | Some (Ok (ts, field_cols), blocks) \<Rightarrow>
          (case apply_fn \<lparr>sec_i = i, sec_ts = ts, sec_tag_cols = tag_set_pair, sec_field_cols = field_cols\<rparr> st of
             (Err e, st) \<Rightarrow> Some (Err e, (tag_set_pair, blocks) # sets, st)
           | (Panic, st) \<Rightarrow> Some (Panic, (tag_set_pair, blocks) # sets, st)
           | (Ok _, st) \<Rightarrow>
               map_option (\<lambda>(r, sets, st). (r, (tag_set_pair, blocks) # sets, st)) (process_from decode apply_fn (i + 1) sets st)))"

definition MeasurementTable_process ::
    "(Block \<Rightarrow> (TsmError, BlockData) res) \<Rightarrow> (TableSection \<Rightarrow> (TsmError, 's, unit) call) \<Rightarrow> MeasurementTable \<Rightarrow> 's
       \<Rightarrow> ((TsmError, unit) res \<times> MeasurementTable \<times> 's) option" where
  "MeasurementTable_process decode apply_fn self st =
     map_option (\<lambda>(r, sets, st). (r, self\<lparr>tag_set_fields_blocks := sets\<rparr>, st)) (process_from decode apply_fn 0 (tag_set_fields_blocks self) st)"

section \<open>Where the mapper goes wrong\<close>

definition block_at :: "int \<Rightarrow> int \<Rightarrow> BlockType \<Rightarrow> Block" where
  "block_at lo hi t = \<lparr>blk_min_time = of_int lo, blk_max_time = of_int hi, blk_offset = 0, blk_size = 0, blk_typ = t, blk_reader_idx = 0\<rparr>"

section \<open>What a merge does\<close>

text \<open>The blocks of a field under a tag set, and the tables that the mapper builds: no field is without blocks.\<close>

definition table_blocks :: "MeasurementTable \<Rightarrow> TagSet \<Rightarrow> string \<Rightarrow> Block list option" where
  "table_blocks t k f = Option.bind (bt_get (tag_set_fields_blocks t) k) (\<lambda>m. bt_get m f)"

definition blocks_wf :: "FieldKeyBlocks \<Rightarrow> bool" where
  "blocks_wf m \<longleftrightarrow> bt_wf m \<and> (\<forall>f. bt_get m f \<noteq> Some [])"

definition table_wf :: "MeasurementTable \<Rightarrow> bool" where
  "table_wf t \<longleftrightarrow> bt_wf (tag_set_fields_blocks t) \<and> (\<forall>k m. bt_get (tag_set_fields_blocks t) k = Some m \<longrightarrow> blocks_wf m)"

definition all_later :: "Block list \<Rightarrow> Block list \<Rightarrow> bool" where
  "all_later bs ob \<longleftrightarrow> sint (blk_max_time (last bs)) < sint (blk_min_time (hd ob))"

fun merged_blocks :: "Block list option \<Rightarrow> Block list option \<Rightarrow> Block list option" where
  "merged_blocks None ob = ob"
| "merged_blocks bs None = bs"
| "merged_blocks (Some bs) (Some ob) = Some (if all_later bs ob then bs @ ob else sort_by_min_time (bs @ ob))"

lemma table_wf_new: "table_wf (MeasurementTable_new name i)"
  by (simp add: table_wf_def MeasurementTable_new_def)

lemma blocks_wf_or_default: "table_wf t \<Longrightarrow> blocks_wf (or_default (bt_get (tag_set_fields_blocks t) k) [])"
  by (auto simp: table_wf_def or_default_def blocks_wf_def split: option.splits)

lemma table_wf_add_series_data: "table_wf t \<Longrightarrow> table_wf (add_series_data tags field block t)"
  using blocks_wf_or_default [of t tags]
  by (auto simp: add_series_data_def Let_def table_wf_def blocks_wf_def)

lemma merge_fields_step:
  "merge_fields ((f, ob) # others) m =
    (case bt_get m f of
       Some bs \<Rightarrow> if ob = [] \<or> bs = [] then None
         else if all_later bs ob then Some (bt_insert f (bs @ ob) m)
         else merge_fields others (bt_insert f (sort_by_min_time (bs @ ob)) m)
     | None \<Rightarrow> merge_fields others (bt_insert f ob m))"
  by (simp add: all_later_def hd_conv_nth last_conv_nth split: option.splits)

lemma bt_wf_Cons: "bt_wf ((f, ob) # others) \<longleftrightarrow> bt_wf others \<and> (\<forall>g ob'. bt_get others g = Some ob' \<longrightarrow> f < g)"
proof -
  have "set (map fst others) = {g. \<exists>ob'. bt_get others g = Some ob'}"
    using dom_map_of_conv_image_fst [of others] by (simp add: bt_get_def dom_def)
  then show ?thesis unfolding bt_wf_def list.map sorted_wrt.simps fst_conv by blast
qed

lemma bt_get_Cons: "bt_get ((f, ob) # others) g = (if g = f then Some ob else bt_get others g)"
  by (simp add: bt_get_def)

text \<open>The loop over the fields is left after a field whose blocks are all later than those that are there.\<close>

fun merge_ends :: "Block list option \<Rightarrow> Block list option \<Rightarrow> bool" where
  "merge_ends (Some bs) (Some ob) = all_later bs ob"
| "merge_ends _ _ = False"

lemma merge_ends_None [simp]: "\<not> merge_ends x None"
  by (cases x) simp_all

lemma merged_blocks_None [simp]: "merged_blocks x None = x"
  by (cases x) simp_all

lemma sort_by_min_time_Nil: "sort_by_min_time bs = [] \<longleftrightarrow> bs = []"
  unfolding sort_by_min_time_def using length_sort by (metis length_0_conv)

lemma merge_fields_exact:
  assumes "blocks_wf others" and "blocks_wf m"
  shows "\<exists>m'. merge_fields others m = Some m' \<and> blocks_wf m'
    \<and> (\<forall>f. bt_get m' f = (if \<exists>g<f. merge_ends (bt_get m g) (bt_get others g) then bt_get m f else merged_blocks (bt_get m f) (bt_get others f)))"
  using assms
proof (induction others arbitrary: m)
  case Nil
  then show ?case by simp
next
  case (Cons p others)
  obtain f ob where p: "p = (f, ob)" by (cases p)
  have wf: "bt_wf others" and gt: "\<And>g. bt_get others g \<noteq> None \<Longrightarrow> f < g"
    using Cons.prems(1) by (auto simp: p blocks_wf_def bt_wf_Cons)
  have none: "bt_get others g = None" if "g \<le> f" for g using gt that by (metis leD)
  have other_side: "bt_get (p # others) = (bt_get others)(f \<mapsto> ob)" by (auto simp: p bt_get_Cons)
  have ne: "bt_get (p # others) g \<noteq> Some []" for g using Cons.prems(1) by (simp add: blocks_wf_def)
  have ob: "ob \<noteq> []" using ne [of f] by (simp add: other_side)
  have "bt_get others g \<noteq> Some []" for g using ne [of g] none [of f] by (cases "g = f") (simp_all add: other_side)
  with wf have others: "blocks_wf others" by (simp add: blocks_wf_def)
  have before: "\<not> (\<exists>g<h. merge_ends (bt_get m g) (bt_get (p # others) g))" if "h \<le> f" for h
    using that none by (auto simp: other_side)
  show ?case
  proof (cases "merge_ends (bt_get m f) (Some ob)")
    case True
    then obtain bs where bs: "bt_get m f = Some bs" "all_later bs ob" by (cases "bt_get m f") auto
    then have "bs \<noteq> []" using Cons.prems(2) by (auto simp: blocks_wf_def)
    then have m: "merge_fields (p # others) m = Some (bt_insert f (bs @ ob) m)" unfolding p merge_fields_step using bs ob by simp
    have "bt_get (bt_insert f (bs @ ob) m) h = (if \<exists>g<h. merge_ends (bt_get m g) (bt_get (p # others) g) then bt_get m h
      else merged_blocks (bt_get m h) (bt_get (p # others) h))" for h
    proof (cases "h \<le> f")
      case le: True
      then show ?thesis unfolding if_not_P [OF before [OF le]] using bs none [OF le] by (simp add: other_side)
    next
      case gt: False
      have "\<exists>g<h. merge_ends (bt_get m g) (bt_get (p # others) g)" using True gt by (intro exI [of _ f]) (simp add: other_side)
      then show ?thesis unfolding if_P [OF \<open>\<exists>g<h. merge_ends (bt_get m g) (bt_get (p # others) g)\<close>] using gt by auto
    qed
    moreover have "blocks_wf (bt_insert f (bs @ ob) m)" using Cons.prems(2) ob by (auto simp: blocks_wf_def)
    ultimately show ?thesis using m by blast
  next
    case False
    define new where "new = (case bt_get m f of Some bs \<Rightarrow> sort_by_min_time (bs @ ob) | None \<Rightarrow> ob)"
    have m: "merge_fields (p # others) m = merge_fields others (bt_insert f new m)"
      unfolding p merge_fields_step new_def using False ob Cons.prems(2) by (auto simp: blocks_wf_def split: option.splits)
    have new: "new \<noteq> []" "merged_blocks (bt_get m f) (Some ob) = Some new"
      using ob False by (auto simp: new_def sort_by_min_time_Nil split: option.splits)
    then have "blocks_wf (bt_insert f new m)" using Cons.prems(2) by (auto simp: blocks_wf_def)
    from Cons.IH [OF others this] obtain m' where m': "merge_fields others (bt_insert f new m) = Some m'" "blocks_wf m'"
      "\<And>h. bt_get m' h = (if \<exists>g<h. merge_ends (bt_get (bt_insert f new m) g) (bt_get others g) then bt_get (bt_insert f new m) h
         else merged_blocks (bt_get (bt_insert f new m) h) (bt_get others h))" by blast
    have same: "merge_ends (bt_get (bt_insert f new m) g) (bt_get others g) \<longleftrightarrow> merge_ends (bt_get m g) (bt_get (p # others) g)" for g
      using False none [of f] by (auto simp: other_side)
    have "bt_get m' h = (if \<exists>g<h. merge_ends (bt_get m g) (bt_get (p # others) g) then bt_get m h
      else merged_blocks (bt_get m h) (bt_get (p # others) h))" for h
    proof (cases "h = f")
      case True
      then show ?thesis unfolding m'(3) same if_not_P [OF before [OF eq_refl [OF True]]] using new(2) none [of f] by (simp add: other_side)
    next
      case neq: False
      then show ?thesis unfolding m'(3) same by (simp only: bt_get_insert_apply other_side fun_upd_apply if_False)
    qed
    then show ?thesis using m m'(1,2) by metis
  qed
qed

lemma merge_tag_sets_exact:
  assumes "bt_wf others" and "\<And>k fs. bt_get others k = Some fs \<Longrightarrow> blocks_wf fs" and "\<And>k fs. bt_get m k = Some fs \<Longrightarrow> blocks_wf fs"
  shows "\<exists>m'. merge_tag_sets others m = Some m'
    \<and> (\<forall>k. case bt_get others k of None \<Rightarrow> bt_get m' k = bt_get m k
         | Some ofs \<Rightarrow> bt_get m' k = merge_fields ofs (or_default (bt_get m k) []))"
  using assms
proof (induction others arbitrary: m)
  case (Cons p others)
  obtain k ofs where p: "p = (k, ofs)" by (cases p)
  have wf: "bt_wf others" "blocks_wf ofs" and gt: "\<And>k'. bt_get others k' \<noteq> None \<Longrightarrow> k < k'"
    using Cons.prems(1) Cons.prems(2) [of k ofs] by (auto simp: p bt_wf_Cons bt_get_Cons)
  have none: "bt_get others k = None" using gt by blast
  have others: "blocks_wf fs" if "bt_get others k' = Some fs" for k' fs
    using Cons.prems(2) [of k' fs] none that by (cases "k' = k") (simp_all add: p bt_get_Cons)
  have "blocks_wf (or_default (bt_get m k) [])"
    using Cons.prems(3) [of k] by (cases "bt_get m k") (simp_all add: or_default_def blocks_wf_def)
  from merge_fields_exact [OF wf(2) this] obtain fs where fs: "merge_fields ofs (or_default (bt_get m k) []) = Some fs" "blocks_wf fs" by blast
  have "blocks_wf fs'" if "bt_get (bt_insert k fs m) k' = Some fs'" for k' fs'
    using that Cons.prems(3) fs(2) by (cases "k' = k") simp_all
  from Cons.IH [OF wf(1) others this] obtain m' where m': "merge_tag_sets others (bt_insert k fs m) = Some m'
    \<and> (\<forall>k'. case bt_get others k' of None \<Rightarrow> bt_get m' k' = bt_get (bt_insert k fs m) k'
       | Some ofs \<Rightarrow> bt_get m' k' = merge_fields ofs (or_default (bt_get (bt_insert k fs m) k') []))" by (rule exE)
  have "case bt_get (p # others) k' of None \<Rightarrow> bt_get m' k' = bt_get m k'
      | Some ofs \<Rightarrow> bt_get m' k' = merge_fields ofs (or_default (bt_get m k') [])" for k'
    using conjunct2 [OF m', rule_format, of k'] none fs(1) by (cases "k' = k") (simp_all add: p bt_get_Cons split: option.splits)
  then show ?case using m' fs(1) by (simp add: p)
qed simp

text \<open>
  C37. What a merge of two tables of a measurement does, exactly, when no field of the tables is without blocks, as in all
  tables that the mapper builds.  It succeeds, and the blocks of a field under a tag set
  are those of the first table followed by those of the second, in the order of their first times when the second
  are not all later.  This is so up to the first field of a tag set whose blocks in the second table are all later
  than those in the first; there the loop is left, and every field after it keeps the blocks of the first table only: the
  blocks of the second are lost.
\<close>

theorem merge_exact:
  assumes "mt_name self = mt_name other" and "table_wf self" and "table_wf other"
  shows "\<exists>r other'. MeasurementTable_merge self other = Ok (r, other')
    \<and> (\<forall>k f. table_blocks r k f =
         (if \<exists>g<f. merge_ends (table_blocks self k g) (table_blocks other k g) then table_blocks self k f
          else merged_blocks (table_blocks self k f) (table_blocks other k f)))"
proof -
  let ?o = "tag_set_fields_blocks other" and ?s = "tag_set_fields_blocks self"
  obtain m where m: "merge_tag_sets ?o ?s = Some m"
    "\<And>k. case bt_get ?o k of None \<Rightarrow> bt_get m k = bt_get ?s k | Some ofs \<Rightarrow> bt_get m k = merge_fields ofs (or_default (bt_get ?s k) [])"
    using merge_tag_sets_exact [of ?o ?s] assms(2,3) unfolding table_wf_def by blast
  have "Option.bind (bt_get m k) (\<lambda>m. bt_get m f) =
      (if \<exists>g<f. merge_ends (table_blocks self k g) (table_blocks other k g) then table_blocks self k f
       else merged_blocks (table_blocks self k f) (table_blocks other k f))" for k f
  proof (cases "bt_get ?o k")
    case None
    then show ?thesis using m(2) [of k] by (simp add: table_blocks_def)
  next
    case (Some ofs)
    have self: "bt_get (or_default (bt_get ?s k) []) g = table_blocks self k g" for g
      by (cases "bt_get ?s k") (simp_all add: table_blocks_def or_default_def)
    have "blocks_wf ofs" using Some assms(3) by (auto simp: table_wf_def)
    from merge_fields_exact [OF this blocks_wf_or_default [OF assms(2), of k], unfolded self]
    show ?thesis using m(2) [of k] Some by (auto simp: table_blocks_def)
  qed
  then show ?thesis using m(1) assms(1) by (simp add: MeasurementTable_merge_def table_blocks_def)
qed

definition later_table :: "int \<Rightarrow> MeasurementTable" where
  "later_table i = add_series_data [] ''b'' (block_at i (i + 9) BT_Float) (add_series_data [] ''a'' (block_at i (i + 9) BT_Float) (MeasurementTable_new ''m'' 0))"

theorem merge_exact_witness:
  "\<exists>r other'. MeasurementTable_merge (later_table 0) (later_table 10) = Ok (r, other')
    \<and> table_blocks r [] ''a'' = Some [block_at 0 9 BT_Float, block_at 10 19 BT_Float] \<and> table_blocks r [] ''b'' = Some [block_at 0 9 BT_Float]"
proof -
  have wf: "table_wf (later_table i)" for i by (simp add: later_table_def table_wf_new table_wf_add_series_data)
  have all_10: "tag_set_fields_blocks (later_table 10) = [([], [(''a'', [block_at 10 19 BT_Float]), (''b'', [block_at 10 19 BT_Float])])]" by code_simp
  have blocks_10: "table_blocks (later_table 10) [] = [''a'' \<mapsto> [block_at 10 19 BT_Float], ''b'' \<mapsto> [block_at 10 19 BT_Float]]"
    by (auto simp: table_blocks_def bt_get_def all_10 fun_eq_iff)
  have name: "mt_name (later_table 0) = mt_name (later_table 10)" by code_simp
  have bl: "table_blocks (later_table 0) [] ''a'' = Some [block_at 0 9 BT_Float]" "table_blocks (later_table 10) [] ''a'' = Some [block_at 10 19 BT_Float]"
    "table_blocks (later_table 0) [] ''b'' = Some [block_at 0 9 BT_Float]" by code_simp+
  have later: "all_later [block_at 0 9 BT_Float] [block_at 10 19 BT_Float]" by code_simp
  have before: "\<not> (\<exists>g<''a''. merge_ends (table_blocks (later_table 0) [] g) (table_blocks (later_table 10) [] g))"
    unfolding blocks_10 using not_less_iff_gr_or_eq by auto
  from merge_exact [OF name wf wf] obtain r other' where r: "MeasurementTable_merge (later_table 0) (later_table 10) = Ok (r, other')"
    "\<And>k f. table_blocks r k f =
         (if \<exists>g<f. merge_ends (table_blocks (later_table 0) k g) (table_blocks (later_table 10) k g) then table_blocks (later_table 0) k f
          else merged_blocks (table_blocks (later_table 0) k f) (table_blocks (later_table 10) k f))" by blast
  have "''a'' < ''b''" by code_simp
  then have "\<exists>g<''b''. merge_ends (table_blocks (later_table 0) [] g) (table_blocks (later_table 10) [] g)" using bl later by (intro exI [of _ "''a''"]) simp
  from r(2) [of "[]" "''b''", unfolded if_P [OF this]] r(2) [of "[]" "''a''", unfolded if_not_P [OF before]] show ?thesis using r(1) bl later by simp
qed

text \<open>
  Bug.  Overlaps are looked for between neighbours only: a long block that overlaps the next two, which do not overlap each other, is not merged
  with the second of them, and the rows come out of order.
\<close>

lemma join_misses_overlap:
  "map_option (\<lambda>(r, _). res_map fst r)
     (map_field_columns
       (MockBlockDecoder_decode [0 \<mapsto> BD_Integer 0 [0, 100] [1, 2], 10 \<mapsto> BD_Integer 0 [10, 20] [3, 4], 50 \<mapsto> BD_Integer 0 [50, 60] [5, 6]])
       [(''a'', [block_at 0 100 BT_Integer, block_at 10 20 BT_Integer, block_at 50 60 BT_Integer])]) =
   Some (Ok [0, 10, 20, 100, 50, 60])"
  by code_simp

text \<open>A round that changes nothing is repeated for ever.\<close>

lemma join_rows_stuck:
  assumes "min_timestamp pairs = Some m" and "put_columns m pairs result = Some (pairs, result)"
    and "refill_block_buffer decode fb inputs = (Ok inputs, fb)" and "refill_value_pair_buffer inputs pairs = Some (inputs, pairs)"
  shows "join_rows decode fb inputs pairs result ts = None"
proof -
  have "\<not> (d = decode \<and> f = fb \<and> i = inputs \<and> ps = pairs \<and> c = result)" if "join_rows d f i ps c ts = Some r" for d f i ps c ts r
    by (rule join_rows.raw_induct [where P = "\<lambda>d f i ps c ts r. \<not> (d = decode \<and> f = fb \<and> i = inputs \<and> ps = pairs \<and> c = result)", OF _ that])
      (clarsimp simp: assms, metis)
  then show ?thesis by (metis option.exhaust)
qed

text \<open>A candidate whose type is not that of its column is never taken, so the loop cannot end well.\<close>

fun fits_column :: "ValuePair \<Rightarrow> TsmColumnData \<Rightarrow> bool" where
  "fits_column (VP_F64 _ _) (CD_Float _) = True"
| "fits_column (VP_I64 _ _) (CD_Integer _) = True"
| "fits_column (VP_Bool _ _) (CD_Bool _) = True"
| "fits_column (VP_Str _ _) (CD_Str _) = True"
| "fits_column (VP_U64 _ _) (CD_Unsigned _) = True"
| "fits_column _ _ = False"

lemma put_column_misfit: "\<not> fits_column p c \<Longrightarrow> put_column m (Some p) c = (c, Some p)"
  by (cases p; cases c) simp_all

lemma put_columns_length:
  "put_columns m pairs result = Some (pairs', result') \<Longrightarrow> length result' = length result \<and> length pairs' = length pairs"
  by (induction m pairs result arbitrary: pairs' result' rule: put_columns.induct) (auto split: prod.splits)

lemma put_columns_misfit:
  assumes "put_columns m pairs result = Some (pairs', result')" and "i < length result" and "pairs ! i = Some p" and "\<not> fits_column p (snd (result ! i))"
  shows "length result' = length result \<and> result' ! i = result ! i \<and> length pairs' = length pairs \<and> pairs' ! i = Some p"
  using assms
proof (induction m pairs result arbitrary: pairs' result' i rule: put_columns.induct)
  case (3 m q pairs k c result)
  then show ?case by (cases i) (auto simp: put_column_misfit dest: put_columns_length split: prod.splits)
qed simp_all

lemma refill_value_pair_buffer_length: "refill_value_pair_buffer inputs pairs = Some (inputs', pairs') \<Longrightarrow> length pairs' = length pairs"
  by (induction inputs pairs arbitrary: inputs' pairs' rule: refill_value_pair_buffer.induct) (auto split: option.splits)

lemma refill_value_pair_buffer_keeps:
  assumes "refill_value_pair_buffer inputs pairs = Some (inputs', pairs')" and "i < length pairs" and "pairs ! i = Some p"
  shows "length pairs' = length pairs \<and> pairs' ! i = Some p"
  using assms
proof (induction inputs pairs arbitrary: inputs' pairs' i rule: refill_value_pair_buffer.induct)
  case (1 k block blocks d dst)
  then show ?case by (cases i) (auto simp: refill_one_def dest: refill_value_pair_buffer_length split: option.splits)
qed simp_all

lemma min_timestamp_candidate: "Some p \<in> set ps \<Longrightarrow> min_timestamp ps \<noteq> None"
  by (induction ps rule: min_timestamp.induct) (auto split: option.splits)

text \<open>
  C38. The types of the values decide whether a join can succeed.  Whatever the blocks, the decoder and the rows so far: once the next value of a
  field has another type than the column of the field, the join of the fields never returns rows.  It runs for ever, or fails
  on some block.  Nothing in the merge of tables or in the join keeps blocks of different types out of a field.
\<close>

theorem mixed_types_never_join:
  assumes "i < length pairs" and "i < length result" and "pairs ! i = Some p" and "\<not> fits_column p (snd (result ! i))"
  shows "join_rows decode field_blocks inputs pairs result timestamps \<noteq> Some (Ok rows, rest)"
proof
  let ?stuck = "\<lambda>pairs result. i < length pairs \<and> i < length result \<and> pairs ! i = Some p \<and> \<not> fits_column p (snd (result ! i))"
  assume "join_rows decode field_blocks inputs pairs result timestamps = Some (Ok rows, rest)"
  then have "?stuck pairs result \<longrightarrow> fst (Ok rows :: (TsmError, _) res, rest) \<noteq> Ok rows"
  proof (rule join_rows.raw_induct [where P = "\<lambda>d fb ins ps cs ts r. ?stuck ps cs \<longrightarrow> fst r \<noteq> Ok rows", rotated])
    fix join d fb ins ps cs ts r
    assume IH: "\<And>d fb ins ps cs ts r. join d fb ins ps cs ts = Some r \<Longrightarrow> ?stuck ps cs \<longrightarrow> fst r \<noteq> Ok rows"
      and r: "(case min_timestamp ps of None \<Rightarrow> Some (Ok (ts, cs), fb)
        | Some min_ts \<Rightarrow> (case put_columns min_ts ps cs of None \<Rightarrow> Some (Panic, fb)
          | Some (ps, cs) \<Rightarrow> (case refill_block_buffer d fb ins of (Ok ins, fb) \<Rightarrow>
                (case refill_value_pair_buffer ins ps of None \<Rightarrow> Some (Panic, fb) | Some (ins, ps) \<Rightarrow> join d fb ins ps cs (ts @ [min_ts]))
            | (Err e, fb) \<Rightarrow> Some (Err e, fb) | (Panic, fb) \<Rightarrow> Some (Panic, fb)))) = Some r"
    show "?stuck ps cs \<longrightarrow> fst r \<noteq> Ok rows"
    proof
      assume stuck: "?stuck ps cs"
      then obtain m where m: "min_timestamp ps = Some m" using min_timestamp_candidate [of p ps] by (metis nth_mem option.exhaust)
      show "fst r \<noteq> Ok rows"
      proof (cases "put_columns m ps cs")
        case (Some st)
        obtain ps1 cs1 where st: "st = (ps1, cs1)" by (cases st)
        have s1: "?stuck ps1 cs1" using put_columns_misfit [of m ps cs ps1 cs1 i p] Some st stuck by simp
        show ?thesis
        proof (cases "refill_block_buffer d fb ins")
          case (Pair q fb1)
          show ?thesis
          proof (cases q)
            case (Ok ins1)
            show ?thesis
            proof (cases "refill_value_pair_buffer ins1 ps1")
              case (Some st2)
              obtain ins2 ps2 where st2: "st2 = (ins2, ps2)" by (cases st2)
              have "?stuck ps2 cs1" using refill_value_pair_buffer_keeps [of ins1 ps1 ins2 ps2 i p] Some st2 s1 by simp
              moreover have "join d fb1 ins2 ps2 cs1 (ts @ [m]) = Some r"
                using r m \<open>put_columns m ps cs = Some st\<close> st Pair Ok Some st2 by simp
              ultimately show ?thesis using IH by blast
            qed (use r m Some st Pair Ok in auto)
          qed (use r m Some st Pair in auto)
        qed
      qed (use r m in auto)
    qed
  qed
  then show False using assms by simp
qed

text \<open>A field that is a float in one file and an integer in the next.\<close>

theorem mixed_types_never_join_witness:
  "\<forall>rows rest. join_rows (\<lambda>_. Panic) [(''f'', [])] [(''f'', BD_Integer 1 [2] [7])] [Some (VP_I64 2 7)] [(''f'', CD_Float [None])] [1] \<noteq> Some (Ok rows, rest)"
  using mixed_types_never_join [of 0 "[Some (VP_I64 2 7)]" "[(''f'', CD_Float [None])]" "VP_I64 2 7"] by simp

text \<open>
  Bug.  The merge of two tables does not compare the types of their fields.  A field that is a float in one table and an integer in
  the other makes the join of the merged table run for ever: the integers are never moved to the column of floats.
\<close>

lemma merged_types_never_end:
  "\<exists>r s. MeasurementTable_merge
       (add_series_data [] ''f'' (block_at 1 1 BT_Float) (MeasurementTable_new ''m'' 0))
       (add_series_data [] ''f'' (block_at 2 2 BT_Integer) (MeasurementTable_new ''m'' 0)) = Ok (r, s)
     \<and> MeasurementTable_process (MockBlockDecoder_decode [1 \<mapsto> BD_Float 0 [1] [v], 2 \<mapsto> BD_Integer 0 [2] [w]]) apply_fn r st = None"
proof -
  let ?d = "MockBlockDecoder_decode [1 \<mapsto> BD_Float 0 [1] [v], 2 \<mapsto> BD_Integer 0 [2] [w]]"
  let ?fb = "[(''f'', [block_at 1 1 BT_Float, block_at 2 2 BT_Integer])]"
  have "join_rows ?d [(''f'', [block_at 2 2 BT_Integer])] [(''f'', BD_Float 1 [1] [v])] [Some (VP_F64 1 v)] [(''f'', CD_Float [])] []
      = join_rows ?d [(''f'', [])] [(''f'', BD_Integer 1 [2] [w])] [Some (VP_I64 2 w)] [(''f'', CD_Float [Some v])] [1]"
    by (subst join_rows.simps) (simp add: put_if_def refill_field_def MockBlockDecoder_decode_def block_at_def BlockData_merge_def
      refill_one_def BlockData_next_pair_def pair_at_def bt_get_def Let_def)
  also have "\<dots> = None"
    by (rule join_rows_stuck) (simp_all add: refill_field_def refill_one_def bt_get_def)
  finally have "map_field_columns ?d ?fb = None"
    by (simp add: map_field_columns_def refill_field_def MockBlockDecoder_decode_def block_at_def Block_overlaps_def BlockData_merge_def
      refill_one_def BlockData_next_pair_def pair_at_def bt_get_def Let_def)
  moreover have "\<exists>r s. MeasurementTable_merge
       (add_series_data [] ''f'' (block_at 1 1 BT_Float) (MeasurementTable_new ''m'' 0))
       (add_series_data [] ''f'' (block_at 2 2 BT_Integer) (MeasurementTable_new ''m'' 0)) = Ok (r, s) \<and> tag_set_fields_blocks r = [([], ?fb)]"
    by (simp add: MeasurementTable_merge_def add_series_data_def MeasurementTable_new_def block_at_def or_default_def bt_get_def Let_def)
  ultimately show ?thesis unfolding MeasurementTable_process_def by fastforce
qed

end
