(* ===== verification/Tsm_Join.thy ===== *)
theory Tsm_Join
  imports Tsm_Mapper
begin

text \<open>
  The join of the blocks of several fields into rows is correct: a row for every timestamp, in order,
  with the value that each field has there.  The proof follows one field through a round of the loop
  and then all fields in parallel.
\<close>

section \<open>Values and columns\<close>

datatype TsmValue = V_F64 f64_bits | V_I64 i64 | V_Bool bool | V_Str bytes | V_U64 u64

fun vp_value :: "ValuePair \<Rightarrow> TsmValue" where
  "vp_value (VP_F64 _ v) = V_F64 v"
| "vp_value (VP_I64 _ v) = V_I64 v"
| "vp_value (VP_Bool _ v) = V_Bool v"
| "vp_value (VP_Str _ v) = V_Str v"
| "vp_value (VP_U64 _ v) = V_U64 v"

fun col_values :: "TsmColumnData \<Rightarrow> TsmValue option list" where
  "col_values (CD_Float vs) = map (map_option V_F64) vs"
| "col_values (CD_Integer vs) = map (map_option V_I64) vs"
| "col_values (CD_Bool vs) = map (map_option V_Bool) vs"
| "col_values (CD_Str vs) = map (map_option V_Str) vs"
| "col_values (CD_Unsigned vs) = map (map_option V_U64) vs"

fun col_type :: "TsmColumnData \<Rightarrow> BlockType" where
  "col_type (CD_Float _) = BT_Float"
| "col_type (CD_Integer _) = BT_Integer"
| "col_type (CD_Bool _) = BT_Bool"
| "col_type (CD_Str _) = BT_Str"
| "col_type (CD_Unsigned _) = BT_Unsigned"

lemma new_column_simps [simp]: "col_values (new_column b) = []" "col_type (new_column b) = bd_type b"
  by (cases b; simp)+

text \<open>A round gives the column one more value, and takes the candidate when it has the timestamp of the row.\<close>

lemma put_column_spec:
  assumes "\<forall>p. cand = Some p \<longrightarrow> vp_type p = col_type c"
  shows "\<exists>c'. put_column m cand c = (c', if hit m cand then None else cand) \<and> col_type c' = col_type c
    \<and> col_values c' = col_values c @ [if hit m cand then map_option vp_value cand else None]"
proof (cases cand)
  case None
  then show ?thesis by (cases c) simp_all
next
  case (Some p)
  then show ?thesis using assms by (cases p; cases c) (simp_all add: put_if_def)
qed

section \<open>The stream of a field\<close>

text \<open>The blocks that are merged together.\<close>

function chains :: "Block list \<Rightarrow> Block list list" where
  "chains bls = (if bls = [] then [] else take (overlap_run bls + 1) bls # chains (drop (overlap_run bls + 1) bls))"
  by pat_completeness auto
termination
  by (relation "measure length") auto

declare chains.simps [simp del]

lemma chains_simps [simp]:
  "chains [] = []" "bls \<noteq> [] \<Longrightarrow> chains bls = take (overlap_run bls + 1) bls # chains (drop (overlap_run bls + 1) bls)"
  by (simp_all add: chains.simps [of bls] chains.simps [of "[]"])

lemma concat_chains: "concat (chains bls) = bls"
proof (induction bls rule: chains.induct)
  case (1 bls)
  then show ?case by (cases "bls = []") (simp_all del: One_nat_def add_Suc_right)
qed

text \<open>The chains of a field follow each other in time; this holds in particular when no two blocks overlap.\<close>

definition before :: "Block list \<Rightarrow> Block list \<Rightarrow> bool" where
  "before g h \<longleftrightarrow> (\<forall>a\<in>set g. \<forall>b\<in>set h. sint (blk_max_time a) < sint (blk_min_time b))"

definition well_chained :: "Block list \<Rightarrow> bool" where
  "well_chained bls \<longleftrightarrow> sorted_wrt before (chains bls)"

definition block_data :: "(Block \<Rightarrow> (TsmError, BlockData) res) \<Rightarrow> Block \<Rightarrow> BlockData" where
  "block_data decode b = (case decode b of Ok d \<Rightarrow> d | _ \<Rightarrow> BD_Float 0 [] [])"

text \<open>A block as the index describes it: some values of the right type, in the order of their timestamps, between the two times.\<close>

definition block_ok :: "(Block \<Rightarrow> (TsmError, BlockData) res) \<Rightarrow> BlockType \<Rightarrow> Block \<Rightarrow> bool" where
  "block_ok decode t b \<longleftrightarrow>
     (let d = block_data decode b
      in decode b = Ok d \<and> bd_wf d \<and> bd_type d = t \<and> bd_pairs d \<noteq> [] \<and> sorted_wrt ts_less (bd_pairs d)
         \<and> list_all (\<lambda>p. sint (blk_min_time b) \<le> sint (ValuePair_timestamp p) \<and> sint (ValuePair_timestamp p) \<le> sint (blk_max_time b)) (bd_pairs d))"

definition field_ok :: "(Block \<Rightarrow> (TsmError, BlockData) res) \<Rightarrow> BlockType \<Rightarrow> Block list \<Rightarrow> bool" where
  "field_ok decode t bls \<longleftrightarrow> list_all (block_ok decode t) bls \<and> well_chained bls"

lemma field_ok_drop: "field_ok decode t bls \<Longrightarrow> bls \<noteq> [] \<Longrightarrow> field_ok decode t (drop (overlap_run bls + 1) bls)"
  by (auto simp: field_ok_def well_chained_def list_all_iff dest: in_set_dropD)

lemma decode_all_ok: "list_all (block_ok decode t) bls \<Longrightarrow> decode_all decode bls = Ok (map (block_data decode) bls)"
  by (induction bls) (simp_all add: block_ok_def Let_def)

lemma is_empty_pairs: "bd_wf b \<Longrightarrow> BlockData_is_empty b \<longleftrightarrow> bd_pairs b = []"
  by (cases b) auto

text \<open>The pairs of a field, in the order in which the loop meets them.\<close>

definition chain_pairs :: "(Block \<Rightarrow> (TsmError, BlockData) res) \<Rightarrow> Block list \<Rightarrow> ValuePair list" where
  "chain_pairs decode g = (case BlockData_merge (map (block_data decode) g) of Some b \<Rightarrow> bd_pairs b | None \<Rightarrow> [])"

definition field_stream :: "(Block \<Rightarrow> (TsmError, BlockData) res) \<Rightarrow> Block list \<Rightarrow> ValuePair list" where
  "field_stream decode bls = concat (map (chain_pairs decode) (chains bls))"

lemma last_write_dom: "dom (last_write ss) = (\<Union>s\<in>set ss. ValuePair_timestamp ` set s)"
proof (induction ss)
  case (Cons s ss)
  have "dom (by_time s) = ValuePair_timestamp ` set s" by (simp add: by_time_def dom_map_of_conv_image_fst image_image)
  then show ?case using Cons by auto
qed simp

lemma chain_merge:
  assumes "list_all (block_ok decode t) g" and "g \<noteq> []"
  shows "\<exists>r. BlockData_merge (map (block_data decode) g) = Some r \<and> bd_wf r \<and> bd_type r = t \<and> bd_pairs r \<noteq> [] \<and> sorted_wrt ts_less (bd_pairs r)
    \<and> by_time (bd_pairs r) = last_write (map (\<lambda>b. bd_pairs (block_data decode b)) g)"
proof -
  have ok: "\<forall>d\<in>set (map (block_data decode) g). bd_wf d \<and> bd_type d = t \<and> sorted_wrt ts_less (bd_pairs d)"
    using assms(1) by (auto simp: list_all_iff block_ok_def Let_def)
  obtain r where r: "BlockData_merge (map (block_data decode) g) = Some r" "bd_wf r" "bd_type r = t" "sorted_wrt ts_less (bd_pairs r)"
    "by_time (bd_pairs r) = last_write (map bd_pairs (map (block_data decode) g))"
    using merge_blocks_last_write [OF _ ok] assms(2) by auto
  have "bd_pairs (block_data decode (hd g)) \<noteq> []" using assms by (cases g) (simp_all add: block_ok_def Let_def)
  then have "dom (last_write (map bd_pairs (map (block_data decode) g))) \<noteq> {}"
    unfolding last_write_dom using assms(2) by (cases g) auto
  then have "bd_pairs r \<noteq> []" using r(5) by auto
  then show ?thesis using r by (auto simp: comp_def)
qed

lemma field_stream_Cons:
  assumes "field_ok decode t bls" and "bls \<noteq> []"
  shows "\<exists>r. decode_all decode (take (overlap_run bls + 1) bls) = Ok (map (block_data decode) (take (overlap_run bls + 1) bls))
    \<and> BlockData_merge (map (block_data decode) (take (overlap_run bls + 1) bls)) = Some r \<and> bd_wf r \<and> bd_type r = t \<and> bd_pairs r \<noteq> []
    \<and> field_stream decode bls = bd_pairs r @ field_stream decode (drop (overlap_run bls + 1) bls)"
proof -
  let ?g = "take (overlap_run bls + 1) bls"
  have g: "list_all (block_ok decode t) ?g" "?g \<noteq> []" using assms by (auto simp: field_ok_def list_all_iff dest: in_set_takeD)
  then obtain r where "BlockData_merge (map (block_data decode) ?g) = Some r" "bd_wf r" "bd_type r = t" "bd_pairs r \<noteq> []" using chain_merge by blast
  then show ?thesis using decode_all_ok [OF g(1)] assms(2) by (simp add: field_stream_def chain_pairs_def)
qed

lemma refill_field_ready:
  assumes "field_ok decode (bd_type r) bls" and "bd_wf r"
  shows "\<exists>r' bls'. refill_field decode bls (Some r) = (Ok (Some r'), bls') \<and> field_ok decode (bd_type r) bls' \<and> bd_wf r' \<and> bd_type r' = bd_type r
    \<and> bd_pairs r' @ field_stream decode bls' = bd_pairs r @ field_stream decode bls \<and> (bd_pairs r' = [] \<longrightarrow> field_stream decode bls' = [])"
proof (cases "bls = [] \<or> bd_pairs r \<noteq> []")
  case True
  then have "refill_field decode bls (Some r) = (Ok (Some r), bls)" using is_empty_pairs [OF assms(2)] by (auto simp: refill_field_def)
  moreover have "bd_pairs r = [] \<longrightarrow> field_stream decode bls = []" using True by (auto simp: field_stream_def)
  ultimately show ?thesis using assms by blast
next
  case False
  then have bls: "bls \<noteq> []" and r: "bd_pairs r = []" by simp_all
  from field_stream_Cons [OF assms(1) bls] obtain r' where r': "decode_all decode (take (overlap_run bls + 1) bls) = Ok (map (block_data decode) (take (overlap_run bls + 1) bls))"
    "BlockData_merge (map (block_data decode) (take (overlap_run bls + 1) bls)) = Some r'" "bd_wf r'" "bd_type r' = bd_type r" "bd_pairs r' \<noteq> []"
    "field_stream decode bls = bd_pairs r' @ field_stream decode (drop (overlap_run bls + 1) bls)" by blast
  then have "refill_field decode bls (Some r) = (Ok (Some r'), drop (overlap_run bls + 1) bls)"
    using bls r is_empty_pairs [OF assms(2)] by (simp add: refill_field_def Let_def)
  then show ?thesis using r' r field_ok_drop [OF assms(1) bls] by auto
qed

lemma refill_field_first:
  assumes "field_ok decode t bls" and "bls \<noteq> []"
  shows "\<exists>r bls'. refill_field decode bls None = (Ok (Some r), bls') \<and> field_ok decode t bls' \<and> bd_wf r \<and> bd_type r = t
    \<and> bd_pairs r @ field_stream decode bls' = field_stream decode bls \<and> bd_pairs r \<noteq> []"
proof -
  from field_stream_Cons [OF assms] obtain r where r: "decode_all decode (take (overlap_run bls + 1) bls) = Ok (map (block_data decode) (take (overlap_run bls + 1) bls))"
    "BlockData_merge (map (block_data decode) (take (overlap_run bls + 1) bls)) = Some r" "bd_wf r" "bd_type r = t" "bd_pairs r \<noteq> []"
    "field_stream decode bls = bd_pairs r @ field_stream decode (drop (overlap_run bls + 1) bls)" by blast
  then have "refill_field decode bls None = (Ok (Some r), drop (overlap_run bls + 1) bls)" using assms(2) by (simp add: refill_field_def Let_def)
  then show ?thesis using r field_ok_drop [OF assms] by auto
qed

section \<open>One field in one round\<close>

record field_state =
  fs_key :: string
  fs_blocks :: "Block list"
  fs_ready :: BlockData
  fs_cand :: "ValuePair option"
  fs_col :: TsmColumnData

definition fs_stream :: "(Block \<Rightarrow> (TsmError, BlockData) res) \<Rightarrow> field_state \<Rightarrow> ValuePair list" where
  "fs_stream decode f = stream (fs_ready f) (fs_cand f) @ field_stream decode (fs_blocks f)"

definition fs_ok :: "(Block \<Rightarrow> (TsmError, BlockData) res) \<Rightarrow> field_state \<Rightarrow> bool" where
  "fs_ok decode f \<longleftrightarrow> field_ok decode (bd_type (fs_ready f)) (fs_blocks f) \<and> bd_wf (fs_ready f) \<and> col_type (fs_col f) = bd_type (fs_ready f)
     \<and> (\<forall>p. fs_cand f = Some p \<longrightarrow> vp_type p = bd_type (fs_ready f)) \<and> (fs_cand f = None \<longrightarrow> fs_stream decode f = [])"

text \<open>What the three steps of a round do to a field; \<open>cand\<close> and \<open>r\<close> are the candidate and the block in between.\<close>

type_synonym round = "field_state \<times> ValuePair option \<times> BlockData \<times> field_state"

fun fs_round :: "(Block \<Rightarrow> (TsmError, BlockData) res) \<Rightarrow> i64 \<Rightarrow> round \<Rightarrow> bool" where
  "fs_round decode m (f, cand, r, f') \<longleftrightarrow> fs_key f' = fs_key f \<and> put_column m (fs_cand f) (fs_col f) = (fs_col f', cand)
     \<and> refill_field decode (fs_blocks f) (Some (fs_ready f)) = (Ok (Some r), fs_blocks f') \<and> refill_one r cand = Some (fs_cand f', fs_ready f')"

text \<open>The head of the stream is the candidate.\<close>

lemma fs_head:
  assumes "fs_ok decode f"
  shows "hit m (fs_cand f) \<longleftrightarrow> fs_stream decode f \<noteq> [] \<and> ValuePair_timestamp (hd (fs_stream decode f)) = m"
    "fs_stream decode f \<noteq> [] \<Longrightarrow> fs_cand f = Some (hd (fs_stream decode f))"
  using assms by (cases "fs_cand f"; simp add: fs_ok_def fs_stream_def)+

lemma fs_round_ex:
  assumes "fs_ok decode f"
  shows "\<exists>cand r f'. fs_round decode m (f, cand, r, f') \<and> fs_ok decode f' \<and> fs_stream decode f' = drop_head m (fs_stream decode f)
    \<and> col_values (fs_col f') = col_values (fs_col f) @ [if hit m (fs_cand f) then map_option vp_value (fs_cand f) else None]
    \<and> col_type (fs_col f') = col_type (fs_col f)"
proof -
  let ?t = "bd_type (fs_ready f)"
  obtain c1 where c1: "c1 = (if hit m (fs_cand f) then None else fs_cand f)" by blast
  have ok: "field_ok decode ?t (fs_blocks f)" "bd_wf (fs_ready f)" "col_type (fs_col f) = ?t" "\<forall>p. fs_cand f = Some p \<longrightarrow> vp_type p = ?t"
    using assms by (simp_all add: fs_ok_def)
  obtain c' where c': "put_column m (fs_cand f) (fs_col f) = (c', c1)" "col_type c' = col_type (fs_col f)"
    "col_values c' = col_values (fs_col f) @ [if hit m (fs_cand f) then map_option vp_value (fs_cand f) else None]"
    using put_column_spec [of "fs_cand f" "fs_col f" m] ok(3,4) unfolding c1 by auto
  obtain r bls where r: "refill_field decode (fs_blocks f) (Some (fs_ready f)) = (Ok (Some r), bls)" "field_ok decode ?t bls" "bd_wf r" "bd_type r = ?t"
    "bd_pairs r @ field_stream decode bls = bd_pairs (fs_ready f) @ field_stream decode (fs_blocks f)" "bd_pairs r = [] \<longrightarrow> field_stream decode bls = []"
    using refill_field_ready [OF ok(1,2)] by blast
  have c1_type: "\<forall>q. c1 = Some q \<longrightarrow> vp_type q = ?t" using ok(4) c1 by auto
  obtain p b where p: "refill_one r c1 = Some (p, b)" "bd_wf b" "bd_type b = ?t" "\<forall>q. p = Some q \<longrightarrow> vp_type q = ?t"
    using refill_one_typed [OF r(3,4) c1_type] by blast
  note st = refill_one_stream [OF p(1)]
  define f' where "f' = \<lparr>fs_key = fs_key f, fs_blocks = bls, fs_ready = b, fs_cand = p, fs_col = c'\<rparr>"
  have "fs_stream decode f' = stream r c1 @ field_stream decode bls" using st by (simp add: f'_def fs_stream_def)
  also have "\<dots> = drop_head m (fs_stream decode f)"
    using r(5) assms unfolding c1 by (cases "fs_cand f") (auto simp: fs_stream_def fs_ok_def)
  finally have stream: "fs_stream decode f' = drop_head m (fs_stream decode f)" .
  have "fs_stream decode f' = []" if "p = None"
  proof -
    have "stream r c1 = []" using st that by auto
    then have "c1 = None \<and> bd_pairs r = []" by (cases c1) simp_all
    then show ?thesis using st that r(6) by (auto simp: f'_def fs_stream_def)
  qed
  then have "fs_ok decode f'" using r p(2-4) c'(2) ok(3) by (simp add: fs_ok_def f'_def)
  moreover have "fs_round decode m (f, c1, r, f')" using c'(1) r(1) p(1) by (simp add: f'_def)
  moreover have "fs_col f' = c'" by (simp add: f'_def)
  ultimately show ?thesis using stream c'(2,3) by blast
qed

section \<open>All fields in one round\<close>

definition the_blocks :: "field_state list \<Rightarrow> FieldKeyBlocks" where "the_blocks fs = map (\<lambda>f. (fs_key f, fs_blocks f)) fs"

definition the_inputs :: "field_state list \<Rightarrow> (string, BlockData) BTreeMap" where "the_inputs fs = map (\<lambda>f. (fs_key f, fs_ready f)) fs"

definition the_columns :: "field_state list \<Rightarrow> (string, TsmColumnData) BTreeMap" where "the_columns fs = map (\<lambda>f. (fs_key f, fs_col f)) fs"

lemma bt_insert_present:
  "sorted_wrt (<) (map fst pre @ (k :: 'k::linorder) # map fst suf) \<Longrightarrow> bt_insert k v (pre @ (k, v') # suf) = pre @ (k, v) # suf"
  by (induction pre) (auto simp: not_less_iff_gr_or_eq)

lemma bt_insert_after: "sorted_wrt (<) (map fst pre @ [k]) \<Longrightarrow> bt_insert k v pre = pre @ [(k, v)]"
  by (induction pre) (auto simp: not_less_iff_gr_or_eq)

lemma bt_get_present: "sorted_wrt (<) (map fst pre @ (k :: 'k::linorder) # ks) \<Longrightarrow> bt_get (pre @ (k, v) # suf) k = Some v"
  unfolding bt_get_def by (induction pre) auto

lemma bt_get_after: "sorted_wrt (<) (map fst pre @ (k :: 'k::linorder) # ks) \<Longrightarrow> bt_get pre k = None"
  unfolding bt_get_def by (induction pre) auto

abbreviation old_of :: "round \<Rightarrow> field_state" where "old_of \<equiv> fst"

abbreviation cand_of :: "round \<Rightarrow> ValuePair option" where "cand_of \<equiv> \<lambda>x. fst (snd x)"

abbreviation ready_of :: "round \<Rightarrow> string \<times> BlockData" where "ready_of \<equiv> \<lambda>x. (fs_key (fst x), fst (snd (snd x)))"

abbreviation new_of :: "round \<Rightarrow> field_state" where "new_of \<equiv> \<lambda>x. snd (snd (snd x))"

lemma put_columns_round:
  "list_all (fs_round decode m) rs \<Longrightarrow>
   put_columns m (map fs_cand (map old_of rs)) (the_columns (map old_of rs)) = Some (map cand_of rs, the_columns (map new_of rs))"
  by (induction rs) (auto simp: the_columns_def)

lemma refill_values_round:
  "list_all (fs_round decode m) rs \<Longrightarrow>
   refill_value_pair_buffer (map ready_of rs) (map cand_of rs) = Some (the_inputs (map new_of rs), map fs_cand (map new_of rs))"
  by (induction rs) (auto simp: the_inputs_def)

lemma refill_blocks_round:
  "list_all (fs_round decode m) rs \<Longrightarrow> sorted_wrt (<) (map fst pre @ map fs_key (map old_of rs)) \<Longrightarrow>
   refill_block_buffer decode (the_blocks (map old_of rs)) (pre @ the_inputs (map old_of rs)) = (Ok (pre @ map ready_of rs), the_blocks (map new_of rs))"
proof (induction rs arbitrary: pre)
  case Nil
  then show ?case by (simp add: the_blocks_def the_inputs_def)
next
  case (Cons x rs)
  obtain f c r f' where x: "x = (f, c, r, f')" by (cases x)
  have k: "sorted_wrt (<) (map fst pre @ fs_key f # map fs_key (map old_of rs))" using Cons.prems(2) by (simp add: x)
  have "bt_get (pre @ (fs_key f, fs_ready f) # the_inputs (map old_of rs)) (fs_key f) = Some (fs_ready f)" using bt_get_present [OF k] .
  moreover have "map fst (the_inputs (map old_of rs)) = map fs_key (map old_of rs)" by (simp add: the_inputs_def)
  then have "bt_insert (fs_key f) r (pre @ (fs_key f, fs_ready f) # the_inputs (map old_of rs)) = (pre @ [(fs_key f, r)]) @ the_inputs (map old_of rs)"
    using bt_insert_present [of pre "fs_key f" "the_inputs (map old_of rs)" r "fs_ready f"] k by simp
  moreover have "refill_block_buffer decode (the_blocks (map old_of rs)) ((pre @ [(fs_key f, r)]) @ the_inputs (map old_of rs))
      = (Ok ((pre @ [(fs_key f, r)]) @ map ready_of rs), the_blocks (map new_of rs))"
    using Cons.IH [of "pre @ [(fs_key f, r)]"] Cons.prems k by simp
  ultimately show ?case using Cons.prems(1) by (simp add: x the_blocks_def the_inputs_def)
qed

text \<open>All that a round does to one field.\<close>

definition round_ok :: "(Block \<Rightarrow> (TsmError, BlockData) res) \<Rightarrow> i64 \<Rightarrow> round \<Rightarrow> bool" where
  "round_ok decode m x \<longleftrightarrow> fs_ok decode (new_of x) \<and> fs_stream decode (new_of x) = drop_head m (fs_stream decode (old_of x))
     \<and> col_values (fs_col (new_of x)) = col_values (fs_col (old_of x)) @ [if hit m (fs_cand (old_of x)) then map_option vp_value (fs_cand (old_of x)) else None]
     \<and> col_type (fs_col (new_of x)) = col_type (fs_col (old_of x))"

lemma rounds_ex:
  "list_all (fs_ok decode) fs \<Longrightarrow> \<exists>rs. map old_of rs = fs \<and> list_all (fs_round decode m) rs \<and> list_all (round_ok decode m) rs"
proof (induction fs)
  case (Cons f fs)
  then obtain rs where rs: "map old_of rs = fs" "list_all (fs_round decode m) rs" "list_all (round_ok decode m) rs" by auto
  obtain cand r f' where "fs_round decode m (f, cand, r, f')" "round_ok decode m (f, cand, r, f')"
    using fs_round_ex [of decode f m] Cons.prems unfolding round_ok_def by auto
  then show ?case using rs by (intro exI [of _ "(f, cand, r, f') # rs"]) simp
qed simp

lemma min_timestamp_None: "min_timestamp ps = None \<longleftrightarrow> (\<forall>p\<in>set ps. p = None)"
  by (induction ps rule: min_timestamp.induct) (auto split: option.splits)

lemma min_timestamp_Some:
  "min_timestamp ps = Some m \<Longrightarrow> (\<exists>p\<in>set ps. hit m p) \<and> (\<forall>p. Some p \<in> set ps \<longrightarrow> sint m \<le> sint (ValuePair_timestamp p))"
proof (induction ps arbitrary: m rule: min_timestamp.induct)
  case (3 p ps)
  show ?case
  proof (cases "min_timestamp ps")
    case None
    then show ?thesis using 3 min_timestamp_None [of ps] by auto
  next
    case (Some m')
    then show ?thesis using 3(1) [OF Some] 3(2) by (auto split: if_splits)
  qed
qed auto

lemma after_drop_head:
  assumes "sorted_wrt ts_less s" and "\<forall>p\<in>set s. sint m \<le> sint (ValuePair_timestamp p)" and "p \<in> set (drop_head m s)"
  shows "sint m < sint (ValuePair_timestamp p)"
proof (cases s)
  case (Cons a ps)
  have "sint m \<le> sint (ValuePair_timestamp a)" using assms(2) Cons by simp
  then have tl: "sint m < sint (ValuePair_timestamp q)" if "q \<in> set ps" for q using assms(1) Cons that by (auto simp: ts_less_def)
  have "sint m < sint (ValuePair_timestamp a)" if "ValuePair_timestamp a \<noteq> m"
    using that \<open>sint m \<le> _\<close> by (metis order_le_less word_eq_iff_signed)
  then show ?thesis using assms(3) Cons tl by (auto split: if_splits)
qed (use assms(3) in simp)

lemma sorted_drop_head: "sorted_wrt ts_less s \<Longrightarrow> sorted_wrt ts_less (drop_head m s)"
  by (cases s) auto

lemma field_stream_Nil: "field_ok decode t bls \<Longrightarrow> field_stream decode bls = [] \<Longrightarrow> bls = []"
  using field_stream_Cons by fastforce

definition rows_of :: "(Block \<Rightarrow> (TsmError, BlockData) res) \<Rightarrow> i64 list \<Rightarrow> field_state \<Rightarrow> TsmValue option list" where
  "rows_of decode R f = map (\<lambda>t. map_option vp_value (by_time (fs_stream decode f) t)) R"

definition joined_field :: "(Block \<Rightarrow> (TsmError, BlockData) res) \<Rightarrow> i64 list \<Rightarrow> field_state \<Rightarrow> field_state \<Rightarrow> bool" where
  "joined_field decode R f f' \<longleftrightarrow> fs_key f' = fs_key f \<and> fs_blocks f' = [] \<and> col_type (fs_col f') = col_type (fs_col f)
     \<and> col_values (fs_col f') = col_values (fs_col f) @ rows_of decode R f"

lemma joined_field_round:
  assumes "round_ok decode m x" and "fs_round decode m x" and "fs_ok decode (old_of x)" and "sorted_wrt ts_less (fs_stream decode (old_of x))"
    and "\<forall>p\<in>set (fs_stream decode (old_of x)). sint m \<le> sint (ValuePair_timestamp p)" and "m \<notin> set R" and "joined_field decode R (new_of x) f'"
  shows "joined_field decode (m # R) (old_of x) f'"
proof -
  let ?s = "fs_stream decode (old_of x)"
  have "by_time (fs_stream decode (new_of x)) t = by_time ?s t" if "t \<in> set R" for t
    using assms(1,6) that by_time_drop_head [OF assms(4,5)] by (auto simp: round_ok_def)
  then have "rows_of decode R (new_of x) = rows_of decode R (old_of x)" by (simp add: rows_of_def)
  moreover have "by_time ?s m = (if hit m (fs_cand (old_of x)) then fs_cand (old_of x) else None)"
    using by_time_head [OF assms(4,5)] fs_head [OF assms(3)] by auto
  ultimately show ?thesis using assms(1,2,7) by (cases x) (auto simp: joined_field_def round_ok_def rows_of_def)
qed

section \<open>The loop\<close>

lemma join_rows_step:
  assumes "min_timestamp (map fs_cand (map old_of rs)) = Some m" and "list_all (fs_round decode m) rs" and "sorted_wrt (<) (map fs_key (map old_of rs))"
  shows "join_rows decode (the_blocks (map old_of rs)) (the_inputs (map old_of rs)) (map fs_cand (map old_of rs)) (the_columns (map old_of rs)) T =
    join_rows decode (the_blocks (map new_of rs)) (the_inputs (map new_of rs)) (map fs_cand (map new_of rs)) (the_columns (map new_of rs)) (T @ [m])"
  using put_columns_round [OF assms(2)] refill_values_round [OF assms(2)] refill_blocks_round [OF assms(2), of "[]"] assms(1,3)
  by (subst join_rows.simps) simp

lemma rounds_keys: "list_all (fs_round decode m) rs \<Longrightarrow> map fs_key (map new_of rs) = map fs_key (map old_of rs)"
  by (induction rs) auto

lemma rounds_shrink:
  assumes "list_all (round_ok decode m) rs" and "x \<in> set rs" and "fs_ok decode (old_of x)" and "hit m (fs_cand (old_of x))"
  shows "sum_list (map (\<lambda>f. length (fs_stream decode f)) (map new_of rs)) < sum_list (map (\<lambda>f. length (fs_stream decode f)) (map old_of rs))"
  using assms
proof (induction rs)
  case (Cons y rs)
  have le: "length (fs_stream decode (new_of z)) \<le> length (fs_stream decode (old_of z))" if "round_ok decode m z" for z using that by (simp add: round_ok_def)
  have all: "sum_list (map (\<lambda>f. length (fs_stream decode f)) (map new_of rs)) \<le> sum_list (map (\<lambda>f. length (fs_stream decode f)) (map old_of rs))"
    using Cons.prems(1) le by (auto simp: comp_def list_all_iff intro!: sum_list_mono)
  show ?case
  proof (cases "x = y")
    case True
    have "fs_stream decode (old_of x) \<noteq> []" "ValuePair_timestamp (hd (fs_stream decode (old_of x))) = m" using fs_head(1) [OF Cons.prems(3)] Cons.prems(4) by auto
    then have "length (fs_stream decode (new_of x)) < length (fs_stream decode (old_of x))" using Cons.prems(1) True by (simp add: round_ok_def)
    then show ?thesis using all True by simp
  next
    case False
    then show ?thesis using Cons le [of y] by fastforce
  qed
qed simp

lemma join_rows_correct:
  assumes "list_all (\<lambda>f. fs_ok decode f \<and> sorted_wrt ts_less (fs_stream decode f)) fs" and "sorted_wrt (<) (map fs_key fs)"
  shows "\<exists>R fs'. join_rows decode (the_blocks fs) (the_inputs fs) (map fs_cand fs) (the_columns fs) T = Some (Ok (T @ R, the_columns fs'), the_blocks fs')
    \<and> sorted_wrt (\<lambda>a b. sint a < sint b) R \<and> set R = (\<Union>f\<in>set fs. ValuePair_timestamp ` set (fs_stream decode f)) \<and> list_all2 (joined_field decode R) fs fs'"
  using assms
proof (induction "sum_list (map (\<lambda>f. length (fs_stream decode f)) fs)" arbitrary: fs T rule: less_induct)
  case less
  have ok: "fs_ok decode f" "sorted_wrt ts_less (fs_stream decode f)" if "f \<in> set fs" for f using less(2) that by (simp_all add: list_all_iff)
  show ?case
  proof (cases "min_timestamp (map fs_cand fs)")
    case None
    then have empty: "fs_stream decode f = []" if "f \<in> set fs" for f using that ok(1) by (auto simp: min_timestamp_None fs_ok_def)
    have "fs_blocks f = []" if "f \<in> set fs" for f using ok(1) [OF that] empty [OF that] field_stream_Nil by (auto simp: fs_ok_def fs_stream_def)
    then have "list_all2 (joined_field decode []) fs fs" by (simp add: list_all2_same joined_field_def rows_of_def)
    moreover have "join_rows decode (the_blocks fs) (the_inputs fs) (map fs_cand fs) (the_columns fs) T = Some (Ok (T @ [], the_columns fs), the_blocks fs)"
      by (subst join_rows.simps) (simp add: None)
    moreover have "set [] = (\<Union>f\<in>set fs. ValuePair_timestamp ` set (fs_stream decode f))" using empty by simp
    moreover have "sorted_wrt (\<lambda>a b :: i64. sint a < sint b) []" by simp
    ultimately show ?thesis by blast
  next
    case (Some m)
    obtain rs where rs: "map old_of rs = fs" "list_all (fs_round decode m) rs" "list_all (round_ok decode m) rs"
      using rounds_ex [of decode fs m] ok(1) by (auto simp: list_all_iff)
    define fs1 where "fs1 = map new_of rs"
    have old: "old_of x \<in> set fs" if "x \<in> set rs" for x using rs(1) that by auto
    have heads: "sint m \<le> sint (ValuePair_timestamp (hd s))" if "s \<in> set (map (fs_stream decode) fs)" "s \<noteq> []" for s
    proof -
      obtain f where f: "f \<in> set fs" "s = fs_stream decode f" using \<open>s \<in> _\<close> by auto
      then have "fs_cand f = Some (hd s)" using fs_head(2) [OF ok(1) [OF f(1)]] \<open>s \<noteq> []\<close> by simp
      then have "Some (hd s) \<in> set (map fs_cand fs)" using f(1) by force
      then show ?thesis using min_timestamp_Some [OF Some] by blast
    qed
    have "streams_from m (map (fs_stream decode) fs)" by (rule streams_from_heads) (use ok(2) heads in auto)
    then have m: "\<forall>p\<in>set (fs_stream decode f). sint m \<le> sint (ValuePair_timestamp p)" if "f \<in> set fs" for f using that by (auto simp: streams_from_def)
    obtain x where x: "x \<in> set rs" "hit m (fs_cand (old_of x))" using min_timestamp_Some [OF Some] rs(1) by auto
    have new: "round_ok decode m y" if "y \<in> set rs" for y using rs(3) that by (simp add: list_all_iff)
    have step: "join_rows decode (the_blocks fs) (the_inputs fs) (map fs_cand fs) (the_columns fs) T =
        join_rows decode (the_blocks fs1) (the_inputs fs1) (map fs_cand fs1) (the_columns fs1) (T @ [m])"
      using join_rows_step [of rs m decode T] Some rs less(3) by (simp add: fs1_def)
    have "list_all (\<lambda>f. fs_ok decode f \<and> sorted_wrt ts_less (fs_stream decode f)) fs1"
      unfolding fs1_def list_all_iff using new ok(2) old sorted_drop_head by (auto simp: round_ok_def)
    moreover have "sorted_wrt (<) (map fs_key fs1)" using less(3) rounds_keys [OF rs(2)] rs(1) by (simp add: fs1_def)
    moreover have "sum_list (map (\<lambda>f. length (fs_stream decode f)) fs1) < sum_list (map (\<lambda>f. length (fs_stream decode f)) fs)"
      using rounds_shrink [OF rs(3) x(1) _ x(2)] ok(1) old [OF x(1)] rs(1) by (simp add: fs1_def)
    ultimately obtain R fs' where R: "join_rows decode (the_blocks fs1) (the_inputs fs1) (map fs_cand fs1) (the_columns fs1) (T @ [m]) = Some (Ok ((T @ [m]) @ R, the_columns fs'), the_blocks fs')"
      "sorted_wrt (\<lambda>a b. sint a < sint b) R" "set R = (\<Union>f\<in>set fs1. ValuePair_timestamp ` set (fs_stream decode f))" "list_all2 (joined_field decode R) fs1 fs'"
      using less(1) [of fs1 "T @ [m]"] by blast
    have R': "set R = (\<Union>y\<in>set rs. ValuePair_timestamp ` set (drop_head m (fs_stream decode (old_of y))))"
      unfolding R(3) fs1_def using new by (auto simp: round_ok_def)
    have later: "sint m < sint t" if "t \<in> set R" for t
      using that after_drop_head [OF ok(2) [OF old] m [OF old]] unfolding R' by blast
    have ts: "insert m (ValuePair_timestamp ` set (drop_head m s)) = insert m (ValuePair_timestamp ` set s)" for s by (cases s) auto
    have "m \<in> ValuePair_timestamp ` set (fs_stream decode (old_of x))" using fs_head(1) [OF ok(1) [OF old [OF x(1)]], of m] x(2) by (metis hd_in_set image_eqI)
    then have "set (m # R) = (\<Union>y\<in>set rs. insert m (ValuePair_timestamp ` set (drop_head m (fs_stream decode (old_of y)))))" using R' x(1) by auto
    also have "\<dots> = (\<Union>f\<in>set fs. insert m (ValuePair_timestamp ` set (fs_stream decode f)))" unfolding ts rs(1) [symmetric] set_map by (simp only: image_image UN_simps)
    also have "\<dots> = (\<Union>f\<in>set fs. ValuePair_timestamp ` set (fs_stream decode f))" using \<open>m \<in> _\<close> old [OF x(1)] by blast
    finally have "set (m # R) = (\<Union>f\<in>set fs. ValuePair_timestamp ` set (fs_stream decode f))" .
    moreover have "list_all2 (joined_field decode (m # R)) fs fs'"
    proof -
      have "list_all2 (\<lambda>y. joined_field decode R (new_of y)) rs fs'" using R(4) by (simp add: fs1_def list_all2_map1)
      then have "list_all2 (\<lambda>y. joined_field decode (m # R) (old_of y)) rs fs'"
      proof (rule list.rel_mono_strong)
        fix y f' assume y: "y \<in> set rs" and j: "joined_field decode R (new_of y) f'"
        have "m \<notin> set R" using later by blast
        then show "joined_field decode (m # R) (old_of y) f'"
          using joined_field_round [OF new [OF y] _ ok(1) [OF old [OF y]] ok(2) [OF old [OF y]] m [OF old [OF y]] _ j] rs(2) y by (simp add: list_all_iff)
      qed
      then show ?thesis unfolding rs(1) [symmetric] by (simp add: list_all2_map1)
    qed
    moreover have "sorted_wrt (\<lambda>a b. sint a < sint b) (m # R)" using R(2) later by simp
    ultimately show ?thesis using step R(1) by (intro exI [of _ "m # R"] exI [of _ fs']) simp
  qed
qed

section \<open>The streams of well chained blocks\<close>

lemma last_write_append: "last_write (xs @ ys) = last_write xs ++ last_write ys"
  by (induction xs) (simp_all add: map_add_assoc)

lemma by_time_dom: "dom (by_time ps) = ValuePair_timestamp ` set ps"
  by (simp add: by_time_def dom_map_of_conv_image_fst image_image)

lemma by_time_append:
  assumes "sorted_wrt ts_less (ps @ qs)"
  shows "by_time (ps @ qs) = by_time ps ++ by_time qs"
proof -
  have "dom (by_time ps) \<inter> dom (by_time qs) = {}" using assms unfolding by_time_dom sorted_wrt_append ts_less_def by fastforce
  then have "by_time ps ++ by_time qs = by_time qs ++ by_time ps" by (rule map_add_comm)
  then show ?thesis by (simp add: by_time_def)
qed

abbreviation pairs_of :: "(Block \<Rightarrow> (TsmError, BlockData) res) \<Rightarrow> Block list \<Rightarrow> ValuePair list list" where
  "pairs_of decode bls \<equiv> map (\<lambda>b. bd_pairs (block_data decode b)) bls"

lemma block_ok_times:
  assumes "list_all (block_ok decode t) bls" and "x \<in> dom (last_write (pairs_of decode bls))"
  shows "\<exists>b\<in>set bls. sint (blk_min_time b) \<le> sint x \<and> sint x \<le> sint (blk_max_time b)"
  using assms unfolding last_write_dom by (fastforce simp: list_all_iff block_ok_def Let_def)

lemma field_stream_correct:
  "field_ok decode t bls \<Longrightarrow> sorted_wrt ts_less (field_stream decode bls) \<and> by_time (field_stream decode bls) = last_write (pairs_of decode bls)"
proof (induction bls rule: chains.induct)
  case (1 bls)
  show ?case
  proof (cases "bls = []")
    case True
    then show ?thesis by (simp add: field_stream_def)
  next
    case False
    let ?g = "take (overlap_run bls + 1) bls" and ?rest = "drop (overlap_run bls + 1) bls"
    have g: "list_all (block_ok decode t) ?g" "?g \<noteq> []" using "1.prems" False by (auto simp: field_ok_def list_all_iff dest: in_set_takeD)
    obtain r where r: "BlockData_merge (map (block_data decode) ?g) = Some r" "sorted_wrt ts_less (bd_pairs r)" "by_time (bd_pairs r) = last_write (pairs_of decode ?g)"
      using chain_merge [OF g] by auto
    have fs: "field_stream decode bls = bd_pairs r @ field_stream decode ?rest" using False r(1) by (simp add: field_stream_def chain_pairs_def)
    have rest: "field_ok decode t ?rest" using field_ok_drop [OF "1.prems" False] .
    then have IH: "sorted_wrt ts_less (field_stream decode ?rest)" "by_time (field_stream decode ?rest) = last_write (pairs_of decode ?rest)" using "1.IH" False by auto
    have "ts_less p q" if "p \<in> set (bd_pairs r)" "q \<in> set (field_stream decode ?rest)" for p q
    proof -
      have "ValuePair_timestamp p \<in> dom (by_time (bd_pairs r))" "ValuePair_timestamp q \<in> dom (by_time (field_stream decode ?rest))" using that by (simp_all add: by_time_dom)
      then obtain a b where ab: "a \<in> set ?g" "b \<in> set ?rest" "sint (ValuePair_timestamp p) \<le> sint (blk_max_time a)" "sint (blk_min_time b) \<le> sint (ValuePair_timestamp q)"
        using block_ok_times [OF g(1)] block_ok_times [of decode t ?rest] rest r(3) IH(2) unfolding field_ok_def by metis
      obtain h where h: "h \<in> set (chains ?rest)" "b \<in> set h" using ab(2) concat_chains [of ?rest] by (metis UN_E set_concat)
      have "before ?g h" using "1.prems" False h(1) by (simp add: field_ok_def well_chained_def)
      then show ?thesis using ab h(2) by (fastforce simp: before_def ts_less_def)
    qed
    then have sorted: "sorted_wrt ts_less (field_stream decode bls)" using r(2) IH(1) by (simp add: fs sorted_wrt_append)
    have "last_write (pairs_of decode bls) = last_write (pairs_of decode ?g @ pairs_of decode ?rest)" by (simp only: map_append [symmetric] append_take_drop_id)
    then show ?thesis using sorted by_time_append [of "bd_pairs r"] r(3) IH(2) by (simp only: fs last_write_append)
  qed
qed

text \<open>Blocks of one file, which do not overlap, are well chained.\<close>

lemma well_chained_disjoint: "sorted_wrt (\<lambda>a b. sint (blk_max_time a) < sint (blk_min_time b)) bls \<Longrightarrow> well_chained bls"
proof -
  assume s: "sorted_wrt (\<lambda>a b. sint (blk_max_time a) < sint (blk_min_time b)) bls"
  have run: "overlap_run bls = 0" if "sorted_wrt (\<lambda>a b. sint (blk_max_time a) < sint (blk_min_time b)) bls" for bls
    using that by (cases bls rule: overlap_run.cases) (auto simp: Block_overlaps_def)
  have "chains bls = map (\<lambda>b. [b]) bls" using s
  proof (induction bls)
    case (Cons b bls)
    then show ?case using run [OF Cons.prems] by simp
  qed simp
  then show ?thesis using s by (simp add: well_chained_def before_def sorted_wrt_map)
qed

section \<open>The first round\<close>

type_synonym init = "(string \<times> Block list) \<times> BlockData \<times> field_state"

fun init_ok :: "(Block \<Rightarrow> (TsmError, BlockData) res) \<Rightarrow> init \<Rightarrow> bool" where
  "init_ok decode ((k, bls), r, f) \<longleftrightarrow> fs_key f = k \<and> refill_field decode bls None = (Ok (Some r), fs_blocks f)
     \<and> refill_one r None = Some (fs_cand f, fs_ready f) \<and> fs_col f = new_column (fs_ready f)"

abbreviation first_of :: "init \<Rightarrow> string \<times> BlockData" where "first_of \<equiv> \<lambda>x. (fst (fst x), fst (snd x))"

abbreviation field_of :: "init \<Rightarrow> field_state" where "field_of \<equiv> \<lambda>x. snd (snd x)"

lemma refill_blocks_init:
  "list_all (init_ok decode) xs \<Longrightarrow> sorted_wrt (<) (map fst pre @ map fst (map fst xs)) \<Longrightarrow>
   refill_block_buffer decode (map fst xs) pre = (Ok (pre @ map first_of xs), the_blocks (map field_of xs))"
proof (induction xs arbitrary: pre)
  case Nil
  then show ?case by (simp add: the_blocks_def)
next
  case (Cons x xs)
  obtain k bls r f where x: "x = ((k, bls), r, f)" by (metis prod.exhaust)
  have k: "sorted_wrt (<) (map fst pre @ k # map fst (map fst xs))" using Cons.prems(2) by (simp add: x)
  then have "bt_get pre k = None" "bt_insert k r pre = pre @ [(k, r)]" using bt_get_after [OF k] bt_insert_after [of pre k r] by (auto simp: sorted_wrt_append)
  moreover have "refill_block_buffer decode (map fst xs) (pre @ [(k, r)]) = (Ok ((pre @ [(k, r)]) @ map first_of xs), the_blocks (map field_of xs))"
    using Cons.IH [of "pre @ [(k, r)]"] Cons.prems k by simp
  ultimately show ?case using Cons.prems(1) by (simp add: x the_blocks_def)
qed

lemma refill_values_init:
  "list_all (init_ok decode) xs \<Longrightarrow>
   refill_value_pair_buffer (map first_of xs) (replicate (length xs) None) = Some (the_inputs (map field_of xs), map fs_cand (map field_of xs))"
  by (induction xs) (auto simp: the_inputs_def)

lemma init_columns: "list_all (init_ok decode) xs \<Longrightarrow> map (\<lambda>(k, b). (k, new_column b)) (the_inputs (map field_of xs)) = the_columns (map field_of xs)"
  by (induction xs) (auto simp: the_inputs_def the_columns_def)

lemma map_field_columns_init:
  assumes "list_all (init_ok decode) xs" and "sorted_wrt (<) (map fst (map fst xs))"
  shows "map_field_columns decode (map fst xs) =
    join_rows decode (the_blocks (map field_of xs)) (the_inputs (map field_of xs)) (map fs_cand (map field_of xs)) (the_columns (map field_of xs)) []"
  using refill_blocks_init [OF assms(1), of "[]"] refill_values_init [OF assms(1)] init_columns [OF assms(1)] assms(2)
  by (simp add: map_field_columns_def)

lemma init_ex:
  assumes "field_ok decode t bls" and "bls \<noteq> []"
  shows "\<exists>r f. init_ok decode ((k, bls), r, f) \<and> fs_ok decode f \<and> fs_stream decode f = field_stream decode bls \<and> col_type (fs_col f) = t"
proof -
  obtain r bls' where r: "refill_field decode bls None = (Ok (Some r), bls')" "field_ok decode t bls'" "bd_wf r" "bd_type r = t"
    "bd_pairs r @ field_stream decode bls' = field_stream decode bls" "bd_pairs r \<noteq> []" using refill_field_first [OF assms] by blast
  obtain p b where p: "refill_one r None = Some (p, b)" "bd_wf b" "bd_type b = t" "\<forall>q. p = Some q \<longrightarrow> vp_type q = t"
    using refill_one_typed [OF r(3,4), of None] by auto
  note st = refill_one_stream [OF p(1)]
  define f where "f = \<lparr>fs_key = k, fs_blocks = bls', fs_ready = b, fs_cand = p, fs_col = new_column b\<rparr>"
  obtain q where "p = Some q" using st r(6) by (cases p) auto
  moreover have "fs_stream decode f = field_stream decode bls" using st r(5) by (simp add: fs_stream_def f_def)
  ultimately show ?thesis using r(1,2) p by (intro exI [of _ r] exI [of _ f]) (simp add: f_def fs_ok_def)
qed

lemma times_of_fields:
  "{ValuePair_timestamp p | p b bls k. (k, bls) \<in> set fb \<and> b \<in> set bls \<and> p \<in> set (bd_pairs (block_data decode b))} =
   (\<Union>f\<in>set fb. \<Union>b\<in>set (snd f). ValuePair_timestamp ` set (bd_pairs (block_data decode b)))"
  by force

lemma inits_ex:
  "list_all (\<lambda>(k, bls). bls \<noteq> [] \<and> field_ok decode (typ_of k) bls) fb \<Longrightarrow>
   \<exists>xs. map fst xs = fb \<and> list_all (init_ok decode) xs
     \<and> list_all (\<lambda>x. fs_ok decode (field_of x) \<and> fs_stream decode (field_of x) = field_stream decode (snd (fst x)) \<and> col_type (fs_col (field_of x)) = typ_of (fst (fst x))) xs"
proof (induction fb)
  case (Cons kb fb)
  obtain k bls where kb: "kb = (k, bls)" by (cases kb)
  obtain xs where xs: "map fst xs = fb" "list_all (init_ok decode) xs"
    "list_all (\<lambda>x. fs_ok decode (field_of x) \<and> fs_stream decode (field_of x) = field_stream decode (snd (fst x)) \<and> col_type (fs_col (field_of x)) = typ_of (fst (fst x))) xs"
    using Cons by auto
  obtain r f where "init_ok decode ((k, bls), r, f)" "fs_ok decode f" "fs_stream decode f = field_stream decode bls" "col_type (fs_col f) = typ_of k"
    using init_ex [of decode "typ_of k" bls k] Cons.prems kb by auto
  then show ?case using xs kb by (intro exI [of _ "((k, bls), r, f) # xs"]) simp
qed simp

text \<open>
  C7. The join of the blocks of all fields of a series is right: when the blocks of every field are not empty and decode to values of one type, in order and within the
  times of the block, and chains of overlapping blocks follow each other in time, the join ends without an error and has used all blocks; its
  timestamps ascend and are exactly those that occur in a block of a field; and the column of a field has, at every timestamp, the value of
  the last block of the field that has the timestamp, or null when there is none.
\<close>

theorem map_field_columns_joins:
  assumes "bt_wf fb" and "list_all (\<lambda>(k, bls). bls \<noteq> [] \<and> field_ok decode (typ_of k) bls) fb"
  shows "\<exists>R cols. map_field_columns decode fb = Some (Ok (R, cols), map (\<lambda>(k, bls). (k, [])) fb)
    \<and> sorted_wrt (\<lambda>a b. sint a < sint b) R
    \<and> set R = {ValuePair_timestamp p | p b bls k. (k, bls) \<in> set fb \<and> b \<in> set bls \<and> p \<in> set (bd_pairs (block_data decode b))}
    \<and> list_all2 (\<lambda>(k, bls) (k', c). k' = k \<and> col_type c = typ_of k \<and> col_values c = map (\<lambda>t. map_option vp_value (last_write (pairs_of decode bls) t)) R) fb cols"
proof -
  obtain xs where xs: "map fst xs = fb" "list_all (init_ok decode) xs"
    "list_all (\<lambda>x. fs_ok decode (field_of x) \<and> fs_stream decode (field_of x) = field_stream decode (snd (fst x)) \<and> col_type (fs_col (field_of x)) = typ_of (fst (fst x))) xs"
    using inits_ex [OF assms(2)] by blast
  let ?fs = "map field_of xs"
  have keys: "map fs_key ?fs = map fst (map fst xs)" using xs(2) by (induction xs) auto
  have fok: "field_ok decode (typ_of (fst (fst x))) (snd (fst x))" if "x \<in> set xs" for x
    using assms(2) that unfolding xs(1) [symmetric] by (auto simp: list_all_iff)
  have st: "sorted_wrt ts_less (fs_stream decode (field_of x))" "by_time (fs_stream decode (field_of x)) = last_write (pairs_of decode (snd (fst x)))" if "x \<in> set xs" for x
    using field_stream_correct [OF fok [OF that]] xs(3) that by (simp_all add: list_all_iff)
  have "list_all (\<lambda>f. fs_ok decode f \<and> sorted_wrt ts_less (fs_stream decode f)) ?fs" using xs(3) st(1) by (simp add: list_all_iff)
  moreover have sorted: "sorted_wrt (<) (map fst (map fst xs))" using assms(1) xs(1) by (simp add: bt_wf_def)
  ultimately obtain R fs' where R: "join_rows decode (the_blocks ?fs) (the_inputs ?fs) (map fs_cand ?fs) (the_columns ?fs) [] = Some (Ok (R, the_columns fs'), the_blocks fs')"
    "sorted_wrt (\<lambda>a b. sint a < sint b) R" "set R = (\<Union>f\<in>set ?fs. ValuePair_timestamp ` set (fs_stream decode f))" "list_all2 (joined_field decode R) ?fs fs'"
    using join_rows_correct [of decode ?fs "[]"] unfolding keys by auto
  have "map_field_columns decode fb = Some (Ok (R, the_columns fs'), the_blocks fs')"
    using map_field_columns_init [OF xs(2) sorted] R(1) xs(1) by simp
  moreover
  have "list_all2 (\<lambda>x. joined_field decode R (field_of x)) xs fs'" using R(4) by (simp add: list_all2_map1)
  then have J: "list_all2 (\<lambda>x f'. fs_key f' = fst (fst x) \<and> fs_blocks f' = [] \<and> col_type (fs_col f') = typ_of (fst (fst x))
      \<and> col_values (fs_col f') = map (\<lambda>t. map_option vp_value (last_write (pairs_of decode (snd (fst x))) t)) R) xs fs'"
  proof (rule list.rel_mono_strong)
    fix x f' assume x: "x \<in> set xs" and j: "joined_field decode R (field_of x) f'"
    have i: "init_ok decode x" "col_type (fs_col (field_of x)) = typ_of (fst (fst x))" using xs(2,3) x by (simp_all add: list_all_iff)
    moreover obtain k bls r f where "x = ((k, bls), r, f)" by (metis prod.exhaust)
    ultimately have "fs_key (field_of x) = fst (fst x)" "col_values (fs_col (field_of x)) = []" by simp_all
    then show "fs_key f' = fst (fst x) \<and> fs_blocks f' = [] \<and> col_type (fs_col f') = typ_of (fst (fst x))
        \<and> col_values (fs_col f') = map (\<lambda>t. map_option vp_value (last_write (pairs_of decode (snd (fst x))) t)) R"
      using j i(2) st(2) [OF x] by (simp add: joined_field_def rows_of_def)
  qed
  then have "the_blocks fs' = map (\<lambda>(k, bls). (k, [])) fb"
    unfolding xs(1) [symmetric] the_blocks_def by (induction rule: list_all2_induct) (auto split: prod.splits)
  moreover have "list_all2 (\<lambda>(k, bls) (k', c). k' = k \<and> col_type c = typ_of k \<and> col_values c = map (\<lambda>t. map_option vp_value (last_write (pairs_of decode bls) t)) R) fb (the_columns fs')"
    using J unfolding xs(1) [symmetric] the_columns_def by (simp add: list_all2_map1 list_all2_map2 split_beta list.rel_mono_strong)
  moreover have "set R = {ValuePair_timestamp p | p b bls k. (k, bls) \<in> set fb \<and> b \<in> set bls \<and> p \<in> set (bd_pairs (block_data decode b))}"
  proof -
    have "ValuePair_timestamp ` set (fs_stream decode (field_of x)) = (\<Union>b\<in>set (snd (fst x)). ValuePair_timestamp ` set (bd_pairs (block_data decode b)))" if "x \<in> set xs" for x
      using st(2) [OF that] by_time_dom [of "fs_stream decode (field_of x)"] last_write_dom [of "pairs_of decode (snd (fst x))"] by simp
    then have "set R = (\<Union>x\<in>set xs. \<Union>b\<in>set (snd (fst x)). ValuePair_timestamp ` set (bd_pairs (block_data decode b)))" unfolding R(3) by simp
    also have "\<dots> = (\<Union>f\<in>set fb. \<Union>b\<in>set (snd f). ValuePair_timestamp ` set (bd_pairs (block_data decode b)))" unfolding xs(1) [symmetric] by simp
    also have "\<dots> = {ValuePair_timestamp p | p b bls k. (k, bls) \<in> set fb \<and> b \<in> set bls \<and> p \<in> set (bd_pairs (block_data decode b))}" by (rule times_of_fields [symmetric])
    finally show ?thesis .
  qed
  ultimately show ?thesis using R(2) by (intro exI [of _ R] exI [of _ "the_columns fs'"]) simp
qed

theorem map_field_columns_joins_witness:
  "\<exists>R cols. map_field_columns (MockBlockDecoder_decode [1 \<mapsto> BD_Integer 0 [1, 5] [10, 50], 4 \<mapsto> BD_Integer 0 [4, 5] [40, 51], 2 \<mapsto> BD_Bool 0 [2, 4] [True, False]])
       [(''a'', [block_at 1 5 BT_Integer, block_at 4 5 BT_Integer]), (''b'', [block_at 2 4 BT_Bool])] = Some (Ok (R, cols), [(''a'', []), (''b'', [])])
    \<and> set R = {1, 2, 4, 5}"
proof -
  let ?d = "MockBlockDecoder_decode [1 \<mapsto> BD_Integer 0 [1, 5] [10, 50], 4 \<mapsto> BD_Integer 0 [4, 5] [40, 51], 2 \<mapsto> BD_Bool 0 [2, 4] [True, False]]"
  let ?fb = "[(''a'', [block_at 1 5 BT_Integer, block_at 4 5 BT_Integer]), (''b'', [block_at 2 4 BT_Bool])]"
  have dec: "block_data ?d (block_at 1 5 BT_Integer) = BD_Integer 0 [1, 5] [10, 50]" "block_data ?d (block_at 4 5 BT_Integer) = BD_Integer 0 [4, 5] [40, 51]"
    "block_data ?d (block_at 2 4 BT_Bool) = BD_Bool 0 [2, 4] [True, False]" by (simp_all add: block_data_def MockBlockDecoder_decode_def block_at_def)
  have ok: "list_all (\<lambda>(k, bls). bls \<noteq> [] \<and> field_ok ?d (if k = ''a'' then BT_Integer else BT_Bool) bls) ?fb"
    by (simp add: field_ok_def block_ok_def dec) (simp add: MockBlockDecoder_decode_def block_at_def well_chained_def Block_overlaps_def ts_less_def Let_def)
  have "bt_wf ?fb" by (simp add: bt_wf_def)
  from map_field_columns_joins [OF this ok] obtain R cols where
    "map_field_columns ?d ?fb = Some (Ok (R, cols), map (\<lambda>(k, bls). (k, [])) ?fb)"
    "set R = {ValuePair_timestamp p | p b bls k. (k, bls) \<in> set ?fb \<and> b \<in> set bls \<and> p \<in> set (bd_pairs (block_data ?d b))}" by blast
  moreover have "{ValuePair_timestamp p | p b bls k. (k, bls) \<in> set ?fb \<and> b \<in> set bls \<and> p \<in> set (bd_pairs (block_data ?d b))} =
      (\<Union>f\<in>set ?fb. \<Union>b\<in>set (snd f). ValuePair_timestamp ` set (bd_pairs (block_data ?d b)))" by (rule times_of_fields)
  moreover have "\<dots> = {1, 2, 4, 5}" by (auto simp: dec)
  ultimately show ?thesis by auto
qed

end
