(* ===== verification/Rb_RowIds.thy ===== *)
theory Rb_RowIds
  imports Iox_Prelude
begin

text \<open>
  Sets of row ids and comparison operators of the read buffer, \<open>RowIDs\<close> of \<open>read_buffer/src/column.rs\<close> and
  \<open>Operator\<close> of \<open>column/cmp.rs\<close>.  The bitmap of the crate \<open>croaring\<close> is a parameter: a record of its
  operations, of which \<open>roaring\<close> states what they document, namely that a bitmap is a set of numbers
  that is enumerated in ascending order.
\<close>

section \<open>Bitmaps\<close>

record 'b bitmap_ops =
  bm_create :: 'b
  bm_from_iter :: "nat list \<Rightarrow> 'b"
  bm_add_range :: "nat \<Rightarrow> nat \<Rightarrow> 'b \<Rightarrow> 'b"
  bm_or_inplace :: "'b \<Rightarrow> 'b \<Rightarrow> 'b"
  bm_clear :: "'b \<Rightarrow> 'b"
  bm_cardinality :: "'b \<Rightarrow> nat"
  bm_to_vec :: "'b \<Rightarrow> nat list"

definition roaring :: "'b bitmap_ops \<Rightarrow> bool" where
  "roaring bm \<longleftrightarrow>
     bm_to_vec bm (bm_create bm) = []
     \<and> (\<forall>xs. set (bm_to_vec bm (bm_from_iter bm xs)) = set xs)
     \<and> (\<forall>x y b. set (bm_to_vec bm (bm_add_range bm x y b)) = set (bm_to_vec bm b) \<union> {x..<y})
     \<and> (\<forall>a b. set (bm_to_vec bm (bm_or_inplace bm a b)) = set (bm_to_vec bm a) \<union> set (bm_to_vec bm b))
     \<and> (\<forall>b. bm_to_vec bm (bm_clear bm b) = [])
     \<and> (\<forall>b. bm_cardinality bm b = length (bm_to_vec bm b))
     \<and> (\<forall>b. sorted_wrt (<) (bm_to_vec bm b))"

text \<open>Lists of numbers that are sorted when they are enumerated are such bitmaps.\<close>

definition list_bitmap :: "nat list bitmap_ops" where
  "list_bitmap =
     \<lparr>bm_create = [], bm_from_iter = (\<lambda>xs. xs), bm_add_range = (\<lambda>x y b. b @ [x..<y]), bm_or_inplace = (@),
      bm_clear = (\<lambda>b. []),
      bm_cardinality = (\<lambda>b. length (sort (remdups b))), bm_to_vec = (\<lambda>b. sort (remdups b))\<rparr>"

lemma roaring_list_bitmap: "roaring list_bitmap"
  by (auto simp: roaring_def list_bitmap_def strict_sorted_iff)

section \<open>Row ids\<close>

datatype 'b RowIDs = RowIDs_Bitmap 'b | RowIDs_Vector "nat list"

definition RowIDs_new_bitmap :: "'b bitmap_ops \<Rightarrow> 'b RowIDs" where
  "RowIDs_new_bitmap bm = RowIDs_Bitmap (bm_create bm)"

fun RowIDs_to_vec :: "'b bitmap_ops \<Rightarrow> 'b RowIDs \<Rightarrow> nat list" where
  "RowIDs_to_vec bm (RowIDs_Bitmap b) = bm_to_vec bm b"
| "RowIDs_to_vec bm (RowIDs_Vector arr) = arr"

fun RowIDs_len :: "'b bitmap_ops \<Rightarrow> 'b RowIDs \<Rightarrow> nat" where
  "RowIDs_len bm (RowIDs_Bitmap ids) = bm_cardinality bm ids"
| "RowIDs_len bm (RowIDs_Vector ids) = length ids"

fun RowIDs_clear :: "'b bitmap_ops \<Rightarrow> 'b RowIDs \<Rightarrow> 'b RowIDs" where
  "RowIDs_clear bm (RowIDs_Bitmap ids) = RowIDs_Bitmap (bm_clear bm ids)"
| "RowIDs_clear bm (RowIDs_Vector ids) = RowIDs_Vector []"

fun RowIDs_add_range :: "'b bitmap_ops \<Rightarrow> nat \<Rightarrow> nat \<Rightarrow> 'b RowIDs \<Rightarrow> 'b RowIDs" where
  "RowIDs_add_range bm s e (RowIDs_Bitmap ids) = RowIDs_Bitmap (bm_add_range bm s e ids)"
| "RowIDs_add_range bm s e (RowIDs_Vector ids) = RowIDs_Vector (ids @ [s..<e])"

text \<open>\<open>None\<close> is \<open>unimplemented!\<close>.\<close>

fun RowIDs_union :: "'b bitmap_ops \<Rightarrow> 'b RowIDs \<Rightarrow> 'b RowIDs \<Rightarrow> 'b RowIDs option" where
  "RowIDs_union bm (RowIDs_Bitmap a) (RowIDs_Bitmap b) = Some (RowIDs_Bitmap (bm_or_inplace bm a b))"
| "RowIDs_union bm (RowIDs_Vector a) (RowIDs_Bitmap b) = Some (RowIDs_Vector (bm_to_vec bm (bm_or_inplace bm (bm_from_iter bm a) b)))"
| "RowIDs_union bm _ _ = None"

section \<open>Operators\<close>

datatype Operator = Op_Equal | Op_NotEqual | Op_GT | Op_GTE | Op_LT | Op_LTE

text \<open>What an operator means on values of an order.\<close>

fun op_holds :: "Operator \<Rightarrow> 'a::linorder \<Rightarrow> 'a \<Rightarrow> bool" where
  "op_holds Op_Equal x y \<longleftrightarrow> x = y"
| "op_holds Op_NotEqual x y \<longleftrightarrow> x \<noteq> y"
| "op_holds Op_GT x y \<longleftrightarrow> x > y"
| "op_holds Op_GTE x y \<longleftrightarrow> x \<ge> y"
| "op_holds Op_LT x y \<longleftrightarrow> x < y"
| "op_holds Op_LTE x y \<longleftrightarrow> x \<le> y"

section \<open>Lemmas\<close>

lemma strict_sorted_unique: "sorted_wrt (<) xs \<Longrightarrow> sorted_wrt (<) ys \<Longrightarrow> set xs = set ys \<Longrightarrow> xs = (ys :: nat list)"
  by (metis strict_sorted_equal)

lemma roaringD:
  assumes "roaring bm"
  shows "bm_to_vec bm (bm_create bm) = []" "bm_to_vec bm (bm_clear bm b) = []" "sorted_wrt (<) (bm_to_vec bm b)" "bm_cardinality bm b = length (bm_to_vec bm b)"
    "set (bm_to_vec bm (bm_add_range bm x y b)) = set (bm_to_vec bm b) \<union> {x..<y}"
    "set (bm_to_vec bm (bm_or_inplace bm a b)) = set (bm_to_vec bm a) \<union> set (bm_to_vec bm b)" "set (bm_to_vec bm (bm_from_iter bm xs)) = set xs"
  using assms by (simp_all add: roaring_def)

text \<open>Rows that are added in ascending order are appended, to a bitmap and to a vector.\<close>

lemma to_vec_clear [simp]: "roaring bm \<Longrightarrow> RowIDs_to_vec bm (RowIDs_clear bm r) = []"
  by (cases r) (simp_all add: roaringD)

lemma to_vec_new_bitmap [simp]: "roaring bm \<Longrightarrow> RowIDs_to_vec bm (RowIDs_new_bitmap bm) = []"
  by (simp add: RowIDs_new_bitmap_def roaringD)

lemma to_vec_add_range:
  assumes "roaring bm" and "\<forall>x\<in>set (RowIDs_to_vec bm r). x < s"
  shows "RowIDs_to_vec bm (RowIDs_add_range bm s e r) = RowIDs_to_vec bm r @ [s..<e]"
proof (cases r)
  case (RowIDs_Bitmap b)
  have "sorted_wrt (<) (bm_to_vec bm b @ [s..<e])" using assms roaringD(3) [OF assms(1)] RowIDs_Bitmap by (auto simp: sorted_wrt_append)
  moreover have "sorted_wrt (<) (bm_to_vec bm (bm_add_range bm s e b))" using roaringD(3) [OF assms(1)] .
  ultimately have "bm_to_vec bm (bm_add_range bm s e b) = bm_to_vec bm b @ [s..<e]"
    using roaringD(5) [OF assms(1)] by (intro strict_sorted_unique) simp_all
  then show ?thesis using RowIDs_Bitmap by simp
qed simp

lemma union_clear:
  assumes "roaring bm"
  shows "\<exists>r'. RowIDs_union bm (RowIDs_clear bm r) (RowIDs_Bitmap b) = Some r' \<and> RowIDs_to_vec bm r' = bm_to_vec bm b"
proof (cases r)
  case (RowIDs_Bitmap a)
  have "bm_to_vec bm (bm_or_inplace bm (bm_clear bm a) b) = bm_to_vec bm b"
    using roaringD [OF assms] by (intro strict_sorted_unique) simp_all
  then show ?thesis using RowIDs_Bitmap by simp
next
  case (RowIDs_Vector a)
  have "bm_to_vec bm (bm_or_inplace bm (bm_from_iter bm []) b) = bm_to_vec bm b"
    using roaringD [OF assms] by (intro strict_sorted_unique) simp_all
  then show ?thesis using RowIDs_Vector by simp
qed

text \<open>The rows of a column that satisfy a predicate.\<close>

definition rows_where :: "('v \<Rightarrow> bool) \<Rightarrow> 'v list \<Rightarrow> nat list" where
  "rows_where P vs = filter (\<lambda>i. P (vs ! i)) [0..<length vs]"

lemma rows_where_Nil [simp]: "rows_where P [] = []"
  by (simp add: rows_where_def)

lemma rows_where_append: "rows_where P (vs @ ws) = rows_where P vs @ map (\<lambda>i. length vs + i) (rows_where P ws)"
proof -
  have "[0..<length vs + length ws] = [0..<length vs] @ map (\<lambda>i. length vs + i) [0..<length ws]"
    using upt_add_eq_append [of 0 "length vs" "length ws"] map_add_upt [of "length vs" "length ws"] by (simp add: add.commute)
  moreover have "filter (\<lambda>i. P ((vs @ ws) ! i)) [0..<length vs] = filter (\<lambda>i. P (vs ! i)) [0..<length vs]"
    by (rule filter_cong) (simp_all add: nth_append)
  ultimately show ?thesis by (simp add: rows_where_def filter_map comp_def)
qed

lemma rows_where_replicate: "rows_where P (replicate n v) = (if P v then [0..<n] else [])"
proof -
  have "filter (\<lambda>i. P (replicate n v ! i)) [0..<n] = filter (\<lambda>i. P v) [0..<n]" by (rule filter_cong) simp_all
  then show ?thesis by (simp add: rows_where_def)
qed

lemma rows_where_lt: "i \<in> set (rows_where P vs) \<Longrightarrow> i < length vs"
  by (simp add: rows_where_def)

lemma rows_where_cong: "(\<And>v. v \<in> set vs \<Longrightarrow> P v = Q v) \<Longrightarrow> rows_where P vs = rows_where Q vs"
  unfolding rows_where_def by (rule filter_cong) simp_all

lemma rows_where_map: "rows_where P (map f vs) = rows_where (\<lambda>v. P (f v)) vs"
  unfolding rows_where_def length_map by (rule filter_cong) simp_all

end
