(* ===== verification/Rb_Rle.thy ===== *)
theory Rb_Rle
  imports Rb_RowIds
begin

text \<open>
  The run-length encoding of string columns, \<open>read_buffer/src/column/encoding/string/rle.rs\<close>.  Encoded ids
  index a sorted dictionary whose first entry stands for NULL.  \<open>None\<close> is a panic; a function that returns an
  optional value and may panic returns an option of an option.  Unsigned 32-bit numbers are \<open>nat\<close>; the sums
  of run lengths that the readers form are at most the number of rows, whose overflow is checked.
\<close>

section \<open>State\<close>

definition NULL_ID :: nat where "NULL_ID = 0"

definition as_u32 :: "nat \<Rightarrow> nat" where
  "as_u32 n = n mod 2 ^ 32"

definition u32_add :: "nat \<Rightarrow> nat \<Rightarrow> nat option" where
  "u32_add a b = (if a + b < 2 ^ 32 then Some (a + b) else None)"

text \<open>\<open>slice::binary_search_by\<close> on a sorted slice: the position of the value, or where it would be.\<close>

definition binary_search :: "'a::linorder list \<Rightarrow> 'a \<Rightarrow> (nat, nat) res" where
  "binary_search xs v = (let i = length (takeWhile (\<lambda>x. x < v) xs) in if i < length xs \<and> xs ! i = v then Ok i else Err i)"

record 'b RLE =
  index_entries :: "string list"
  index_row_ids :: "'b RowIDs list"
  run_lengths :: "(nat \<times> nat) list"
  rle_null :: bool
  rle_rows :: nat

definition RLE_default :: "'b bitmap_ops \<Rightarrow> 'b RLE" where
  "RLE_default bm = \<lparr>index_entries = [''''], index_row_ids = [RowIDs_new_bitmap bm], run_lengths = [], rle_null = False, rle_rows = 0\<rparr>"

definition RLE_cardinality :: "'b RLE \<Rightarrow> nat" where
  "RLE_cardinality r = (if rle_null r then as_u32 (length (index_entries r)) else as_u32 (length (index_entries r)) - 1)"

definition RLE_null_count :: "'b bitmap_ops \<Rightarrow> 'b RLE \<Rightarrow> nat" where
  "RLE_null_count bm r = (case index_row_ids r of [] \<Rightarrow> 0 | rows # _ \<Rightarrow> as_u32 (RowIDs_len bm rows))"

section \<open>Adding values\<close>

definition RLE_add_entry :: "'b bitmap_ops \<Rightarrow> string \<Rightarrow> 'b RLE \<Rightarrow> nat \<times> 'b RLE" where
  "RLE_add_entry bm entry r =
     (as_u32 (length (index_entries r)), r\<lparr>index_entries := index_entries r @ [entry], index_row_ids := index_row_ids r @ [RowIDs_new_bitmap bm]\<rparr>)"

text \<open>A \<open>BTreeSet\<close> is the list of its elements in ascending order.\<close>

definition RLE_with_dictionary :: "'b bitmap_ops \<Rightarrow> string list \<Rightarrow> 'b RLE" where
  "RLE_with_dictionary bm dictionary = foldl (\<lambda>r entry. snd (RLE_add_entry bm entry r)) (RLE_default bm) dictionary"

definition RLE_lookup_entry :: "string \<Rightarrow> 'b RLE \<Rightarrow> nat option" where
  "RLE_lookup_entry entry r = (case binary_search (tl (index_entries r)) entry of Ok i \<Rightarrow> Some (as_u32 i + 1) | _ \<Rightarrow> None)"

definition RLE_last_entry :: "'b RLE \<Rightarrow> string" where
  "RLE_last_entry r = last (index_entries r)"

definition RLE_keys :: "'b RLE \<Rightarrow> string list" where
  "RLE_keys r = drop 1 (index_entries r)"

text \<open>Lengthen the last run when it has the id, or start a new one.\<close>

definition push_run :: "nat \<Rightarrow> nat \<Rightarrow> (nat \<times> nat) list \<Rightarrow> (nat \<times> nat) list option" where
  "push_run id' additional runs =
     (if runs = [] then Some [(id', additional)]
      else
        (case last runs of (last_id, rl) \<Rightarrow>
           if last_id = id' then map_option (\<lambda>rl. butlast runs @ [(last_id, rl)]) (u32_add rl additional)
           else Some (runs @ [(id', additional)])))"

text \<open>The rows of an id, and the number of rows.\<close>

definition add_rows :: "'b bitmap_ops \<Rightarrow> nat \<Rightarrow> nat \<Rightarrow> 'b RLE \<Rightarrow> 'b RLE option" where
  "add_rows bm id' additional r =
     Option.bind (u32_add (rle_rows r) additional) (\<lambda>rows.
       if id' < length (index_row_ids r)
       then Some (r\<lparr>index_row_ids := (index_row_ids r)[id' := RowIDs_add_range bm (rle_rows r) rows (index_row_ids r ! id')], rle_rows := rows\<rparr>)
       else None)"

definition push_additional_some :: "'b bitmap_ops \<Rightarrow> string \<Rightarrow> nat \<Rightarrow> 'b RLE \<Rightarrow> 'b RLE option" where
  "push_additional_some bm entry additional r =
     (case RLE_lookup_entry entry r of
        Some id' \<Rightarrow> Option.bind (push_run id' additional (run_lengths r)) (\<lambda>runs. add_rows bm id' additional (r\<lparr>run_lengths := runs\<rparr>))
      | None \<Rightarrow>
          if \<not> RLE_last_entry r < entry then None
          else
            (case RLE_add_entry bm entry r of (next_id, r) \<Rightarrow>
               add_rows bm next_id additional (r\<lparr>run_lengths := run_lengths r @ [(next_id, additional)]\<rparr>)))"

definition push_additional_none :: "'b bitmap_ops \<Rightarrow> nat \<Rightarrow> 'b RLE \<Rightarrow> 'b RLE option" where
  "push_additional_none bm additional r =
     Option.bind (push_run NULL_ID additional (run_lengths r)) (\<lambda>runs.
       add_rows bm NULL_ID additional
         (if run_lengths r \<noteq> [] \<and> fst (last (run_lengths r)) = NULL_ID then r\<lparr>run_lengths := runs\<rparr> else r\<lparr>run_lengths := runs, rle_null := True\<rparr>))"

definition RLE_push_additional :: "'b bitmap_ops \<Rightarrow> string option \<Rightarrow> nat \<Rightarrow> 'b RLE \<Rightarrow> 'b RLE option" where
  "RLE_push_additional bm v additional r =
     (case v of Some v \<Rightarrow> push_additional_some bm v additional r | None \<Rightarrow> push_additional_none bm additional r)"

definition RLE_push :: "'b bitmap_ops \<Rightarrow> string \<Rightarrow> 'b RLE \<Rightarrow> 'b RLE option" where
  "RLE_push bm v r = RLE_push_additional bm (Some v) 1 r"

definition RLE_push_none :: "'b bitmap_ops \<Rightarrow> 'b RLE \<Rightarrow> 'b RLE option" where
  "RLE_push_none bm r = RLE_push_additional bm None 1 r"

fun RLE_push_all :: "'b bitmap_ops \<Rightarrow> string option list \<Rightarrow> 'b RLE \<Rightarrow> 'b RLE option" where
  "RLE_push_all bm [] r = Some r"
| "RLE_push_all bm (v # vs) r = Option.bind (case v of Some x \<Rightarrow> RLE_push bm x r | None \<Rightarrow> RLE_push_none bm r) (RLE_push_all bm vs)"

definition RLE_from :: "'b bitmap_ops \<Rightarrow> string option list \<Rightarrow> 'b RLE option" where
  "RLE_from bm vec = RLE_push_all bm vec (RLE_default bm)"

section \<open>Row ids of values\<close>

text \<open>The loops over the runs that add the ranges of the runs with certain ids.\<close>

fun add_runs :: "'b bitmap_ops \<Rightarrow> (nat \<Rightarrow> bool) \<Rightarrow> nat \<Rightarrow> (nat \<times> nat) list \<Rightarrow> 'b RowIDs \<Rightarrow> 'b RowIDs" where
  "add_runs bm P index [] dst = dst"
| "add_runs bm P index ((other_id, other_rl) # runs) dst =
     add_runs bm P (index + other_rl) runs (if P other_id then RowIDs_add_range bm index (index + other_rl) dst else dst)"

definition RLE_row_ids_is_null :: "'b bitmap_ops \<Rightarrow> bool \<Rightarrow> 'b RowIDs \<Rightarrow> 'b RLE \<Rightarrow> 'b RowIDs" where
  "RLE_row_ids_is_null bm is_null dst r = add_runs bm (\<lambda>i. (i = NULL_ID) = is_null) 0 (run_lengths r) (RowIDs_clear bm dst)"

definition RLE_row_ids_null :: "'b bitmap_ops \<Rightarrow> 'b RowIDs \<Rightarrow> 'b RLE \<Rightarrow> 'b RowIDs" where
  "RLE_row_ids_null bm dst r = RLE_row_ids_is_null bm True dst r"

definition RLE_row_ids_not_null :: "'b bitmap_ops \<Rightarrow> 'b RowIDs \<Rightarrow> 'b RLE \<Rightarrow> 'b RowIDs" where
  "RLE_row_ids_not_null bm dst r = RLE_row_ids_is_null bm False dst r"

definition RLE_row_ids_equal :: "'b bitmap_ops \<Rightarrow> string \<Rightarrow> Operator \<Rightarrow> 'b RowIDs \<Rightarrow> 'b RLE \<Rightarrow> 'b RowIDs option" where
  "RLE_row_ids_equal bm v opr dst r =
     (let dst = RowIDs_clear bm dst
      in case RLE_lookup_entry v r of
           Some encoded_id \<Rightarrow>
             (case opr of
                Op_Equal \<Rightarrow> if encoded_id < length (index_row_ids r) then RowIDs_union bm dst (index_row_ids r ! encoded_id) else None
              | Op_NotEqual \<Rightarrow> Some (add_runs bm (\<lambda>i. i \<noteq> NULL_ID \<and> i \<noteq> encoded_id) 0 (run_lengths r) dst)
              | _ \<Rightarrow> None)
         | None \<Rightarrow>
             if opr = Op_NotEqual
             then Some (if \<not> rle_null r then RowIDs_add_range bm 0 (rle_rows r) dst else RLE_row_ids_not_null bm dst r)
             else Some dst)"

lemma find_shrinks:
  "find (\<lambda>other. other > v) ks = Some k \<Longrightarrow> length (filter (\<lambda>x. x > k) ks) < length (filter (\<lambda>x. x > v) (ks :: 'a::linorder list))"
  "find (\<lambda>other. other < v) (rev ks) = Some k \<Longrightarrow> length (filter (\<lambda>x. x < k) ks) < length (filter (\<lambda>x. x < v) (ks :: 'a::linorder list))"
proof -
  have gt: "length (filter (\<lambda>x. x > k) ks) \<le> length (filter (\<lambda>x. x > v) ks)" if "k > v" for ks :: "'a list"
    using that by (induction ks) auto
  have lt: "length (filter (\<lambda>x. x < k) ks) \<le> length (filter (\<lambda>x. x < v) ks)" if "k < v" for ks :: "'a list"
    using that by (induction ks) auto
  have "length (filter (\<lambda>x. x > k) ks) < length (filter (\<lambda>x. x > v) ks)" if "k > v" "k \<in> set ks" for ks :: "'a list"
    using that by (induction ks) (auto intro: le_imp_less_Suc gt)
  then show "find (\<lambda>other. other > v) ks = Some k \<Longrightarrow> length (filter (\<lambda>x. x > k) ks) < length (filter (\<lambda>x. x > v) ks)"
    by (auto simp: find_Some_iff)
  have "length (filter (\<lambda>x. x < k) ks) < length (filter (\<lambda>x. x < v) ks)" if "k < v" "k \<in> set ks" for ks :: "'a list"
    using that by (induction ks) (auto intro: le_imp_less_Suc lt)
  moreover assume "find (\<lambda>other. other < v) (rev ks) = Some k"
  then have "k < v" "k \<in> set (rev ks)" using find_Some_iff nth_mem by metis+
  ultimately show "length (filter (\<lambda>x. x < k) ks) < length (filter (\<lambda>x. x < v) ks)" by simp
qed

function RLE_row_ids_cmp :: "'b bitmap_ops \<Rightarrow> string \<Rightarrow> Operator \<Rightarrow> 'b RowIDs \<Rightarrow> 'b RLE \<Rightarrow> 'b RowIDs option" where
  "RLE_row_ids_cmp bm v opr dst r =
     (let dst = RowIDs_clear bm dst
      in case RLE_lookup_entry v r of
           Some encoded_id \<Rightarrow>
             if opr = Op_Equal \<or> opr = Op_NotEqual then None
             else Some (add_runs bm (\<lambda>i. i \<noteq> NULL_ID \<and> op_holds opr i encoded_id) 0 (run_lengths r) dst)
         | None \<Rightarrow>
             (case opr of
                Op_Equal \<Rightarrow> None
              | Op_NotEqual \<Rightarrow> None
              | Op_GT \<Rightarrow> (case find (\<lambda>other. other > v) (RLE_keys r) of Some other \<Rightarrow> RLE_row_ids_cmp bm other Op_GTE dst r | None \<Rightarrow> Some dst)
              | Op_GTE \<Rightarrow> (case find (\<lambda>other. other > v) (RLE_keys r) of Some other \<Rightarrow> RLE_row_ids_cmp bm other Op_GTE dst r | None \<Rightarrow> Some dst)
              | Op_LT \<Rightarrow> (case find (\<lambda>other. other < v) (rev (RLE_keys r)) of Some other \<Rightarrow> RLE_row_ids_cmp bm other Op_LTE dst r | None \<Rightarrow> Some dst)
              | Op_LTE \<Rightarrow> (case find (\<lambda>other. other < v) (rev (RLE_keys r)) of Some other \<Rightarrow> RLE_row_ids_cmp bm other Op_LTE dst r | None \<Rightarrow> Some dst)))"
  by pat_completeness auto

termination
  by (relation "measure (\<lambda>(bm, v, opr, dst, r). if opr = Op_GT \<or> opr = Op_GTE then length (filter (\<lambda>x. x > v) (RLE_keys r)) else length (filter (\<lambda>x. x < v) (RLE_keys r)))")
    (auto simp: find_shrinks)

declare RLE_row_ids_cmp.simps [simp del]

definition RLE_row_ids_filter :: "'b bitmap_ops \<Rightarrow> string \<Rightarrow> Operator \<Rightarrow> 'b RowIDs \<Rightarrow> 'b RLE \<Rightarrow> 'b RowIDs option" where
  "RLE_row_ids_filter bm v opr dst r =
     (if opr = Op_Equal \<or> opr = Op_NotEqual then RLE_row_ids_equal bm v opr dst r else RLE_row_ids_cmp bm v opr dst r)"

section \<open>Values of rows\<close>

definition entry_at :: "'b RLE \<Rightarrow> nat \<Rightarrow> string option" where
  "entry_at r encoded_id = (if encoded_id < length (index_entries r) then Some (index_entries r ! encoded_id) else None)"

definition RLE_dictionary :: "'b RLE \<Rightarrow> string list" where
  "RLE_dictionary r = drop 1 (index_entries r)"

definition RLE_decode_id :: "nat \<Rightarrow> 'b RLE \<Rightarrow> string option option" where
  "RLE_decode_id encoded_id r = (if encoded_id = NULL_ID then Some None else map_option Some (entry_at r encoded_id))"

fun value_loop :: "'b RLE \<Rightarrow> nat \<Rightarrow> nat \<Rightarrow> (nat \<times> nat) list \<Rightarrow> string option option" where
  "value_loop r row_id tot [] = None"
| "value_loop r row_id tot ((encoded_id, rl) # runs) =
     (if tot + rl > row_id then RLE_decode_id encoded_id r else value_loop r row_id (tot + rl) runs)"

definition RLE_value :: "nat \<Rightarrow> 'b RLE \<Rightarrow> string option option" where
  "RLE_value row_id r = (if row_id < rle_rows r then value_loop r row_id 0 (run_lengths r) else None)"

text \<open>
  The readers go over the row ids with the same cursor: the current logical row, the id and the rest of the
  length of the current run, and the runs behind it.  Reading \<open>run_lengths[i]\<close> past the last run panics,
  and so does decreasing a length of zero.
\<close>

type_synonym run_cursor = "nat \<times> nat \<times> nat \<times> (nat \<times> nat) list"

definition RLE_cursor :: "'b RLE \<Rightarrow> run_cursor option" where
  "RLE_cursor r = (case run_lengths r of [] \<Rightarrow> None | (encoded_id, rl) # runs \<Rightarrow> Some (0, encoded_id, rl, runs))"

fun skip_runs :: "nat \<Rightarrow> nat \<Rightarrow> nat \<Rightarrow> nat \<Rightarrow> (nat \<times> nat) list \<Rightarrow> run_cursor option" where
  "skip_runs row_id curr_row curr_id curr_rl [] = (if curr_row + curr_rl \<le> row_id then None else Some (curr_row, curr_id, curr_rl, []))"
| "skip_runs row_id curr_row curr_id curr_rl ((next_id, next_rl) # runs) =
     (if curr_row + curr_rl \<le> row_id then skip_runs row_id (curr_row + curr_rl) next_id next_rl runs
      else Some (curr_row, curr_id, curr_rl, (next_id, next_rl) # runs))"

datatype 's flow = Continue 's | Break 's

text \<open>
  The loop of a reader: it ends before a row id for which \<open>stop\<close> holds; \<open>body\<close> is what it does with the
  encoded id of the row.
\<close>

fun for_row_ids :: "(nat \<Rightarrow> bool) \<Rightarrow> (nat \<Rightarrow> 's \<Rightarrow> 's flow option) \<Rightarrow> nat list \<Rightarrow> run_cursor \<Rightarrow> 's \<Rightarrow> 's option" where
  "for_row_ids stop body [] c s = Some s"
| "for_row_ids stop body (row_id # row_ids) (curr_row, curr_id, curr_rl, runs) s =
     (if stop row_id then Some s
      else
        Option.bind (skip_runs row_id curr_row curr_id curr_rl runs) (\<lambda>(curr_row, curr_id, curr_rl, runs).
          Option.bind (body curr_id s) (\<lambda>fl.
            case fl of
              Break s \<Rightarrow> Some s
            | Continue s \<Rightarrow> if curr_rl = 0 then None else for_row_ids stop body row_ids (curr_row + 1, curr_id, curr_rl - 1, runs) s)))"

definition RLE_values :: "nat list \<Rightarrow> 'b RLE \<Rightarrow> string option list option" where
  "RLE_values row_ids r =
     Option.bind (RLE_cursor r) (\<lambda>c.
       for_row_ids (\<lambda>row_id. row_id \<ge> rle_rows r) (\<lambda>encoded_id dst. map_option (\<lambda>v. Continue (dst @ [v])) (RLE_decode_id encoded_id r)) row_ids c [])"

definition min_body :: "string \<Rightarrow> 'b RLE \<Rightarrow> nat \<Rightarrow> string option \<Rightarrow> string option flow option" where
  "min_body col_min r encoded_id m =
     (if encoded_id = NULL_ID then Some (Continue m)
      else
        map_option
          (\<lambda>candidate.
             case m of
               None \<Rightarrow> Continue (Some candidate)
             | Some curr_min \<Rightarrow>
                 if candidate < curr_min then Continue (Some candidate)
                 else if curr_min = col_min then Break m
                 else Continue m)
          (entry_at r encoded_id))"

definition RLE_min :: "nat list \<Rightarrow> 'b RLE \<Rightarrow> string option option" where
  "RLE_min row_ids r =
     (case RLE_keys r of
        [] \<Rightarrow> Some None
      | col_min # _ \<Rightarrow> Option.bind (RLE_cursor r) (\<lambda>c. for_row_ids (\<lambda>_. False) (min_body col_min r) row_ids c None))"

definition max_body :: "string \<Rightarrow> 'b RLE \<Rightarrow> nat \<Rightarrow> string option \<Rightarrow> string option flow option" where
  "max_body col_max r encoded_id m =
     (if encoded_id = NULL_ID then Some (Continue m)
      else
        map_option
          (\<lambda>candidate.
             case m of
               None \<Rightarrow> Continue (Some candidate)
             | Some curr_max \<Rightarrow>
                 if candidate > curr_max then Continue (Some candidate)
                 else if curr_max = col_max then Break m
                 else Continue m)
          (entry_at r encoded_id))"

definition RLE_max :: "nat list \<Rightarrow> 'b RLE \<Rightarrow> string option option" where
  "RLE_max row_ids r =
     (case rev (RLE_keys r) of
        [] \<Rightarrow> Some None
      | col_max # _ \<Rightarrow> Option.bind (RLE_cursor r) (\<lambda>c. for_row_ids (\<lambda>_. False) (max_body col_max r) row_ids c None))"

definition RLE_column_min :: "'b RLE \<Rightarrow> string option" where
  "RLE_column_min r = (if length (index_entries r) > 1 then Some (index_entries r ! 1) else None)"

definition RLE_column_max :: "'b RLE \<Rightarrow> string option" where
  "RLE_column_max r = (if length (index_entries r) > 1 then Some (last (index_entries r)) else None)"

definition RLE_count :: "nat list \<Rightarrow> 'b RLE \<Rightarrow> nat option" where
  "RLE_count row_ids r =
     Option.bind (RLE_cursor r) (\<lambda>c.
       for_row_ids (\<lambda>_. False) (\<lambda>encoded_id n. if encoded_id = NULL_ID then Some (Continue n) else map_option Continue (u32_add n 1)) row_ids c 0)"

fun all_values_loop :: "'b RLE \<Rightarrow> (nat \<times> nat) list \<Rightarrow> string option list option" where
  "all_values_loop r [] = Some []"
| "all_values_loop r ((encoded_id, rl) # runs) =
     Option.bind (RLE_decode_id encoded_id r) (\<lambda>v. map_option (\<lambda>dst. replicate rl v @ dst) (all_values_loop r runs))"

definition RLE_all_values :: "'b RLE \<Rightarrow> string option list option" where
  "RLE_all_values r = all_values_loop r (run_lengths r)"

text \<open>The state of \<open>distinct_values\<close>: the marks of the ids, the number of marks, and the result set.\<close>

definition distinct_body :: "'b RLE \<Rightarrow> nat \<Rightarrow> bool list \<times> nat \<times> string option set \<Rightarrow> (bool list \<times> nat \<times> string option set) flow option" where
  "distinct_body r encoded_id = (\<lambda>(marks, found, dst).
     if encoded_id < length marks
     then
       map_option (\<lambda>(marks, found, dst). if found = length marks then Break (marks, found, dst) else Continue (marks, found, dst))
         (if \<not> marks ! encoded_id
          then map_option (\<lambda>v. (marks[encoded_id := True], found + 1, insert v dst)) (RLE_decode_id encoded_id r)
          else Some (marks, found, dst))
     else None)"

definition RLE_distinct_values :: "nat list \<Rightarrow> 'b RLE \<Rightarrow> string option set option" where
  "RLE_distinct_values row_ids r =
     (let marks = replicate (length (index_entries r)) False;
          (marks, found) = (if rle_null r then (marks, 0) else (marks[NULL_ID := True], 1))
      in Option.bind (RLE_cursor r) (\<lambda>c.
           Option.bind (for_row_ids (\<lambda>_. False) (distinct_body r) row_ids c (marks, found, {})) (\<lambda>(_, _, dst).
             if card dst \<le> length (index_entries r) then Some dst else None)))"

section \<open>Encoded values\<close>

definition RLE_encoded_values :: "nat list \<Rightarrow> 'b RLE \<Rightarrow> nat list option" where
  "RLE_encoded_values row_ids r =
     Option.bind (RLE_cursor r) (\<lambda>c. for_row_ids (\<lambda>_. False) (\<lambda>encoded_id dst. Some (Continue (dst @ [encoded_id]))) row_ids c [])"

definition RLE_all_encoded_values :: "'b RLE \<Rightarrow> nat list" where
  "RLE_all_encoded_values r = concat (map (\<lambda>(idx, rl). replicate rl idx) (run_lengths r))"

section \<open>Schema exploration\<close>

definition RLE_has_other_non_null_values :: "string set \<Rightarrow> 'b RLE \<Rightarrow> bool" where
  "RLE_has_other_non_null_values vals r \<longleftrightarrow> RLE_cardinality r > card vals \<or> list_ex (\<lambda>entry. entry \<notin> vals) (RLE_keys r)"

definition RLE_has_any_non_null_value :: "'b RLE \<Rightarrow> bool" where
  "RLE_has_any_non_null_value r \<longleftrightarrow> \<not> rle_null r \<or> length (index_entries r) > 1"

definition RLE_find_non_null_value :: "nat list \<Rightarrow> 'b RLE \<Rightarrow> bool option" where
  "RLE_find_non_null_value row_ids r =
     Option.bind (RLE_cursor r) (\<lambda>c.
       for_row_ids (\<lambda>row_id. row_id \<ge> rle_rows r) (\<lambda>encoded_id s. Some (if encoded_id \<noteq> NULL_ID then Break True else Continue s)) row_ids c False)"

definition RLE_has_non_null_value :: "nat list \<Rightarrow> 'b RLE \<Rightarrow> bool option" where
  "RLE_has_non_null_value row_ids r =
     (if rle_null r then RLE_find_non_null_value row_ids r else Some (list_ex (\<lambda>row_id. row_id < rle_rows r) row_ids))"

end
