(* ===== verification/Rb_Rle_Correct.thy ===== *)
theory Rb_Rle_Correct
  imports Rb_Rle
begin

text \<open>
  Correctness of the run-length encoding.  A column stands for the list of its optional strings; its invariant
  says that the dictionary is strictly sorted and that the row ids kept for each entry are the rows of the entry.
  Pushing appends to the list, and every reader is the function of the list that its documentation describes.
\<close>

section \<open>Abstraction and invariant\<close>

definition dec :: "'b RLE \<Rightarrow> nat \<Rightarrow> string option" where
  "dec r encoded_id = (if encoded_id = NULL_ID then None else Some (index_entries r ! encoded_id))"

definition rle_abs :: "'b RLE \<Rightarrow> string option list" where
  "rle_abs r = map (dec r) (RLE_all_encoded_values r)"

definition expand :: "(nat \<times> nat) list \<Rightarrow> nat list" where
  "expand runs = concat (map (\<lambda>(idx, rl). replicate rl idx) runs)"

definition dict_wf :: "string list \<Rightarrow> bool" where
  "dict_wf es \<longleftrightarrow> es \<noteq> [] \<and> hd es = '''' \<and> sorted_wrt (<) (tl es) \<and> length es \<le> 2 ^ 32"

definition rle_wf :: "'b bitmap_ops \<Rightarrow> 'b RLE \<Rightarrow> bool" where
  "rle_wf bm r \<longleftrightarrow>
     dict_wf (index_entries r)
     \<and> length (index_row_ids r) = length (index_entries r)
     \<and> (\<forall>(idx, rl)\<in>set (run_lengths r). idx < length (index_entries r))
     \<and> rle_rows r = length (RLE_all_encoded_values r) \<and> rle_rows r < 2 ^ 32
     \<and> rle_null r = (NULL_ID \<in> fst ` set (run_lengths r))
     \<and> (\<forall>i<length (index_entries r). \<exists>b. index_row_ids r ! i = RowIDs_Bitmap b \<and> bm_to_vec bm b = rows_where (\<lambda>idx. idx = i) (RLE_all_encoded_values r))"

lemma all_encoded_expand: "RLE_all_encoded_values r = expand (run_lengths r)"
  by (simp add: RLE_all_encoded_values_def expand_def)

lemma expand_simps [simp]: "expand [] = []" "expand ((i, n) # runs) = replicate n i @ expand runs" "expand (xs @ ys) = expand xs @ expand ys"
  by (simp_all add: expand_def)

lemma expand_subset: "set (expand runs) \<subseteq> fst ` set runs"
  by (induction runs) auto

lemma length_abs [simp]: "length (rle_abs r) = length (RLE_all_encoded_values r)"
  by (simp add: rle_abs_def)

lemma nth_abs: "i < length (RLE_all_encoded_values r) \<Longrightarrow> rle_abs r ! i = dec r (RLE_all_encoded_values r ! i)"
  by (simp add: rle_abs_def)

lemma rle_wfD:
  assumes "rle_wf bm r"
  shows "index_entries r \<noteq> []" "sorted_wrt (<) (tl (index_entries r))" "length (index_entries r) \<le> 2 ^ 32"
    "length (index_row_ids r) = length (index_entries r)"
    "idx \<in> set (RLE_all_encoded_values r) \<Longrightarrow> idx < length (index_entries r)"
    "rle_rows r = length (RLE_all_encoded_values r)" "rle_rows r < 2 ^ 32"
    "rle_null r = (NULL_ID \<in> fst ` set (run_lengths r))"
proof -
  show "idx < length (index_entries r)" if "idx \<in> set (RLE_all_encoded_values r)"
    using assms that expand_subset [of "run_lengths r"] by (fastforce simp: rle_wf_def all_encoded_expand)
qed (use assms in \<open>auto simp: rle_wf_def dict_wf_def\<close>)

lemma rle_wf_rows:
  assumes "rle_wf bm r" and "i < length (index_entries r)"
  obtains b where "index_row_ids r ! i = RowIDs_Bitmap b" and "bm_to_vec bm b = rows_where (\<lambda>idx. idx = i) (RLE_all_encoded_values r)"
  using assms by (auto simp: rle_wf_def)

section \<open>The dictionary\<close>

lemma takeWhile_sorted:
  assumes "sorted_wrt (<) xs" and "i < length xs" and "xs ! i = v"
  shows "length (takeWhile (\<lambda>x. x < v) (xs :: 'a::linorder list)) = i"
proof -
  have "\<And>j. j < i \<Longrightarrow> xs ! j < v" using assms sorted_wrt_nth_less by blast
  then have "takeWhile (\<lambda>x. x < v) xs = take i xs"
    using assms by (intro takeWhile_eq_take_P_nth) auto
  then show ?thesis using assms(2) by simp
qed

lemma binary_search_Ok: "sorted_wrt (<) xs \<Longrightarrow> i < length xs \<Longrightarrow> binary_search xs (xs ! i) = Ok i"
  by (simp add: binary_search_def takeWhile_sorted)

lemma binary_search_OkD: "binary_search xs v = Ok i \<Longrightarrow> i < length xs \<and> xs ! i = v"
  by (simp add: binary_search_def Let_def split: if_splits)

lemma binary_search_not_Panic: "binary_search xs v \<noteq> Panic"
  by (simp add: binary_search_def Let_def)

lemma lookup_SomeD:
  assumes "dict_wf (index_entries r)" and "RLE_lookup_entry v r = Some i"
  shows "0 < i" "i < length (index_entries r)" "index_entries r ! i = v"
proof -
  obtain j where "binary_search (tl (index_entries r)) v = Ok j" and i: "i = as_u32 j + 1"
    using assms(2) by (auto simp: RLE_lookup_entry_def split: res.splits)
  then have j: "j < length (tl (index_entries r))" "tl (index_entries r) ! j = v" using binary_search_OkD by blast+
  then have "j < 2 ^ 32" using assms(1) by (auto simp: dict_wf_def)
  then have "i = Suc j" using i by (simp add: as_u32_def)
  with j assms(1) show "0 < i" "i < length (index_entries r)" "index_entries r ! i = v"
    by (cases "index_entries r"; simp add: dict_wf_def)+
qed

lemma lookup_NoneD:
  assumes "dict_wf (index_entries r)" and "RLE_lookup_entry v r = None"
  shows "v \<notin> set (tl (index_entries r))"
proof
  assume "v \<in> set (tl (index_entries r))"
  then obtain j where "j < length (tl (index_entries r))" "tl (index_entries r) ! j = v" by (auto simp: in_set_conv_nth)
  then have "binary_search (tl (index_entries r)) v = Ok j"
    using binary_search_Ok [of "tl (index_entries r)" j] assms(1) by (auto simp: dict_wf_def)
  then show False using assms(2) by (simp add: RLE_lookup_entry_def)
qed

lemma lookup_in: "dict_wf (index_entries r) \<Longrightarrow> v \<in> set (tl (index_entries r)) \<Longrightarrow> \<exists>i. RLE_lookup_entry v r = Some i"
  using lookup_NoneD by blast

lemma entry_in_keys: "0 < i \<Longrightarrow> i < length es \<Longrightarrow> es ! i \<in> set (tl es)"
  by (cases es) (auto simp: nth_Cons')

text \<open>The order of the ids is the order of the entries.\<close>

lemma entries_less_iff:
  assumes "dict_wf es" and "0 < i" "i < length es" and "0 < j" "j < length es"
  shows "es ! i < es ! j \<longleftrightarrow> i < j"
proof -
  have less: "es ! a < es ! b" if "a < b" "0 < a" "b < length es" for a b
  proof -
    have "tl es ! (a - 1) < tl es ! (b - 1)" using assms(1) that sorted_wrt_nth_less [of "(<)" "tl es" "a - 1" "b - 1"] by (auto simp: dict_wf_def)
    then show ?thesis using that by (simp add: nth_tl)
  qed
  show ?thesis using less [of i j] less [of j i] assms by (metis less_asym linorder_neqE_nat less_irrefl)
qed

lemma entries_op_iff:
  assumes "dict_wf es" and "0 < i" "i < length es" and "0 < j" "j < length es"
  shows "op_holds opr i j = op_holds opr (es ! i) (es ! j)"
proof -
  have ij: "(es ! i < es ! j) = (i < j)" "(es ! j < es ! i) = (j < i)" using entries_less_iff assms by blast+
  then have "(es ! i = es ! j) = (i = j)" by (metis less_irrefl linorder_neqE_nat)
  with ij show ?thesis by (cases opr) (auto simp: not_less [symmetric])
qed

section \<open>Pushing values\<close>

lemma push_run_SomeD:
  assumes "push_run i n runs = Some runs'"
  shows "expand runs' = expand runs @ replicate n i" "fst ` set runs' = insert i (fst ` set runs)"
proof -
  have "expand runs' = expand runs @ replicate n i \<and> fst ` set runs' = insert i (fst ` set runs)"
  proof (cases runs rule: rev_cases)
    case Nil
    then show ?thesis using assms by (auto simp: push_run_def)
  next
    case (snoc ys y)
    obtain a b where y: "y = (a, b)" by fastforce
    have "runs' = (if a = i then ys @ [(i, b + n)] else ys @ [(a, b), (i, n)])"
      using assms snoc y by (auto simp: push_run_def u32_add_def split: if_splits)
    then show ?thesis using snoc y by (auto simp: replicate_add simp del: set_map)
  qed
  then show "expand runs' = expand runs @ replicate n i" "fst ` set runs' = insert i (fst ` set runs)" by blast+
qed

lemma push_run_Some: "length (expand runs) + n < 2 ^ 32 \<Longrightarrow> \<exists>runs'. push_run i n runs = Some runs'"
  by (cases runs rule: rev_cases) (auto simp: push_run_def u32_add_def split: if_splits)

lemma rows_where_extend:
  "rows_where (\<lambda>idx. idx = i) (enc @ replicate n j) = rows_where (\<lambda>idx. idx = i) enc @ (if i = j then [length enc..<length enc + n] else [])"
  using map_add_upt [of "length enc" n] by (auto simp: rows_where_append rows_where_replicate add.commute)

text \<open>Adding rows of an id that is in the dictionary.\<close>

lemma add_rows_correct:
  assumes bm: "roaring bm" and wf: "rle_wf bm r" and i: "i < length (index_entries r)" and n: "rle_rows r + n < 2 ^ 32"
    and runs: "expand runs = expand (run_lengths r) @ replicate n i" "fst ` set runs = insert i (fst ` set (run_lengths r))"
    and nul: "nul = (i = NULL_ID \<or> rle_null r)"
  shows "\<exists>r'. add_rows bm i n (r\<lparr>run_lengths := runs, rle_null := nul\<rparr>) = Some r' \<and> rle_wf bm r' \<and> rle_abs r' = rle_abs r @ replicate n (dec r i)
    \<and> index_entries r' = index_entries r \<and> rle_rows r' = rle_rows r + n"
proof -
  let ?enc = "RLE_all_encoded_values r"
  define ids where "ids = RowIDs_add_range bm (rle_rows r) (rle_rows r + n) (index_row_ids r ! i)"
  define r' where "r' = r\<lparr>run_lengths := runs, rle_null := nul, index_row_ids := (index_row_ids r)[i := ids], rle_rows := rle_rows r + n\<rparr>"
  have enc: "RLE_all_encoded_values r' = ?enc @ replicate n i" by (simp add: r'_def all_encoded_expand runs)
  have "add_rows bm i n (r\<lparr>run_lengths := runs, rle_null := nul\<rparr>) = Some r'"
    using i n rle_wfD(4) [OF wf] by (simp add: add_rows_def u32_add_def r'_def ids_def)
  moreover have "rle_abs r' = rle_abs r @ replicate n (dec r i)"
    unfolding rle_abs_def enc by (simp add: r'_def dec_def)
  moreover have "rle_wf bm r'"
    unfolding rle_wf_def
  proof (intro conjI)
    show "\<forall>(idx, rl)\<in>set (run_lengths r'). idx < length (index_entries r')"
    proof -
      have "\<forall>idx\<in>fst ` set (run_lengths r). idx < length (index_entries r)" using wf by (auto simp: rle_wf_def)
      then have "\<forall>idx\<in>fst ` set runs. idx < length (index_entries r)" using i runs(2) by simp
      then show ?thesis by (force simp: r'_def)
    qed
    show "\<forall>k<length (index_entries r'). \<exists>b. index_row_ids r' ! k = RowIDs_Bitmap b \<and> bm_to_vec bm b = rows_where (\<lambda>idx. idx = k) (RLE_all_encoded_values r')"
    proof (intro allI impI)
      fix k assume "k < length (index_entries r')"
      then have k: "k < length (index_entries r)" by (simp add: r'_def)
      then obtain b where b: "index_row_ids r ! k = RowIDs_Bitmap b" "bm_to_vec bm b = rows_where (\<lambda>idx. idx = k) ?enc"
        using wf rle_wf_rows by blast
      show "\<exists>b. index_row_ids r' ! k = RowIDs_Bitmap b \<and> bm_to_vec bm b = rows_where (\<lambda>idx. idx = k) (RLE_all_encoded_values r')"
      proof (cases "k = i")
        case True
        have "RowIDs_to_vec bm (RowIDs_add_range bm (rle_rows r) (rle_rows r + n) (RowIDs_Bitmap b)) = bm_to_vec bm b @ [rle_rows r..<rle_rows r + n]"
        proof (subst to_vec_add_range [OF bm])
          show "\<forall>x\<in>set (RowIDs_to_vec bm (RowIDs_Bitmap b)). x < rle_rows r" using b(2) rle_wfD(6) [OF wf] by (auto dest: rows_where_lt)
        qed simp
        then show ?thesis
          using True b k rle_wfD(4,6) [OF wf] unfolding enc by (simp add: rows_where_extend r'_def ids_def)
      next
        case False
        then show ?thesis using b unfolding enc by (simp add: rows_where_extend r'_def)
      qed
    qed
    show "rle_rows r' = length (RLE_all_encoded_values r')" unfolding enc using rle_wfD(6) [OF wf] by (simp add: r'_def)
  qed (use wf n nul runs in \<open>auto simp: rle_wf_def r'_def\<close>)
  ultimately show ?thesis by (auto simp: r'_def)
qed

lemma add_rows_None: "\<not> rle_rows r + n < 2 ^ 32 \<Longrightarrow> add_rows bm i n r = None"
  by (simp add: add_rows_def u32_add_def)

text \<open>A new entry behind the last one.\<close>

lemma dict_wf_snoc:
  assumes "dict_wf es" and "last es < e" and "length es < 2 ^ 32"
  shows "dict_wf (es @ [e])"
proof -
  have "x < e" if "x \<in> set (tl es)" for x
  proof -
    have "x \<le> last (tl es)" using assms(1) that
      by (cases "tl es" rule: rev_cases) (auto simp: dict_wf_def sorted_wrt_append intro: less_imp_le)
    moreover have "last (tl es) = last es" using that by (cases es) auto
    ultimately show ?thesis using assms(2) by simp
  qed
  then show ?thesis using assms by (auto simp: dict_wf_def sorted_wrt_append)
qed

lemma add_entry_correct:
  assumes bm: "roaring bm" and wf: "rle_wf bm r" and e: "RLE_last_entry r < e" and len: "length (index_entries r) < 2 ^ 32"
  defines "r' \<equiv> snd (RLE_add_entry bm e r)"
  shows "fst (RLE_add_entry bm e r) = length (index_entries r)" "rle_wf bm r'" "rle_abs r' = rle_abs r" "run_lengths r' = run_lengths r"
    "rle_rows r' = rle_rows r" "rle_null r' = rle_null r" "index_entries r' = index_entries r @ [e]"
proof -
  have enc: "RLE_all_encoded_values r' = RLE_all_encoded_values r" by (simp add: r'_def RLE_add_entry_def all_encoded_expand)
  show "fst (RLE_add_entry bm e r) = length (index_entries r)" using len by (simp add: RLE_add_entry_def as_u32_def)
  show "rle_abs r' = rle_abs r"
    unfolding rle_abs_def enc using rle_wfD(5) [OF wf] by (auto simp: r'_def RLE_add_entry_def dec_def nth_append)
  show "rle_wf bm r'"
    unfolding rle_wf_def
  proof (intro conjI)
    show "\<forall>k<length (index_entries r'). \<exists>b. index_row_ids r' ! k = RowIDs_Bitmap b \<and> bm_to_vec bm b = rows_where (\<lambda>idx. idx = k) (RLE_all_encoded_values r')"
    proof (intro allI impI)
      fix k assume "k < length (index_entries r')"
      then consider "k < length (index_entries r)" | "k = length (index_entries r)" by (fastforce simp: r'_def RLE_add_entry_def)
      then show "\<exists>b. index_row_ids r' ! k = RowIDs_Bitmap b \<and> bm_to_vec bm b = rows_where (\<lambda>idx. idx = k) (RLE_all_encoded_values r')"
      proof cases
        case 1
        then show ?thesis
          using rle_wf_rows [OF wf 1] rle_wfD(4) [OF wf] unfolding enc by (auto simp: r'_def RLE_add_entry_def nth_append)
      next
        case 2
        have "rows_where (\<lambda>idx. idx = k) (RLE_all_encoded_values r) = rows_where (\<lambda>_. False) (RLE_all_encoded_values r)"
          using 2 rle_wfD(5) [OF wf] by (intro rows_where_cong) auto
        then show ?thesis
          using 2 rle_wfD(4) [OF wf] bm unfolding enc
          by (simp add: r'_def RLE_add_entry_def nth_append RowIDs_new_bitmap_def roaringD rows_where_def)
      qed
    qed
    show "dict_wf (index_entries r')"
      using dict_wf_snoc [of "index_entries r" e] wf e len by (simp add: r'_def RLE_add_entry_def rle_wf_def RLE_last_entry_def)
    show "rle_rows r' = length (RLE_all_encoded_values r')"
      unfolding enc using wf by (simp add: r'_def RLE_add_entry_def rle_wf_def)
  qed (use wf in \<open>auto simp: rle_wf_def r'_def RLE_add_entry_def\<close>)
qed (simp_all add: r'_def RLE_add_entry_def)

text \<open>A value can be pushed when it is in the dictionary or greater than the last entry.\<close>

fun pushable :: "string option \<Rightarrow> 'b RLE \<Rightarrow> bool" where
  "pushable None r \<longleftrightarrow> True"
| "pushable (Some v) r \<longleftrightarrow> v \<in> set (RLE_keys r) \<or> RLE_last_entry r < v"

lemma RLE_keys_tl: "RLE_keys r = tl (index_entries r)"
  by (simp add: RLE_keys_def drop_Suc)

lemma push_additional_none_correct:
  assumes bm: "roaring bm" and wf: "rle_wf bm r" and n: "rle_rows r + n < 2 ^ 32"
  shows "\<exists>r'. push_additional_none bm n r = Some r' \<and> rle_wf bm r' \<and> rle_abs r' = rle_abs r @ replicate n None
    \<and> index_entries r' = index_entries r \<and> rle_rows r' = rle_rows r + n"
proof -
  obtain runs where runs: "push_run NULL_ID n (run_lengths r) = Some runs"
    using push_run_Some n rle_wfD(6) [OF wf] unfolding all_encoded_expand by metis
  have "rle_null r" if "run_lengths r \<noteq> []" "fst (last (run_lengths r)) = NULL_ID"
    using that rle_wfD(8) [OF wf] by (metis image_eqI last_in_set)
  then have "push_additional_none bm n r = add_rows bm NULL_ID n (r\<lparr>run_lengths := runs, rle_null := True\<rparr>)"
    using runs by (cases r) (auto simp: push_additional_none_def)
  moreover have "NULL_ID < length (index_entries r)" using rle_wfD(1) [OF wf] by (simp add: NULL_ID_def)
  ultimately show ?thesis
    using add_rows_correct [OF bm wf _ n push_run_SomeD [OF runs], of True] by (simp add: dec_def)
qed

lemma push_known_correct:
  assumes bm: "roaring bm" and wf: "rle_wf bm r" and n: "rle_rows r + n < 2 ^ 32" and look: "RLE_lookup_entry v r = Some i"
  shows "\<exists>r'. push_additional_some bm v n r = Some r' \<and> rle_wf bm r' \<and> rle_abs r' = rle_abs r @ replicate n (Some v)
    \<and> index_entries r' = index_entries r \<and> rle_rows r' = rle_rows r + n"
proof -
  have i: "0 < i" "i < length (index_entries r)" "index_entries r ! i = v"
    using lookup_SomeD [OF _ look] wf by (auto simp: rle_wf_def)
  obtain runs where runs: "push_run i n (run_lengths r) = Some runs"
    using push_run_Some n rle_wfD(6) [OF wf] unfolding all_encoded_expand by metis
  have "push_additional_some bm v n r = add_rows bm i n (r\<lparr>run_lengths := runs, rle_null := rle_null r\<rparr>)"
    using look runs by (simp add: push_additional_some_def)
  then show ?thesis
    using add_rows_correct [OF bm wf i(2) n push_run_SomeD [OF runs], of "rle_null r"] i by (simp add: dec_def NULL_ID_def)
qed

lemma push_new_correct:
  assumes bm: "roaring bm" and wf: "rle_wf bm r" and n: "rle_rows r + n < 2 ^ 32" and look: "RLE_lookup_entry v r = None"
    and v: "RLE_last_entry r < v" and len: "length (index_entries r) < 2 ^ 32"
  shows "\<exists>r'. push_additional_some bm v n r = Some r' \<and> rle_wf bm r' \<and> rle_abs r' = rle_abs r @ replicate n (Some v)
    \<and> index_entries r' = index_entries r @ [v] \<and> rle_rows r' = rle_rows r + n"
proof -
  define i where "i = length (index_entries r)"
  obtain r1 where add: "RLE_add_entry bm v r = (i, r1)" and r1: "r1 = snd (RLE_add_entry bm v r)"
    using add_entry_correct(1) [OF bm wf v len] unfolding i_def by (metis prod.collapse)
  note r1_facts = add_entry_correct [OF bm wf v len, folded r1]
  let ?runs = "run_lengths r1 @ [(i, n)]"
  have "push_additional_some bm v n r = add_rows bm i n (r1\<lparr>run_lengths := ?runs, rle_null := rle_null r1\<rparr>)"
    using look v add by (simp add: push_additional_some_def)
  moreover have "i < length (index_entries r1)" "i \<noteq> NULL_ID" "dec r1 i = Some v"
    using r1_facts(7) rle_wfD(1) [OF wf] by (auto simp: i_def NULL_ID_def dec_def)
  ultimately show ?thesis
    using add_rows_correct [OF bm r1_facts(2), of i n ?runs "rle_null r1"] n r1_facts by simp
qed

lemma push_additional_correct:
  assumes bm: "roaring bm" and wf: "rle_wf bm r" and len: "length (index_entries r) < 2 ^ 32"
  shows "if rle_rows r + n < 2 ^ 32 \<and> pushable v r
    then \<exists>r'. RLE_push_additional bm v n r = Some r' \<and> rle_wf bm r' \<and> rle_abs r' = rle_abs r @ replicate n v
      \<and> index_entries r' = index_entries r @ (case v of Some s \<Rightarrow> if s \<in> set (RLE_keys r) then [] else [s] | None \<Rightarrow> []) \<and> rle_rows r' = rle_rows r + n
    else RLE_push_additional bm v n r = None"
proof (cases v)
  case None
  then show ?thesis
    using push_additional_none_correct [OF bm wf, of n]
    by (auto simp: RLE_push_additional_def push_additional_none_def add_rows_None bind_eq_None_conv)
next
  case (Some s)
  have dict: "dict_wf (index_entries r)" using wf by (simp add: rle_wf_def)
  show ?thesis
  proof (cases "RLE_lookup_entry s r")
    case None
    then have "s \<notin> set (RLE_keys r)" using lookup_NoneD [OF dict] by (simp add: RLE_keys_tl)
    then show ?thesis
      using Some None push_new_correct [OF bm wf _ None _ len, of n]
      by (auto simp: RLE_push_additional_def push_additional_some_def RLE_add_entry_def add_rows_None)
  next
    case look: (Some i)
    then have "s \<in> set (RLE_keys r)" using lookup_SomeD [OF dict look] entry_in_keys by (metis RLE_keys_tl)
    moreover have "push_additional_some bm s n r = None" if "\<not> rle_rows r + n < 2 ^ 32"
      using look that by (simp add: push_additional_some_def add_rows_None bind_eq_None_conv)
    ultimately show ?thesis
      using Some push_known_correct [OF bm wf _ look, of n] by (simp add: RLE_push_additional_def)
  qed
qed

section \<open>Making encodings\<close>

lemma RLE_default_correct: "roaring bm \<Longrightarrow> rle_wf bm (RLE_default bm)" "rle_abs (RLE_default bm) = []"
  by (simp_all add: rle_wf_def dict_wf_def RLE_default_def all_encoded_expand RowIDs_new_bitmap_def roaringD rle_abs_def)

lemma with_dictionary_fields:
  "foldl (\<lambda>r entry. snd (RLE_add_entry bm entry r)) r ks =
     r\<lparr>index_entries := index_entries r @ ks, index_row_ids := index_row_ids r @ replicate (length ks) (RowIDs_new_bitmap bm)\<rparr>"
  by (induction ks arbitrary: r) (simp_all add: RLE_add_entry_def)

lemma RLE_with_dictionary_correct:
  assumes "roaring bm" and "sorted_wrt (<) ks" and "length ks < 2 ^ 32"
  shows "rle_wf bm (RLE_with_dictionary bm ks)" "rle_abs (RLE_with_dictionary bm ks) = []" "RLE_keys (RLE_with_dictionary bm ks) = ks"
proof -
  have "RLE_with_dictionary bm ks = \<lparr>index_entries = '''' # ks, index_row_ids = replicate (Suc (length ks)) (RowIDs_new_bitmap bm), run_lengths = [], rle_null = False, rle_rows = 0\<rparr>"
    unfolding RLE_with_dictionary_def with_dictionary_fields by (simp add: RLE_default_def)
  then show "rle_wf bm (RLE_with_dictionary bm ks)" "rle_abs (RLE_with_dictionary bm ks) = []" "RLE_keys (RLE_with_dictionary bm ks) = ks"
    using assms by (simp_all add: rle_wf_def dict_wf_def all_encoded_expand RowIDs_new_bitmap_def roaringD rle_abs_def RLE_keys_def del: replicate_Suc)
qed

text \<open>The strings of a column without its NULLs.\<close>

fun non_nulls :: "string option list \<Rightarrow> string list" where
  "non_nulls [] = []"
| "non_nulls (None # vs) = non_nulls vs"
| "non_nulls (Some v # vs) = v # non_nulls vs"

lemma set_non_nulls: "v \<in> set (non_nulls vs) \<longleftrightarrow> Some v \<in> set vs"
  by (induction vs rule: non_nulls.induct) auto

lemma last_pushable:
  assumes "dict_wf (index_entries r)" and "RLE_last_entry r \<le> v" and "v \<noteq> ''''"
  shows "pushable (Some v) r"
proof (cases "RLE_last_entry r = v")
  case True
  then have "v \<in> set (tl (index_entries r))"
    using assms by (cases "index_entries r") (auto simp: RLE_last_entry_def dict_wf_def split: if_splits)
  then show ?thesis by (simp add: RLE_keys_tl)
qed (use assms in \<open>simp add: order.strict_iff_order\<close>)

lemma push_all_correct:
  assumes bm: "roaring bm" and "rle_wf bm r" and "length (index_entries r) \<le> rle_rows r + 1" and "rle_rows r + length vs < 2 ^ 32"
    and "sorted (RLE_last_entry r # non_nulls vs)" and "'''' \<notin> set (non_nulls vs)"
  shows "\<exists>r'. RLE_push_all bm vs r = Some r' \<and> rle_wf bm r' \<and> rle_abs r' = rle_abs r @ vs"
  using assms(2-)
proof (induction vs arbitrary: r)
  case Nil
  then show ?case by simp
next
  case (Cons v vs)
  have dict: "dict_wf (index_entries r)" using Cons.prems(1) by (simp add: rle_wf_def)
  have "pushable v r" using last_pushable [OF dict] Cons.prems(4,5) by (cases v) auto
  then obtain r1 where r1: "RLE_push_additional bm v 1 r = Some r1" "rle_wf bm r1" "rle_abs r1 = rle_abs r @ [v]" "rle_rows r1 = rle_rows r + 1"
      "index_entries r1 = index_entries r @ (case v of Some s \<Rightarrow> if s \<in> set (RLE_keys r) then [] else [s] | None \<Rightarrow> [])"
    using push_additional_correct [OF bm Cons.prems(1), of 1 v] Cons.prems(2,3) by auto
  have "sorted (RLE_last_entry r1 # non_nulls vs)"
    using r1(5) Cons.prems(4) by (cases v) (auto simp: RLE_last_entry_def)
  moreover have "length (index_entries r1) \<le> rle_rows r1 + 1" using r1(4,5) Cons.prems(2) by (auto split: option.splits)
  moreover have "'''' \<notin> set (non_nulls vs)" using Cons.prems(5) by (cases v) auto
  ultimately obtain r' where "RLE_push_all bm vs r1 = Some r'" "rle_wf bm r'" "rle_abs r' = rle_abs r1 @ vs"
    using Cons.IH [of r1] r1(2,4) Cons.prems(3) by auto
  then show ?case using r1 by (cases v) (simp_all add: RLE_push_def RLE_push_none_def)
qed

lemma RLE_from_correct:
  assumes "roaring bm" and "length vs < 2 ^ 32" and "sorted (non_nulls vs)" and "'''' \<notin> set (non_nulls vs)"
  shows "\<exists>r. RLE_from bm vs = Some r \<and> rle_wf bm r \<and> rle_abs r = vs"
  using push_all_correct [OF assms(1), of "RLE_default bm" vs] assms RLE_default_correct [of bm]
  by (auto simp: RLE_from_def RLE_default_def RLE_last_entry_def)

section \<open>Row ids of values\<close>

lemma add_runs_correct:
  assumes "roaring bm" and "\<forall>x\<in>set (RowIDs_to_vec bm dst). x < k"
  shows "RowIDs_to_vec bm (add_runs bm P k runs dst) = RowIDs_to_vec bm dst @ map (\<lambda>i. k + i) (rows_where P (expand runs))"
  using assms(2)
proof (induction runs arbitrary: k dst)
  case (Cons run runs)
  obtain idx rl where run: "run = (idx, rl)" by fastforce
  define dst' where "dst' = (if P idx then RowIDs_add_range bm k (k + rl) dst else dst)"
  have dst': "RowIDs_to_vec bm dst' = RowIDs_to_vec bm dst @ (if P idx then [k..<k + rl] else [])"
    using to_vec_add_range [OF assms(1) Cons.prems, of "k + rl"] by (simp add: dst'_def)
  have "\<forall>x\<in>set (RowIDs_to_vec bm dst'). x < k + rl" using dst' Cons.prems by auto
  then have "RowIDs_to_vec bm (add_runs bm P (k + rl) runs dst') = RowIDs_to_vec bm dst' @ map (\<lambda>i. k + rl + i) (rows_where P (expand runs))"
    by (rule Cons.IH)
  moreover have "map (\<lambda>i. k + i) (rows_where P (replicate rl idx @ expand runs)) =
      (if P idx then [k..<k + rl] else []) @ map (\<lambda>i. k + rl + i) (rows_where P (expand runs))"
    using map_add_upt [of k rl] by (simp add: rows_where_append rows_where_replicate comp_def add.assoc add.commute)
  ultimately show ?case using dst' by (simp add: run dst'_def [symmetric])
qed simp

lemma add_runs_clear:
  "roaring bm \<Longrightarrow> RowIDs_to_vec bm (add_runs bm P 0 (run_lengths r) (RowIDs_clear bm dst)) = rows_where P (RLE_all_encoded_values r)"
  by (simp add: add_runs_correct all_encoded_expand)

fun value_holds :: "Operator \<Rightarrow> string \<Rightarrow> string option \<Rightarrow> bool" where
  "value_holds opr v None \<longleftrightarrow> False"
| "value_holds opr v (Some x) \<longleftrightarrow> op_holds opr x v"

lemma rows_where_abs: "rows_where P (rle_abs r) = rows_where (\<lambda>idx. P (dec r idx)) (RLE_all_encoded_values r)"
  by (simp add: rle_abs_def rows_where_map)

text \<open>Comparing encoded ids with the id of an entry compares the values with the entry.\<close>

lemma rows_where_ids:
  assumes wf: "rle_wf bm r" and look: "RLE_lookup_entry v r = Some i"
  shows "rows_where (\<lambda>idx. idx \<noteq> NULL_ID \<and> op_holds opr idx i) (RLE_all_encoded_values r) = rows_where (value_holds opr v) (rle_abs r)"
  unfolding rows_where_abs
proof (rule rows_where_cong)
  fix idx assume idx: "idx \<in> set (RLE_all_encoded_values r)"
  have dict: "dict_wf (index_entries r)" using wf by (simp add: rle_wf_def)
  show "(idx \<noteq> NULL_ID \<and> op_holds opr idx i) = value_holds opr v (dec r idx)"
    using entries_op_iff [OF dict _ rle_wfD(5) [OF wf idx], of i opr] lookup_SomeD [OF dict look]
    by (cases "idx = NULL_ID") (simp_all add: dec_def NULL_ID_def)
qed

lemma row_ids_is_null_correct:
  assumes "roaring bm"
  shows "RowIDs_to_vec bm (RLE_row_ids_is_null bm b dst r) = rows_where (\<lambda>x. (x = None) = b) (rle_abs r)"
  using assms unfolding RLE_row_ids_is_null_def add_runs_clear [OF assms] rows_where_abs
  by (intro rows_where_cong) (simp add: dec_def)

lemma abs_in_keys:
  assumes "rle_wf bm r" and "Some x \<in> set (rle_abs r)"
  shows "x \<in> set (RLE_keys r)"
proof -
  obtain idx where idx: "idx \<in> set (RLE_all_encoded_values r)" "dec r idx = Some x" using assms(2) by (auto simp: rle_abs_def)
  then have "0 < idx" "index_entries r ! idx = x" by (auto simp: dec_def NULL_ID_def split: if_splits)
  then show ?thesis using entry_in_keys rle_wfD(5) [OF assms(1) idx(1)] by (auto simp: RLE_keys_tl)
qed

lemma rows_where_const: "rows_where (\<lambda>_. b) vs = (if b then [0..<length vs] else [])"
  by (simp add: rows_where_def)

lemma rows_where_none: "(\<And>x. x \<in> set vs \<Longrightarrow> \<not> P x) \<Longrightarrow> rows_where P vs = []"
  using rows_where_cong [of vs P "\<lambda>_. False"] rows_where_const [of False vs] by auto

lemma no_null_abs: "rle_wf bm r \<Longrightarrow> \<not> rle_null r \<Longrightarrow> None \<notin> set (rle_abs r)"
  using rle_wfD(8) [of bm r] expand_subset [of "run_lengths r"] by (auto simp: rle_abs_def dec_def all_encoded_expand split: if_splits)

lemma row_ids_equal_correct:
  assumes bm: "roaring bm" and wf: "rle_wf bm r" and opr: "opr = Op_Equal \<or> opr = Op_NotEqual"
  shows "\<exists>out. RLE_row_ids_equal bm v opr dst r = Some out \<and> RowIDs_to_vec bm out = rows_where (value_holds opr v) (rle_abs r)"
proof (cases "RLE_lookup_entry v r")
  case None
  then have v: "v \<notin> set (RLE_keys r)" using wf lookup_NoneD [of r v] by (simp add: rle_wf_def RLE_keys_tl)
  have ne: "rows_where (value_holds Op_NotEqual v) (rle_abs r) = rows_where (\<lambda>x. (x = None) = False) (rle_abs r)"
  proof (rule rows_where_cong)
    fix x assume "x \<in> set (rle_abs r)"
    then show "value_holds Op_NotEqual v x = ((x = None) = False)" using v abs_in_keys [OF wf] by (cases x rule: option.exhaust) auto
  qed
  moreover have "rows_where (\<lambda>x. (x = None) = False) (rle_abs r) = [0..<rle_rows r]" if "\<not> rle_null r"
  proof -
    have "rows_where (\<lambda>x. (x = None) = False) (rle_abs r) = rows_where (\<lambda>_. True) (rle_abs r)"
      using no_null_abs [OF wf that] by (intro rows_where_cong) metis
    then show ?thesis using rle_wfD(6) [OF wf] by (simp add: rows_where_const)
  qed
  moreover have "rows_where (value_holds Op_Equal v) (rle_abs r) = []"
  proof (rule rows_where_none)
    show "\<not> value_holds Op_Equal v x" if "x \<in> set (rle_abs r)" for x using that v abs_in_keys [OF wf] by (cases x rule: option.exhaust) auto
  qed
  ultimately show ?thesis
    using opr None bm by (auto simp: RLE_row_ids_equal_def RLE_row_ids_not_null_def row_ids_is_null_correct to_vec_add_range Let_def)
next
  case (Some i)
  have i: "0 < i" "i < length (index_entries r)" using lookup_SomeD [OF _ Some] wf by (auto simp: rle_wf_def)
  obtain b where b: "index_row_ids r ! i = RowIDs_Bitmap b" "bm_to_vec bm b = rows_where (\<lambda>idx. idx = i) (RLE_all_encoded_values r)"
    using rle_wf_rows [OF wf i(2)] .
  have "rows_where (\<lambda>idx. idx = i) (RLE_all_encoded_values r) = rows_where (\<lambda>idx. idx \<noteq> NULL_ID \<and> op_holds Op_Equal idx i) (RLE_all_encoded_values r)"
    using i(1) by (intro rows_where_cong) (auto simp: NULL_ID_def)
  then have "bm_to_vec bm b = rows_where (value_holds Op_Equal v) (rle_abs r)" using b(2) rows_where_ids [OF wf Some, of Op_Equal] by simp
  moreover have "RowIDs_to_vec bm (add_runs bm (\<lambda>idx. idx \<noteq> NULL_ID \<and> idx \<noteq> i) 0 (run_lengths r) (RowIDs_clear bm dst)) = rows_where (value_holds Op_NotEqual v) (rle_abs r)"
    using rows_where_ids [OF wf Some, of Op_NotEqual] by (simp add: add_runs_clear [OF bm])
  ultimately show ?thesis
    using opr Some i(2) b(1) union_clear [OF bm, of dst b] rle_wfD(4) [OF wf] by (auto simp: RLE_row_ids_equal_def)
qed

text \<open>A comparison with a string that is not in the dictionary is one with the nearest entry.\<close>

lemma cmp_known_correct:
  assumes bm: "roaring bm" and wf: "rle_wf bm r" and opr: "opr \<noteq> Op_Equal" "opr \<noteq> Op_NotEqual" and v: "v \<in> set (RLE_keys r)"
  shows "\<exists>out. RLE_row_ids_cmp bm v opr dst r = Some out \<and> RowIDs_to_vec bm out = rows_where (value_holds opr v) (rle_abs r)"
proof -
  obtain i where i: "RLE_lookup_entry v r = Some i" using lookup_in [of r v] v wf by (auto simp: rle_wf_def RLE_keys_tl)
  show ?thesis
    using opr rows_where_ids [OF wf i, of opr] by (simp add: RLE_row_ids_cmp.simps i add_runs_clear [OF bm])
qed

lemma find_next_key:
  assumes "sorted_wrt (<) ks" and "v \<notin> set ks"
  shows "find (\<lambda>x. x > v) ks = Some k \<Longrightarrow> k \<in> set ks \<and> (\<forall>x\<in>set ks. (x > v) = (x \<ge> k))"
    and "find (\<lambda>x. x < v) (rev ks) = Some k \<Longrightarrow> k \<in> set ks \<and> (\<forall>x\<in>set ks. (x < v) = (x \<le> (k :: 'a::linorder)))"
proof -
  show "k \<in> set ks \<and> (\<forall>x\<in>set ks. (x > v) = (x \<ge> k))" if "find (\<lambda>x. x > v) ks = Some k" using assms that
    by (induction ks) (auto split: if_splits)
  show "k \<in> set ks \<and> (\<forall>x\<in>set ks. (x < v) = (x \<le> k))" if "find (\<lambda>x. x < v) (rev ks) = Some k" using assms that
    by (induction ks rule: rev_induct) (auto simp: sorted_wrt_append split: if_splits)
qed

lemma rows_where_same:
  assumes "rle_wf bm r" and "\<And>x. x \<in> set (RLE_keys r) \<Longrightarrow> op_holds opr x v = op_holds opr' x v'"
  shows "rows_where (value_holds opr v) (rle_abs r) = rows_where (value_holds opr' v') (rle_abs r)"
proof (rule rows_where_cong)
  show "value_holds opr v x = value_holds opr' v' x" if "x \<in> set (rle_abs r)" for x
    using that assms abs_in_keys [OF assms(1)] by (cases x rule: option.exhaust) auto
qed

lemma rows_where_no_key:
  assumes "rle_wf bm r" and "\<And>x. x \<in> set (RLE_keys r) \<Longrightarrow> \<not> op_holds opr x v"
  shows "rows_where (value_holds opr v) (rle_abs r) = []"
proof (rule rows_where_none)
  show "\<not> value_holds opr v x" if "x \<in> set (rle_abs r)" for x using that assms abs_in_keys [OF assms(1)] by (cases x rule: option.exhaust) auto
qed

lemma cmp_unknown_correct:
  assumes bm: "roaring bm" and wf: "rle_wf bm r" and opr: "opr \<noteq> Op_Equal" "opr \<noteq> Op_NotEqual" and look: "RLE_lookup_entry v r = None"
  shows "\<exists>out. RLE_row_ids_cmp bm v opr dst r = Some out \<and> RowIDs_to_vec bm out = rows_where (value_holds opr v) (rle_abs r)"
proof -
  have v: "v \<notin> set (RLE_keys r)" and srt: "sorted_wrt (<) (RLE_keys r)"
    using wf lookup_NoneD [of r v] look by (auto simp: rle_wf_def dict_wf_def RLE_keys_tl)
  define dst' where "dst' = RowIDs_clear bm dst"
  have up: "\<exists>out. (case find (\<lambda>x. x > v) (RLE_keys r) of Some other \<Rightarrow> RLE_row_ids_cmp bm other Op_GTE dst' r | None \<Rightarrow> Some dst') = Some out
      \<and> RowIDs_to_vec bm out = rows_where (value_holds opr v) (rle_abs r)" if "opr = Op_GT \<or> opr = Op_GTE"
  proof (cases "find (\<lambda>x. x > v) (RLE_keys r)")
    case None
    then have "rows_where (value_holds opr v) (rle_abs r) = []"
      using that v by (intro rows_where_no_key [OF wf]) (auto simp: find_None_iff order.order_iff_strict)
    then show ?thesis using None bm by (simp add: dst'_def)
  next
    case (Some k)
    note k = find_next_key(1) [OF srt v Some]
    have "rows_where (value_holds opr v) (rle_abs r) = rows_where (value_holds Op_GTE k) (rle_abs r)"
    proof (rule rows_where_same [OF wf])
      fix x assume "x \<in> set (RLE_keys r)"
      then have "x \<noteq> v" "v \<noteq> x" "(x > v) = (x \<ge> k)" using v k by blast+
      then show "op_holds opr x v = op_holds Op_GTE x k" using that by (elim disjE) (simp_all add: le_less [of v x] le_less [of x v])
    qed
    then show ?thesis using cmp_known_correct [OF bm wf, of Op_GTE k dst'] k Some by simp
  qed
  have down: "\<exists>out. (case find (\<lambda>x. x < v) (rev (RLE_keys r)) of Some other \<Rightarrow> RLE_row_ids_cmp bm other Op_LTE dst' r | None \<Rightarrow> Some dst') = Some out
      \<and> RowIDs_to_vec bm out = rows_where (value_holds opr v) (rle_abs r)" if "opr = Op_LT \<or> opr = Op_LTE"
  proof (cases "find (\<lambda>x. x < v) (rev (RLE_keys r))")
    case None
    then have "rows_where (value_holds opr v) (rle_abs r) = []"
      using that v by (intro rows_where_no_key [OF wf]) (auto simp: find_None_iff order.order_iff_strict)
    then show ?thesis using None bm by (simp add: dst'_def)
  next
    case (Some k)
    note k = find_next_key(2) [OF srt v Some]
    have "rows_where (value_holds opr v) (rle_abs r) = rows_where (value_holds Op_LTE k) (rle_abs r)"
    proof (rule rows_where_same [OF wf])
      fix x assume "x \<in> set (RLE_keys r)"
      then have "x \<noteq> v" "v \<noteq> x" "(x < v) = (x \<le> k)" using v k by blast+
      then show "op_holds opr x v = op_holds Op_LTE x k" using that by (elim disjE) (simp_all add: le_less [of v x] le_less [of x v])
    qed
    then show ?thesis using cmp_known_correct [OF bm wf, of Op_LTE k dst'] k Some by simp
  qed
  show ?thesis
    using up down opr look by (cases opr) (simp_all add: RLE_row_ids_cmp.simps [of bm v _ dst r] Let_def dst'_def [symmetric])
qed

lemma RLE_row_ids_filter_correct:
  assumes "roaring bm" and "rle_wf bm r"
  shows "\<exists>out. RLE_row_ids_filter bm v opr dst r = Some out \<and> RowIDs_to_vec bm out = rows_where (value_holds opr v) (rle_abs r)"
proof (cases "RLE_lookup_entry v r")
  case None
  then show ?thesis
    using row_ids_equal_correct [OF assms, of opr v dst] cmp_unknown_correct [OF assms _ _ None, of opr dst] by (auto simp: RLE_row_ids_filter_def)
next
  case (Some i)
  then have "v \<in> set (RLE_keys r)"
    using assms(2) lookup_SomeD [OF _ Some] entry_in_keys [of i "index_entries r"] by (auto simp: rle_wf_def RLE_keys_tl)
  then show ?thesis
    using row_ids_equal_correct [OF assms, of opr v dst] cmp_known_correct [OF assms, of opr v dst] by (auto simp: RLE_row_ids_filter_def)
qed

end
