(* ===== verification/Rb_Rle_Reads.thy ===== *)
theory Rb_Rle_Reads
  imports Rb_Rle_Correct
begin

text \<open>
  The readers of the run-length encoding.  For ascending row ids the loop with its cursor over the runs visits the
  encoded values of the rows, so that each reader is a function of the values at the row ids.
\<close>

section \<open>The cursor\<close>

fun loop_ids :: "(nat \<Rightarrow> 's \<Rightarrow> 's flow option) \<Rightarrow> nat list \<Rightarrow> 's \<Rightarrow> 's option" where
  "loop_ids body [] s = Some s"
| "loop_ids body (i # ids) s = Option.bind (body i s) (\<lambda>fl. case fl of Break s \<Rightarrow> Some s | Continue s \<Rightarrow> loop_ids body ids s)"

lemma run_covers:
  assumes "drop row enc = replicate rl i @ rest" and "row \<le> row_id" and "row_id < row + rl" and "row_id < length enc"
  shows "enc ! row_id = i"
proof -
  have "enc ! row_id = drop row enc ! (row_id - row)" using assms(2,4) by simp
  also have "\<dots> = i" unfolding assms(1) using assms(2,3) by (simp add: nth_append less_diff_conv2)
  finally show ?thesis .
qed

lemma drop_run: "drop row enc = replicate rl i @ rest \<Longrightarrow> drop (row + k) enc = drop k (replicate rl i @ rest)"
  by (metis add.commute drop_drop)

lemma skip_runs_correct:
  assumes "row \<le> row_id" and "row_id < length enc" and "drop row enc = replicate rl i @ expand runs"
  shows "\<exists>row' rl' runs'. skip_runs row_id row i rl runs = Some (row', enc ! row_id, rl', runs') \<and> row' \<le> row_id \<and> row_id < row' + rl'
    \<and> drop row' enc = replicate rl' (enc ! row_id) @ expand runs'"
  using assms
proof (induction runs arbitrary: row i rl)
  case Nil
  have "length enc - row = rl" using Nil.prems(3) by (metis append_Nil2 expand_simps(1) length_drop length_replicate)
  then have "row_id < row + rl" using Nil.prems by simp
  then show ?case using Nil.prems run_covers [OF Nil.prems(3,1)] by simp
next
  case (Cons run runs)
  obtain j n where run: "run = (j, n)" by fastforce
  show ?case
  proof (cases "row + rl \<le> row_id")
    case True
    have "drop (row + rl) enc = replicate n j @ expand runs" using drop_run [OF Cons.prems(3), of rl] by (simp add: run)
    then show ?thesis using Cons.IH [OF True Cons.prems(2)] True by (simp add: run)
  next
    case False
    then show ?thesis using Cons.prems run_covers [OF Cons.prems(3,1)] by (simp add: run)
  qed
qed

lemma for_row_ids_correct:
  assumes "drop row enc = replicate rl i @ expand runs" and "sorted_wrt (<) row_ids"
    and "\<forall>x\<in>set row_ids. row \<le> x \<and> (\<not> stop x \<longrightarrow> x < length enc)"
  shows "for_row_ids stop body row_ids (row, i, rl, runs) s = loop_ids body (map (\<lambda>x. enc ! x) (takeWhile (\<lambda>x. \<not> stop x) row_ids)) s"
  using assms
proof (induction row_ids arbitrary: row i rl runs s)
  case (Cons x row_ids)
  show ?case
  proof (cases "stop x")
    case False
    then have x: "row \<le> x" "x < length enc" using Cons.prems(3) by auto
    obtain row' rl' runs' where skip: "skip_runs x row i rl runs = Some (row', enc ! x, rl', runs')" "row' \<le> x" "x < row' + rl'"
        "drop row' enc = replicate rl' (enc ! x) @ expand runs'"
      using skip_runs_correct [OF x Cons.prems(1)] by blast
    obtain n where n: "rl' = Suc n" using skip(2,3) by (cases rl') auto
    have "drop (row' + 1) enc = replicate n (enc ! x) @ expand runs'" using drop_run [OF skip(4), of 1] n by simp
    moreover have "sorted_wrt (<) row_ids" using Cons.prems(2) by simp
    moreover have "\<forall>y\<in>set row_ids. row' + 1 \<le> y \<and> (\<not> stop y \<longrightarrow> y < length enc)" using Cons.prems(2,3) skip(2) by fastforce
    ultimately have "for_row_ids stop body row_ids (row' + 1, enc ! x, n, runs') t
        = loop_ids body (map (\<lambda>x. enc ! x) (takeWhile (\<lambda>x. \<not> stop x) row_ids)) t" for t
      by (rule Cons.IH)
    then have "for_row_ids stop body row_ids (row' + 1, enc ! x, n, runs') = loop_ids body (map (\<lambda>x. enc ! x) (takeWhile (\<lambda>x. \<not> stop x) row_ids))"
      by (rule ext)
    then show ?thesis using False skip(1) n by simp
  qed simp
qed simp

text \<open>A reader of a column that has a run, on ascending row ids.\<close>

lemma reader_correct:
  assumes wf: "rle_wf bm r" and runs: "run_lengths r \<noteq> []" and "sorted_wrt (<) row_ids" and "\<forall>x\<in>set row_ids. \<not> stop x \<longrightarrow> x < rle_rows r"
  shows "Option.bind (RLE_cursor r) (\<lambda>c. for_row_ids stop body row_ids c s)
    = loop_ids body (map (\<lambda>x. RLE_all_encoded_values r ! x) (takeWhile (\<lambda>x. \<not> stop x) row_ids)) s"
proof -
  obtain i rl rest where "run_lengths r = (i, rl) # rest" using runs by (metis list.exhaust surj_pair)
  then show ?thesis
    using for_row_ids_correct [of 0 "RLE_all_encoded_values r" rl i rest row_ids stop body s] assms rle_wfD(6) [OF wf]
    by (simp add: RLE_cursor_def all_encoded_expand)
qed

abbreviation rows_in :: "nat list \<Rightarrow> 'b RLE \<Rightarrow> bool" where
  "rows_in row_ids r \<equiv> sorted_wrt (<) row_ids \<and> (\<forall>x\<in>set row_ids. x < rle_rows r)"

abbreviation ids_at :: "nat list \<Rightarrow> 'b RLE \<Rightarrow> nat list" where
  "ids_at row_ids r \<equiv> map (\<lambda>x. RLE_all_encoded_values r ! x) row_ids"

abbreviation vals_at :: "nat list \<Rightarrow> 'b RLE \<Rightarrow> string option list" where
  "vals_at row_ids r \<equiv> map (\<lambda>x. rle_abs r ! x) row_ids"

lemma reader_in:
  assumes "rle_wf bm r" and "run_lengths r \<noteq> []" and "rows_in row_ids r"
  shows "Option.bind (RLE_cursor r) (\<lambda>c. for_row_ids (\<lambda>_. False) body row_ids c s) = loop_ids body (ids_at row_ids r) s"
  using reader_correct [OF assms(1,2), of row_ids "\<lambda>_. False"] assms(3) by (simp add: takeWhile_eq_all_conv [THEN iffD2])

lemma vals_ids: "rle_wf bm r \<Longrightarrow> \<forall>x\<in>set row_ids. x < rle_rows r \<Longrightarrow> vals_at row_ids r = map (dec r) (ids_at row_ids r)"
  using rle_wfD(6) [of bm r] by (simp add: nth_abs)

lemma ids_at_wf:
  assumes "rle_wf bm r" and "\<forall>x\<in>set row_ids. x < rle_rows r"
  shows "set (ids_at row_ids r) \<subseteq> set (RLE_all_encoded_values r)" "\<forall>i\<in>set (ids_at row_ids r). i < length (index_entries r)"
proof -
  show sub: "set (ids_at row_ids r) \<subseteq> set (RLE_all_encoded_values r)" using assms(2) rle_wfD(6) [OF assms(1)] by auto
  show "\<forall>i\<in>set (ids_at row_ids r). i < length (index_entries r)" using sub rle_wfD(5) [OF assms(1)] by blast
qed

lemma decode_id_dec: "i < length (index_entries r) \<Longrightarrow> RLE_decode_id i r = Some (dec r i)"
  by (simp add: RLE_decode_id_def entry_at_def dec_def)

section \<open>Values\<close>

lemma loop_values:
  "\<forall>i\<in>set ids. i < length (index_entries r) \<Longrightarrow>
    loop_ids (\<lambda>i dst. map_option (\<lambda>v. Continue (dst @ [v])) (RLE_decode_id i r)) ids dst = Some (dst @ map (dec r) ids)"
  by (induction ids arbitrary: dst) (simp_all add: decode_id_dec)

lemma RLE_values_correct:
  assumes wf: "rle_wf bm r" and "run_lengths r \<noteq> []" and "sorted_wrt (<) row_ids"
  shows "RLE_values row_ids r = Some (vals_at (takeWhile (\<lambda>x. x < rle_rows r) row_ids) r)"
proof -
  let ?rows = "takeWhile (\<lambda>x. x < rle_rows r) row_ids"
  have rows: "\<forall>x\<in>set ?rows. x < rle_rows r" by (auto dest: set_takeWhileD)
  have "RLE_values row_ids r = loop_ids (\<lambda>i dst. map_option (\<lambda>v. Continue (dst @ [v])) (RLE_decode_id i r)) (ids_at ?rows r) []"
    unfolding RLE_values_def using reader_correct [OF assms, of "\<lambda>x. x \<ge> rle_rows r"] by (simp add: not_le)
  then show ?thesis using loop_values [OF ids_at_wf(2) [OF wf rows], of "[]"] vals_ids [OF wf rows] by simp
qed

lemma loop_encoded: "loop_ids (\<lambda>i dst. Some (Continue (dst @ [i]))) ids dst = Some (dst @ ids)"
  by (induction ids arbitrary: dst) simp_all

lemma loop_count:
  "n + length ids < 2 ^ 32 \<Longrightarrow>
    loop_ids (\<lambda>i n. if i = NULL_ID then Some (Continue n) else map_option Continue (u32_add n 1)) ids n = Some (n + length (non_nulls (map (dec r) ids)))"
  by (induction ids arbitrary: n) (simp_all add: u32_add_def dec_def)

lemma rows_in_length:
  assumes "rows_in row_ids r"
  shows "length row_ids \<le> rle_rows r"
proof -
  have "distinct row_ids" using assms strict_sorted_iff by blast
  moreover have "card (set row_ids) \<le> card {..<rle_rows r}" using assms by (intro card_mono) auto
  ultimately show ?thesis by (simp add: distinct_card)
qed

lemma RLE_count_correct:
  assumes "rle_wf bm r" and "run_lengths r \<noteq> []" and "rows_in row_ids r"
  shows "RLE_count row_ids r = Some (length (non_nulls (vals_at row_ids r)))"
  unfolding RLE_count_def reader_in [OF assms]
  using loop_count [of 0 "ids_at row_ids r" r] rows_in_length [OF assms(3)] rle_wfD(7) [OF assms(1)] vals_ids [OF assms(1), of row_ids] assms(3) by (simp del: map_map)

text \<open>Minimum and maximum, which end early at the first and at the last entry of the dictionary.\<close>

fun best :: "(string \<Rightarrow> string \<Rightarrow> string) \<Rightarrow> string option \<Rightarrow> string list \<Rightarrow> string option" where
  "best f m [] = m"
| "best f None (x # xs) = best f (Some x) xs"
| "best f (Some w) (x # xs) = best f (Some (f x w)) xs"

lemma best_stable: "\<forall>x\<in>set xs. f x w = w \<Longrightarrow> best f (Some w) xs = Some w"
  by (induction xs) simp_all

lemma best_fold: "best f (Some w) xs = Some (fold f xs w)"
  by (induction xs arbitrary: w) simp_all

lemma best_Min: "best min None xs = (if xs = [] then None else Some (Min (set xs)))"
proof (cases xs)
  case (Cons y ys)
  then show ?thesis unfolding Cons Min.set_eq_fold by (simp add: best_fold)
qed simp

lemma best_Max: "best max None xs = (if xs = [] then None else Some (Max (set xs)))"
proof (cases xs)
  case (Cons y ys)
  then show ?thesis unfolding Cons Max.set_eq_fold by (simp add: best_fold)
qed simp

lemma dec_simps [simp]: "dec r NULL_ID = None" "i \<noteq> NULL_ID \<Longrightarrow> dec r i = Some (index_entries r ! i)"
  by (simp_all add: dec_def)

lemma best_body_simps:
  "min_body lo r NULL_ID m = Some (Continue m)"
  "max_body hi r NULL_ID m = Some (Continue m)"
  "i \<noteq> NULL_ID \<Longrightarrow> i < length (index_entries r) \<Longrightarrow> min_body lo r i None = Some (Continue (Some (index_entries r ! i)))"
  "i \<noteq> NULL_ID \<Longrightarrow> i < length (index_entries r) \<Longrightarrow> max_body hi r i None = Some (Continue (Some (index_entries r ! i)))"
  "i \<noteq> NULL_ID \<Longrightarrow> i < length (index_entries r) \<Longrightarrow>
    min_body lo r i (Some w) = Some (if w = lo \<and> lo \<le> index_entries r ! i then Break (Some lo) else Continue (Some (min (index_entries r ! i) w)))"
  "i \<noteq> NULL_ID \<Longrightarrow> i < length (index_entries r) \<Longrightarrow>
    max_body hi r i (Some w) = Some (if w = hi \<and> index_entries r ! i \<le> hi then Break (Some hi) else Continue (Some (max (index_entries r ! i) w)))"
  by (auto simp: min_body_def max_body_def entry_at_def min_def max_def)

lemma loop_min:
  assumes "\<forall>i\<in>set ids. i < length (index_entries r)" and "\<forall>x\<in>set (non_nulls (map (dec r) ids)). lo \<le> x"
  shows "loop_ids (min_body lo r) ids m = Some (best min m (non_nulls (map (dec r) ids)))"
  using assms
proof (induction ids arbitrary: m)
  case (Cons i ids)
  show ?case
  proof (cases "i = NULL_ID")
    case False
    have IH: "loop_ids (min_body lo r) ids t = Some (best min t (non_nulls (map (dec r) ids)))" for t
      using Cons.prems False by (intro Cons.IH) simp_all
    have "best min (Some lo) (non_nulls (map (dec r) ids)) = Some lo"
      using Cons.prems(2) False by (intro best_stable) (simp add: min_absorb2)
    then show ?thesis using False IH Cons.prems by (cases m) (simp_all add: best_body_simps min_absorb2)
  qed (use Cons in \<open>simp add: best_body_simps\<close>)
qed simp

lemma loop_max:
  assumes "\<forall>i\<in>set ids. i < length (index_entries r)" and "\<forall>x\<in>set (non_nulls (map (dec r) ids)). x \<le> hi"
  shows "loop_ids (max_body hi r) ids m = Some (best max m (non_nulls (map (dec r) ids)))"
  using assms
proof (induction ids arbitrary: m)
  case (Cons i ids)
  show ?case
  proof (cases "i = NULL_ID")
    case False
    have IH: "loop_ids (max_body hi r) ids t = Some (best max t (non_nulls (map (dec r) ids)))" for t
      using Cons.prems False by (intro Cons.IH) simp_all
    have "best max (Some hi) (non_nulls (map (dec r) ids)) = Some hi"
      using Cons.prems(2) False by (intro best_stable) (simp add: max_absorb2)
    then show ?thesis using False IH Cons.prems by (cases m) (simp_all add: best_body_simps max_absorb2)
  qed (use Cons in \<open>simp add: best_body_simps\<close>)
qed simp

lemma vals_at_keys:
  assumes wf: "rle_wf bm r" and "\<forall>x\<in>set row_ids. x < rle_rows r" and "v \<in> set (non_nulls (vals_at row_ids r))"
  shows "v \<in> set (RLE_keys r)"
proof -
  have "Some v \<in> set (rle_abs r)" using assms rle_wfD(6) [OF wf] by (auto simp: set_non_nulls)
  then show ?thesis by (rule abs_in_keys [OF wf])
qed

lemma RLE_min_correct:
  assumes wf: "rle_wf bm r" and "run_lengths r \<noteq> []" and rows: "rows_in row_ids r"
  shows "RLE_min row_ids r = Some (let vs = non_nulls (vals_at row_ids r) in if vs = [] then None else Some (Min (set vs)))"
proof (cases "RLE_keys r")
  case Nil
  then have "set (non_nulls (vals_at row_ids r)) = {}" using vals_at_keys [OF wf] rows by fastforce
  then show ?thesis using Nil by (simp add: RLE_min_def)
next
  case (Cons lo ks)
  have "sorted_wrt (<) (lo # ks)" using rle_wfD(2) [OF wf] Cons by (simp add: RLE_keys_tl)
  then have "\<forall>x\<in>set (non_nulls (vals_at row_ids r)). lo \<le> x" using vals_at_keys [OF wf, of row_ids] rows Cons by fastforce
  moreover have vals: "vals_at row_ids r = map (dec r) (ids_at row_ids r)" using vals_ids [OF wf] rows by blast
  ultimately have "loop_ids (min_body lo r) (ids_at row_ids r) None = Some (best min None (non_nulls (vals_at row_ids r)))"
    using loop_min [of "ids_at row_ids r" r lo None] ids_at_wf(2) [OF wf] rows by metis
  then show ?thesis using Cons by (simp add: RLE_min_def best_Min reader_in [OF assms])
qed

lemma RLE_max_correct:
  assumes wf: "rle_wf bm r" and "run_lengths r \<noteq> []" and rows: "rows_in row_ids r"
  shows "RLE_max row_ids r = Some (let vs = non_nulls (vals_at row_ids r) in if vs = [] then None else Some (Max (set vs)))"
proof (cases "RLE_keys r" rule: rev_cases)
  case Nil
  then have "set (non_nulls (vals_at row_ids r)) = {}" using vals_at_keys [OF wf] rows by fastforce
  then show ?thesis using Nil by (simp add: RLE_max_def)
next
  case (snoc ks hi)
  have "sorted_wrt (<) (ks @ [hi])" using rle_wfD(2) [OF wf] snoc by (simp add: RLE_keys_tl)
  then have "\<forall>x\<in>set (non_nulls (vals_at row_ids r)). x \<le> hi"
    using vals_at_keys [OF wf, of row_ids] rows snoc by (fastforce simp: sorted_wrt_append)
  moreover have vals: "vals_at row_ids r = map (dec r) (ids_at row_ids r)" using vals_ids [OF wf] rows by blast
  ultimately have "loop_ids (max_body hi r) (ids_at row_ids r) None = Some (best max None (non_nulls (vals_at row_ids r)))"
    using loop_max [of "ids_at row_ids r" r hi None] ids_at_wf(2) [OF wf] rows by metis
  then show ?thesis using snoc by (simp add: RLE_max_def best_Max reader_in [OF assms])
qed

section \<open>Distinct values\<close>

text \<open>The marks of the ids in a set, and of NULL in a column without NULLs.\<close>

definition marks_of :: "'b RLE \<Rightarrow> nat set \<Rightarrow> bool list \<Rightarrow> nat \<Rightarrow> bool" where
  "marks_of r S marks found \<longleftrightarrow>
     length marks = length (index_entries r)
     \<and> (\<forall>k<length marks. marks ! k = (k \<in> S \<or> k = NULL_ID \<and> \<not> rle_null r))
     \<and> found = card {k. k < length marks \<and> marks ! k}"

lemma marks_of_all: "marks_of r S marks (length marks) \<Longrightarrow> k < length marks \<Longrightarrow> marks ! k"
proof -
  assume m: "marks_of r S marks (length marks)" and k: "k < length marks"
  have "{k. k < length marks \<and> marks ! k} = {..<length marks}"
    using m by (intro card_subset_eq) (auto simp: marks_of_def)
  then show ?thesis using k by blast
qed

lemma marks_of_insert:
  assumes "marks_of r S marks found" and "i < length marks" and "\<not> marks ! i"
  shows "marks_of r (insert i S) (marks[i := True]) (found + 1)"
proof -
  have "{k. k < length marks \<and> marks[i := True] ! k} = insert i {k. k < length marks \<and> marks ! k}"
    using assms(2) by (auto simp: nth_list_update)
  then show ?thesis using assms by (auto simp: marks_of_def nth_list_update)
qed

lemma loop_distinct:
  assumes "\<forall>i\<in>set ids. i < length (index_entries r) \<and> (i = NULL_ID \<longrightarrow> rle_null r)" and "marks_of r S marks found"
  shows "\<exists>m f. loop_ids (distinct_body r) ids (marks, found, dec r ` S) = Some (m, f, dec r ` (S \<union> set ids))"
  using assms
proof (induction ids arbitrary: S marks found)
  case (Cons i ids)
  define marks' where "marks' = (if marks ! i then marks else marks[i := True])"
  define found' where "found' = (if marks ! i then found else found + 1)"
  have i: "i < length marks" "i < length (index_entries r)" using Cons.prems by (auto simp: marks_of_def)
  have "i \<in> S" if "marks ! i" using that Cons.prems i by (auto simp: marks_of_def)
  then have ins: "insert i S = S" if "marks ! i" using that by blast
  have marks': "marks_of r (insert i S) marks' found'"
    using marks_of_insert [OF Cons.prems(2) i(1)] Cons.prems(2) ins by (auto simp: marks'_def found'_def)
  have body: "distinct_body r i (marks, found, dec r ` S) =
      Some ((if found' = length marks' then Break else Continue) (marks', found', dec r ` insert i S))"
    using i ins by (auto simp: distinct_body_def decode_id_dec marks'_def found'_def)
  show ?case
  proof (cases "found' = length marks'")
    case True
    have "k \<in> insert i S" if "k \<in> set ids" for k
    proof -
      have k: "k < length marks'" using that Cons.prems by (auto simp: marks'_def marks_of_def)
      then have "marks' ! k" using marks_of_all marks' unfolding True by blast
      moreover have "k = NULL_ID \<longrightarrow> rle_null r" using that Cons.prems(1) by simp
      moreover have "marks' ! k = (k \<in> insert i S \<or> k = NULL_ID \<and> \<not> rle_null r)" using marks' k unfolding marks_of_def by blast
      ultimately show ?thesis by blast
    qed
    then have "insert i S \<union> set ids = insert i S" by blast
    then show ?thesis using True body by simp
  next
    case False
    have "\<exists>m f. loop_ids (distinct_body r) ids (marks', found', dec r ` insert i S) = Some (m, f, dec r ` (insert i S \<union> set ids))"
      using Cons.prems(1) marks' by (intro Cons.IH) simp_all
    then show ?thesis using False body by simp
  qed
qed simp

lemma RLE_distinct_values_correct:
  assumes wf: "rle_wf bm r" and "run_lengths r \<noteq> []" and rows: "rows_in row_ids r"
  shows "RLE_distinct_values row_ids r = Some (set (vals_at row_ids r))"
proof -
  let ?ids = "ids_at row_ids r" and ?n = "length (index_entries r)"
  define marks where "marks = (if rle_null r then replicate ?n False else (replicate ?n False)[NULL_ID := True])"
  define found where "found = (if rle_null r then 0 else 1 :: nat)"
  have ids: "\<forall>i\<in>set ?ids. i < ?n" "set ?ids \<subseteq> set (RLE_all_encoded_values r)" using ids_at_wf [OF wf] rows by blast+
  have nul: "i = NULL_ID \<longrightarrow> rle_null r" if "i \<in> set ?ids" for i
    using that ids(2) rle_wfD(8) [OF wf] expand_subset [of "run_lengths r"] unfolding all_encoded_expand by blast
  have n: "NULL_ID < ?n" using rle_wfD(1) [OF wf] by (simp add: NULL_ID_def)
  then have "{k. k < ?n \<and> (replicate ?n False)[NULL_ID := True] ! k} = {NULL_ID}" by (auto simp: nth_list_update)
  then have "marks_of r {} marks found" using n by (auto simp: marks_of_def marks_def found_def nth_list_update)
  then obtain m f where "loop_ids (distinct_body r) ?ids (marks, found, {}) = Some (m, f, dec r ` set ?ids)"
    using loop_distinct [of ?ids r "{}" marks found] ids nul by auto
  moreover have "card (dec r ` set ?ids) \<le> ?n"
  proof -
    have "card (dec r ` set ?ids) \<le> card (set ?ids)" by (simp add: card_image_le)
    also have "\<dots> \<le> card {..<?n}" using ids(1) by (intro card_mono) auto
    finally show ?thesis by simp
  qed
  moreover have "set (vals_at row_ids r) = dec r ` set ?ids" using vals_ids [OF wf, of row_ids] rows by (metis set_map)
  moreover have "RLE_distinct_values row_ids r =
      Option.bind (Option.bind (RLE_cursor r) (\<lambda>c. for_row_ids (\<lambda>_. False) (distinct_body r) row_ids c (marks, found, {})))
        (\<lambda>(_, _, dst). if card dst \<le> ?n then Some dst else None)"
    by (simp add: RLE_distinct_values_def marks_def found_def)
  ultimately show ?thesis unfolding reader_in [OF assms] by simp
qed

section \<open>Whole columns\<close>

lemma all_values_loop_correct:
  "\<forall>(i, rl)\<in>set runs. i < length (index_entries r) \<Longrightarrow> all_values_loop r runs = Some (map (dec r) (expand runs))"
  by (induction r runs rule: all_values_loop.induct) (simp_all add: decode_id_dec)

lemma RLE_all_values_correct: "rle_wf bm r \<Longrightarrow> RLE_all_values r = Some (rle_abs r)"
  using all_values_loop_correct [of "run_lengths r" r] by (simp add: RLE_all_values_def rle_wf_def rle_abs_def all_encoded_expand)

lemma value_loop_correct:
  assumes "drop tot enc = expand runs" and "tot \<le> row_id" and "row_id < length enc" and "\<forall>(i, rl)\<in>set runs. i < length (index_entries r)"
  shows "value_loop r row_id tot runs = Some (dec r (enc ! row_id))"
  using assms
proof (induction runs arbitrary: tot)
  case (Cons run runs)
  obtain i rl where run: "run = (i, rl)" by fastforce
  have enc: "drop tot enc = replicate rl i @ expand runs" using Cons.prems(1) by (simp add: run)
  show ?case
  proof (cases "tot + rl > row_id")
    case True
    then show ?thesis using run_covers [OF enc Cons.prems(2) True Cons.prems(3)] Cons.prems(4) by (simp add: run decode_id_dec)
  next
    case False
    then show ?thesis using Cons.IH [of "tot + rl"] drop_run [OF enc, of rl] Cons.prems(3,4) by (simp add: run)
  qed
qed simp

lemma RLE_value_correct:
  assumes wf: "rle_wf bm r"
  shows "RLE_value row_id r = (if row_id < rle_rows r then Some (rle_abs r ! row_id) else None)"
proof -
  have "value_loop r row_id 0 (run_lengths r) = Some (dec r (RLE_all_encoded_values r ! row_id))" if "row_id < rle_rows r"
  proof (rule value_loop_correct)
    show "drop 0 (RLE_all_encoded_values r) = expand (run_lengths r)" by (simp add: all_encoded_expand)
    show "\<forall>(i, rl)\<in>set (run_lengths r). i < length (index_entries r)" using wf by (simp add: rle_wf_def)
  qed (use that rle_wfD(6) [OF wf] in simp_all)
  then show ?thesis using rle_wfD(6) [OF wf] by (simp add: RLE_value_def nth_abs)
qed

lemma RLE_null_count_correct:
  assumes bm: "roaring bm" and wf: "rle_wf bm r"
  shows "RLE_null_count bm r = length (filter (\<lambda>v. v = None) (rle_abs r))"
proof -
  have 0: "NULL_ID < length (index_entries r)" using rle_wfD(1) [OF wf] by (simp add: NULL_ID_def)
  obtain b where b: "index_row_ids r ! NULL_ID = RowIDs_Bitmap b" "bm_to_vec bm b = rows_where (\<lambda>i. i = NULL_ID) (RLE_all_encoded_values r)"
    using rle_wf_rows [OF wf 0] .
  have len: "length (rows_where P vs) = length (filter P vs)" for P and vs :: "nat list"
    using length_filter_map [of P "\<lambda>i. vs ! i" "[0..<length vs]"] by (simp add: rows_where_def comp_def map_nth)
  have "length (filter (\<lambda>v. v = None) (rle_abs r)) = length (rows_where (\<lambda>i. i = NULL_ID) (RLE_all_encoded_values r))"
    unfolding len by (simp add: rle_abs_def filter_map comp_def dec_def)
  moreover have "length (rows_where (\<lambda>i. i = NULL_ID) (RLE_all_encoded_values r)) < 2 ^ 32"
    unfolding len using length_filter_le [of "\<lambda>i. i = NULL_ID" "RLE_all_encoded_values r"] rle_wfD(6,7) [OF wf] by linarith
  ultimately show ?thesis
    using b 0 rle_wfD(4) [OF wf] by (cases "index_row_ids r") (simp_all add: RLE_null_count_def NULL_ID_def roaringD [OF bm] as_u32_def)
qed

section \<open>Schema exploration\<close>

lemma loop_find: "loop_ids (\<lambda>i s. Some (if i \<noteq> NULL_ID then Break True else Continue s)) ids False = Some (\<exists>i\<in>set ids. dec r i \<noteq> None)"
  by (induction ids) (simp_all add: dec_def)

lemma RLE_has_non_null_value_correct:
  assumes wf: "rle_wf bm r" and "run_lengths r \<noteq> []" and rows: "rows_in row_ids r"
  shows "RLE_has_non_null_value row_ids r = Some (\<exists>v\<in>set (vals_at row_ids r). v \<noteq> None)"
proof (cases "rle_null r")
  case True
  have rows': "takeWhile (\<lambda>x. x < rle_rows r) row_ids = row_ids" using rows by (simp add: takeWhile_eq_all_conv)
  have "RLE_find_non_null_value row_ids r = loop_ids (\<lambda>i s. Some (if i \<noteq> NULL_ID then Break True else Continue s)) (ids_at row_ids r) False"
    unfolding RLE_find_non_null_value_def
    using reader_correct [OF assms(1,2), of row_ids "\<lambda>x. x \<ge> rle_rows r" "\<lambda>i s. Some (if i \<noteq> NULL_ID then Break True else Continue s)" False] rows
    by (simp add: not_le rows')
  also have "\<dots> = Some (\<exists>v\<in>set (map (dec r) (ids_at row_ids r)). v \<noteq> None)" unfolding loop_find [where r = r] by simp
  also have "map (dec r) (ids_at row_ids r) = vals_at row_ids r" using vals_ids [OF wf] rows by metis
  finally show ?thesis using True by (simp add: RLE_has_non_null_value_def)
next
  case False
  then have "rle_abs r ! x \<noteq> None" if "x \<in> set row_ids" for x
    using that no_null_abs [OF wf] rows rle_wfD(6) [OF wf] by (metis length_abs nth_mem)
  then show ?thesis using False rows by (cases row_ids) (auto simp: RLE_has_non_null_value_def)
qed

lemma RLE_has_other_correct:
  assumes "rle_wf bm r" and "\<not> rle_null r" and "finite vals" and "length (index_entries r) < 2 ^ 32"
  shows "RLE_has_other_non_null_values vals r \<longleftrightarrow> (\<exists>v\<in>set (RLE_keys r). v \<notin> vals)"
proof -
  have "RLE_cardinality r = card (set (RLE_keys r))"
    using assms rle_wfD(2) [OF assms(1)] by (simp add: RLE_cardinality_def as_u32_def RLE_keys_tl strict_sorted_iff distinct_card)
  then have "\<exists>v\<in>set (RLE_keys r). v \<notin> vals" if "RLE_cardinality r > card vals"
    using that card_mono [OF assms(3), of "set (RLE_keys r)"] by fastforce
  then show ?thesis by (auto simp: RLE_has_other_non_null_values_def list_ex_iff)
qed

text \<open>An empty column is reported to have a value, and the empty string cannot be the first entry of a dictionary.\<close>

lemma has_any_empty: "RLE_has_any_non_null_value (RLE_default bm)"
  by (simp add: RLE_has_any_non_null_value_def RLE_default_def)

lemma push_empty_string: "RLE_push bm '''' (RLE_default bm) = None"
  by (simp add: RLE_push_def RLE_push_additional_def push_additional_some_def RLE_lookup_entry_def RLE_default_def binary_search_def RLE_last_entry_def)

text \<open>
  In a column with NULLs the test for other values compares the number of values including NULL with the size of the
  given set, so that it holds for the set of the column's own values.
\<close>

lemma has_other_counts_null:
  assumes "rle_wf bm r" and "rle_null r" and "length (index_entries r) < 2 ^ 32"
  shows "RLE_has_other_non_null_values (set (RLE_keys r)) r"
proof -
  have "card (set (RLE_keys r)) < length (index_entries r)"
    using card_length [of "RLE_keys r"] rle_wfD(1) [OF assms(1)] by (cases "index_entries r") (simp_all add: RLE_keys_tl)
  then show ?thesis using assms by (simp add: RLE_has_other_non_null_values_def RLE_cardinality_def as_u32_def)
qed

section \<open>Properties of the encoding\<close>

lemma push_all_known:
  assumes bm: "roaring bm" and "rle_wf bm r" and "rle_rows r + length vs < 2 ^ 32" and "\<forall>v. Some v \<in> set vs \<longrightarrow> v \<in> set (RLE_keys r)"
  shows "\<exists>r'. RLE_push_all bm vs r = Some r' \<and> rle_wf bm r' \<and> rle_abs r' = rle_abs r @ vs"
  using assms(2-)
proof (induction vs arbitrary: r)
  case (Cons v vs)
  obtain r1 where r1: "RLE_push_additional bm v 1 r = Some r1" "rle_wf bm r1" "rle_abs r1 = rle_abs r @ [v]" "rle_rows r1 = rle_rows r + 1"
      "index_entries r1 = index_entries r"
  proof (cases v)
    case None
    then show ?thesis using that push_additional_none_correct [OF bm Cons.prems(1), of 1] Cons.prems(2) by (auto simp: RLE_push_additional_def)
  next
    case (Some x)
    then obtain i where "RLE_lookup_entry x r = Some i"
      using lookup_in [of r x] Cons.prems(1,3) by (auto simp: rle_wf_def RLE_keys_tl)
    then show ?thesis using that Some push_known_correct [OF bm Cons.prems(1), of 1 x i] Cons.prems(2) by (auto simp: RLE_push_additional_def)
  qed
  then have "RLE_keys r1 = RLE_keys r" by (simp add: RLE_keys_def)
  then obtain r' where "RLE_push_all bm vs r1 = Some r'" "rle_wf bm r'" "rle_abs r' = rle_abs r1 @ vs"
    using Cons.IH [of r1] r1(2,4) Cons.prems(2,3) by auto
  then show ?case using r1 by (cases v) (simp_all add: RLE_push_def RLE_push_none_def)
qed simp

text \<open>
  C17. A column made with a dictionary that covers its values takes them in any order without a panic. It gives them
  back, and for every string, operator and destination row_ids_filter returns in ascending order exactly the rows whose
  value is not NULL and stands in the relation to the string, whether or not the string is in the dictionary.
\<close>
theorem rle_filter_exact:
  assumes "roaring bm" and "sorted_wrt (<) ks" and "length ks < 2 ^ 32" and "length vs < 2 ^ 32"
    and "\<forall>v. Some v \<in> set vs \<longrightarrow> v \<in> set ks"
  shows "\<exists>r. RLE_push_all bm vs (RLE_with_dictionary bm ks) = Some r \<and> RLE_all_values r = Some vs
    \<and> (\<forall>v opr dst. \<exists>out. RLE_row_ids_filter bm v opr dst r = Some out \<and> RowIDs_to_vec bm out = rows_where (value_holds opr v) vs)"
proof -
  note new = RLE_with_dictionary_correct [OF assms(1-3)]
  have "rle_rows (RLE_with_dictionary bm ks) = 0" using new(2) rle_wfD(6) [OF new(1)] by (simp add: rle_abs_def)
  then obtain r where "RLE_push_all bm vs (RLE_with_dictionary bm ks) = Some r" "rle_wf bm r" "rle_abs r = vs"
    using push_all_known [OF assms(1) new(1), of vs] new assms(4,5) by auto
  then show ?thesis using RLE_all_values_correct RLE_row_ids_filter_correct [OF assms(1)] by metis
qed

theorem rle_filter_exact_witness:
  "\<exists>r. RLE_push_all list_bitmap [Some ''b'', None, Some ''a''] (RLE_with_dictionary list_bitmap [''a'', ''b'']) = Some r
    \<and> RLE_all_values r = Some [Some ''b'', None, Some ''a'']
    \<and> (\<forall>v opr dst. \<exists>out. RLE_row_ids_filter list_bitmap v opr dst r = Some out
      \<and> RowIDs_to_vec list_bitmap out = rows_where (value_holds opr v) [Some ''b'', None, Some ''a''])"
  by (rule rle_filter_exact) (auto simp: roaring_list_bitmap)

text \<open>
  C18. Pushing a value a number of times succeeds exactly when the value is NULL, in the dictionary, or greater than
  its last entry, and the number of rows fits into 32 bits; the column then stands for its old values followed by the
  repetitions, and its dictionary, row ids and NULL marker stay consistent. Otherwise it panics.
\<close>
theorem rle_push_refines:
  assumes "roaring bm" and "rle_wf bm r" and "length (index_entries r) < 2 ^ 32"
  shows "if rle_rows r + additional < 2 ^ 32 \<and> pushable v r
    then \<exists>r'. RLE_push_additional bm v additional r = Some r' \<and> rle_wf bm r' \<and> rle_abs r' = rle_abs r @ replicate additional v
    else RLE_push_additional bm v additional r = None"
  using push_additional_correct [OF assms, of additional v] by auto

theorem rle_push_refines_witness:
  "\<exists>r'. RLE_push_additional list_bitmap (Some ''a'') 3 (RLE_default list_bitmap) = Some r' \<and> rle_wf list_bitmap r'
    \<and> rle_abs r' = [Some ''a'', Some ''a'', Some ''a'']"
  using rle_push_refines [OF roaring_list_bitmap RLE_default_correct(1) [OF roaring_list_bitmap], of 3 "Some ''a''"] RLE_default_correct(2) [of list_bitmap]
  by (simp add: RLE_default_def RLE_last_entry_def numeral_3_eq_3)

text \<open>
  C19. On ascending row ids of a column the readers that walk over the runs return the values, the encoded values, the
  number of values that are not NULL, their minimum and maximum, and the set of values at these rows, although they
  stop early at the least and greatest entries and when all entries have been seen.
\<close>
theorem rle_readers_exact:
  assumes "rle_wf bm r" and "run_lengths r \<noteq> []" and "sorted_wrt (<) row_ids" and "\<forall>x\<in>set row_ids. x < rle_rows r"
  defines "vs \<equiv> map (\<lambda>x. rle_abs r ! x) row_ids"
  shows "RLE_values row_ids r = Some vs \<and> RLE_distinct_values row_ids r = Some (set vs) \<and> RLE_count row_ids r = Some (length (non_nulls vs))
    \<and> RLE_min row_ids r = Some (if non_nulls vs = [] then None else Some (Min (set (non_nulls vs))))
    \<and> RLE_max row_ids r = Some (if non_nulls vs = [] then None else Some (Max (set (non_nulls vs))))
    \<and> RLE_has_non_null_value row_ids r = Some (non_nulls vs \<noteq> [])
    \<and> RLE_encoded_values row_ids r = Some (map (\<lambda>x. RLE_all_encoded_values r ! x) row_ids)"
proof -
  have rows: "rows_in row_ids r" using assms(3,4) by blast
  have in_rows: "takeWhile (\<lambda>x. x < rle_rows r) row_ids = row_ids" using assms(4) by (simp add: takeWhile_eq_all_conv)
  have "RLE_values row_ids r = Some vs" using RLE_values_correct [OF assms(1-3)] unfolding in_rows by (simp add: vs_def)
  moreover have "(\<exists>v\<in>set vs. v \<noteq> None) = (non_nulls vs \<noteq> [])" by (induction vs rule: non_nulls.induct) auto
  moreover have "RLE_encoded_values row_ids r = Some (ids_at row_ids r)"
    unfolding RLE_encoded_values_def reader_in [OF assms(1,2) rows] by (simp add: loop_encoded)
  ultimately show ?thesis
    using RLE_distinct_values_correct [OF assms(1,2) rows] RLE_count_correct [OF assms(1,2) rows] RLE_min_correct [OF assms(1,2) rows]
      RLE_max_correct [OF assms(1,2) rows] RLE_has_non_null_value_correct [OF assms(1,2) rows]
    by (simp add: vs_def Let_def)
qed

theorem rle_readers_exact_witness:
  "\<exists>r. RLE_from list_bitmap [Some ''a'', None, Some ''b''] = Some r \<and> RLE_values [0, 2] r = Some [Some ''a'', Some ''b'']
    \<and> RLE_distinct_values [0, 2] r = Some {Some ''a'', Some ''b''} \<and> RLE_count [0, 2] r = Some 2"
proof -
  obtain r where r: "RLE_from list_bitmap [Some ''a'', None, Some ''b''] = Some r" "rle_wf list_bitmap r" "rle_abs r = [Some ''a'', None, Some ''b'']"
    using RLE_from_correct [OF roaring_list_bitmap, of "[Some ''a'', None, Some ''b'']"] by auto
  have rows: "rle_rows r = 3" using rle_wfD(6) [OF r(2)] r(3) length_abs [of r] by simp
  then have "run_lengths r \<noteq> []" using rle_wfD(6) [OF r(2)] by (auto simp: all_encoded_expand)
  then show ?thesis using rle_readers_exact [OF r(2), of "[0, 2]"] rows r(1,3) by simp
qed

end
