(* ===== verification/Spec2Isabelle.thy ===== *)
theory Spec2Isabelle
  imports Mem_Txn Schema_Reading Write_Payload Tsm_Join Rb_Rle_Reads
begin

text \<open>
  Verification of the storage core of InfluxDB IOx: the catalog that knows which namespaces, tables,
  columns and files there are, the validation of writes against it, the mutable batches that collect
  the rows of writes, their partitioning, the statistics that are kept of them, the readers of the
  TSM files of the older database, and the run-length encoding of string columns in the read buffer.

  \<^bold>\<open>How the parts interact.\<close>  A write arrives as a set of mutable batches, one per table.  Its schema
  is validated against a cached namespace schema, and tables and columns that are missing are created
  in the catalog.  A batch is then split by partition key into payloads, and a payload writes its rows
  to the batch of its partition.  A batch keeps the statistics of its columns, from which the summary
  of a Parquet file is made; the file is recorded in the catalog, flagged for deletion when it has been
  compacted, and removed later.  TSM files are read by iterating over their index, parsing its
  series keys, collecting the blocks of a measurement, and decoding and joining them.  The read buffer
  keeps chunks in memory for queries; a column of strings with few distinct values is run-length encoded,
  and predicates are evaluated on the encoded ids to sets of row ids.

  \<^bold>\<open>Conventions.\<close>  A function that may fail returns \<open>('e, 'a) res\<close>, with the source's errors and
  \<open>Panic\<close> for a failed assertion, an \<open>unwrap\<close>, an index out of range, or an arithmetic overflow that the
  code does not handle; functions that cannot return an error use \<open>option\<close>, with \<open>None\<close> for a panic.  A
  method on \<open>&mut self\<close> takes the state and returns the state it leaves on every outcome, including
  errors; in the batches the state that goes with a panic is the one before the step that panicked, rolled back
  where the writer is dropped.  Records and datatypes have the fields and constructors of the source with a prefix where
  the bare names would clash.  64-bit integers are \<open>int\<close> with range checks (\<open>is_i64\<close>) in the catalog and in
  the batches, and \<open>64 word\<close> in the TSM codecs, where wrap-around and bit operations matter; the 32-bit numbers of the
  read buffer are \<open>nat\<close> with checked additions.  Hash maps
  whose order the code depends on are given the order as a parameter.

  \<^bold>\<open>Prelude.\<close>  \<open>Iox_Prelude\<close>: outcomes, calls with state (\<open>m_bind\<close> is the \<open>?\<close> operator), \<open>BTreeMap\<close> as a
  sorted association list, 64-bit ranges, and lemmas on lists.

  \<^bold>\<open>Data types\<close> (\<open>data_types/src/lib.rs\<close>).  \<open>Data_Types\<close> has the identifiers, the rows of the catalog, the
  column types and their encodings, time ranges and database names, with round trips of the encodings
  and the injectivity of the names.  \<open>Column_Stats\<close> has \<open>StatValues\<close>, \<open>Statistics\<close>, \<open>ColumnSummary\<close> and
  \<open>TableSummary\<close>: an update describes the union of what was described before, as long as the number of rows is a
  \<open>u64\<close>, and the overlap test of two columns is sound.  The locale \<open>stat_order\<close> is the comparison that the generic code relies on,
  interpreted for total orders and for floats with NaN.

  \<^bold>\<open>Catalog\<close> (\<open>iox_catalog/src/mem.rs\<close>, \<open>interface.rs\<close>, \<open>lib.rs\<close>).  \<open>Mem_Catalog\<close> has the state
  \<open>MemCollections\<close> and one definition per repository method.  \<open>Catalog_Inv\<close> has the invariant (consecutive
  identifiers of all rows that are never deleted, unique natural keys, the references that the methods check),
  the step relation \<open>cat_step\<close> and that every
  method keeps the invariant.  \<open>Catalog_Repos\<close> has the create-or-get contract as a locale that five
  repositories interpret, and the limits; \<open>Catalog_Files\<close> the life of a Parquet file, when its
  identifier is used twice, and the ranking of partitions; \<open>Mem_Txn\<close> the transactions: what any sequence of calls and
  finalizations leaves, and a step relation of clients that interleave.
  \<open>Catalog_Schema\<close> models \<open>validate_or_insert_schema\<close>, \<open>get_schema_by_id\<close>, \<open>get_schema_by_name\<close>,
  \<open>get_table_schema_by_id\<close> and \<open>list_schemas\<close>; \<open>Schema_Validation\<close> and \<open>Schema_Reading\<close> prove them correct
  against the rows of the catalog.

  \<^bold>\<open>Buffers\<close> (\<open>arrow_util/src/bitset.rs\<close>, \<open>string.rs\<close>, \<open>dictionary.rs\<close>).  \<open>Bit_Set\<close> models the bit set with
  its byte arithmetic and \<open>Bit_Set_Correct\<close> refines it to a list of booleans; \<open>is_all_set\<close> alone is not what its name says.  \<open>Packed_Strings\<close> models the
  packed string array and the string dictionary and refines them to lists of strings.

  \<^bold>\<open>Mutable batches\<close> (\<open>mutable_batch/src/column.rs\<close>, \<open>lib.rs\<close>, \<open>writer.rs\<close>).  \<open>Mutable_Batch\<close> is the model:
  columns, the typed writes, copies from another batch, \<open>commit\<close> and the rollback in \<open>drop\<close>.  A column stands
  for a list of cells (\<open>Batch_Columns\<close>); the locale \<open>column_writer\<close> is the contract of a write (it appends
  cells or fails without effect, and can be undone), which \<open>Batch_Writes\<close> and \<open>Batch_Copies\<close> interpret for
  every typed write and every copy.  \<open>Batch_Writer\<close> lifts the contract to a sequence of writes,
  \<open>Batch_Commit\<close> shows that committing appends the rows, and \<open>Batch_Spec\<close> states what the public operations
  promise: \<open>batch_holds\<close> relates a batch to a table of cells, and \<open>batch_union\<close> is that table with rows
  below it.

  \<^bold>\<open>Payloads\<close> (\<open>mutable_batch/src/payload.rs\<close>, \<open>payload/filter.rs\<close>, \<open>payload/partition.rs\<close>).  \<open>Write_Payload\<close>
  models partition keys, run-length encoding of keys, filters, and writing the selected rows; it shows
  that every row arrives in the payload of its key, when partitioning panics, and that a payload appends exactly its rows.

  \<^bold>\<open>TSM files\<close> (\<open>influxdb_tsm/src\<close>).  \<open>Tsm_Simple8b\<close>, \<open>Tsm_Integer\<close>, \<open>Tsm_Timestamp\<close>, \<open>Tsm_Boolean\<close>,
  \<open>Tsm_String\<close> and \<open>Tsm_Float\<close> model the block encoders and decoders on machine words and bytes.  For the
  float codec \<open>Tsm_Gorilla\<close> shows which bits the encoder writes and \<open>Tsm_Float_Roundtrip\<close> that the decoder
  reads them; for the others the theory of the codec proves the round trip.  \<open>Tsm_Key\<close> models the parser of
  series keys with its state machines and proves that it inverts printing, always ends, and never
  fails an assertion.  \<open>Tsm_Merge\<close> models decoded blocks and their merge, which is last write wins.
  \<open>Tsm_Reader\<close> models the iterator over the index of a file and the block decoder: the iterator ends on every
  file, and index and blocks are read back.  \<open>Tsm_Mapper\<close> models the mapper that collects the series of a
  measurement into tables, the merge of tables and the join of the blocks of the fields into rows.  It shows
  which blocks a merge keeps and which it loses, and that fields with values of two types are never joined;
  \<open>Tsm_Join\<close> proves the join correct where blocks are chained in time.

  \<^bold>\<open>Read buffer\<close> (\<open>read_buffer/src/column/encoding/string/rle.rs\<close>, \<open>column.rs\<close>, \<open>column/cmp.rs\<close>).  \<open>Rb_RowIds\<close> has the
  sets of row ids and the comparison operators, \<open>Rb_Rle\<close> the run-length encoding with one definition per
  method; the readers share the cursor over the runs that the source repeats in each of them
  (\<open>for_row_ids\<close>).  A column stands for its list of optional strings (\<open>rle_abs\<close>).  \<open>Rb_Rle_Correct\<close> shows that
  pushing appends to the list or panics, that the invariant is kept, and that filtering returns the
  matching rows; \<open>Rb_Rle_Reads\<close> that each reader is the documented function of the values at the row ids.

  \<^bold>\<open>Parameters.\<close>  The crates \<open>integer_encoding\<close> and \<open>snap\<close> are the parameters \<open>encode_var\<close>, \<open>decode_var\<close>,
  \<open>max_compress_len\<close>, \<open>compress\<close> and \<open>decompress\<close>, assumed to be what they document (\<open>varint_codec\<close>,
  \<open>varint_compact\<close>, \<open>snappy\<close> with its limit \<open>snappy_fits\<close>); LEB128 is shown to satisfy the first two.  The capacity of a
  vector made with room for a number of values is that number.  The bitmaps of \<open>croaring\<close> are a record of operations with
  the laws of sets (\<open>roaring\<close>), which lists satisfy.  The text of a float and the
  formatting of a timestamp by \<open>chrono\<close>, which may fail on a format, are parameters of the partition keys, and the iteration order of
  hash maps is one where it can be observed.

  \<^bold>\<open>Termination.\<close>  All loops are total functions with a proved measure and use no fuel, except two partial
  functions: the loop over the strings of a block, which ends only with a proper \<open>decode_var\<close>, and the loop
  that joins rows, which may not end when a field has blocks of two types.  The round trip of strings
  and the correctness of the join show that they return.

  \<^bold>\<open>Not modelled.\<close>  The Postgres catalog and the catalog's metrics decorator, which issue SQL
  or wrap the calls modelled here; the query engine, planners and compactor, which work on DataFusion plans and
  Arrow arrays; of the read buffer the row groups and tables, the plain dictionary and the numeric
  encodings, and the estimates of sizes; the services, the command line, the object store and the write
  buffer, which are input and output; the shell integration, which prints results.
\<close>

end
